(* ===== verification/GoPrelude.thy ===== *)
theory GoPrelude
  imports Main "HOL-Library.AList" "HOL-Library.Multiset"
begin

text \<open>
  What the components share: the result type of fallible Go functions, the
  sequencing of fallible calls over a list, association lists as Go maps
  (the order of the list stands for the unspecified iteration order), and the
  collections of simplification rules the component theories fill.
\<close>

section \<open>Rule collections\<close>

named_theorems go_simps \<open>unfolding rules of the Go standard-library model\<close>
named_theorems store_simps \<open>unfolding rules of the storage operations\<close>
named_theorems bean_simps \<open>projection and update rules of bean states\<close>

section \<open>Fallible computations\<close>

text \<open>A Go function returning \<open>(T, error)\<close> yields \<open>Inl\<close> of its error or \<open>Inr\<close> of its value.\<close>

type_synonym ('e, 'a) result = "'e + 'a"

text \<open>Run-time panics of Go that the modelled code can raise.\<close>

datatype go_panic = IndexOutOfRange | NilDereference | TypeAssertion | PanicMsg string

fun rbind :: "('e, 'a) result \<Rightarrow> ('a \<Rightarrow> ('e, 'b) result) \<Rightarrow> ('e, 'b) result" where
  "rbind (Inl e) f = Inl e"
| "rbind (Inr a) f = f a"

lemma rbind_Inr_iff: "rbind r f = Inr b \<longleftrightarrow> (\<exists>a. r = Inr a \<and> f a = Inr b)"
  by (cases r) auto

lemma rbind_Inl_iff: "rbind r f = Inl e \<longleftrightarrow> r = Inl e \<or> (\<exists>a. r = Inr a \<and> f a = Inl e)"
  by (cases r) auto

lemma rbind_cong [fundef_cong]:
  "r = r' \<Longrightarrow> (\<And>a. r' = Inr a \<Longrightarrow> f a = f' a) \<Longrightarrow> rbind r f = rbind r' f'"
  by (cases r') auto

text \<open>A loop whose body may return an error, which ends the loop.\<close>

fun rfold :: "('s \<Rightarrow> 'a \<Rightarrow> ('e, 's) result) \<Rightarrow> 's \<Rightarrow> 'a list \<Rightarrow> ('e, 's) result" where
  "rfold f s [] = Inr s"
| "rfold f s (x # xs) = rbind (f s x) (\<lambda>s'. rfold f s' xs)"

lemma rfold_append: "rfold f s (xs @ ys) = rbind (rfold f s xs) (\<lambda>s'. rfold f s' ys)"
proof (induction xs arbitrary: s)
  case (Cons x xs)
  then show ?case by (cases "f s x") auto
qed simp

lemma rfold_invariant:
  assumes "rfold f s xs = Inr s'" and "I s"
    and "\<And>s x t. x \<in> set xs \<Longrightarrow> I s \<Longrightarrow> f s x = Inr t \<Longrightarrow> I t"
  shows "I s'"
  using assms
proof (induction xs arbitrary: s)
  case (Cons x xs)
  then obtain t where "f s x = Inr t" and t: "rfold f t xs = Inr s'"
    by (auto simp: rbind_Inr_iff)
  with Cons.prems have "I t" by auto
  with t show ?case using Cons.IH Cons.prems(3) by (meson list.set_intros(2))
qed simp

text \<open>The same for computations that may not have returned yet (\<open>None\<close>).\<close>

fun fbind :: "('e, 'a) result option \<Rightarrow> ('a \<Rightarrow> ('e, 'b) result option) \<Rightarrow> ('e, 'b) result option" where
  "fbind None f = None"
| "fbind (Some (Inl e)) f = Some (Inl e)"
| "fbind (Some (Inr a)) f = f a"

lemma fbind_Inr_iff: "fbind r f = Some (Inr b) \<longleftrightarrow> (\<exists>a. r = Some (Inr a) \<and> f a = Some (Inr b))"
  by (cases "(r, f)" rule: fbind.cases) auto

lemma fbind_None_iff: "fbind r f = None \<longleftrightarrow> r = None \<or> (\<exists>a. r = Some (Inr a) \<and> f a = None)"
  by (cases "(r, f)" rule: fbind.cases) auto

lemma fbind_cong [fundef_cong]:
  "r = r' \<Longrightarrow> (\<And>a. r' = Some (Inr a) \<Longrightarrow> f a = f' a) \<Longrightarrow> fbind r f = fbind r' f'"
  by (cases "(r', f')" rule: fbind.cases) auto

fun ffold :: "('s \<Rightarrow> 'a \<Rightarrow> ('e, 's) result option) \<Rightarrow> 's \<Rightarrow> 'a list \<Rightarrow> ('e, 's) result option" where
  "ffold f s [] = Some (Inr s)"
| "ffold f s (x # xs) = fbind (f s x) (\<lambda>s'. ffold f s' xs)"

text \<open>A loop that appends one result per element.\<close>

lemma ffold_collect:
  "ffold (\<lambda>acc k. fbind (g k) (\<lambda>x. Some (Inr (acc @ [h k x])))) acc ks = Some (Inr r) \<longleftrightarrow>
     (\<exists>xs. list_all2 (\<lambda>k x. g k = Some (Inr x)) ks xs \<and> r = acc @ map2 h ks xs)"
proof (induction ks arbitrary: acc)
  case (Cons k ks)
  have "(\<exists>xs. list_all2 (\<lambda>k x. g k = Some (Inr x)) (k # ks) xs \<and> r = acc @ map2 h (k # ks) xs) \<longleftrightarrow>
      (\<exists>x xs. g k = Some (Inr x) \<and> list_all2 (\<lambda>k x. g k = Some (Inr x)) ks xs \<and>
         r = (acc @ [h k x]) @ map2 h ks xs)"
    unfolding list_all2_Cons1 by fastforce
  then show ?case by (auto simp: fbind_Inr_iff Cons.IH)
qed auto

lemma ffold_mono:
  assumes "\<And>s x r. x \<in> set xs \<Longrightarrow> f s x = Some r \<Longrightarrow> f' s x = Some r"
    and "ffold f s xs = Some r"
  shows "ffold f' s xs = Some r"
  using assms
proof (induction xs arbitrary: s)
  case (Cons x xs)
  then obtain q where q: "f s x = Some q" by (cases "f s x") auto
  with Cons.prems(1) have "f' s x = Some q" by simp
  with Cons q show ?case by (cases q) auto
qed simp

lemma fbind_mono:
  assumes "\<And>q. r = Some q \<Longrightarrow> r' = Some q" and "\<And>a q. r = Some (Inr a) \<Longrightarrow> f a = Some q \<Longrightarrow> f' a = Some q"
    and "fbind r f = Some q"
  shows "fbind r' f' = Some q"
proof (cases r)
  case (Some x)
  with assms show ?thesis by (cases x) auto
qed (use assms in simp)

lemma ffold_collect_returns:
  assumes "\<And>k. k \<in> set ks \<Longrightarrow> g k \<noteq> None"
  shows "ffold (\<lambda>acc k. fbind (g k) (\<lambda>x. Some (Inr (acc @ [h k x])))) acc ks \<noteq> None"
  using assms
proof (induction ks arbitrary: acc)
  case (Cons k ks)
  then obtain q where "g k = Some q" by fastforce
  with Cons show ?case by (cases q) auto
qed simp

definition map_err :: "('e \<Rightarrow> 'd) \<Rightarrow> ('e, 'a) result \<Rightarrow> ('d, 'a) result" where
  "map_err g r = (case r of Inl e \<Rightarrow> Inl (g e) | Inr a \<Rightarrow> Inr a)"

lemma map_err_simps [simp]:
  "map_err g (Inl e) = Inl (g e)" "map_err g (Inr a) = Inr a"
  "map_err g r = Inr x \<longleftrightarrow> r = Inr x"
  by (cases r; simp add: map_err_def)+

text \<open>The same for computations that also change a state, which an error does not undo.\<close>

type_synonym ('s, 'e, 'a) srun = "(('e, 'a) result \<times> 's) option"

fun sbind :: "('s, 'e, 'a) srun \<Rightarrow> ('a \<Rightarrow> 's \<Rightarrow> ('s, 'e, 'b) srun) \<Rightarrow> ('s, 'e, 'b) srun" where
  "sbind None f = None"
| "sbind (Some (Inl e, s)) f = Some (Inl e, s)"
| "sbind (Some (Inr a, s)) f = f a s"

lemma sbind_cong [fundef_cong]:
  "r = r' \<Longrightarrow> (\<And>a s. r' = Some (Inr a, s) \<Longrightarrow> f a s = f' a s) \<Longrightarrow> sbind r f = sbind r' f'"
  by (cases "(r', f')" rule: sbind.cases) auto

lemma sbind_Inr_iff:
  "sbind r f = Some (Inr b, s') \<longleftrightarrow> (\<exists>a s. r = Some (Inr a, s) \<and> f a s = Some (Inr b, s'))"
  by (cases "(r, f)" rule: sbind.cases) auto

lemma sbind_Some_iff:
  "sbind r f = Some q \<longleftrightarrow> (\<exists>e s. r = Some (Inl e, s) \<and> q = (Inl e, s)) \<or>
     (\<exists>a s. r = Some (Inr a, s) \<and> f a s = Some q)"
  by (cases "(r, f)" rule: sbind.cases) auto

lemma sbind_None_iff: "sbind r f = None \<longleftrightarrow> r = None \<or> (\<exists>a s. r = Some (Inr a, s) \<and> f a s = None)"
  by (cases "(r, f)" rule: sbind.cases) auto

definition smap_err :: "('e \<Rightarrow> 'd) \<Rightarrow> ('s, 'e, 'a) srun \<Rightarrow> ('s, 'd, 'a) srun" where
  "smap_err g r = map_option (\<lambda>(r, s). (map_err g r, s)) r"

lemma smap_err_Inr [simp]: "smap_err g r = Some (Inr a, s) \<longleftrightarrow> r = Some (Inr a, s)"
  by (auto simp: smap_err_def)

lemma smap_err_None [simp]: "smap_err g r = None \<longleftrightarrow> r = None"
  by (simp add: smap_err_def)

lemma sbind_smap_Some_iff:
  "sbind (smap_err g run) k = Some q \<longleftrightarrow> (\<exists>e s. run = Some (Inl e, s) \<and> q = (Inl (g e), s)) \<or>
     (\<exists>a s. run = Some (Inr a, s) \<and> k a s = Some q)"
proof (cases run)
  case (Some rs)
  then show ?thesis by (cases rs; cases "fst rs") (auto simp: smap_err_def)
qed (simp add: smap_err_def)

lemma sbind_smap_Inr_iff:
  "sbind (smap_err g run) k = Some (Inr b, s') \<longleftrightarrow> (\<exists>a s. run = Some (Inr a, s) \<and> k a s = Some (Inr b, s'))"
  by (auto simp: sbind_smap_Some_iff)

section \<open>Go maps as association lists\<close>

text \<open>
  A Go map is an association list, read through \<open>map_of\<close>. A \<open>range\<close> loop visits each key
  once, in the order of \<open>gorange\<close>; any order is the order of some list with the same
  \<open>map_of\<close>, so a result stated over \<open>map_of\<close> holds for every visiting order.
\<close>

type_synonym ('k, 'v) gomap = "('k \<times> 'v) list"

abbreviation gokeys :: "('k, 'v) gomap \<Rightarrow> 'k list" where
  "gokeys m \<equiv> map fst m"

definition gomap_wf :: "('k, 'v) gomap \<Rightarrow> bool" where
  "gomap_wf m \<longleftrightarrow> distinct (gokeys m)"

definition gorange :: "('k, 'v) gomap \<Rightarrow> ('k \<times> 'v) list" where
  "gorange m = AList.clearjunk m"

lemma gomap_wf_gorange [simp]: "gomap_wf (gorange m)"
  by (simp add: gomap_wf_def gorange_def distinct_clearjunk)

lemma map_of_gorange [simp]: "map_of (gorange m) = map_of m"
  by (simp add: gorange_def map_of_clearjunk)

lemma gokeys_gorange [simp]: "fst ` set (gorange m) = fst ` set m"
  by (simp add: gorange_def dom_clearjunk)

lemma gorange_id: "gomap_wf m \<Longrightarrow> gorange m = m"
  by (simp add: gorange_def gomap_wf_def distinct_clearjunk_id)

lemma gomap_wf_Nil [simp]: "gomap_wf []"
  by (simp add: gomap_wf_def)

lemma gomap_wf_update [simp]: "gomap_wf m \<Longrightarrow> gomap_wf (AList.update k v m)"
  by (simp add: gomap_wf_def distinct_update)

lemma gomap_wf_delete [simp]: "gomap_wf m \<Longrightarrow> gomap_wf (AList.delete k m)"
  by (simp add: gomap_wf_def distinct_delete)

lemma map_of_update [simp]: "map_of (AList.update k v m) = (map_of m)(k \<mapsto> v)"
  by (simp add: update_conv')

lemma map_of_in_set: "gomap_wf m \<Longrightarrow> (map_of m k = Some v) = ((k, v) \<in> set m)"
  by (simp add: gomap_wf_def)

lemma map_of_ex_iff: "(\<exists>v. map_of m k = Some v) \<longleftrightarrow> k \<in> fst ` set m"
  by (metis map_of_eq_None_iff not_None_eq)

text \<open>Writing every pair of one map into another, as a \<open>for k, v := range src\<close> loop does.\<close>

definition put_all :: "('k, 'v) gomap \<Rightarrow> ('k, 'v) gomap \<Rightarrow> ('k, 'v) gomap" where
  "put_all src dst = fold (\<lambda>(k, v). AList.update k v) src dst"

lemma put_all_Nil [simp]: "put_all [] dst = dst"
  by (simp add: put_all_def)

lemma put_all_Cons [simp]: "put_all ((k, v) # src) dst = put_all src (AList.update k v dst)"
  by (simp add: put_all_def)

lemma gomap_wf_put_all [simp]: "gomap_wf dst \<Longrightarrow> gomap_wf (put_all src dst)"
  by (induction src arbitrary: dst) auto

lemma map_of_put_all: "map_of (put_all src dst) k =
    (case map_of (rev src) k of None \<Rightarrow> map_of dst k | Some v \<Rightarrow> Some v)"
proof (induction src arbitrary: dst)
  case (Cons p src)
  obtain a b where "p = (a, b)" by (cases p)
  with Cons.IH [of "AList.update a b dst"] show ?case
    by (auto simp: map_add_def split: option.splits)
qed simp

lemma map_of_rev_wf: "gomap_wf m \<Longrightarrow> map_of (rev m) = map_of m"
  by (simp add: gomap_wf_def map_of_inject_set rev_map [symmetric])

lemma map_of_put_all_wf: "gomap_wf src \<Longrightarrow> map_of (put_all src dst) = map_of dst ++ map_of src"
  by (rule ext) (simp add: map_of_put_all map_of_rev_wf map_add_def split: option.splits)

lemma dom_put_all: "dom (map_of (put_all src dst)) = dom (map_of dst) \<union> fst ` set src"
proof (induction src arbitrary: dst)
  case (Cons p src)
  then show ?case by (cases p) (auto split: if_splits)
qed simp

section \<open>Lists\<close>

lemma list_ex_filter: "list_ex P xs \<longleftrightarrow> filter P xs \<noteq> []"
  by (induction xs) auto

lemma keys_filter: "fst ` set (filter (\<lambda>kv. P (fst kv)) xs) = {k \<in> fst ` set xs. P k}"
  by auto

lemma set_removeAll_subset: "set (removeAll x xs) \<subseteq> set xs"
  by auto

text \<open>A loop that returns the first result its body finds.\<close>

fun first_some :: "('a \<Rightarrow> 'b option) \<Rightarrow> 'a list \<Rightarrow> 'b option" where
  "first_some f [] = None"
| "first_some f (x # xs) = (case f x of Some y \<Rightarrow> Some y | None \<Rightarrow> first_some f xs)"

lemma first_some_append:
  "first_some f (xs @ ys) = (case first_some f xs of Some y \<Rightarrow> Some y | None \<Rightarrow> first_some f ys)"
  by (induction xs) (auto split: option.splits)

lemma first_some_concat: "first_some (first_some f) xss = first_some f (concat xss)"
  by (induction xss) (auto simp: first_some_append split: option.splits)

lemma first_some_None_iff: "first_some f xs = None \<longleftrightarrow> (\<forall>x \<in> set xs. f x = None)"
  by (induction xs) (auto split: option.splits)

lemma first_some_SomeD: "first_some f xs = Some y \<Longrightarrow> \<exists>x \<in> set xs. f x = Some y"
  by (induction xs) (auto split: option.splits)

end
