(* ===== verification/GoStrings.thy ===== *)
theory GoStrings
  imports GoPrelude "HOL-Library.Char_ord" "HOL-Library.Sublist"
begin

text \<open>
  The functions of Go's \<open>strings\<close>, \<open>strconv\<close> and \<open>fmt\<close> packages the modelled code
  calls. A Go string is a list of bytes, which is what HOL's \<open>string\<close> is.
  White space and letter case are those of ASCII: for the Unicode spaces and letters
  beyond it \<open>TrimSpace\<close> and \<open>ToLower\<close> of the library do more.
\<close>

section \<open>Prefixes and suffixes\<close>

text \<open>\<open>strings.CutPrefix\<close>: \<open>None\<close> when the prefix is not there.\<close>

fun cut_prefix :: "string \<Rightarrow> string \<Rightarrow> string option" where
  "cut_prefix s [] = Some s"
| "cut_prefix [] (p # ps) = None"
| "cut_prefix (c # s) (p # ps) = (if c = p then cut_prefix s ps else None)"

lemma cut_prefix_Some_iff: "cut_prefix s p = Some r \<longleftrightarrow> s = p @ r"
  by (induction s p rule: cut_prefix.induct) auto

lemma cut_prefix_append [simp]: "cut_prefix (p @ r) p = Some r"
  by (simp add: cut_prefix_Some_iff)

lemma cut_prefix_None_iff: "cut_prefix s p = None \<longleftrightarrow> \<not> prefix p s"
  by (metis cut_prefix_Some_iff not_None_eq option.distinct(1) prefixE prefixI)

lemma cut_prefix_same_append [simp]: "cut_prefix (a @ s) (a @ p) = cut_prefix s p"
  by (induction a) auto

definition has_prefix :: "string \<Rightarrow> string \<Rightarrow> bool" where
  "has_prefix s p \<longleftrightarrow> cut_prefix s p \<noteq> None"

definition has_suffix :: "string \<Rightarrow> string \<Rightarrow> bool" where
  "has_suffix s p \<longleftrightarrow> has_prefix (rev s) (rev p)"

lemma has_prefix_iff: "has_prefix s p \<longleftrightarrow> prefix p s"
  by (simp add: has_prefix_def cut_prefix_None_iff)

lemma has_suffix_iff: "has_suffix s p \<longleftrightarrow> suffix p s"
  by (simp add: has_suffix_def has_prefix_iff suffix_to_prefix)

section \<open>Searching and splitting\<close>

text \<open>\<open>strings.IndexByte\<close> and \<open>strings.IndexAny\<close>: the first byte of a set, \<open>None\<close> for -1.\<close>

fun index_where :: "(char \<Rightarrow> bool) \<Rightarrow> string \<Rightarrow> nat option" where
  "index_where P [] = None"
| "index_where P (c # s) = (if P c then Some 0 else map_option Suc (index_where P s))"

lemma index_where_None_iff: "index_where P s = None \<longleftrightarrow> (\<forall>c \<in> set s. \<not> P c)"
  by (induction s) auto

lemma index_where_Some_iff:
  "index_where P s = Some i \<longleftrightarrow> i < length s \<and> P (s ! i) \<and> (\<forall>c \<in> set (take i s). \<not> P c)"
proof (induction s arbitrary: i)
  case (Cons c s)
  then show ?case by (cases i) (auto simp: less_Suc_eq_0_disj)
qed simp

lemma index_where_append:
  "(\<forall>c \<in> set a. \<not> P c) \<Longrightarrow> P x \<Longrightarrow> index_where P (a @ x # b) = Some (length a)"
  by (induction a) auto

lemma index_where_app:
  "index_where P (a @ b) = (case index_where P a of Some i \<Rightarrow> Some i
     | None \<Rightarrow> map_option ((+) (length a)) (index_where P b))"
  by (induction a; cases "index_where P b"; auto split: option.splits)

lemma index_where_less: "index_where P s = Some i \<Longrightarrow> i < length s"
  by (simp add: index_where_Some_iff)

text \<open>\<open>strings.Cut\<close> at a one-byte separator: \<open>None\<close> when it does not occur.\<close>

fun cut_char :: "string \<Rightarrow> char \<Rightarrow> (string \<times> string) option" where
  "cut_char [] x = None"
| "cut_char (c # s) x =
     (if c = x then Some ([], s) else map_option (\<lambda>(a, b). (c # a, b)) (cut_char s x))"

lemma cut_char_Some_iff: "cut_char s x = Some (a, b) \<longleftrightarrow> s = a @ x # b \<and> x \<notin> set a"
proof (induction s arbitrary: a b)
  case (Cons c s)
  then show ?case by (cases a) auto
qed simp

lemma cut_char_None_iff: "cut_char s x = None \<longleftrightarrow> x \<notin> set s"
  by (induction s) auto

text \<open>\<open>strings.Split\<close> at a one-byte separator: one more piece than separators.\<close>

fun split_char :: "string \<Rightarrow> char \<Rightarrow> string list" where
  "split_char [] x = [[]]"
| "split_char (c # s) x =
     (if c = x then [] # split_char s x
      else (case split_char s x of [] \<Rightarrow> [[c]] | w # ws \<Rightarrow> (c # w) # ws))"

lemma split_char_not_Nil [simp]: "split_char s x \<noteq> []"
  by (induction s) (auto split: list.splits)

lemma split_char_no_sep: "x \<notin> set s \<Longrightarrow> split_char s x = [s]"
  by (induction s) auto

lemma length_split_char: "length (split_char s x) = Suc (count_list s x)"
  by (induction s) (auto split: list.splits)

lemma split_char_pieces: "w \<in> set (split_char s x) \<Longrightarrow> x \<notin> set w"
  by (induction s arbitrary: w) (fastforce split: if_splits list.splits)+

text \<open>\<open>strings.SplitN(s, sep, 2)\<close>: the text before the first separator and the rest, if any.\<close>

fun split2 :: "string \<Rightarrow> string \<Rightarrow> string \<times> string option" where
  "split2 [] sep = ([], None)"
| "split2 (c # s) sep =
     (case cut_prefix (c # s) sep of
        Some r \<Rightarrow> ([], Some r)
      | None \<Rightarrow> (case split2 s sep of (a, b) \<Rightarrow> (c # a, b)))"

lemma split2_None: "split2 s sep = (a, None) \<Longrightarrow> a = s"
  by (induction s arbitrary: a) (auto split: option.splits prod.splits)

lemma split2_Some: "split2 s sep = (a, Some b) \<Longrightarrow> s = a @ sep @ b"
  by (induction s arbitrary: a) (auto simp: cut_prefix_Some_iff split: option.splits prod.splits)

lemma split2_length: "split2 s sep = (a, Some b) \<Longrightarrow> sep \<noteq> [] \<Longrightarrow> length b < length s"
  by (drule split2_Some) (cases sep; simp)

lemma split2_absent: "\<not> sublist sep s \<Longrightarrow> split2 s sep = (s, None)"
proof (induction s)
  case (Cons c s)
  then have "\<not> sublist sep s" by (meson sublist_Cons_right)
  moreover have "cut_prefix (c # s) sep = None"
    using Cons.prems by (metis cut_prefix_None_iff prefix_imp_sublist)
  ultimately show ?case using Cons.IH by simp
qed simp

lemma split2_fst_absent: "split2 s sep = (a, b) \<Longrightarrow> sep \<noteq> [] \<Longrightarrow> \<not> sublist sep a"
proof (induction s arbitrary: a b)
  case (Cons c s)
  show ?case
  proof (cases "cut_prefix (c # s) sep")
    case None
    with Cons.prems obtain a' where a: "a = c # a'" and a': "split2 s sep = (a', b)"
      by (auto split: prod.splits)
    have "\<not> prefix sep a"
    proof
      assume "prefix sep a"
      moreover have "prefix a (c # s)"
        using a a' split2_None [of s sep a'] split2_Some [of s sep a'] by (cases b) auto
      ultimately show False using None by (meson cut_prefix_None_iff prefix_order.trans)
    qed
    with Cons.IH [OF a' Cons.prems(2)] a show ?thesis by (simp add: sublist_Cons_right)
  qed (use Cons.prems in auto)
qed auto

lemma split2_first:
  "\<not> sublist '':='' k \<Longrightarrow> split2 (k @ CHR '':'' # CHR ''='' # d) '':='' = (k, Some d)"
proof (induction k)
  case (Cons c k)
  then have "\<not> sublist '':='' k" by (meson sublist_Cons_right)
  moreover have "cut_prefix ((c # k) @ CHR '':'' # CHR ''='' # d) '':='' = None"
    using Cons.prems by (cases k) (auto simp: sublist_Cons_right)
  ultimately show ?case using Cons.IH by simp
qed simp

section \<open>Trimming, case, replacement\<close>

text \<open>The ASCII members of \<open>unicode.IsSpace\<close>.\<close>

definition is_space :: "char \<Rightarrow> bool" where
  "is_space c \<longleftrightarrow> c = CHR '' '' \<or> c = CHR 0x09 \<or> c = CHR 0x0A \<or> c = CHR 0x0B \<or> c = CHR 0x0C \<or> c = CHR 0x0D"

definition trim_right_where :: "(char \<Rightarrow> bool) \<Rightarrow> string \<Rightarrow> string" where
  "trim_right_where P s = rev (dropWhile P (rev s))"

definition trim_space :: "string \<Rightarrow> string" where
  "trim_space s = trim_right_where is_space (dropWhile is_space s)"

lemma trim_right_where_Nil [simp]: "trim_right_where P [] = []"
  by (simp add: trim_right_where_def)

lemma trim_right_where_snoc_keep: "\<not> P x \<Longrightarrow> trim_right_where P (s @ [x]) = s @ [x]"
  by (simp add: trim_right_where_def)

lemma trim_right_where_id: "s = [] \<or> \<not> P (last s) \<Longrightarrow> trim_right_where P s = s"
  by (cases s rule: rev_cases) (auto simp: trim_right_where_def)

lemma trim_right_where_last: "trim_right_where P s \<noteq> [] \<Longrightarrow> \<not> P (last (trim_right_where P s))"
  by (simp add: trim_right_where_def last_rev hd_dropWhile)

lemma trim_right_where_set: "set (trim_right_where P s) \<subseteq> set s"
  using set_dropWhileD by (fastforce simp: trim_right_where_def)

lemma length_trim_right_where: "length (trim_right_where P s) \<le> length s"
  using length_dropWhile_le [of P "rev s"] by (simp add: trim_right_where_def)

lemma trim_space_id:
  "s = [] \<or> (\<not> is_space (hd s) \<and> \<not> is_space (last s)) \<Longrightarrow> trim_space s = s"
  by (cases s) (auto simp: trim_space_def intro: trim_right_where_id)

lemma length_trim_space: "length (trim_space s) \<le> length s"
  unfolding trim_space_def
  using length_trim_right_where length_dropWhile_le order_trans by blast

lemma trim_space_set: "set (trim_space s) \<subseteq> set s"
  unfolding trim_space_def using trim_right_where_set set_dropWhileD by fastforce

lemma trim_right_where_prefix: "prefix (trim_right_where P s) s"
proof -
  have "s = trim_right_where P s @ rev (takeWhile P (rev s))"
    unfolding trim_right_where_def by (metis rev_append rev_rev_ident takeWhile_dropWhile_id)
  then show ?thesis by (metis prefixI)
qed

lemma trim_space_sublist: "sublist (trim_space s) s"
proof -
  have "suffix (dropWhile is_space s) s" by (rule suffix_dropWhile)
  then show ?thesis unfolding trim_space_def
    by (meson prefix_imp_sublist sublist_order.order_trans suffix_imp_sublist trim_right_where_prefix)
qed

lemma trim_space_ends:
  "trim_space s \<noteq> [] \<Longrightarrow> \<not> is_space (hd (trim_space s)) \<and> \<not> is_space (last (trim_space s))"
proof -
  assume ne: "trim_space s \<noteq> []"
  let ?y = "dropWhile is_space s"
  obtain z where z: "?y = trim_space s @ z"
    unfolding trim_space_def using trim_right_where_prefix by (metis prefixE)
  with ne have "hd (trim_space s) = hd ?y" and "?y \<noteq> []" by (simp_all add: hd_append)
  then have "\<not> is_space (hd (trim_space s))" using hd_dropWhile by metis
  moreover have "\<not> is_space (last (trim_space s))"
    using ne unfolding trim_space_def by (rule trim_right_where_last)
  ultimately show ?thesis by simp
qed

lemma trim_space_idem [simp]: "trim_space (trim_space s) = trim_space s"
  using trim_space_ends [of s] by (intro trim_space_id) blast

text \<open>\<open>strings.ToLower\<close> on ASCII letters.\<close>

definition lower_char :: "char \<Rightarrow> char" where
  "lower_char c = (let n = of_char c :: nat in if 65 \<le> n \<and> n \<le> 90 then char_of (n + 32) else c)"

definition to_lower :: "string \<Rightarrow> string" where
  "to_lower s = map lower_char s"

text \<open>\<open>strings.ReplaceAll\<close> of one byte by another.\<close>

definition replace_char :: "char \<Rightarrow> char \<Rightarrow> string \<Rightarrow> string" where
  "replace_char x y s = map (\<lambda>c. if c = x then y else c) s"

section \<open>Numbers as text\<close>

definition is_digit :: "char \<Rightarrow> bool" where
  "is_digit c \<longleftrightarrow> (let n = of_char c :: nat in 48 \<le> n \<and> n \<le> 57)"

definition digit_val :: "char \<Rightarrow> nat" where
  "digit_val c = of_char c - 48"

definition digits_val :: "string \<Rightarrow> nat" where
  "digits_val s = foldl (\<lambda>n c. 10 * n + digit_val c) 0 s"

definition digit_char :: "nat \<Rightarrow> char" where
  "digit_char d = char_of (48 + d)"

text \<open>\<open>strconv.FormatUint(n, 10)\<close>, the \<open>%d\<close> of \<open>fmt\<close> on naturals.\<close>

fun show_nat :: "nat \<Rightarrow> string" where
  "show_nat n = (if n < 10 then [digit_char n] else show_nat (n div 10) @ [digit_char (n mod 10)])"

declare show_nat.simps [simp del]

definition show_int :: "int \<Rightarrow> string" where
  "show_int i = (if i < 0 then CHR ''-'' # show_nat (nat (- i)) else show_nat (nat i))"

text \<open>
  \<open>strconv.ParseUint(s, 10, 64)\<close>: digits only (base 10 admits neither sign nor
  underscore), at least one, and a value below \<open>2^64\<close>.
\<close>

definition parse_uint64 :: "string \<Rightarrow> nat option" where
  "parse_uint64 s = (if s \<noteq> [] \<and> list_all is_digit s \<and> digits_val s < 2 ^ 64
                     then Some (digits_val s) else None)"

text \<open>\<open>strconv.Atoi\<close> on a 64-bit platform: an optional sign, digits, the range of \<open>int64\<close>.\<close>

definition atoi :: "string \<Rightarrow> int option" where
  "atoi s =
     (let (neg, ds) = (case s of [] \<Rightarrow> (False, [])
                       | c # r \<Rightarrow> if c = CHR ''-'' then (True, r)
                                 else if c = CHR ''+'' then (False, r) else (False, s))
      in if ds = [] \<or> \<not> list_all is_digit ds then None
         else let v = (if neg then - int (digits_val ds) else int (digits_val ds))
              in if - (2 ^ 63) \<le> v \<and> v < 2 ^ 63 then Some v else None)"

lemma of_char_digit_char [simp]: "d < 10 \<Longrightarrow> of_char (digit_char d) = 48 + d"
  by (simp add: digit_char_def)

lemma is_digit_digit_char [simp]: "d < 10 \<Longrightarrow> is_digit (digit_char d)"
  by (simp add: is_digit_def)

lemma digit_val_digit_char [simp]: "d < 10 \<Longrightarrow> digit_val (digit_char d) = d"
  by (simp add: digit_val_def)

lemma show_nat_not_Nil [simp]: "show_nat n \<noteq> []"
  by (subst show_nat.simps) simp

lemma show_nat_digits: "list_all is_digit (show_nat n)"
proof (induction n rule: show_nat.induct)
  case (1 n)
  then show ?case by (subst show_nat.simps) auto
qed

lemma digits_val_snoc: "digits_val (s @ [c]) = 10 * digits_val s + digit_val c"
  by (simp add: digits_val_def)

lemma digits_val_show_nat [simp]: "digits_val (show_nat n) = n"
proof (induction n rule: show_nat.induct)
  case (1 n)
  show ?case
  proof (cases "n < 10")
    case True
    then show ?thesis by (subst show_nat.simps) (simp add: digits_val_def)
  next
    case False
    with 1 have "digits_val (show_nat (n div 10)) = n div 10" by simp
    with False show ?thesis by (subst show_nat.simps) (simp add: digits_val_snoc)
  qed
qed

lemma show_nat_inject [simp]: "show_nat m = show_nat n \<longleftrightarrow> m = n"
  by (metis digits_val_show_nat)

lemma parse_uint64_show_nat: "n < 2 ^ 64 \<Longrightarrow> parse_uint64 (show_nat n) = Some n"
  by (simp add: parse_uint64_def show_nat_digits)

lemma digit_not_special:
  "is_digit c \<Longrightarrow> c \<noteq> CHR '' '' \<and> c \<noteq> CHR ''.'' \<and> c \<noteq> CHR ''['' \<and> c \<noteq> CHR '']''
     \<and> c \<noteq> CHR ''-'' \<and> c \<noteq> CHR ''+''"
  by (auto simp: is_digit_def)

lemma digit_not_space: "is_digit c \<Longrightarrow> \<not> is_space c"
  by (auto simp: is_digit_def is_space_def)

lemma atoi_show_nat: "n < 2 ^ 63 \<Longrightarrow> atoi (show_nat n) = Some (int n)"
proof -
  assume n: "n < 2 ^ 63"
  obtain c r where cr: "show_nat n = c # r" by (cases "show_nat n") auto
  with show_nat_digits [of n] have "is_digit c" by simp
  then have c: "c \<noteq> CHR ''-''" "c \<noteq> CHR ''+''" using digit_not_special by auto
  from n have "int n < 2 ^ 63" by (metis of_nat_less_numeral_power_cancel_iff)
  with c cr show_nat_digits [of n] digits_val_show_nat [of n] show ?thesis
    by (simp add: atoi_def)
qed

end
