(* ===== verification/GsCond.thy ===== *)
theory GsCond
  imports GoStrings
begin

text \<open>
  \<open>spring/gs/internal/gs_cond/cond.go\<close> with \<open>BeanID\<close> of \<open>gs/gs.go\<close>: the conditions that
  decide whether a bean is registered, evaluated against a context. \<open>Has\<close> and \<open>Prop\<close> read
  the configuration; \<open>Find\<close> may resolve further beans, so it threads a state and may still
  be running (\<open>None\<close>). A user function is a program that asks the context questions. The
  expression engine behind \<open>EvalExpr\<close> is a field of the context.
\<close>

section \<open>Bean identifiers\<close>

text \<open>A \<open>reflect.Type\<close> is its unique name; \<open>None\<close> is the nil type.\<close>

type_synonym rtype = string

record bean_id =
  bid_type :: "rtype option"
  bid_name :: string

definition any_type :: rtype where
  "any_type = ''interface {}''"

definition bean_id_for :: "rtype \<Rightarrow> string list \<Rightarrow> bean_id" where
  "bean_id_for t name =
     (case name of
        [] \<Rightarrow> \<lparr>bid_type = Some t, bid_name = []\<rparr>
      | n # _ \<Rightarrow> \<lparr>bid_type = Some t, bid_name = n\<rparr>)"

definition bean_id_string :: "bean_id \<Rightarrow> string" where
  "bean_id_string b =
     (let s = ''{'' @ (case bid_type b of
                         None \<Rightarrow> []
                       | Some t \<Rightarrow> ''Type:'' @ (if t = any_type then ''any'' else t))
      in s @ (if bid_name b \<noteq> [] then (if length s > 1 then '','' else []) @ ''Name:'' @ bid_name b else [])
           @ ''}'')"

section \<open>Conditions\<close>

text \<open>What a user function does with the context: ask, then return a result or an error text.\<close>

datatype cond_prog =
    Ret "string + bool"
  | AskHas string "bool \<Rightarrow> cond_prog"
  | AskProp string "string option \<Rightarrow> cond_prog"
  | AskFind bean_id "bean_id list option \<Rightarrow> cond_prog"

datatype cond =
    OnFunc string cond_prog
  | OnProperty string bool "string option"
  | OnBean bean_id
  | OnMissingBean bean_id
  | OnSingleBean bean_id
  | OnExpression string
  | CNot cond
  | COr "cond list"
  | CAnd "cond list"
  | CNone "cond list"

definition on_property :: "string \<Rightarrow> cond" where
  "on_property name = OnProperty name False None"

fun match_if_missing :: "cond \<Rightarrow> cond" where
  "match_if_missing (OnProperty name _ v) = OnProperty name True v"
| "match_if_missing c = c"

fun having_value :: "string \<Rightarrow> cond \<Rightarrow> cond" where
  "having_value s (OnProperty name m _) = OnProperty name m (Some s)"
| "having_value s c = c"

text \<open>The combinators check their arguments for nil and panic.\<close>

definition check_conditions :: "cond option list \<Rightarrow> (go_panic, cond list) result" where
  "check_conditions cs =
     (if list_ex Option.is_none cs then Inl (PanicMsg ''conditions cannot contain nil'') else Inr (map the cs))"

definition mk_not :: "cond option \<Rightarrow> (go_panic, cond) result" where
  "mk_not c = (case c of None \<Rightarrow> Inl (PanicMsg ''c cannot be nil'') | Some c \<Rightarrow> Inr (CNot c))"

definition mk_or :: "cond option list \<Rightarrow> (go_panic, cond) result" where
  "mk_or cs = rbind (check_conditions cs) (\<lambda>cs. Inr (COr cs))"

definition mk_and :: "cond option list \<Rightarrow> (go_panic, cond) result" where
  "mk_and cs = rbind (check_conditions cs) (\<lambda>cs. Inr (CAnd cs))"

definition mk_none :: "cond option list \<Rightarrow> (go_panic, cond) result" where
  "mk_none cs = rbind (check_conditions cs) (\<lambda>cs. Inr (CNone cs))"

fun join_comma :: "string list \<Rightarrow> string" where
  "join_comma [] = []"
| "join_comma [s] = s"
| "join_comma (s # t # ss) = s @ '','' @ join_comma (t # ss)"

definition format_group :: "string \<Rightarrow> string list \<Rightarrow> string" where
  "format_group op cs = op @ ''('' @ join_comma cs @ '')''"

fun cond_string :: "cond \<Rightarrow> string" where
  "cond_string (OnFunc name _) = ''OnFunc(fn='' @ name @ '')''"
| "cond_string (OnProperty name missing v) =
     ''OnProperty(name='' @ name
       @ (case v of None \<Rightarrow> [] | Some s \<Rightarrow> '',havingValue='' @ s)
       @ (if missing then '',matchIfMissing'' else []) @ '')''"
| "cond_string (OnBean b) = ''OnBean(selector='' @ bean_id_string b @ '')''"
| "cond_string (OnMissingBean b) = ''OnMissingBean(selector='' @ bean_id_string b @ '')''"
| "cond_string (OnSingleBean b) = ''OnSingleBean(selector='' @ bean_id_string b @ '')''"
| "cond_string (OnExpression e) = ''OnExpression(expression='' @ e @ '')''"
| "cond_string (CNot c) = ''Not('' @ cond_string c @ '')''"
| "cond_string (COr cs) = format_group ''Or'' (map cond_string cs)"
| "cond_string (CAnd cs) = format_group ''And'' (map cond_string cs)"
| "cond_string (CNone cs) = format_group ''None'' (map cond_string cs)"

section \<open>Evaluation\<close>

datatype cond_error =
    MatchErr string cond_error
  | NotLeafNode string
  | ExprError string
  | FuncError string
  | Unimplemented
  | FindFailed bean_id cond_error
  | BeanCondFailed string cond_error
  | BeanResolveFailed string cond_error

type_synonym ('s, 'a) cond_run = "((cond_error, 'a) result \<times> 's) option"

record 's cond_ctx =
  cx_has :: "string \<Rightarrow> bool"
  cx_prop :: "string \<Rightarrow> string option"
  cx_find :: "bean_id \<Rightarrow> 's \<Rightarrow> ('s, bean_id list) cond_run"
  cx_eval_expr :: "string \<Rightarrow> string \<Rightarrow> (string, bool) result"

definition match_err :: "cond \<Rightarrow> ('s, 'a) cond_run \<Rightarrow> ('s, 'a) cond_run" where
  "match_err c run = map_option (\<lambda>(r, s). (map_err (MatchErr (cond_string c)) r, s)) run"

text \<open>A user function sees an error of \<open>Find\<close> as \<open>None\<close> and may carry on.\<close>

primrec run_prog :: "'s cond_ctx \<Rightarrow> cond_prog \<Rightarrow> 's \<Rightarrow> ('s, bool) cond_run" where
  "run_prog ctx (Ret r) s = Some (map_err FuncError r, s)"
| "run_prog ctx (AskHas key k) s = run_prog ctx (k (cx_has ctx key)) s"
| "run_prog ctx (AskProp key k) s = run_prog ctx (k (cx_prop ctx key)) s"
| "run_prog ctx (AskFind b k) s =
     Option.bind (cx_find ctx b s)
       (\<lambda>(r, s). run_prog ctx (k (case r of Inl _ \<Rightarrow> None | Inr beans \<Rightarrow> Some beans)) s)"

definition match_property ::
  "'s cond_ctx \<Rightarrow> string \<Rightarrow> bool \<Rightarrow> string option \<Rightarrow> (cond_error, bool) result" where
  "match_property ctx name missing having =
     (case having of
        None \<Rightarrow> if cx_has ctx name then Inr True else Inr missing
      | Some hv \<Rightarrow>
          (case cx_prop ctx name of
             None \<Rightarrow> if cx_has ctx name then Inl (NotLeafNode name) else Inr missing
           | Some val \<Rightarrow>
               if \<not> has_prefix hv ''expr:'' then Inr (val = hv)
               else map_err ExprError (cx_eval_expr ctx (drop 5 hv) val)))"

definition match_found ::
  "'s cond_ctx \<Rightarrow> bean_id \<Rightarrow> (nat \<Rightarrow> bool) \<Rightarrow> 's \<Rightarrow> ('s, bool) cond_run" where
  "match_found ctx b test s =
     map_option (\<lambda>(r, s). (rbind r (\<lambda>beans. Inr (test (length beans))), s)) (cx_find ctx b s)"

text \<open>Evaluation up to the first member whose result is \<open>stop\<close>; \<open>found\<close> is then the result.\<close>

fun match_list ::
  "('s \<Rightarrow> ('s, bool) cond_run) list \<Rightarrow> bool \<Rightarrow> bool \<Rightarrow> 's \<Rightarrow> ('s, bool) cond_run" where
  "match_list [] stop found s = Some (Inr (\<not> found), s)"
| "match_list (m # ms) stop found s =
     Option.bind (m s)
       (\<lambda>(r, s). case r of
          Inl e \<Rightarrow> Some (Inl e, s)
        | Inr ok \<Rightarrow> if ok = stop then Some (Inr found, s) else match_list ms stop found s)"

fun matches :: "'s cond_ctx \<Rightarrow> cond \<Rightarrow> 's \<Rightarrow> ('s, bool) cond_run" where
  "matches ctx (OnFunc name prog) s = match_err (OnFunc name prog) (run_prog ctx prog s)"
| "matches ctx (OnProperty name missing v) s =
     match_err (OnProperty name missing v) (Some (match_property ctx name missing v, s))"
| "matches ctx (OnBean b) s = match_err (OnBean b) (match_found ctx b (\<lambda>n. n > 0) s)"
| "matches ctx (OnMissingBean b) s = match_err (OnMissingBean b) (match_found ctx b (\<lambda>n. n = 0) s)"
| "matches ctx (OnSingleBean b) s = match_err (OnSingleBean b) (match_found ctx b (\<lambda>n. n = 1) s)"
| "matches ctx (OnExpression e) s = match_err (OnExpression e) (Some (Inl Unimplemented, s))"
| "matches ctx (CNot c) s =
     match_err (CNot c) (map_option (\<lambda>(r, s). (rbind r (\<lambda>ok. Inr (\<not> ok)), s)) (matches ctx c s))"
| "matches ctx (COr cs) s = match_err (COr cs) (match_list (map (matches ctx) cs) True True s)"
| "matches ctx (CAnd cs) s = match_err (CAnd cs) (match_list (map (matches ctx) cs) False False s)"
| "matches ctx (CNone cs) s = match_err (CNone cs) (match_list (map (matches ctx) cs) True False s)"

section \<open>The identifiers a condition may ask for\<close>

primrec prog_asks :: "cond_prog \<Rightarrow> bean_id set" where
  "prog_asks (Ret r) = {}"
| "prog_asks (AskHas key k) = (\<Union>b. prog_asks (k b))"
| "prog_asks (AskProp key k) = (\<Union>v. prog_asks (k v))"
| "prog_asks (AskFind b k) = insert b (\<Union>r. prog_asks (k r))"

fun cond_asks :: "cond \<Rightarrow> bean_id set" where
  "cond_asks (OnFunc _ prog) = prog_asks prog"
| "cond_asks (OnProperty _ _ _) = {}"
| "cond_asks (OnBean b) = {b}"
| "cond_asks (OnMissingBean b) = {b}"
| "cond_asks (OnSingleBean b) = {b}"
| "cond_asks (OnExpression _) = {}"
| "cond_asks (CNot c) = cond_asks c"
| "cond_asks (COr cs) = (\<Union>c \<in> set cs. cond_asks c)"
| "cond_asks (CAnd cs) = (\<Union>c \<in> set cs. cond_asks c)"
| "cond_asks (CNone cs) = (\<Union>c \<in> set cs. cond_asks c)"

lemma match_err_Some:
  "match_err c run = Some (r, s) \<longleftrightarrow> (\<exists>q. run = Some (q, s) \<and> r = map_err (MatchErr (cond_string c)) q)"
  by (auto simp: match_err_def)

lemma match_err_None [simp]: "match_err c run = None \<longleftrightarrow> run = None"
  by (simp add: match_err_def)

section \<open>The interface to the container\<close>

text \<open>
  What conditions rely on: \<open>Find\<close> moves the state forward in a preorder. Evaluating a
  condition then moves it forward too.
\<close>

locale cond_context =
  fixes ctx :: "'s cond_ctx" and le :: "'s \<Rightarrow> 's \<Rightarrow> bool"
  assumes le_refl: "le s s"
    and le_trans: "le s t \<Longrightarrow> le t u \<Longrightarrow> le s u"
    and find_le: "cx_find ctx b s = Some (r, s') \<Longrightarrow> le s s'"
begin

lemma run_prog_le: "run_prog ctx prog s = Some (r, s') \<Longrightarrow> le s s'"
proof (induction prog arbitrary: s)
  case (AskFind b k)
  then obtain q t where q: "cx_find ctx b s = Some (q, t)" by (auto simp: bind_eq_Some_conv)
  with AskFind.prems have "run_prog ctx (k (case q of Inl _ \<Rightarrow> None | Inr beans \<Rightarrow> Some beans)) t = Some (r, s')"
    by simp
  with AskFind.IH have "le t s'" by blast
  with find_le [OF q] show ?case by (rule le_trans)
qed (auto simp: le_refl)

lemma match_found_le: "match_found ctx b test s = Some (r, s') \<Longrightarrow> le s s'"
  by (auto simp: match_found_def dest: find_le)

lemma match_list_le:
  "(\<And>m s r s'. m \<in> set ms \<Longrightarrow> m s = Some (r, s') \<Longrightarrow> le s s') \<Longrightarrow>
     match_list ms stop found s = Some (r, s') \<Longrightarrow> le s s'"
proof (induction ms arbitrary: s)
  case (Cons m ms)
  then obtain q t where q: "m s = Some (q, t)" by (auto simp: bind_eq_Some_conv)
  have st: "le s t" using Cons.prems(1) [of m s q t] q by simp
  show ?case
  proof (cases q)
    case (Inr ok)
    show ?thesis
    proof (cases "ok = stop")
      case False
      with Cons.prems(2) q Inr have "match_list ms stop found t = Some (r, s')" by simp
      then have "le t s'" by (rule Cons.IH [rotated]) (auto intro: Cons.prems(1))
      with st show ?thesis by (rule le_trans)
    qed (use Cons.prems q st Inr in simp)
  qed (use Cons.prems q st in simp)
qed (simp add: le_refl)

lemma matches_le: "matches ctx c s = Some (r, s') \<Longrightarrow> le s s'"
proof (induction c arbitrary: s r s')
  case (COr cs)
  then show ?case by (auto simp: match_err_Some elim!: match_list_le [rotated])
next
  case (CAnd cs)
  then show ?case by (auto simp: match_err_Some elim!: match_list_le [rotated])
next
  case (CNone cs)
  then show ?case by (auto simp: match_err_Some elim!: match_list_le [rotated])
qed (auto simp: match_err_Some le_refl dest: run_prog_le match_found_le)

end

text \<open>A context that answers \<open>Find\<close> whenever it is ready; evaluation then ends.\<close>

locale returning_context = cond_context +
  fixes ready :: "'s \<Rightarrow> bool"
  assumes ready_le: "ready s \<Longrightarrow> le s s' \<Longrightarrow> ready s'"
    and find_returns: "ready s \<Longrightarrow> cx_find ctx b s \<noteq> None"
begin

lemma run_prog_returns: "ready s \<Longrightarrow> run_prog ctx prog s \<noteq> None"
proof (induction prog arbitrary: s)
  case (AskFind b k)
  then obtain q t where q: "cx_find ctx b s = Some (q, t)" using find_returns by fastforce
  with AskFind.prems have "ready t" using find_le ready_le by blast
  with AskFind.IH q show ?case by simp
qed auto

lemma match_list_returns:
  "(\<And>m s. m \<in> set ms \<Longrightarrow> ready s \<Longrightarrow> m s \<noteq> None \<and> (\<forall>r s'. m s = Some (r, s') \<longrightarrow> le s s')) \<Longrightarrow>
     ready s \<Longrightarrow> match_list ms stop found s \<noteq> None"
proof (induction ms arbitrary: s)
  case (Cons m ms)
  then obtain q t where q: "m s = Some (q, t)" by fastforce
  with Cons.prems have "ready t" using ready_le by (metis list.set_intros(1))
  have "match_list ms stop found t \<noteq> None"
    by (rule Cons.IH [OF _ \<open>ready t\<close>]) (rule Cons.prems(1), simp)
  with q show ?case by (cases q) auto
qed simp

lemma matches_returns: "ready s \<Longrightarrow> matches ctx c s \<noteq> None"
proof (induction c arbitrary: s)
  case (OnFunc name prog)
  then show ?case using run_prog_returns by simp
next
  case (COr cs)
  have "match_list (map (matches ctx) cs) True True s \<noteq> None"
    by (rule match_list_returns [OF _ COr.prems]) (use COr.IH matches_le in auto)
  then show ?case by simp
next
  case (CAnd cs)
  have "match_list (map (matches ctx) cs) False False s \<noteq> None"
    by (rule match_list_returns [OF _ CAnd.prems]) (use CAnd.IH matches_le in auto)
  then show ?case by simp
next
  case (CNone cs)
  have "match_list (map (matches ctx) cs) True False s \<noteq> None"
    by (rule match_list_returns [OF _ CNone.prems]) (use CNone.IH matches_le in auto)
  then show ?case by simp
qed (use find_returns in \<open>simp_all add: match_found_def\<close>)

end

text \<open>
  A user function that returns the errors of \<open>Find\<close> instead of carrying on.
\<close>

primrec strict_prog :: "cond_prog \<Rightarrow> bool" where
  "strict_prog (Ret r) = True"
| "strict_prog (AskHas key k) = (\<forall>b. strict_prog (k b))"
| "strict_prog (AskProp key k) = (\<forall>v. strict_prog (k v))"
| "strict_prog (AskFind b k) = ((\<exists>e. k None = Ret (Inl e)) \<and> (\<forall>beans. strict_prog (k (Some beans))))"

fun strict_cond :: "cond \<Rightarrow> bool" where
  "strict_cond (OnFunc _ prog) = strict_prog prog"
| "strict_cond (CNot c) = strict_cond c"
| "strict_cond (COr cs) = list_all strict_cond cs"
| "strict_cond (CAnd cs) = list_all strict_cond cs"
| "strict_cond (CNone cs) = list_all strict_cond cs"
| "strict_cond _ = True"

text \<open>The context that answers \<open>Find\<close> from a fixed table.\<close>

definition static_ctx :: "'s cond_ctx \<Rightarrow> (bean_id \<Rightarrow> bean_id list) \<Rightarrow> unit cond_ctx" where
  "static_ctx ctx F = \<lparr>cx_has = cx_has ctx, cx_prop = cx_prop ctx,
     cx_find = (\<lambda>b s. Some (Inr (F b), s)), cx_eval_expr = cx_eval_expr ctx\<rparr>"

lemma match_property_static: "match_property (static_ctx ctx F) name m v = match_property ctx name m v"
  by (simp add: match_property_def static_ctx_def cong: if_cong option.case_cong)

lemma match_err_Inr: "match_err c run = Some (Inr ok, s) \<longleftrightarrow> run = Some (Inr ok, s)"
  by (auto simp: match_err_def)

text \<open>
  A context whose successful answers to a set of questions keep an invariant. Evaluation of
  a condition that asks only those questions and passes on their errors keeps it too.
\<close>

locale strict_context =
  fixes ctx :: "'s cond_ctx" and P :: "'s \<Rightarrow> bool" and asks :: "bean_id set"
  assumes find_keeps: "b \<in> asks \<Longrightarrow> P s \<Longrightarrow> cx_find ctx b s = Some (Inr q, s') \<Longrightarrow> P s'"
begin

lemma run_prog_keeps:
  "prog_asks prog \<subseteq> asks \<Longrightarrow> strict_prog prog \<Longrightarrow> P s \<Longrightarrow> run_prog ctx prog s = Some (Inr ok, s') \<Longrightarrow> P s'"
proof (induction prog arbitrary: s)
  case (AskFind b k)
  then obtain q t where q: "cx_find ctx b s = Some (q, t)" by (auto simp: bind_eq_Some_conv)
  show ?case
  proof (cases q)
    case (Inl e)
    with AskFind.prems q show ?thesis by auto
  next
    case (Inr beans)
    with q AskFind.prems find_keeps [of b s beans t]
    have r: "run_prog ctx (k (Some beans)) t = Some (Inr ok, s')" and t: "P t" by auto
    show ?thesis by (rule AskFind.IH [OF _ _ _ t r]) (use AskFind.prems in auto)
  qed
next
  case (AskHas key k)
  show ?case by (rule AskHas.IH [of "k (cx_has ctx key)" s]) (use AskHas.prems in auto)
next
  case (AskProp key k)
  show ?case by (rule AskProp.IH [of "k (cx_prop ctx key)" s]) (use AskProp.prems in auto)
qed auto

lemma match_found_keeps:
  "b \<in> asks \<Longrightarrow> P s \<Longrightarrow> match_found ctx b test s = Some (Inr ok, s') \<Longrightarrow> P s'"
  by (auto simp: match_found_def rbind_Inr_iff intro: find_keeps)

lemma match_list_keeps:
  assumes "\<And>c s ok s'. c \<in> set cs \<Longrightarrow> P s \<Longrightarrow> matches ctx c s = Some (Inr ok, s') \<Longrightarrow> P s'"
  shows "P s \<Longrightarrow> match_list (map (matches ctx) cs) stop found s = Some (Inr ok, s') \<Longrightarrow> P s'"
  using assms
proof (induction cs arbitrary: s)
  case (Cons c cs)
  from Cons.prems(2) obtain q t where q: "matches ctx c s = Some (q, t)"
    by (auto simp: bind_eq_Some_conv)
  with Cons.prems(2) obtain ok1 where c: "matches ctx c s = Some (Inr ok1, t)" by (cases q) auto
  with Cons.prems have t: "P t" by auto
  show ?case
  proof (cases "ok1 = stop")
    case False
    with Cons.prems(2) c have "match_list (map (matches ctx) cs) stop found t = Some (Inr ok, s')" by simp
    then show ?thesis
    proof (rule Cons.IH [OF t])
      show "P s'" if "c' \<in> set cs" "P s" "matches ctx c' s = Some (Inr ok, s')" for c' s ok s'
        using Cons.prems(3) [of c'] that by simp
    qed
  qed (use Cons.prems(2) c t in auto)
qed auto

lemma matches_keeps:
  "cond_asks c \<subseteq> asks \<Longrightarrow> strict_cond c \<Longrightarrow> P s \<Longrightarrow> matches ctx c s = Some (Inr ok, s') \<Longrightarrow> P s'"
proof (induction c arbitrary: s ok s')
  case (OnFunc name prog)
  then show ?case using run_prog_keeps by (simp add: match_err_Inr)
next
  case (CNot c)
  then show ?case by (auto simp: match_err_Inr rbind_Inr_iff)
next
  case (COr cs)
  from COr.prems(3) show ?case
    by (rule match_list_keeps [rotated]) (use COr in \<open>auto simp: match_err_Inr list_all_iff UN_subset_iff\<close>)
next
  case (CAnd cs)
  from CAnd.prems(3) show ?case
    by (rule match_list_keeps [rotated]) (use CAnd in \<open>auto simp: match_err_Inr list_all_iff UN_subset_iff\<close>)
next
  case (CNone cs)
  from CNone.prems(3) show ?case
    by (rule match_list_keeps [rotated]) (use CNone in \<open>auto simp: match_err_Inr list_all_iff UN_subset_iff\<close>)
qed (use match_found_keeps in \<open>auto simp: match_err_Inr\<close>)

end

text \<open>
  A strict context whose answers also agree with a table; evaluation then agrees with
  evaluation over the table.
\<close>

locale answering_context = strict_context +
  fixes F :: "bean_id \<Rightarrow> bean_id list"
  assumes find_answer: "b \<in> asks \<Longrightarrow> P s \<Longrightarrow> cx_find ctx b s = Some (Inr q, s') \<Longrightarrow> q = F b"
begin

abbreviation static :: "cond \<Rightarrow> (unit, bool) cond_run" where
  "static c \<equiv> matches (static_ctx ctx F) c ()"

lemma run_prog_answer:
  "prog_asks prog \<subseteq> asks \<Longrightarrow> strict_prog prog \<Longrightarrow> P s \<Longrightarrow> run_prog ctx prog s = Some (Inr ok, s') \<Longrightarrow>
     run_prog (static_ctx ctx F) prog () = Some (Inr ok, ())"
proof (induction prog arbitrary: s)
  case (AskFind b k)
  then obtain q t where q: "cx_find ctx b s = Some (q, t)" by (auto simp: bind_eq_Some_conv)
  show ?case
  proof (cases q)
    case (Inl e)
    with AskFind.prems q show ?thesis by auto
  next
    case (Inr beans)
    with q AskFind.prems find_answer [of b s beans t] find_keeps [of b s beans t]
    have r: "run_prog ctx (k (Some beans)) t = Some (Inr ok, s')" and t: "P t" and beans: "beans = F b"
      by auto
    have "run_prog (static_ctx ctx F) (k (Some beans)) () = Some (Inr ok, ())"
      by (rule AskFind.IH [OF _ _ _ t r]) (use AskFind.prems in auto)
    with beans show ?thesis by (auto simp: static_ctx_def)
  qed
next
  case (AskHas key k)
  have "run_prog (static_ctx ctx F) (k (cx_has ctx key)) () = Some (Inr ok, ())"
    by (rule AskHas.IH [of _ s]) (use AskHas.prems in auto)
  then show ?case by (simp add: static_ctx_def)
next
  case (AskProp key k)
  have "run_prog (static_ctx ctx F) (k (cx_prop ctx key)) () = Some (Inr ok, ())"
    by (rule AskProp.IH [of _ s]) (use AskProp.prems in auto)
  then show ?case by (simp add: static_ctx_def)
qed (auto simp: static_ctx_def)

lemma match_found_answer:
  "b \<in> asks \<Longrightarrow> P s \<Longrightarrow> match_found ctx b test s = Some (Inr ok, s') \<Longrightarrow>
     match_found (static_ctx ctx F) b test () = Some (Inr ok, ())"
  by (auto simp: match_found_def static_ctx_def rbind_Inr_iff dest!: find_answer)

lemma match_list_answer:
  assumes "\<And>c s ok s'. c \<in> set cs \<Longrightarrow> P s \<Longrightarrow> matches ctx c s = Some (Inr ok, s') \<Longrightarrow>
      P s' \<and> static c = Some (Inr ok, ())"
  shows "P s \<Longrightarrow> match_list (map (matches ctx) cs) stop found s = Some (Inr ok, s') \<Longrightarrow>
    match_list (map (matches (static_ctx ctx F)) cs) stop found () = Some (Inr ok, ())"
  using assms
proof (induction cs arbitrary: s)
  case (Cons c cs)
  from Cons.prems(2) obtain q t where q: "matches ctx c s = Some (q, t)"
    by (auto simp: bind_eq_Some_conv)
  with Cons.prems(2) obtain ok1 where c: "matches ctx c s = Some (Inr ok1, t)" by (cases q) auto
  with Cons.prems have t: "P t" and st: "static c = Some (Inr ok1, ())" by auto
  show ?case
  proof (cases "ok1 = stop")
    case False
    with Cons.prems(2) c have "match_list (map (matches ctx) cs) stop found t = Some (Inr ok, s')" by simp
    with Cons.IH [OF t] Cons.prems(3) have
      "match_list (map (matches (static_ctx ctx F)) cs) stop found () = Some (Inr ok, ())" by auto
    with st False show ?thesis by auto
  qed (use Cons.prems(2) c st in auto)
qed auto

lemma matches_answer:
  "cond_asks c \<subseteq> asks \<Longrightarrow> strict_cond c \<Longrightarrow> P s \<Longrightarrow> matches ctx c s = Some (Inr ok, s') \<Longrightarrow>
     static c = Some (Inr ok, ())"
proof (induction c arbitrary: s ok s')
  case (OnFunc name prog)
  then show ?case using run_prog_answer by (simp add: match_err_Inr)
next
  case (OnProperty name missing v)
  then show ?case by (simp add: match_err_Inr match_property_static)
next
  case (CNot c)
  then show ?case by (fastforce simp: match_err_Inr rbind_Inr_iff)
next
  case (COr cs)
  from COr.prems(3) have "match_list (map (matches (static_ctx ctx F)) cs) True True () = Some (Inr ok, ())"
    by (rule match_list_answer [rotated])
      (use COr matches_keeps in \<open>auto simp: match_err_Inr list_all_iff UN_subset_iff\<close>)
  then show ?case by (simp add: match_err_Inr)
next
  case (CAnd cs)
  from CAnd.prems(3) have "match_list (map (matches (static_ctx ctx F)) cs) False False () = Some (Inr ok, ())"
    by (rule match_list_answer [rotated])
      (use CAnd matches_keeps in \<open>auto simp: match_err_Inr list_all_iff UN_subset_iff\<close>)
  then show ?case by (simp add: match_err_Inr)
next
  case (CNone cs)
  from CNone.prems(3) have "match_list (map (matches (static_ctx ctx F)) cs) True False () = Some (Inr ok, ())"
    by (rule match_list_answer [rotated])
      (use CNone matches_keeps in \<open>auto simp: match_err_Inr list_all_iff UN_subset_iff\<close>)
  then show ?case by (simp add: match_err_Inr)
qed (use match_found_answer in \<open>auto simp: match_err_Inr\<close>)

end

text \<open>Only the answers to the questions a condition may ask matter.\<close>

lemma run_prog_static_cong:
  "(\<And>b. b \<in> prog_asks prog \<Longrightarrow> F b = G b) \<Longrightarrow>
     run_prog (static_ctx ctx F) prog s = run_prog (static_ctx ctx G) prog s"
proof (induction prog)
  case (AskFind b k)
  from AskFind.prems have "F b = G b" by simp
  moreover have "run_prog (static_ctx ctx F) (k (Some (G b))) s = run_prog (static_ctx ctx G) (k (Some (G b))) s"
    by (rule AskFind.IH) (use AskFind.prems in auto)
  ultimately show ?case by (simp add: static_ctx_def)
qed (auto simp: static_ctx_def)

lemma match_found_static_cong:
  "F b = G b \<Longrightarrow> match_found (static_ctx ctx F) b test s = match_found (static_ctx ctx G) b test s"
  by (simp add: match_found_def static_ctx_def)

lemma matches_static_cong:
  "(\<And>b. b \<in> cond_asks c \<Longrightarrow> F b = G b) \<Longrightarrow>
     matches (static_ctx ctx F) c = matches (static_ctx ctx G) c"
proof (induction c)
  case (OnFunc name prog)
  then show ?case using run_prog_static_cong [of prog F G ctx] by (simp add: fun_eq_iff)
next
  case (COr cs)
  have "map (matches (static_ctx ctx F)) cs = map (matches (static_ctx ctx G)) cs"
    by (rule map_cong [OF refl], rule COr.IH) (use COr.prems in auto)
  then show ?case by (simp only: matches.simps fun_eq_iff simp_thms)
next
  case (CAnd cs)
  have "map (matches (static_ctx ctx F)) cs = map (matches (static_ctx ctx G)) cs"
    by (rule map_cong [OF refl], rule CAnd.IH) (use CAnd.prems in auto)
  then show ?case by (simp only: matches.simps fun_eq_iff simp_thms)
next
  case (CNone cs)
  have "map (matches (static_ctx ctx F)) cs = map (matches (static_ctx ctx G)) cs"
    by (rule map_cong [OF refl], rule CNone.IH) (use CNone.prems in auto)
  then show ?case by (simp only: matches.simps fun_eq_iff simp_thms)
qed (auto simp: fun_eq_iff match_property_static intro: arg_cong [OF match_found_static_cong])

end
