(* ===== verification/GsArg.thy ===== *)
theory GsArg
  imports GsCond
begin

text \<open>
  \<open>spring/gs/internal/gs_arg/arg.go\<close>: the arguments a constructor or a bound function is
  called with. Go types are names with what \<open>reflect\<close> and \<open>stdlib/typeutil\<close> tell about
  them in a record of functions; values are of an abstract type. The container the
  arguments are resolved against (\<open>gs.ArgContext\<close>) is a record of operations on a state.
\<close>

section \<open>Types\<close>

datatype rkind = RChan | RFunc | RInterface | RPointer | RStruct | RMap | RSlice | RArray | RPrimitive | ROther

record types =
  ty_kind :: "rtype \<Rightarrow> rkind"
  ty_elem :: "rtype \<Rightarrow> rtype"
  ty_assignable :: "rtype \<Rightarrow> rtype \<Rightarrow> bool"

text \<open>\<open>typeutil.IsBeanType\<close>, \<open>IsBeanInjectionTarget\<close> and \<open>IsPropBindingTarget\<close>.\<close>

definition is_bean_type :: "types \<Rightarrow> rtype \<Rightarrow> bool" where
  "is_bean_type ty t =
     (case ty_kind ty t of
        RChan \<Rightarrow> True
      | RFunc \<Rightarrow> True
      | RInterface \<Rightarrow> True
      | RPointer \<Rightarrow> ty_kind ty (ty_elem ty t) = RStruct
      | _ \<Rightarrow> False)"

definition elem_or_self :: "types \<Rightarrow> rtype \<Rightarrow> rtype" where
  "elem_or_self ty t =
     (case ty_kind ty t of RMap \<Rightarrow> ty_elem ty t | RSlice \<Rightarrow> ty_elem ty t | RArray \<Rightarrow> ty_elem ty t | _ \<Rightarrow> t)"

definition is_bean_injection_target :: "types \<Rightarrow> rtype \<Rightarrow> bool" where
  "is_bean_injection_target ty t = is_bean_type ty (elem_or_self ty t)"

definition prop_binding_target :: "types \<Rightarrow> rtype \<Rightarrow> bool" where
  "prop_binding_target ty t =
     (let k = ty_kind ty (elem_or_self ty t) in k = RPrimitive \<or> k = RStruct)"

text \<open>A function's type: parameter types (the last one a slice if variadic) and result types.\<close>

record func_type =
  ft_in :: "rtype list"
  ft_variadic :: bool
  ft_out :: "rtype list"

definition error_type :: rtype where
  "error_type = ''error''"

definition is_constructor :: "func_type \<Rightarrow> bool" where
  "is_constructor ft =
     (case ft_out ft of
        [o0] \<Rightarrow> o0 \<noteq> error_type
      | [o0, o1] \<Rightarrow> o1 = error_type
      | _ \<Rightarrow> False)"

section \<open>Errors\<close>

datatype go_error =
    ErrMsg string
  | Explain string go_error
  | InjectionError string go_error
  | FromCond cond_error

text \<open>\<open>errors.As\<close> for \<open>InjectionError\<close>: is there one in the chain?\<close>

fun is_injection :: "go_error \<Rightarrow> bool" where
  "is_injection (InjectionError _ _) = True"
| "is_injection (Explain _ e) = is_injection e"
| "is_injection _ = False"

definition wrap_inject_err :: "string \<Rightarrow> go_error \<Rightarrow> string option \<Rightarrow> go_error" where
  "wrap_inject_err bean err ctxt =
     (if is_injection err then err
      else let err = (case ctxt of None \<Rightarrow> err | Some f \<Rightarrow> Explain f err)
           in if bean = [] then err else InjectionError bean err)"

definition arg_err :: "string \<Rightarrow> go_error \<Rightarrow> go_error" where
  "arg_err arg err = wrap_inject_err [] err (Some (''arg '' @ arg @ '' get value error''))"

section \<open>Arguments\<close>

text \<open>
  A function value: its type and what a call returns, an error or a typed value. A bean
  passed as an argument is its index in the container.
\<close>

datatype 'v func = Func func_type "'v list \<Rightarrow> string + (rtype \<times> 'v)"

fun func_type_of :: "'v func \<Rightarrow> func_type" where
  "func_type_of (Func ft _) = ft"

datatype 'v arg =
    TagArg string
  | IndexArg int "'v arg"
  | ValueArg "(rtype \<times> 'v) option"
  | BeanArg nat string
  | BindArg "'v func" "'v arg list" "cond list" string

fun arg_string :: "'v arg \<Rightarrow> string" where
  "arg_string (TagArg tag) = ''TagArg(tag='' @ tag @ '')''"
| "arg_string (IndexArg i _) = ''IndexArg(idx='' @ show_int i @ '')''"
| "arg_string (ValueArg _) = ''ValueArg''"
| "arg_string (BeanArg _ name) = name"
| "arg_string (BindArg _ _ _ fl) = ''BindArg(fileline='' @ fl @ '')''"

section \<open>\<open>NewArgList\<close>\<close>

datatype arglist_error =
    TooManyArgs nat nat
  | IndexAfterPositional nat
  | PositionalAfterIndex nat
  | InvalidIndex int nat
  | DuplicateIndex nat

record 'v arglist_state =
  al_args :: "'v arg list"
  al_use_idx :: bool
  al_not_idx :: bool
  al_fixed :: "bool list"

definition fixed_count :: "func_type \<Rightarrow> nat" where
  "fixed_count ft = (if ft_variadic ft then length (ft_in ft) - 1 else length (ft_in ft))"

fun arglist_step ::
  "func_type \<Rightarrow> 'v arglist_state \<Rightarrow> nat \<times> 'v arg \<Rightarrow> (arglist_error, 'v arglist_state) result" where
  "arglist_step ft st (i, IndexArg idx arg) =
     (let st = st\<lparr>al_use_idx := True\<rparr>
      in if al_not_idx st then Inl (IndexAfterPositional i)
         else if idx < 0 \<or> idx \<ge> int (length (ft_in ft)) then Inl (InvalidIndex idx (length (ft_in ft)))
         else if nat idx < fixed_count ft then
           if al_fixed st ! nat idx then Inl (DuplicateIndex (nat idx))
           else Inr (st\<lparr>al_fixed := (al_fixed st)[nat idx := True], al_args := (al_args st)[nat idx := arg]\<rparr>)
         else Inr (st\<lparr>al_args := al_args st @ [arg]\<rparr>))"
| "arglist_step ft st (i, arg) =
     (let st = st\<lparr>al_not_idx := True\<rparr>
      in if al_use_idx st then Inl (PositionalAfterIndex i)
         else if i < fixed_count ft then Inr (st\<lparr>al_args := (al_args st)[i := arg]\<rparr>)
         else Inr (st\<lparr>al_args := al_args st @ [arg]\<rparr>))"

definition new_arg_list :: "func_type \<Rightarrow> 'v arg list \<Rightarrow> (arglist_error, 'v arg list) result" where
  "new_arg_list ft args =
     (let n = fixed_count ft
      in if \<not> ft_variadic ft \<and> length args > n then Inl (TooManyArgs (length args) n)
         else
           map_err id (rbind
             (rfold (arglist_step ft)
               \<lparr>al_args = replicate n (TagArg []), al_use_idx = False, al_not_idx = False,
                al_fixed = replicate n False\<rparr>
               (zip [0..<length args] args))
             (\<lambda>st. Inr (al_args st))))"

section \<open>Resolving arguments\<close>

record ('s, 'v) arg_ctx =
  ac_types :: types
  ac_zero :: "rtype \<Rightarrow> 'v"
  ac_check :: "cond \<Rightarrow> 's \<Rightarrow> ('s, go_error, bool) srun"
  ac_bind :: "rtype \<Rightarrow> string \<Rightarrow> 's \<Rightarrow> ('s, go_error, 'v) srun"
  ac_wire :: "rtype \<Rightarrow> string \<Rightarrow> 's \<Rightarrow> ('s, go_error, 'v) srun"
  ac_bean :: "nat \<Rightarrow> 's \<Rightarrow> rtype \<times> 'v"

definition check_assignable :: "types \<Rightarrow> rtype \<times> 'v \<Rightarrow> rtype \<Rightarrow> (go_error, 'v) result" where
  "check_assignable ty v t =
     (if ty_assignable ty (fst v) t then Inr (snd v)
      else Inl (ErrMsg (''cannot assign type '' @ fst v @ '' to type '' @ t)))"

definition arg_target :: "types \<Rightarrow> func_type \<Rightarrow> nat \<Rightarrow> rtype" where
  "arg_target ty ft idx =
     (if ft_variadic ft \<and> idx \<ge> length (ft_in ft) - 1
      then ty_elem ty (ft_in ft ! (length (ft_in ft) - 1))
      else ft_in ft ! idx)"

fun check_all :: "('s, 'v) arg_ctx \<Rightarrow> cond list \<Rightarrow> 's \<Rightarrow> ('s, go_error, bool) srun" where
  "check_all ctx [] s = Some (Inr True, s)"
| "check_all ctx (c # cs) s =
     sbind (ac_check ctx c s) (\<lambda>ok s. if ok then check_all ctx cs s else Some (Inr False, s))"

definition tag_arg_value ::
  "('s, 'v) arg_ctx \<Rightarrow> string \<Rightarrow> rtype \<Rightarrow> 's \<Rightarrow> ('s, go_error, 'v option) srun" where
  "tag_arg_value ctx tag t s =
     (let e = (\<lambda>tag. arg_err (''TagArg(tag='' @ tag @ '')''))
      in if prop_binding_target (ac_types ctx) t then
           sbind (smap_err (e (if tag = [] then ''${ROOT}'' else tag))
                   (ac_bind ctx t (if tag = [] then ''${ROOT}'' else tag) s))
             (\<lambda>v s. Some (Inr (Some v), s))
         else if is_bean_injection_target (ac_types ctx) t then
           sbind (smap_err (e tag) (ac_wire ctx t tag s)) (\<lambda>v s. Some (Inr (Some v), s))
         else Some (Inl (e tag (ErrMsg (''unsupported argument type '' @ t))), s))"

text \<open>\<open>reflect.Value.Call\<close> panics when it is not given as many values as the function takes.\<close>

definition call_func :: "func_type \<Rightarrow> ('v list \<Rightarrow> string + 'a) \<Rightarrow> 'v list \<Rightarrow> string + 'a" where
  "call_func ft call vs =
     (if length vs < fixed_count ft then Inl ''panic: reflect: Call with too few input arguments''
      else if \<not> ft_variadic ft \<and> length vs > fixed_count ft
      then Inl ''panic: reflect: Call with too many input arguments''
      else call vs)"

text \<open>
  \<open>GetArgValue\<close> of each argument, and \<open>ArgList.get\<close>. An invalid \<open>reflect.Value\<close> is \<open>None\<close>;
  the list drops it. \<open>IndexArg.GetArgValue\<close> panics, which ends the program: it is an error here.
\<close>

fun get_arg_value :: "('s, 'v) arg_ctx \<Rightarrow> 'v arg \<Rightarrow> rtype \<Rightarrow> 's \<Rightarrow> ('s, go_error, 'v option) srun"
  and get_args :: "('s, 'v) arg_ctx \<Rightarrow> func_type \<Rightarrow> nat \<Rightarrow> 'v arg list \<Rightarrow> 's \<Rightarrow> ('s, go_error, 'v list) srun"
  where
  "get_arg_value ctx (TagArg tag) t s = tag_arg_value ctx tag t s"
| "get_arg_value ctx (IndexArg i arg) t s = Some (Inl (ErrMsg ''panic: unimplemented method''), s)"
| "get_arg_value ctx (ValueArg v) t s =
     (case v of
        None \<Rightarrow> Some (Inr (Some (ac_zero ctx t)), s)
      | Some v \<Rightarrow> Some (map_err (arg_err ''ValueArg'') (rbind (check_assignable (ac_types ctx) v t)
                    (\<lambda>v. Inr (Some v))), s))"
| "get_arg_value ctx (BeanArg b name) t s =
     Some (map_err (arg_err name) (rbind (check_assignable (ac_types ctx) (ac_bean ctx b s) t)
             (\<lambda>v. Inr (Some v))), s)"
| "get_arg_value ctx (BindArg fn args conds fl) t s =
     smap_err (arg_err (''BindArg(fileline='' @ fl @ '')''))
       (sbind (check_all ctx conds s) (\<lambda>ok s.
          if \<not> ok then Some (Inr None, s)
          else
            sbind (get_args ctx (func_type_of fn) 0 args s) (\<lambda>vs s.
              (case fn of Func ft call \<Rightarrow>
                 (case call_func ft call vs of
                    Inl e \<Rightarrow> Some (Inl (ErrMsg e), s)
                  | Inr out \<Rightarrow>
                      Some (rbind (check_assignable (ac_types ctx) out t) (\<lambda>v. Inr (Some v)), s))))))"
| "get_args ctx ft idx [] s = Some (Inr [], s)"
| "get_args ctx ft idx (arg # args) s =
     sbind (smap_err (\<lambda>e. wrap_inject_err [] e (Some (''argument at index '' @ show_nat idx @ '' failed'')))
             (get_arg_value ctx arg (arg_target (ac_types ctx) ft idx) s))
       (\<lambda>v s. sbind (get_args ctx ft (idx + 1) args s)
          (\<lambda>vs s. Some (Inr (case v of Some v \<Rightarrow> v # vs | None \<Rightarrow> vs), s)))"

section \<open>What \<open>NewArgList\<close> builds\<close>

fun is_index :: "'v arg \<Rightarrow> bool" where
  "is_index (IndexArg _ _) = True"
| "is_index _ = False"

lemma arglist_step_positional:
  "\<not> is_index a \<Longrightarrow> arglist_step ft st (i, a) =
     (if al_use_idx st then Inl (PositionalAfterIndex i)
      else Inr (st\<lparr>al_not_idx := True, al_args :=
             (if i < fixed_count ft then (al_args st)[i := a] else al_args st @ [a])\<rparr>))"
  by (cases a) (simp_all add: Let_def)

lemma arglist_positional:
  assumes "list_all (\<lambda>a. \<not> is_index a) as" and "\<not> al_use_idx st"
    and "al_args st = pre @ replicate (fixed_count ft - length pre) (TagArg [])"
  shows "\<exists>st'. rfold (arglist_step ft) st (zip [length pre..<length pre + length as] as) = Inr st' \<and>
    al_args st' = pre @ as @ replicate (fixed_count ft - (length pre + length as)) (TagArg [])"
  using assms
proof (induction as arbitrary: st pre)
  case (Cons a as)
  let ?k = "length pre" and ?n = "fixed_count ft"
  let ?st = "st\<lparr>al_not_idx := True, al_args :=
      (if ?k < ?n then (al_args st)[?k := a] else al_args st @ [a])\<rparr>"
  have step: "arglist_step ft st (?k, a) = Inr ?st"
    using Cons.prems by (simp add: arglist_step_positional)
  have args: "al_args ?st = (pre @ [a]) @ replicate (?n - length (pre @ [a])) (TagArg [])"
  proof (cases "?k < ?n")
    case True
    then obtain m where "?n - ?k = Suc m" by (metis Suc_diff_Suc)
    with True Cons.prems(3) show ?thesis by (simp add: list_update_append)
  qed (use Cons.prems(3) in simp)
  have "[?k..<?k + length (a # as)] = ?k # [length (pre @ [a])..<length (pre @ [a]) + length as]"
    by (simp add: upt_rec)
  with step Cons.IH [OF _ _ args] Cons.prems show ?case by simp
qed simp

lemma arglist_indexed_step:
  assumes "al_use_idx st"
  shows "\<exists>e. rfold (arglist_step ft) st (zip [k..<k + length as] as) = Inl e \<or> list_all is_index as"
  using assms
proof (induction as arbitrary: st k)
  case (Cons a as)
  have up: "[k..<k + length (a # as)] = k # [Suc k..<Suc k + length as]" by (simp add: upt_rec)
  show ?case
  proof (cases "is_index a")
    case True
    then obtain i b where a: "a = IndexArg i b" by (cases a) auto
    show ?thesis
    proof (cases "arglist_step ft st (k, a)")
      case (Inr st1)
      then have "al_use_idx st1" by (auto simp: a Let_def split: if_splits)
      from Cons.IH [OF this, of "Suc k"] Inr up True show ?thesis by auto
    qed (use up in simp)
  qed (use up Cons.prems in \<open>simp add: arglist_step_positional\<close>)
qed simp

text \<open>A constructor's argument list. Given only positional arguments,
  \<open>NewArgList\<close> fails exactly when a function without variadic parameter gets more arguments
  than it has parameters; otherwise the arguments keep their positions and every remaining
  fixed parameter is an empty tag. A list that starts with an indexed argument and holds a
  positional one is always rejected.\<close>

theorem new_arg_list_positional:
  assumes "list_all (\<lambda>a. \<not> is_index a) args"
  shows "new_arg_list ft args =
      (if \<not> ft_variadic ft \<and> length args > fixed_count ft
       then Inl (TooManyArgs (length args) (fixed_count ft))
       else Inr (args @ replicate (fixed_count ft - length args) (TagArg []))) \<and>
    (args \<noteq> [] \<longrightarrow> (\<exists>e. new_arg_list ft (IndexArg i a # args) = Inl e))"
proof
  let ?st = "\<lparr>al_args = replicate (fixed_count ft) (TagArg []), al_use_idx = False, al_not_idx = False,
                al_fixed = replicate (fixed_count ft) False\<rparr>"
  obtain st' where "rfold (arglist_step ft) ?st (zip [0..<length args] args) = Inr st'"
    and "al_args st' = args @ replicate (fixed_count ft - length args) (TagArg [])"
    using arglist_positional [OF assms, of ?st "[]" ft] by auto
  then show "new_arg_list ft args =
      (if \<not> ft_variadic ft \<and> length args > fixed_count ft
       then Inl (TooManyArgs (length args) (fixed_count ft))
       else Inr (args @ replicate (fixed_count ft - length args) (TagArg [])))"
    by (simp add: new_arg_list_def Let_def)
  show "args \<noteq> [] \<longrightarrow> (\<exists>e. new_arg_list ft (IndexArg i a # args) = Inl e)"
  proof
    assume ne: "args \<noteq> []"
    have "\<exists>e. rfold (arglist_step ft) ?st (zip [0..<length (IndexArg i a # args)] (IndexArg i a # args)) = Inl e"
    proof -
      have up: "[0..<length (IndexArg i a # args)] = 0 # [Suc 0..<Suc 0 + length args]"
        by (simp add: upt_rec)
      show ?thesis
      proof (cases "arglist_step ft ?st (0, IndexArg i a)")
        case (Inr st1)
        then have "al_use_idx st1" by (auto simp: Let_def split: if_splits)
        moreover have "\<not> list_all is_index args" using assms ne by (cases args) auto
        ultimately obtain e where "rfold (arglist_step ft) st1 (zip [Suc 0..<Suc 0 + length args] args) = Inl e"
          using arglist_indexed_step by blast
        with Inr show ?thesis unfolding up by (auto simp del: arglist_step.simps)
      qed (unfold up, simp del: arglist_step.simps)
    qed
    then show "\<exists>e. new_arg_list ft (IndexArg i a # args) = Inl e"
      by (auto simp: new_arg_list_def Let_def simp del: arglist_step.simps)
  qed
qed

lemma new_arg_list_positional_witness:
  "new_arg_list \<lparr>ft_in = [''int'', ''string''], ft_variadic = False, ft_out = [''*T'']\<rparr> [ValueArg (Some (''int'', ()))] =
     Inr [ValueArg (Some (''int'', ())), TagArg []]"
proof -
  have "list_all (\<lambda>a. \<not> is_index a) [ValueArg (Some (''int'', ()))]" by simp
  from new_arg_list_positional [OF this, of "\<lparr>ft_in = [''int'', ''string''], ft_variadic = False, ft_out = [''*T'']\<rparr>"]
  show ?thesis by (simp add: fixed_count_def)
qed

section \<open>A conditional argument whose condition fails\<close>

text \<open>A bound argument whose condition fails is dropped from the list, and the
  arguments behind it move one parameter to the left. For a function with one fixed and a
  variadic parameter, the value meant for the variadic parameter is passed as the fixed
  one; for a function with fixed parameters only, the call panics.\<close>

theorem unmet_bind_arg_shifts:
  assumes "ac_check ctx c s = Some (Inr False, s)"
    and "ty_assignable (ac_types ctx) tv (arg_target (ac_types ctx) ft 1)"
  shows "get_args ctx ft 0 [BindArg fn args [c] fl, ValueArg (Some (tv, v))] s = Some (Inr [v], s) \<and>
    (\<not> ft_variadic ft \<longrightarrow> length (ft_in ft) = 2 \<longrightarrow>
       call_func ft f [v] = Inl ''panic: reflect: Call with too few input arguments'')"
  using assms by (simp add: smap_err_def check_assignable_def call_func_def fixed_count_def)

definition sample_arg_ctx :: "(unit, nat) arg_ctx" where
  "sample_arg_ctx = \<lparr>ac_types = \<lparr>ty_kind = (\<lambda>_. RPrimitive), ty_elem = id, ty_assignable = (\<lambda>_ _. True)\<rparr>,
     ac_zero = (\<lambda>_. 0), ac_check = (\<lambda>_ s. Some (Inr False, s)), ac_bind = (\<lambda>_ _ s. Some (Inr 0, s)),
     ac_wire = (\<lambda>_ _ s. Some (Inr 0, s)), ac_bean = (\<lambda>_ _. (''int'', 0))\<rparr>"

lemma unmet_bind_arg_shifts_witness:
  "get_args sample_arg_ctx \<lparr>ft_in = [''int'', ''int''], ft_variadic = False, ft_out = [''*T'']\<rparr> 0
     [BindArg (Func \<lparr>ft_in = [], ft_variadic = False, ft_out = [''int'']\<rparr> (\<lambda>_. Inr (''int'', 7))) [] [on_property ''k''] [],
      ValueArg (Some (''int'', 5))] () = Some (Inr [5], ())"
proof -
  have "ac_check sample_arg_ctx (on_property ''k'') () = Some (Inr False, ())" by (simp add: sample_arg_ctx_def)
  moreover have "ty_assignable (ac_types sample_arg_ctx) ''int''
      (arg_target (ac_types sample_arg_ctx) \<lparr>ft_in = [''int'', ''int''], ft_variadic = False, ft_out = [''*T'']\<rparr> 1)"
    by (simp add: sample_arg_ctx_def)
  ultimately show ?thesis by (rule unmet_bind_arg_shifts [THEN conjunct1])
qed

end
