(* ===== verification/GsBean.thy ===== *)
theory GsBean
  imports GsArg
begin

text \<open>
  \<open>spring/gs/internal/gs_bean/bean.go\<close>: the definition of a bean, its life-cycle status and
  the operations that configure it. A pointer to a definition is its index in the
  container. What \<open>reflect\<close> and \<open>runtime\<close> report about the registered object is the
  record \<open>obj\<close>.
\<close>

section \<open>Status\<close>

datatype bean_status =
    StatusDeleted | StatusDefault | StatusResolving | StatusResolved
  | StatusCreating | StatusCreated | StatusWired

primrec status_num :: "bean_status \<Rightarrow> int" where
  "status_num StatusDeleted = -1"
| "status_num StatusDefault = 0"
| "status_num StatusResolving = 1"
| "status_num StatusResolved = 2"
| "status_num StatusCreating = 3"
| "status_num StatusCreated = 4"
| "status_num StatusWired = 5"

text \<open>The Go constants are compared as numbers.\<close>

lemma status_num_inject [simp]: "status_num a = status_num b \<longleftrightarrow> a = b"
  by (cases a; cases b) simp_all

instantiation bean_status :: linorder
begin

definition less_eq_bean_status :: "bean_status \<Rightarrow> bean_status \<Rightarrow> bool" where
  "less_eq_bean_status a b \<longleftrightarrow> status_num a \<le> status_num b"

definition less_bean_status :: "bean_status \<Rightarrow> bean_status \<Rightarrow> bool" where
  "less_bean_status a b \<longleftrightarrow> status_num a < status_num b"

instance
  by standard (auto simp: less_eq_bean_status_def less_bean_status_def)

end

fun status_string :: "bean_status \<Rightarrow> string" where
  "status_string StatusDeleted = ''deleted''"
| "status_string StatusDefault = ''default''"
| "status_string StatusResolving = ''resolving''"
| "status_string StatusResolved = ''resolved''"
| "status_string StatusCreating = ''creating''"
| "status_string StatusCreated = ''created''"
| "status_string StatusWired = ''wired''"

section \<open>Bean definitions\<close>

record configuration =
  cf_includes :: "string list"
  cf_excludes :: "string list"

text \<open>Life-cycle functions are named; a constructor is its function and its argument list.\<close>

record 'v bean =
  bd_type :: rtype
  bd_callable :: "('v func \<times> 'v arg list) option"
  bd_name :: string
  bd_init :: "string option"
  bd_destroy :: "string option"
  bd_depends_on :: "bean_id list"
  bd_exports :: "rtype list"
  bd_conditions :: "cond list"
  bd_status :: bean_status
  bd_file_line :: string
  bd_configuration :: "configuration option"

definition bean_id_of :: "'v bean \<Rightarrow> bean_id" where
  "bean_id_of d = \<lparr>bid_type = Some (bd_type d), bid_name = bd_name d\<rparr>"

definition set_name :: "string \<Rightarrow> 'v bean \<Rightarrow> 'v bean" where
  "set_name name d = d\<lparr>bd_name := name\<rparr>"

definition set_status :: "bean_status \<Rightarrow> 'v bean \<Rightarrow> 'v bean" where
  "set_status st d = d\<lparr>bd_status := st\<rparr>"

definition set_file_line :: "string \<Rightarrow> nat \<Rightarrow> 'v bean \<Rightarrow> 'v bean" where
  "set_file_line file line d = d\<lparr>bd_file_line := file @ '':'' @ show_nat line\<rparr>"

definition bean_string :: "'v bean \<Rightarrow> string" where
  "bean_string d = bd_name d @ ''('' @ bd_file_line d @ '')''"

definition depends_on :: "bean_id list \<Rightarrow> 'v bean \<Rightarrow> 'v bean" where
  "depends_on selectors d = d\<lparr>bd_depends_on := bd_depends_on d @ selectors\<rparr>"

definition add_conditions :: "cond option list \<Rightarrow> 'v bean \<Rightarrow> (go_panic, 'v bean) result" where
  "add_conditions cs d =
     (if list_ex Option.is_none cs then Inl (PanicMsg ''conditions cannot contain nil'')
      else Inr (d\<lparr>bd_conditions := bd_conditions d @ map the cs\<rparr>))"

text \<open>A life-cycle function is described by its name, whether it is nil, and its type.\<close>

datatype life_func = NilInterface | NotAFunc string | NilFunc func_type | LifeFunc string func_type

definition valid_life_cycle_func ::
  "types \<Rightarrow> (rtype \<Rightarrow> rtype \<Rightarrow> bool) \<Rightarrow> life_func \<Rightarrow> rtype \<Rightarrow> (go_panic, string) result" where
  "valid_life_cycle_func ty implements fn bean_type =
     (case fn of
        NilInterface \<Rightarrow> Inl (PanicMsg ''lifecycle function cannot be nil'')
      | NotAFunc t \<Rightarrow> Inl (PanicMsg (''lifecycle function must be a function type, got '' @ t))
      | NilFunc _ \<Rightarrow> Inl (PanicMsg ''lifecycle function value is nil'')
      | LifeFunc name ft \<Rightarrow>
          (case ft_in ft of
             [t] \<Rightarrow>
               if (if ty_kind ty t = RInterface then \<not> implements bean_type t else t \<noteq> bean_type)
               then Inl (PanicMsg ''lifecycle function argument type does not match bean type'')
               else if ft_out ft = [] \<or> ft_out ft = [error_type] then Inr name
               else Inl (PanicMsg ''lifecycle function must return nothing or only error'')
           | _ \<Rightarrow> Inl (PanicMsg ''lifecycle function must accept exactly one argument'')))"

definition set_init ::
  "types \<Rightarrow> (rtype \<Rightarrow> rtype \<Rightarrow> bool) \<Rightarrow> life_func \<Rightarrow> 'v bean \<Rightarrow> (go_panic, 'v bean) result" where
  "set_init ty implements fn d =
     rbind (valid_life_cycle_func ty implements fn (bd_type d)) (\<lambda>n. Inr (d\<lparr>bd_init := Some n\<rparr>))"

definition set_destroy ::
  "types \<Rightarrow> (rtype \<Rightarrow> rtype \<Rightarrow> bool) \<Rightarrow> life_func \<Rightarrow> 'v bean \<Rightarrow> (go_panic, 'v bean) result" where
  "set_destroy ty implements fn d =
     rbind (valid_life_cycle_func ty implements fn (bd_type d)) (\<lambda>n. Inr (d\<lparr>bd_destroy := Some n\<rparr>))"

definition export_step ::
  "types \<Rightarrow> (rtype \<Rightarrow> rtype \<Rightarrow> bool) \<Rightarrow> 'v bean \<Rightarrow> rtype option \<Rightarrow> (go_panic, 'v bean) result" where
  "export_step ty implements d t =
     (case t of
        None \<Rightarrow> Inl (PanicMsg ''export type cannot be nil'')
      | Some t \<Rightarrow>
          if ty_kind ty t \<noteq> RInterface then Inl (PanicMsg ''export failed: not an interface type'')
          else if \<not> implements (bd_type d) t then Inl (PanicMsg ''export failed: does not implement interface'')
          else if t = bd_type d \<or> t \<in> set (bd_exports d) then Inr d
          else Inr (d\<lparr>bd_exports := bd_exports d @ [t]\<rparr>))"

definition export ::
  "types \<Rightarrow> (rtype \<Rightarrow> rtype \<Rightarrow> bool) \<Rightarrow> rtype option list \<Rightarrow> 'v bean \<Rightarrow> (go_panic, 'v bean) result" where
  "export ty implements ts d = rfold (export_step ty implements) d ts"

definition set_configuration :: "configuration list \<Rightarrow> 'v bean \<Rightarrow> 'v bean" where
  "set_configuration c d =
     (let cfg = (case c of [] \<Rightarrow> \<lparr>cf_includes = [], cf_excludes = []\<rparr> | x # _ \<Rightarrow> x)
      in d\<lparr>bd_configuration := Some \<lparr>cf_includes = cf_includes cfg, cf_excludes = cf_excludes cfg\<rparr>\<rparr>)"

section \<open>Profiles\<close>

text \<open>The condition \<open>OnProfiles\<close> adds: the given profiles, trimmed, against the active ones.\<close>

definition profile_matches :: "string set \<Rightarrow> string \<Rightarrow> bool" where
  "profile_matches active p =
     (if has_prefix p ''!'' then drop 1 p \<notin> active else p \<in> active)"

definition profiles_match :: "string list \<Rightarrow> string option \<Rightarrow> bool" where
  "profiles_match profiles prop =
     (case prop of
        None \<Rightarrow> False
      | Some v \<Rightarrow>
          let v = trim_space v
          in if v = [] then False
             else let active = set (map trim_space (split_char v CHR '',''))
                  in list_ex (profile_matches active) profiles)"

definition profiles_prog :: "string list \<Rightarrow> cond_prog" where
  "profiles_prog profiles =
     AskProp ''spring.profiles.active'' (\<lambda>v. Ret (Inr (profiles_match profiles v)))"

definition check_profile :: "string \<Rightarrow> (go_panic, string) result" where
  "check_profile p0 =
     (let p = trim_space p0
      in if p = [] \<or> p = ''!'' then Inl (PanicMsg ''invalid profile'') else Inr p)"

definition on_profiles :: "string list \<Rightarrow> 'v bean \<Rightarrow> (go_panic, 'v bean) result" where
  "on_profiles profiles d =
     (if profiles = [] then Inl (PanicMsg ''OnProfiles requires at least one profile'')
      else rbind (rfold (\<lambda>ps p. rbind (check_profile p) (\<lambda>p. Inr (ps @ [p]))) [] profiles)
        (\<lambda>ps. add_conditions [Some (OnFunc ''OnProfiles'' (profiles_prog ps))] d))"

section \<open>\<open>NewBean\<close>\<close>

text \<open>
  The registered object: nil, or a value with its type. A function that was not passed as a
  \<open>reflect.Value\<close> carries its run-time name, its type and its behaviour.
\<close>

datatype 'v obj =
    NilObj
  | Value rtype bool
  | FuncObj string bool "'v func"

text \<open>The text behind the last or the first occurrence of a byte; the whole text without one.\<close>

definition after_last :: "char \<Rightarrow> string \<Rightarrow> string" where
  "after_last c s = last (split_char s c)"

definition after_first :: "char \<Rightarrow> string \<Rightarrow> string" where
  "after_first c s = (case cut_char s c of None \<Rightarrow> s | Some (_, r) \<Rightarrow> r)"

text \<open>
  The name of a constructor: after the import path, the package, and the receiver if it is
  a method. An empty rest makes the indexing of its first byte panic.
\<close>

definition ctor_name :: "string \<Rightarrow> (go_panic, string) result" where
  "ctor_name func_name =
     (let name = after_first CHR ''.'' (after_last CHR ''/'' func_name)
      in case name of
           [] \<Rightarrow> Inl IndexOutOfRange
         | c # _ \<Rightarrow> if c = CHR ''('' then Inr (after_first CHR ''.'' name) else Inr name)"

text \<open>The owner a method constructor is registered for, from its first argument.\<close>

fun method_owner :: "(nat \<Rightarrow> bean_id) \<Rightarrow> rtype option \<Rightarrow> 'v arg list \<Rightarrow> (go_panic, bean_id) result" where
  "method_owner ids in0 [] = Inr \<lparr>bid_type = in0, bid_name = []\<rparr>"
| "method_owner ids in0 (BeanArg b _ # _) = Inr (ids b)"
| "method_owner ids in0 (IndexArg i a # _) =
     (if i = 0 then (case a of BeanArg b _ \<Rightarrow> Inr (ids b)
                     | _ \<Rightarrow> Inl (PanicMsg ''IndexArg[0] must contain a *BeanDefinition''))
      else Inr \<lparr>bid_type = in0, bid_name = []\<rparr>)"
| "method_owner ids in0 (_ # _) =
     Inl (PanicMsg ''first constructor argument must be *BeanDefinition or IndexArg[0]'')"

text \<open>
  The name derived from a type: the last part of its text, without a leading star.
\<close>

definition type_name :: "rtype \<Rightarrow> string" where
  "type_name t =
     (let s = after_last CHR ''.'' t
      in case s of c # r \<Rightarrow> if c = CHR ''*'' then r else s | [] \<Rightarrow> s)"

definition mk_bean ::
  "('v func \<times> 'v arg list) option \<Rightarrow> rtype \<Rightarrow> string \<Rightarrow> cond list \<Rightarrow> 'v bean" where
  "mk_bean f t name conds =
     \<lparr>bd_type = t, bd_callable = f, bd_name = (if name = [] then type_name t else name),
      bd_init = None, bd_destroy = None, bd_depends_on = [], bd_exports = [],
      bd_conditions = conds, bd_status = StatusDefault, bd_file_line = [], bd_configuration = None\<rparr>"

text \<open>
  A constructor's result type \<open>out0\<close> becomes the bean's type; when it is not a bean type
  itself the bean is a pointer to it, which must then be one. \<open>ptr_to\<close> is \<open>reflect.PointerTo\<close>.
\<close>

definition new_bean ::
  "types \<Rightarrow> (rtype \<Rightarrow> rtype) \<Rightarrow> (nat \<Rightarrow> bean_id) \<Rightarrow> 'v obj \<Rightarrow> 'v arg list \<Rightarrow> (go_panic, 'v bean) result" where
  "new_bean ty ptr_to ids ob args =
     (case ob of
        NilObj \<Rightarrow> Inl (PanicMsg ''bean instance cannot be nil'')
      | Value t isnil \<Rightarrow>
          if \<not> is_bean_type ty t then Inl (PanicMsg ''bean must be reference type'')
          else if isnil then Inl (PanicMsg ''bean instance cannot be nil'')
          else Inr (mk_bean None t [] [])
      | FuncObj fname isnil fn \<Rightarrow>
          if isnil then Inl (PanicMsg ''bean instance cannot be nil'')
          else
            let ft = func_type_of fn
            in if \<not> is_constructor ft then Inl (PanicMsg ''constructor should be func(...)bean or func(...)(bean, error)'')
               else
                 rbind (map_err (\<lambda>_. PanicMsg ''constructor binding failed'') (new_arg_list ft args)) (\<lambda>al.
                   let out0 = hd (ft_out ft);
                       t = (if is_bean_type ty out0 then out0 else ptr_to out0);
                       in0 = (case ft_in ft of [] \<Rightarrow> None | i # _ \<Rightarrow> Some i)
                   in if \<not> is_bean_type ty t then Inl (PanicMsg ''constructor return type must be reference type'')
                      else
                        rbind (ctor_name fname) (\<lambda>name.
                          if CHR '')'' \<in> set (drop 1 fname)
                          then rbind (method_owner ids in0 args) (\<lambda>owner.
                                 Inr (mk_bean (Some (fn, al)) t name [OnBean owner]))
                          else Inr (mk_bean (Some (fn, al)) t name []))))"

section \<open>Properties\<close>

lemma check_profiles_fold:
  "rfold (\<lambda>ps p. rbind (check_profile p) (\<lambda>p. Inr (ps @ [p]))) acc profiles = Inr ps \<longleftrightarrow>
     ps = acc @ map trim_space profiles \<and> (\<forall>p \<in> set profiles. trim_space p \<noteq> [] \<and> trim_space p \<noteq> ''!'')"
proof (induction profiles arbitrary: acc)
  case (Cons p profiles)
  then show ?case by (auto simp: check_profile_def Let_def)
qed auto

text \<open>The profile condition. \<open>OnProfiles\<close> accepts a non-empty list of profiles
  none of which is blank or a bare \<open>!\<close>, and adds one condition. The condition never fails
  with an error and never asks for beans; it holds exactly when the property
  \<open>spring.profiles.active\<close> is set to a text that is not blank and some profile is among the
  active ones or, negated, is not. Without an active profile no bean with a profile is
  created, a negated one included.\<close>

theorem on_profiles_condition:
  "((\<exists>d'. on_profiles profiles d = Inr d') \<longleftrightarrow>
      profiles \<noteq> [] \<and> (\<forall>p \<in> set profiles. trim_space p \<noteq> [] \<and> trim_space p \<noteq> ''!'')) \<and>
   (\<forall>d'. on_profiles profiles d = Inr d' \<longrightarrow>
      (\<exists>c. d' = d\<lparr>bd_conditions := bd_conditions d @ [c]\<rparr> \<and>
        (\<forall>ctx s. matches ctx c s = Some (Inr
           (\<exists>v. cx_prop ctx ''spring.profiles.active'' = Some v \<and> trim_space v \<noteq> [] \<and>
              (\<exists>p \<in> set profiles. profile_matches
                 (set (map trim_space (split_char (trim_space v) CHR '',''))) (trim_space p))), s))))"
proof (intro conjI allI impI)
  show "(\<exists>d'. on_profiles profiles d = Inr d') \<longleftrightarrow>
     profiles \<noteq> [] \<and> (\<forall>p \<in> set profiles. trim_space p \<noteq> [] \<and> trim_space p \<noteq> ''!'')"
    by (auto simp: on_profiles_def rbind_Inr_iff check_profiles_fold add_conditions_def)
  fix d' assume "on_profiles profiles d = Inr d'"
  then have d': "d' = d\<lparr>bd_conditions := bd_conditions d @
      [OnFunc ''OnProfiles'' (profiles_prog (map trim_space profiles))]\<rparr>"
    by (auto simp: on_profiles_def rbind_Inr_iff check_profiles_fold add_conditions_def split: if_splits)
  have "matches ctx (OnFunc ''OnProfiles'' (profiles_prog (map trim_space profiles))) s = Some (Inr
          (\<exists>v. cx_prop ctx ''spring.profiles.active'' = Some v \<and> trim_space v \<noteq> [] \<and>
             (\<exists>p \<in> set profiles. profile_matches
                (set (map trim_space (split_char (trim_space v) CHR '',''))) (trim_space p))), s)"
    for ctx :: "'c cond_ctx" and s
    by (auto simp: profiles_prog_def match_err_def profiles_match_def Let_def list_ex_iff split: option.split)
  with d' show "\<exists>c. d' = d\<lparr>bd_conditions := bd_conditions d @ [c]\<rparr> \<and>
       (\<forall>(ctx :: 'c cond_ctx) s. matches ctx c s = Some (Inr
          (\<exists>v. cx_prop ctx ''spring.profiles.active'' = Some v \<and> trim_space v \<noteq> [] \<and>
             (\<exists>p \<in> set profiles. profile_matches
                (set (map trim_space (split_char (trim_space v) CHR '',''))) (trim_space p))), s))"
    by blast
qed

definition plain_bean :: "unit bean" where
  "plain_bean = mk_bean None ''*main.Server'' [] []"

definition no_ctx :: "unit cond_ctx" where
  "no_ctx = \<lparr>cx_has = (\<lambda>_. False), cx_prop = (\<lambda>_. None), cx_find = (\<lambda>_ s. Some (Inr [], s)),
     cx_eval_expr = (\<lambda>_ _. Inr False)\<rparr>"

text \<open>With no active profile a bean for \<open>!prod\<close> is not created.\<close>

lemma on_profiles_condition_witness:
  "\<exists>d' c. on_profiles ['' !prod''] plain_bean = Inr d' \<and> bd_conditions d' = [c] \<and>
     matches no_ctx c () = Some (Inr False, ())"
proof -
  have "\<forall>p \<in> set ['' !prod'']. trim_space p \<noteq> [] \<and> trim_space p \<noteq> ''!''" by code_simp
  then obtain d' where d': "on_profiles ['' !prod''] plain_bean = Inr d'"
    using on_profiles_condition [of "['' !prod'']" plain_bean] by blast
  with on_profiles_condition [of "['' !prod'']" plain_bean] obtain c where
    "d' = plain_bean\<lparr>bd_conditions := bd_conditions plain_bean @ [c]\<rparr>"
    and c: "\<forall>(ctx :: unit cond_ctx) s. matches ctx c s = Some (Inr
           (\<exists>v. cx_prop ctx ''spring.profiles.active'' = Some v \<and> trim_space v \<noteq> [] \<and>
              (\<exists>p \<in> set ['' !prod'']. profile_matches
                 (set (map trim_space (split_char (trim_space v) CHR '',''))) (trim_space p))), s)"
    by blast
  then have "bd_conditions d' = [c]" by (simp add: plain_bean_def mk_bean_def)
  moreover have "matches no_ctx c () = Some (Inr False, ())" using c by (simp add: no_ctx_def)
  ultimately show ?thesis using d' by blast
qed

end
