(* ===== verification/FlatPath.thy ===== *)
theory FlatPath
  imports GoStrings
begin

text \<open>
  \<open>stdlib/flatten/path.go\<close>: the parser \<open>SplitPath\<close> and the printer \<open>JoinPath\<close> of
  hierarchical property keys such as \<open>users[0].name\<close>. The loop of \<open>SplitPath\<close> is kept
  with its four variables; positions are byte offsets into the key, as in the code.
  The code ranges over runes, the model over bytes: the four special characters are
  ASCII, so both take the same branch at every byte of a longer rune.
\<close>

section \<open>Data\<close>

datatype path_type = PathTypeKey | PathTypeIndex

record path_seg =
  ptype :: path_type
  elem :: string

definition key_seg :: "string \<Rightarrow> path_seg" where
  "key_seg s = \<lparr>ptype = PathTypeKey, elem = s\<rparr>"

definition index_seg :: "string \<Rightarrow> path_seg" where
  "index_seg s = \<lparr>ptype = PathTypeIndex, elem = s\<rparr>"

lemma seg_sels [simp]:
  "ptype (key_seg s) = PathTypeKey" "elem (key_seg s) = s"
  "ptype (index_seg s) = PathTypeIndex" "elem (index_seg s) = s"
  by (simp_all add: key_seg_def index_seg_def)

datatype segment_error = EmptyKeySegment | KeySegmentSpace string | EmptyIndex | NotUnsigned string

datatype path_error =
    EmptyString
  | ContainsSpace nat
  | DotInBrackets nat
  | EmptyBetweenDots nat
  | BadSegment segment_error nat
  | NestedBracket nat
  | BracketAfterDot nat
  | UnmatchedClose nat
  | EmptyIndexAt nat
  | UnexpectedAfterClose nat char
  | UnclosedBracket nat
  | EndsWithDot nat

section \<open>Printing\<close>

fun join_from :: "nat \<Rightarrow> path_seg list \<Rightarrow> string" where
  "join_from i [] = []"
| "join_from i (p # ps) =
     (case ptype p of
        PathTypeKey \<Rightarrow> (if i > 0 then ''.'' else []) @ elem p
      | PathTypeIndex \<Rightarrow> ''['' @ elem p @ '']'') @ join_from (Suc i) ps"

definition join_path :: "path_seg list \<Rightarrow> string" where
  "join_path path = join_from 0 path"

section \<open>Parsing\<close>

definition append_key :: "path_seg list \<Rightarrow> string \<Rightarrow> (segment_error, path_seg list) result" where
  "append_key path s =
     (if s = [] then Inl EmptyKeySegment
      else if CHR '' '' \<in> set s then Inl (KeySegmentSpace s)
      else Inr (path @ [key_seg s]))"

definition append_index :: "path_seg list \<Rightarrow> string \<Rightarrow> (segment_error, path_seg list) result" where
  "append_index path s =
     (if s = [] then Inl EmptyIndex
      else (case parse_uint64 s of
              None \<Rightarrow> Inl (NotUnsigned s)
            | Some _ \<Rightarrow> Inr (path @ [index_seg s])))"

record split_state =
  sp_path :: "path_seg list"
  last_pos :: nat
  last_char :: char
  open_bracket :: bool

definition slice :: "string \<Rightarrow> nat \<Rightarrow> nat \<Rightarrow> string" where
  "slice key a b = take (b - a) (drop a key)"

text \<open>The error of \<open>appendKey\<close> or \<open>appendIndex\<close> is wrapped with the segment's start.\<close>

definition at_pos :: "nat \<Rightarrow> (segment_error, 'a) result \<Rightarrow> (path_error, 'a) result" where
  "at_pos pos r = (case r of Inl e \<Rightarrow> Inl (BadSegment e pos) | Inr a \<Rightarrow> Inr a)"

text \<open>One iteration of the loop of \<open>SplitPath\<close> at the byte \<open>c\<close> of offset \<open>i\<close>.\<close>

definition split_step :: "string \<Rightarrow> nat \<Rightarrow> char \<Rightarrow> split_state \<Rightarrow> (path_error, split_state) result" where
  "split_step key i c st =
     (if c = CHR '' '' then Inl (ContainsSpace i)
      else if c = CHR ''.'' then
        (if open_bracket st then Inl (DotInBrackets i)
         else if last_char st = CHR ''.'' then Inl (EmptyBetweenDots i)
         else rbind (if last_char st \<noteq> CHR '']''
                     then at_pos (last_pos st) (append_key (sp_path st) (slice key (last_pos st) i))
                     else Inr (sp_path st))
                (\<lambda>path. Inr (st\<lparr>sp_path := path, last_pos := i + 1, last_char := CHR ''.''\<rparr>)))
      else if c = CHR ''['' then
        (if open_bracket st then Inl (NestedBracket i)
         else if last_char st = CHR ''.'' then Inl (BracketAfterDot i)
         else rbind (if i > 0 \<and> last_char st \<noteq> CHR '']''
                     then at_pos (last_pos st) (append_key (sp_path st) (slice key (last_pos st) i))
                     else Inr (sp_path st))
                (\<lambda>path. Inr \<lparr>sp_path = path, last_pos = i + 1, last_char = CHR ''['', open_bracket = True\<rparr>))
      else if c = CHR '']'' then
        (if \<not> open_bracket st then Inl (UnmatchedClose i)
         else if last_pos st = i then Inl (EmptyIndexAt (last_pos st))
         else rbind (at_pos (last_pos st) (append_index (sp_path st) (slice key (last_pos st) i)))
                (\<lambda>path. Inr \<lparr>sp_path = path, last_pos = i + 1, last_char = CHR '']'', open_bracket = False\<rparr>))
      else if last_char st = CHR '']'' then Inl (UnexpectedAfterClose i c)
      else Inr (st\<lparr>last_char := c\<rparr>))"

fun split_loop :: "string \<Rightarrow> nat \<Rightarrow> string \<Rightarrow> split_state \<Rightarrow> (path_error, split_state) result" where
  "split_loop key i [] st = Inr st"
| "split_loop key i (c # cs) st = rbind (split_step key i c st) (split_loop key (Suc i) cs)"

definition split_init :: split_state where
  "split_init = \<lparr>sp_path = [], last_pos = 0, last_char = CHR 0x00, open_bracket = False\<rparr>"

definition split_finish :: "string \<Rightarrow> split_state \<Rightarrow> (path_error, path_seg list) result" where
  "split_finish key st =
     (if open_bracket st then Inl (UnclosedBracket (last_pos st - 1))
      else if last_char st = CHR ''.'' then Inl (EndsWithDot (length key - 1))
      else if last_char st \<noteq> CHR '']''
        then at_pos (last_pos st) (append_key (sp_path st) (drop (last_pos st) key))
      else Inr (sp_path st))"

definition split_path :: "string \<Rightarrow> (path_error, path_seg list) result" where
  "split_path key =
     (if key = [] then Inl EmptyString
      else rbind (split_loop key 0 key split_init) (split_finish key))"

section \<open>Well-formed paths\<close>

definition special :: "char \<Rightarrow> bool" where
  "special c \<longleftrightarrow> c = CHR '' '' \<or> c = CHR ''.'' \<or> c = CHR ''['' \<or> c = CHR '']''"

definition plain :: "string \<Rightarrow> bool" where
  "plain s \<longleftrightarrow> list_all (\<lambda>c. \<not> special c) s"

definition seg_ok :: "path_seg \<Rightarrow> bool" where
  "seg_ok p = (case ptype p of
      PathTypeKey \<Rightarrow> elem p \<noteq> [] \<and> plain (elem p)
    | PathTypeIndex \<Rightarrow> parse_uint64 (elem p) \<noteq> None)"

definition wf_path :: "path_seg list \<Rightarrow> bool" where
  "wf_path ps \<longleftrightarrow> ps \<noteq> [] \<and> list_all seg_ok ps"

lemma plain_Nil [simp]: "plain []"
  by (simp add: plain_def)

lemma plain_append [simp]: "plain (a @ b) \<longleftrightarrow> plain a \<and> plain b"
  by (simp add: plain_def)

lemma plain_Cons [simp]: "plain (c # b) \<longleftrightarrow> \<not> special c \<and> plain b"
  by (simp add: plain_def)

lemma plain_no_space: "plain s \<Longrightarrow> CHR '' '' \<notin> set s"
  by (auto simp: plain_def list_all_iff special_def)

lemma parse_uint64_plain: "parse_uint64 s = Some n \<Longrightarrow> s \<noteq> [] \<and> plain s"
  by (auto simp: parse_uint64_def plain_def list_all_iff special_def split: if_splits
      dest!: bspec digit_not_special)

lemma seg_ok_key [simp]: "seg_ok (key_seg s) \<longleftrightarrow> s \<noteq> [] \<and> plain s"
  by (simp add: key_seg_def seg_ok_def)

lemma seg_ok_index [simp]: "seg_ok (index_seg s) \<longleftrightarrow> parse_uint64 s \<noteq> None"
  by (simp add: index_seg_def seg_ok_def)

lemma seg_cases: obtains s where "p = key_seg s" | s where "p = index_seg s"
  by (cases p; cases "ptype p") (auto simp: key_seg_def index_seg_def)

lemma join_from_append: "join_from i (ps @ qs) = join_from i ps @ join_from (i + length ps) qs"
  by (induction ps arbitrary: i) auto

lemma join_path_Nil [simp]: "join_path [] = []"
  by (simp add: join_path_def)

lemma join_path_snoc_key [simp]:
  "join_path (ps @ [key_seg s]) = join_path ps @ (if ps = [] then [] else ''.'') @ s"
  by (simp add: join_path_def join_from_append key_seg_def)

lemma join_path_snoc_index [simp]:
  "join_path (ps @ [index_seg s]) = join_path ps @ ''['' @ s @ '']''"
  by (simp add: join_path_def join_from_append index_seg_def)

lemma join_path_single [simp]:
  "join_path [key_seg s] = s" "join_path [index_seg s] = ''['' @ s @ '']''"
  using join_path_snoc_key [of "[]" s] join_path_snoc_index [of "[]" s] by simp_all

lemma join_path_eq_Nil: "list_all seg_ok ps \<Longrightarrow> join_path ps = [] \<longleftrightarrow> ps = []"
proof (cases ps rule: rev_cases)
  case (snoc qs p)
  moreover assume "list_all seg_ok ps"
  ultimately show ?thesis by (cases p rule: seg_cases) auto
qed simp

section \<open>The parser accepts only printed paths\<close>

text \<open>
  What the loop knows after it consumed \<open>pre\<close>: the finished segments print to
  everything before \<open>last_pos\<close>, up to the separator, and the rest is plain text.
\<close>

fun pending :: "path_seg list \<Rightarrow> string \<Rightarrow> string \<Rightarrow> char \<Rightarrow> bool \<Rightarrow> bool" where
  "pending path base seg lc True \<longleftrightarrow>
     base = join_path path @ ''['' \<and> plain seg \<and> lc \<noteq> CHR ''.'' \<and> lc \<noteq> CHR '']''"
| "pending path base seg lc False \<longleftrightarrow>
     (if lc = CHR ''.'' then seg = [] \<and> path \<noteq> [] \<and> base = join_path path @ ''.''
      else if lc = CHR '']'' then seg = [] \<and> path \<noteq> [] \<and> base = join_path path
      else plain seg \<and> base = join_path path @ (if path = [] then [] else ''.''))"

definition split_inv :: "string \<Rightarrow> split_state \<Rightarrow> bool" where
  "split_inv pre st \<longleftrightarrow> list_all seg_ok (sp_path st) \<and>
     (\<exists>base seg. pre = base @ seg \<and> last_pos st = length base \<and>
        pending (sp_path st) base seg (last_char st) (open_bracket st))"

lemma split_invI:
  "list_all seg_ok (sp_path st) \<Longrightarrow> pre = base @ seg \<Longrightarrow> last_pos st = length base \<Longrightarrow>
   pending (sp_path st) base seg (last_char st) (open_bracket st) \<Longrightarrow> split_inv pre st"
  by (auto simp: split_inv_def)

lemma append_key_Inr: "append_key path s = Inr path' \<longleftrightarrow>
    s \<noteq> [] \<and> CHR '' '' \<notin> set s \<and> path' = path @ [key_seg s]"
  by (auto simp: append_key_def)

lemma append_index_Inr: "append_index path s = Inr path' \<longleftrightarrow>
    parse_uint64 s \<noteq> None \<and> path' = path @ [index_seg s]"
  by (auto simp: append_index_def parse_uint64_def split: option.splits if_splits)

lemma at_pos_Inr [simp]: "at_pos pos r = Inr a \<longleftrightarrow> r = Inr a"
  by (cases r) (auto simp: at_pos_def)

lemma split_step_inv:
  assumes inv: "split_inv pre st" and step: "split_step (pre @ c # r) (length pre) c st = Inr st'"
  shows "split_inv (pre @ [c]) st'"
proof -
  obtain base seg where ok: "list_all seg_ok (sp_path st)" and pre: "pre = base @ seg"
    and lp: "last_pos st = length base"
    and pend: "pending (sp_path st) base seg (last_char st) (open_bracket st)"
    using inv by (auto simp: split_inv_def)
  note defs = split_step_def rbind_Inr_iff append_key_Inr append_index_Inr slice_def pre lp
  consider "c = CHR '' ''" | "c = CHR ''.''" | "c = CHR ''[''" | "c = CHR '']''" | "\<not> special c"
    by (auto simp: special_def)
  then show ?thesis
  proof cases
    case 1
    with step show ?thesis by (simp add: split_step_def)
  next
    case 2
    with step pend ok show ?thesis
      by (intro split_invI [where base = "pre @ [c]" and seg = "[]"])
         (auto simp: defs split: if_splits)
  next
    case 3
    with step pend ok show ?thesis
      by (intro split_invI [where base = "pre @ [c]" and seg = "[]"])
         (auto simp: defs join_path_eq_Nil split: if_splits)
  next
    case 4
    with step pend ok show ?thesis
      by (intro split_invI [where base = "pre @ [c]" and seg = "[]"])
         (auto simp: defs split: if_splits)
  next
    case 5
    with step pend ok show ?thesis
      by (intro split_invI [where base = base and seg = "seg @ [c]"]; cases "open_bracket st")
         (auto simp: defs special_def split: if_splits)
  qed
qed

lemma split_loop_inv:
  "split_inv pre st \<Longrightarrow> split_loop (pre @ r) (length pre) r st = Inr st' \<Longrightarrow> split_inv (pre @ r) st'"
proof (induction r arbitrary: pre st)
  case (Cons c r)
  then obtain st1 where st1: "split_step (pre @ c # r) (length pre) c st = Inr st1"
    and loop: "split_loop (pre @ c # r) (Suc (length pre)) r st1 = Inr st'"
    by (auto simp: rbind_Inr_iff)
  from split_step_inv [OF Cons.prems(1) st1] have "split_inv (pre @ [c]) st1" .
  with Cons.IH [of "pre @ [c]" st1] loop show ?case by simp
qed simp

lemma split_path_sound:
  assumes "split_path key = Inr ps"
  shows "wf_path ps \<and> key = join_path ps"
proof -
  have init: "split_inv [] split_init" by (simp add: split_inv_def split_init_def)
  from assms obtain st where ne: "key \<noteq> []" and st: "split_loop key 0 key split_init = Inr st"
    and fin: "split_finish key st = Inr ps"
    by (auto simp: split_path_def rbind_Inr_iff split: if_splits)
  from split_loop_inv [OF init, of key st] st have "split_inv key st" by simp
  with fin ne show ?thesis
    by (auto simp: split_finish_def split_inv_def append_key_Inr wf_path_def split: if_splits)
qed

section \<open>The parser accepts every printed path\<close>

text \<open>The state of the loop after it consumed the text of a well-formed path.\<close>

definition state_after :: "path_seg list \<Rightarrow> split_state" where
  "state_after ps =
     (if ps = [] then split_init
      else case ptype (last ps) of
        PathTypeIndex \<Rightarrow> \<lparr>sp_path = ps, last_pos = length (join_path ps),
                          last_char = CHR '']'', open_bracket = False\<rparr>
      | PathTypeKey \<Rightarrow> \<lparr>sp_path = butlast ps,
                        last_pos = length (join_path ps) - length (elem (last ps)),
                        last_char = last (elem (last ps)), open_bracket = False\<rparr>)"

lemma split_loop_append:
  "split_loop key i (a @ b) st = rbind (split_loop key i a st) (split_loop key (i + length a) b)"
proof (induction a arbitrary: i st)
  case (Cons c a)
  then show ?case by (cases "split_step key i c st") auto
qed simp

lemma split_loop_plain:
  "plain s \<Longrightarrow> last_char st \<noteq> CHR '']'' \<Longrightarrow>
   split_loop key i s st = Inr (if s = [] then st else st\<lparr>last_char := last s\<rparr>)"
proof (induction s arbitrary: i st)
  case (Cons c s)
  then have "split_step key i c st = Inr (st\<lparr>last_char := c\<rparr>)" and "c \<noteq> CHR '']''"
    by (auto simp: split_step_def special_def)
  with Cons show ?case by auto
qed simp

lemma plain_last: "s \<noteq> [] \<Longrightarrow> plain s \<Longrightarrow> last s \<noteq> CHR ''.'' \<and> last s \<noteq> CHR '']'' \<and> last s \<noteq> CHR ''[''"
  by (auto simp: plain_def list_all_iff special_def dest: last_in_set)

lemma split_step_dot:
  assumes ps: "wf_path ps" and key: "key = join_path ps @ r"
  shows "split_step key (length (join_path ps)) CHR ''.'' (state_after ps) =
    Inr \<lparr>sp_path = ps, last_pos = Suc (length (join_path ps)), last_char = CHR ''.'', open_bracket = False\<rparr>"
proof (cases ps rule: rev_cases)
  case (snoc qs p)
  then show ?thesis
  proof (cases p rule: seg_cases)
    case (1 s)
    with ps snoc have "s \<noteq> []" "plain s" by (simp_all add: wf_path_def)
    with 1 snoc key plain_last [of s] show ?thesis
      by (simp add: split_step_def state_after_def append_key_def at_pos_def slice_def
          plain_no_space)
  next
    case (2 s)
    with snoc key show ?thesis
      by (simp add: split_step_def state_after_def)
  qed
qed (use ps in \<open>simp add: wf_path_def\<close>)

lemma split_step_open:
  assumes ps: "ps = [] \<or> wf_path ps" and key: "key = join_path ps @ r"
  shows "split_step key (length (join_path ps)) CHR ''['' (state_after ps) =
    Inr \<lparr>sp_path = ps, last_pos = Suc (length (join_path ps)), last_char = CHR ''['', open_bracket = True\<rparr>"
proof (cases ps rule: rev_cases)
  case Nil
  then show ?thesis by (simp add: split_step_def state_after_def split_init_def)
next
  case (snoc qs p)
  then show ?thesis
  proof (cases p rule: seg_cases)
    case (1 s)
    with ps snoc have "s \<noteq> []" "plain s" by (simp_all add: wf_path_def)
    with 1 snoc key plain_last [of s] show ?thesis
      by (simp add: split_step_def state_after_def append_key_def at_pos_def slice_def
          plain_no_space)
  next
    case (2 s)
    with snoc key show ?thesis
      by (simp add: split_step_def state_after_def)
  qed
qed

lemma split_loop_join:
  "list_all seg_ok ps \<Longrightarrow> split_loop (join_path ps @ r) 0 (join_path ps) split_init = Inr (state_after ps)"
proof (induction ps arbitrary: r rule: rev_induct)
  case Nil
  then show ?case by (simp add: state_after_def)
next
  case (snoc p ps)
  have ok: "list_all seg_ok ps" and wf: "ps \<noteq> [] \<Longrightarrow> wf_path ps"
    using snoc.prems by (simp_all add: wf_path_def)
  show ?case
  proof (cases p rule: seg_cases)
    case (1 s)
    with snoc.prems have s: "s \<noteq> []" "plain s" by simp_all
    show ?thesis
    proof (cases "ps = []")
      case True
      with 1 s show ?thesis
        by (simp add: split_loop_plain split_init_def state_after_def)
    next
      case False
      let ?t = "''.'' @ s"
      have "split_loop (join_path ps @ ?t @ r) 0 (join_path ps) split_init = Inr (state_after ps)"
        using snoc.IH [OF ok] by simp
      with False s 1 split_step_dot [OF wf, of "join_path ps @ ?t @ r" "?t @ r"] show ?thesis
        by (simp add: split_loop_append split_loop_plain state_after_def)
    qed
  next
    case (2 s)
    with snoc.prems have s: "parse_uint64 s \<noteq> None" by simp
    then have s': "plain s" "s \<noteq> []" using parse_uint64_plain by auto
    let ?t = "''['' @ s @ '']''"
    let ?key = "join_path ps @ ?t @ r" and ?n = "length (join_path ps)"
    let ?b = "\<lparr>sp_path = ps, last_pos = Suc ?n, last_char = CHR ''['', open_bracket = True\<rparr>"
    have a: "split_loop ?key 0 (join_path ps) split_init = Inr (state_after ps)"
      using snoc.IH [OF ok] by simp
    have b: "split_step ?key ?n CHR ''['' (state_after ps) = Inr ?b"
      using split_step_open wf by blast
    have c: "split_loop ?key (Suc ?n) s ?b = Inr (?b\<lparr>last_char := last s\<rparr>)"
      using s' by (simp add: split_loop_plain)
    have d: "split_step ?key (Suc (?n + length s)) CHR '']'' (?b\<lparr>last_char := last s\<rparr>)
        = Inr (state_after (ps @ [p]))"
      using s s' 2 by (auto simp: split_step_def append_index_def at_pos_def slice_def state_after_def)
    from 2 a b c d show ?thesis by (simp add: split_loop_append)
  qed
qed

lemma split_path_complete:
  assumes "wf_path ps"
  shows "split_path (join_path ps) = Inr ps"
proof (cases ps rule: rev_cases)
  case (snoc qs p)
  have loop: "split_loop (join_path ps) 0 (join_path ps) split_init = Inr (state_after ps)"
    using split_loop_join [of ps "[]"] assms by (simp add: wf_path_def)
  have ne: "join_path ps \<noteq> []" using assms by (simp add: wf_path_def join_path_eq_Nil)
  show ?thesis
  proof (cases p rule: seg_cases)
    case (1 s)
    with assms snoc have "s \<noteq> []" "plain s" by (simp_all add: wf_path_def)
    with 1 snoc loop ne plain_last [of s] show ?thesis
      by (simp add: split_path_def split_finish_def state_after_def append_key_def at_pos_def plain_no_space)
  next
    case (2 s)
    with snoc loop ne show ?thesis
      by (simp add: split_path_def split_finish_def state_after_def)
  qed
qed (use assms in \<open>simp add: wf_path_def\<close>)

lemma join_path_inject: "wf_path ps \<Longrightarrow> wf_path qs \<Longrightarrow> join_path ps = join_path qs \<Longrightarrow> ps = qs"
  by (metis split_path_complete sum.inject(2))

section \<open>Properties\<close>

text \<open>
  Property C34: \<open>SplitPath\<close> and \<open>JoinPath\<close> are inverse to each other. \<open>SplitPath\<close>
  returns the path \<open>ps\<close> exactly for the one text \<open>JoinPath\<close> prints for it, and it does so
  for every non-empty path of non-empty plain keys and 64-bit decimal indices, so the
  accepted keys are exactly the printed paths and every other key is an error.
\<close>

theorem split_path_iff: "split_path key = Inr ps \<longleftrightarrow> wf_path ps \<and> key = join_path ps"
  using split_path_sound split_path_complete by blast

end
