(* ===== verification/FlatStore.thy ===== *)
theory FlatStore
  imports FlatPath
begin

text \<open>
  \<open>stdlib/flatten/store.go\<close>: the storage interface the configuration binder reads
  against, the flat property map behind it (\<open>Properties\<close>, \<open>PropertiesStorage\<close>), the
  prefixing wrapper (\<open>PrefixedStorage\<close>) and the layered aggregate (\<open>LayeredStorage\<close>).
  An interface value is a record of its four methods. A method that fills a result
  map takes the map and returns it filled. The laws every storage keeps are the locale
  \<open>storage_laws\<close> and its extensions, interpreted on the models below.
\<close>

section \<open>The interface\<close>

type_synonym props = "(string, string) gomap"

record storage =
  st_exists :: "string \<Rightarrow> bool"
  st_value :: "string \<Rightarrow> string option"
  st_map_keys :: "string \<Rightarrow> string set \<Rightarrow> bool \<times> string set"
  st_slice_entries :: "string \<Rightarrow> props \<Rightarrow> bool \<times> props"

definition child_key :: "string \<Rightarrow> string \<Rightarrow> string" where
  "child_key k c = (if k = [] then c else k @ ''.'' @ c)"

definition separator :: "char \<Rightarrow> bool" where
  "separator c \<longleftrightarrow> c = CHR ''.'' \<or> c = CHR ''[''"

text \<open>
  What every storage promises its clients: a leaf exists; the collected child keys and
  slice entries are added to what the caller passed and reported as found exactly when
  there are any; what is found exists; a slice entry is a leaf of the storage under
  \<open>key[\<close>.
\<close>

locale storage_laws =
  fixes s :: storage
  assumes value_exists: "st_value s k = Some v \<Longrightarrow> st_exists s k"
    and map_keys_acc: "st_map_keys s k acc =
      (fst (st_map_keys s k {}), acc \<union> snd (st_map_keys s k {}))"
    and map_keys_found: "fst (st_map_keys s k {}) \<longleftrightarrow> snd (st_map_keys s k {}) \<noteq> {}"
    and map_keys_exists: "k \<noteq> [] \<Longrightarrow> fst (st_map_keys s k {}) \<Longrightarrow> st_exists s k"
    and map_keys_plain: "c \<in> snd (st_map_keys s k {}) \<Longrightarrow> \<forall>x \<in> set c. \<not> separator x"
    and slice_acc: "fst (st_slice_entries s k out) = fst (st_slice_entries s k [])"
      "map_of (snd (st_slice_entries s k out)) = map_of out ++ map_of (snd (st_slice_entries s k []))"
    and slice_found: "fst (st_slice_entries s k []) \<longleftrightarrow> snd (st_slice_entries s k []) \<noteq> []"
    and slice_exists: "fst (st_slice_entries s k []) \<Longrightarrow> st_exists s k"
    and slice_value: "map_of (snd (st_slice_entries s k [])) k' = Some v \<Longrightarrow>
      st_value s k' = Some v \<and> (\<exists>r. k' = k @ CHR ''['' # r)"

text \<open>A storage whose reported children exist, which is what binding a map relies on.\<close>

locale mapped_storage = storage_laws +
  assumes child_exists: "c \<in> snd (st_map_keys s k {}) \<Longrightarrow> st_exists s (child_key k c)"

text \<open>A storage in which every node above a leaf exists.\<close>

locale rooted_storage = mapped_storage +
  assumes parent_exists: "st_value s (k @ c # r) = Some v \<Longrightarrow> separator c \<Longrightarrow> st_exists s k"

section \<open>\<open>Properties\<close> and \<open>PropertiesStorage\<close>\<close>

record properties =
  pr_data :: props

definition new_properties :: "props option \<Rightarrow> properties" where
  "new_properties data = \<lparr>pr_data = (case data of None \<Rightarrow> [] | Some m \<Rightarrow> m)\<rparr>"

definition pr_get :: "properties \<Rightarrow> string \<Rightarrow> string option" where
  "pr_get p key = map_of (pr_data p) key"

definition pr_set :: "string \<Rightarrow> string \<Rightarrow> properties \<Rightarrow> properties" where
  "pr_set key val p = p\<lparr>pr_data := AList.update key val (pr_data p)\<rparr>"

definition below_node :: "string \<Rightarrow> string \<Rightarrow> bool" where
  "below_node key k = (case cut_prefix k key of Some (c # _) \<Rightarrow> separator c | _ \<Rightarrow> False)"

definition ps_exists :: "properties \<Rightarrow> string \<Rightarrow> bool" where
  "ps_exists p key =
     (map_of (pr_data p) key \<noteq> None \<or> list_ex (\<lambda>(k, _). below_node key k) (gorange (pr_data p)))"

definition ps_value :: "properties \<Rightarrow> string \<Rightarrow> string option" where
  "ps_value p key = map_of (pr_data p) key"

text \<open>The child key that the leaf \<open>k\<close> contributes to the map node \<open>key\<close>.\<close>

definition child_of :: "string \<Rightarrow> string \<Rightarrow> string option" where
  "child_of key k =
     Option.bind
       (if key = [] then Some k
        else (case cut_prefix k key of
                Some (c # str) \<Rightarrow> if c = CHR ''.'' \<and> str \<noteq> [] then Some str else None
              | _ \<Rightarrow> None))
       (\<lambda>str. case index_where separator str of
                Some i \<Rightarrow> if i > 0 then Some (take i str) else None
              | None \<Rightarrow> Some str)"

definition map_keys_step :: "string \<Rightarrow> string \<times> string \<Rightarrow> bool \<times> string set \<Rightarrow> bool \<times> string set" where
  "map_keys_step key kv acc =
     (case child_of key (fst kv) of
        Some c \<Rightarrow> (True, insert c (snd acc))
      | None \<Rightarrow> acc)"

definition ps_map_keys :: "properties \<Rightarrow> string \<Rightarrow> string set \<Rightarrow> bool \<times> string set" where
  "ps_map_keys p key result = fold (map_keys_step key) (gorange (pr_data p)) (False, result)"

definition slice_step :: "string \<Rightarrow> string \<times> string \<Rightarrow> bool \<times> props \<Rightarrow> bool \<times> props" where
  "slice_step key kv acc =
     (case cut_prefix (fst kv) key of
        Some (c # _) \<Rightarrow> if c = CHR ''['' then (True, AList.update (fst kv) (snd kv) (snd acc)) else acc
      | _ \<Rightarrow> acc)"

definition ps_slice_entries :: "properties \<Rightarrow> string \<Rightarrow> props \<Rightarrow> bool \<times> props" where
  "ps_slice_entries p key result = fold (slice_step key) (gorange (pr_data p)) (False, result)"

definition properties_storage :: "properties \<Rightarrow> storage" where
  "properties_storage p =
     \<lparr>st_exists = ps_exists p, st_value = ps_value p,
      st_map_keys = ps_map_keys p, st_slice_entries = ps_slice_entries p\<rparr>"

subsection \<open>What the loops compute\<close>

lemma below_node_iff: "below_node key k \<longleftrightarrow> (\<exists>c r. separator c \<and> k = key @ c # r)"
  by (auto simp: below_node_def cut_prefix_Some_iff split: option.splits list.splits)

lemma ps_exists_iff:
  "ps_exists p key \<longleftrightarrow> (\<exists>k \<in> fst ` set (pr_data p). k = key \<or> below_node key k)"
proof -
  have "list_ex (\<lambda>(k, _). below_node key k) (gorange (pr_data p)) \<longleftrightarrow>
      (\<exists>k \<in> fst ` set (gorange (pr_data p)). below_node key k)"
    by (simp add: list_ex_iff case_prod_beta del: gokeys_gorange)
  then show ?thesis by (auto simp: ps_exists_def map_of_eq_None_iff)
qed

lemma ps_map_keys_fold:
  "fold (map_keys_step key) xs (b, acc) =
     (b \<or> (\<exists>k \<in> fst ` set xs. child_of key k \<noteq> None),
      acc \<union> {c. \<exists>k \<in> fst ` set xs. child_of key k = Some c})"
  by (induction xs arbitrary: b acc) (auto simp: map_keys_step_def split: option.splits)

lemma ps_map_keys_eq:
  "ps_map_keys p key acc =
     (\<exists>k \<in> fst ` set (pr_data p). child_of key k \<noteq> None,
      acc \<union> {c. \<exists>k \<in> fst ` set (pr_data p). child_of key k = Some c})"
  by (simp add: ps_map_keys_def ps_map_keys_fold)

definition slice_key :: "string \<Rightarrow> string \<Rightarrow> bool" where
  "slice_key key k \<longleftrightarrow> (\<exists>r. k = key @ CHR ''['' # r)"

lemma slice_step_eq:
  "slice_step key kv acc =
     (if slice_key key (fst kv) then (True, AList.update (fst kv) (snd kv) (snd acc)) else acc)"
  by (auto simp: slice_step_def slice_key_def cut_prefix_Some_iff split: option.splits list.splits)

lemma ps_slice_fold:
  "fold (slice_step key) xs (b, acc) =
     (b \<or> (\<exists>k \<in> fst ` set xs. slice_key key k), put_all (filter (\<lambda>kv. slice_key key (fst kv)) xs) acc)"
  by (induction xs arbitrary: b acc) (auto simp: slice_step_eq)

lemma ps_slice_entries_eq:
  "ps_slice_entries p key acc =
     (\<exists>k \<in> fst ` set (pr_data p). slice_key key k,
      put_all (filter (\<lambda>kv. slice_key key (fst kv)) (gorange (pr_data p))) acc)"
  by (simp add: ps_slice_entries_def ps_slice_fold)

lemma child_of_Some:
  assumes "child_of key k = Some c"
  shows "(\<forall>x \<in> set c. \<not> separator x) \<and>
    (k = child_key key c \<or> below_node (child_key key c) k) \<and> (key \<noteq> [] \<longrightarrow> below_node key k)"
proof -
  obtain str where str: "(if key = [] then Some k
       else (case cut_prefix k key of
               Some (c # str) \<Rightarrow> if c = CHR ''.'' \<and> str \<noteq> [] then Some str else None
             | _ \<Rightarrow> None)) = Some str"
    and c: "(case index_where separator str of
        Some i \<Rightarrow> if i > 0 then Some (take i str) else None | None \<Rightarrow> Some str) = Some c"
    using assms unfolding child_of_def bind_eq_Some_conv by blast
  have str: "if key = [] then k = str else k = key @ CHR ''.'' # str"
    using str by (auto simp: cut_prefix_Some_iff split: if_splits option.splits list.splits)
  have k: "k = child_key key str" using str by (auto simp: child_key_def split: if_splits)
  have below: "key \<noteq> [] \<longrightarrow> below_node key k"
    using str by (auto simp: below_node_iff separator_def)
  show ?thesis
  proof (cases "index_where separator str")
    case None
    with c k below show ?thesis by (auto simp: index_where_None_iff)
  next
    case (Some i)
    with c have c': "c = take i str" "i > 0" by (auto split: if_splits)
    from Some have i: "i < length str" "separator (str ! i)" "\<forall>x \<in> set (take i str). \<not> separator x"
      by (auto simp: index_where_Some_iff)
    then have "str = c @ str ! i # drop (Suc i) str" using c' by (simp add: id_take_nth_drop)
    with k i have "below_node (child_key key c) k"
      by (metis append.assoc below_node_iff child_key_def)
    with i c' below show ?thesis by simp
  qed
qed

text \<open>The flat property map keeps all three contracts.\<close>

lemma ps_sel [simp]:
  "st_exists (properties_storage p) = ps_exists p"
  "st_value (properties_storage p) = ps_value p"
  "st_map_keys (properties_storage p) = ps_map_keys p"
  "st_slice_entries (properties_storage p) = ps_slice_entries p"
  by (simp_all add: properties_storage_def)

lemma ps_value_mem: "ps_value p k = Some v \<Longrightarrow> (k, v) \<in> set (pr_data p)"
  by (simp add: ps_value_def map_of_SomeD)

lemma ps_value_exists: "ps_value p k = Some v \<Longrightarrow> ps_exists p k"
  by (auto simp: ps_exists_def ps_value_def)

lemma ps_value_key: "ps_value p k = Some v \<Longrightarrow> k \<in> fst ` set (pr_data p)"
  using ps_value_mem by (metis fst_conv image_eqI)

lemma ps_below_exists: "k \<in> fst ` set (pr_data p) \<Longrightarrow> below_node key k \<Longrightarrow> ps_exists p key"
  by (auto simp: ps_exists_iff)

lemma map_of_filter_key: "map_of (filter (\<lambda>kv. P (fst kv)) xs) k = (if P k then map_of xs k else None)"
  by (induction xs) auto

lemma map_of_ps_slice:
  "map_of (snd (ps_slice_entries p key acc)) k =
     (if slice_key key k \<and> map_of (pr_data p) k \<noteq> None then map_of (pr_data p) k else map_of acc k)"
proof -
  let ?xs = "filter (\<lambda>kv. slice_key key (fst kv)) (gorange (pr_data p))"
  have "gomap_wf (gorange (pr_data p))" by simp
  then have "gomap_wf ?xs" by (simp add: gomap_wf_def distinct_map_filter)
  then show ?thesis
    by (simp add: ps_slice_entries_eq map_of_put_all_wf map_add_def map_of_filter_key split: option.splits)
qed

interpretation ps: rooted_storage "properties_storage p" for p
proof (unfold_locales, unfold ps_sel)
  fix k v assume "ps_value p k = Some v"
  then show "ps_exists p k" by (rule ps_value_exists)
next
  fix k acc show "ps_map_keys p k acc = (fst (ps_map_keys p k {}), acc \<union> snd (ps_map_keys p k {}))"
    by (simp add: ps_map_keys_eq)
next
  fix k show "fst (ps_map_keys p k {}) = (snd (ps_map_keys p k {}) \<noteq> {})"
    by (auto simp: ps_map_keys_eq)
next
  fix k :: string assume "k \<noteq> []" and "fst (ps_map_keys p k {})"
  then show "ps_exists p k"
    by (auto simp: ps_map_keys_eq dest!: child_of_Some intro: ps_below_exists)
next
  fix c k assume "c \<in> snd (ps_map_keys p k {})"
  then show "\<forall>x \<in> set c. \<not> separator x" by (auto simp: ps_map_keys_eq dest: child_of_Some)
next
  fix k out show "fst (ps_slice_entries p k out) = fst (ps_slice_entries p k [])"
    by (simp add: ps_slice_entries_eq)
next
  fix k out
  show "map_of (snd (ps_slice_entries p k out)) = map_of out ++ map_of (snd (ps_slice_entries p k []))"
    by (rule ext) (simp add: map_of_ps_slice map_add_def split: option.splits)
next
  fix k
  have "fst (ps_slice_entries p k []) \<longleftrightarrow> dom (map_of (snd (ps_slice_entries p k []))) \<noteq> {}"
    unfolding ps_slice_entries_eq fst_conv snd_conv dom_put_all keys_filter gokeys_gorange by auto
  then show "fst (ps_slice_entries p k []) = (snd (ps_slice_entries p k []) \<noteq> [])" by simp
next
  fix k assume "fst (ps_slice_entries p k [])"
  then show "ps_exists p k"
    by (auto simp: ps_slice_entries_eq slice_key_def below_node_iff separator_def intro!: ps_below_exists)
next
  fix k k' v assume "map_of (snd (ps_slice_entries p k [])) k' = Some v"
  then show "ps_value p k' = Some v \<and> (\<exists>r. k' = k @ CHR ''['' # r)"
    by (auto simp: map_of_ps_slice ps_value_def slice_key_def split: if_splits)
next
  fix c k assume "c \<in> snd (ps_map_keys p k {})"
  then show "ps_exists p (child_key k c)"
    by (auto simp: ps_map_keys_eq ps_exists_iff dest!: child_of_Some)
next
  fix k c r v assume "ps_value p (k @ c # r) = Some v" and "separator c"
  then show "ps_exists p k" using ps_below_exists ps_value_key by (metis below_node_iff)
qed

section \<open>\<open>PrefixedStorage\<close>\<close>

definition unprefix_step :: "string \<Rightarrow> string \<times> string \<Rightarrow> props \<Rightarrow> props" where
  "unprefix_step pfx kv result =
     (case cut_prefix (fst kv) pfx of
        Some str \<Rightarrow> AList.update str (snd kv) result
      | None \<Rightarrow> result)"

definition prefixed_slice_entries :: "storage \<Rightarrow> string \<Rightarrow> string \<Rightarrow> props \<Rightarrow> bool \<times> props" where
  "prefixed_slice_entries s pfx key result =
     (let (found, m) = st_slice_entries s (pfx @ key) []
      in if \<not> found then (False, result)
         else (True, fold (unprefix_step pfx) (gorange m) result))"

definition prefixed_storage :: "storage \<Rightarrow> string \<Rightarrow> storage" where
  "prefixed_storage s pfx =
     \<lparr>st_exists = (\<lambda>key. st_exists s (pfx @ key)),
      st_value = (\<lambda>key. st_value s (pfx @ key)),
      st_map_keys = (\<lambda>key. st_map_keys s (pfx @ key)),
      st_slice_entries = prefixed_slice_entries s pfx\<rparr>"

lemma pfx_sel [simp]:
  "st_exists (prefixed_storage s pfx) k = st_exists s (pfx @ k)"
  "st_value (prefixed_storage s pfx) k = st_value s (pfx @ k)"
  "st_map_keys (prefixed_storage s pfx) k = st_map_keys s (pfx @ k)"
  "st_slice_entries (prefixed_storage s pfx) = prefixed_slice_entries s pfx"
  by (simp_all add: prefixed_storage_def)

lemma map_of_unprefix:
  "gomap_wf m \<Longrightarrow> map_of (fold (unprefix_step pfx) m result) k =
     (case map_of m (pfx @ k) of Some v \<Rightarrow> Some v | None \<Rightarrow> map_of result k)"
proof (induction m arbitrary: result)
  case (Cons kv m)
  obtain a b where kv: "kv = (a, b)" by (cases kv)
  have wf: "gomap_wf m" and new: "map_of m a = None"
    using Cons.prems by (auto simp: gomap_wf_def kv map_of_eq_None_iff)
  show ?case
  proof (cases "cut_prefix a pfx")
    case None
    then have "a \<noteq> pfx @ k" using cut_prefix_append [of pfx k] by (metis option.distinct(1))
    with Cons.IH [OF wf] None kv show ?thesis by (simp add: unprefix_step_def)
  next
    case (Some str)
    then have "a = pfx @ str" by (simp add: cut_prefix_Some_iff)
    with Cons.IH [OF wf] kv new show ?thesis by (auto simp: unprefix_step_def split: option.splits)
  qed
qed simp

text \<open>
  A prefixed storage keeps the general contract of the storage it wraps. It does not keep
  \<open>mapped_storage\<close>: with a prefix that ends in a dot, \<open>MapKeys\<close> of the empty key asks
  the wrapped storage for the children of a node whose name ends in a dot.
\<close>

locale prefixed_over = storage_laws +
  fixes pfx :: string
begin

lemma map_of_prefixed_slice:
  "map_of (snd (prefixed_slice_entries s pfx k out)) k' =
     (case map_of (snd (st_slice_entries s (pfx @ k) [])) (pfx @ k') of
        Some v \<Rightarrow> Some v | None \<Rightarrow> map_of out k')"
  using slice_found [of "pfx @ k"]
  by (cases "st_slice_entries s (pfx @ k) []")
     (auto simp: prefixed_slice_entries_def map_of_unprefix)

lemma prefixed_slice_fst:
  "fst (prefixed_slice_entries s pfx k out) = fst (st_slice_entries s (pfx @ k) [])"
  by (auto simp: prefixed_slice_entries_def split: prod.splits)

lemma prefixed_slice_found:
  "fst (prefixed_slice_entries s pfx k []) \<longleftrightarrow> snd (prefixed_slice_entries s pfx k []) \<noteq> []"
proof
  assume "fst (prefixed_slice_entries s pfx k [])"
  then have "snd (st_slice_entries s (pfx @ k) []) \<noteq> []"
    by (simp add: prefixed_slice_fst slice_found)
  then obtain kk v where kv: "map_of (snd (st_slice_entries s (pfx @ k) [])) kk = Some v"
    by (metis map_of_eq_empty_iff not_None_eq)
  then obtain r where "kk = (pfx @ k) @ CHR ''['' # r" using slice_value by blast
  with kv have "map_of (snd (prefixed_slice_entries s pfx k [])) (k @ CHR ''['' # r) = Some v"
    by (simp add: map_of_prefixed_slice)
  then show "snd (prefixed_slice_entries s pfx k []) \<noteq> []" by auto
qed (auto simp: prefixed_slice_entries_def split: prod.splits if_splits)

end

sublocale prefixed_over \<subseteq> pfxd: storage_laws "prefixed_storage s pfx"
proof (unfold_locales, unfold pfx_sel)
  fix k v assume "st_value s (pfx @ k) = Some v"
  then show "st_exists s (pfx @ k)" by (rule value_exists)
next
  fix k acc
  show "st_map_keys s (pfx @ k) acc =
      (fst (st_map_keys s (pfx @ k) {}), acc \<union> snd (st_map_keys s (pfx @ k) {}))"
    by (rule map_keys_acc)
next
  fix k show "fst (st_map_keys s (pfx @ k) {}) = (snd (st_map_keys s (pfx @ k) {}) \<noteq> {})"
    by (rule map_keys_found)
next
  fix k :: string assume "k \<noteq> []" and "fst (st_map_keys s (pfx @ k) {})"
  then show "st_exists s (pfx @ k)" by (intro map_keys_exists) auto
next
  fix c k assume "c \<in> snd (st_map_keys s (pfx @ k) {})"
  then show "\<forall>x \<in> set c. \<not> separator x" by (rule map_keys_plain)
next
  fix k out
  show "fst (prefixed_slice_entries s pfx k out) = fst (prefixed_slice_entries s pfx k [])"
    by (simp add: prefixed_slice_fst)
next
  fix k out
  show "map_of (snd (prefixed_slice_entries s pfx k out)) =
      map_of out ++ map_of (snd (prefixed_slice_entries s pfx k []))"
    by (rule ext) (simp add: map_of_prefixed_slice map_add_def split: option.splits)
next
  fix k show "fst (prefixed_slice_entries s pfx k []) = (snd (prefixed_slice_entries s pfx k []) \<noteq> [])"
    by (rule prefixed_slice_found)
next
  fix k assume "fst (prefixed_slice_entries s pfx k [])"
  then show "st_exists s (pfx @ k)" by (simp add: prefixed_slice_fst slice_exists)
next
  fix k k' v assume "map_of (snd (prefixed_slice_entries s pfx k [])) k' = Some v"
  then have "map_of (snd (st_slice_entries s (pfx @ k) [])) (pfx @ k') = Some v"
    by (simp add: map_of_prefixed_slice split: option.splits)
  then show "st_value s (pfx @ k') = Some v \<and> (\<exists>r. k' = k @ CHR ''['' # r)"
    using slice_value by force
qed

interpretation pps: prefixed_over "properties_storage p" pfx for p pfx
  by unfold_locales

section \<open>Properties\<close>

text \<open>Witness data: a list with two entries below a map node.\<close>

definition sample_props :: properties where
  "sample_props = \<lparr>pr_data = [(''a.b[0]'', ''x''), (''a.c'', ''y''), (''a.b[1]'', ''z'')]\<rparr>"

text \<open>The order in which Go ranges over the map cannot be observed through a
  storage. Two property maps with the same lookups answer every query alike: existence,
  leaf values, collected child keys, and the collected slice entries read as a map.\<close>

theorem ps_range_order:
  assumes "map_of (pr_data p) = map_of (pr_data q)"
  shows "ps_value p = ps_value q \<and> ps_exists p = ps_exists q \<and> ps_map_keys p = ps_map_keys q \<and>
    (\<forall>key out. fst (ps_slice_entries p key out) = fst (ps_slice_entries q key out) \<and>
       map_of (snd (ps_slice_entries p key out)) = map_of (snd (ps_slice_entries q key out)))"
proof -
  from assms have dom: "fst ` set (pr_data p) = fst ` set (pr_data q)"
    by (metis dom_map_of_conv_image_fst)
  have "ps_value p = ps_value q" by (rule ext) (simp add: ps_value_def assms)
  moreover have "ps_exists p = ps_exists q" by (rule ext) (simp add: ps_exists_iff dom)
  moreover have "ps_map_keys p = ps_map_keys q" by (intro ext) (simp add: ps_map_keys_eq dom)
  moreover have "fst (ps_slice_entries p key out) = fst (ps_slice_entries q key out)" for key out
    by (simp add: ps_slice_entries_eq dom)
  moreover have "map_of (snd (ps_slice_entries p key out)) = map_of (snd (ps_slice_entries q key out))"
    for key out by (rule ext) (auto simp: map_of_ps_slice assms)
  ultimately show ?thesis by blast
qed

lemma ps_range_order_witness:
  "ps_map_keys sample_props = ps_map_keys \<lparr>pr_data = rev (pr_data sample_props)\<rparr>"
proof -
  have "map_of (pr_data sample_props) = map_of (pr_data \<lparr>pr_data = rev (pr_data sample_props)\<rparr>)"
    by (rule ext) (simp add: sample_props_def)
  from ps_range_order [OF this] show ?thesis by blast
qed

end
