(* ===== verification/GsResolving.thy ===== *)
theory GsResolving
  imports GsBean FlatStore
begin

text \<open>
  \<open>spring/gs/internal/gs_core/resolving/resolving.go\<close> and \<open>gs_init/init.go\<close>: the container
  that decides which beans exist. A pointer to a bean is its index in the container, so
  the state conditions run on is the list of beans. \<open>resolveBean\<close> calls the conditions,
  which call \<open>Find\<close>, which calls \<open>resolveBean\<close>: the recursion carries a fuel, \<open>None\<close> is
  fuel spent, and one more than the number of beans is shown to be enough.
\<close>

section \<open>The container\<close>

datatype refresh_state = RefreshDefault | RefreshPrepare | Refreshing | Refreshed

primrec refresh_num :: "refresh_state \<Rightarrow> nat" where
  "refresh_num RefreshDefault = 0"
| "refresh_num RefreshPrepare = 1"
| "refresh_num Refreshing = 2"
| "refresh_num Refreshed = 3"

lemma refresh_num_inject [simp]: "refresh_num a = refresh_num b \<longleftrightarrow> a = b"
  by (cases a; cases b) simp_all

instantiation refresh_state :: linorder
begin

definition less_eq_refresh_state :: "refresh_state \<Rightarrow> refresh_state \<Rightarrow> bool" where
  "less_eq_refresh_state a b \<longleftrightarrow> refresh_num a \<le> refresh_num b"

definition less_refresh_state :: "refresh_state \<Rightarrow> refresh_state \<Rightarrow> bool" where
  "less_refresh_state a b \<longleftrightarrow> refresh_num a < refresh_num b"

instance
  by standard (auto simp: less_eq_refresh_state_def less_refresh_state_def)

end

record 'v resolving =
  rv_state :: refresh_state
  rv_beans :: "'v bean list"

definition new_resolving :: "'v resolving" where
  "new_resolving = \<lparr>rv_state = RefreshDefault, rv_beans = []\<rparr>"

definition active_beans :: "'v bean list \<Rightarrow> 'v bean list" where
  "active_beans bs = filter (\<lambda>b. bd_status b \<noteq> StatusDeleted) bs"

text \<open>What \<open>reflect\<close>, \<open>regexp\<close> and the expression engine provide.\<close>

record 'v go_method =
  gm_name :: string
  gm_func_name :: string
  gm_func :: "'v func"
  gm_file :: string
  gm_line :: nat

record 'v go_env =
  ge_types :: types
  ge_ptr_to :: "rtype \<Rightarrow> rtype"
  ge_methods :: "rtype \<Rightarrow> 'v go_method list"
  ge_regexp :: "string \<Rightarrow> (string \<Rightarrow> bool) option"
  ge_expr :: "string \<Rightarrow> string \<Rightarrow> (string, bool) result"

datatype rv_error =
    RvPanic go_panic
  | AlreadyRefreshing
  | ModuleCondFailed string cond_error
  | ModuleFailed string string
  | BadPattern string string
  | ResolveFailed cond_error
  | DuplicateBeans string string

text \<open>An object registered through \<open>Provide\<close>, and what the caller does with the definition.\<close>

record 'v provision =
  pv_obj :: "'v obj"
  pv_args :: "'v arg list"
  pv_file :: string
  pv_line :: nat
  pv_configure :: "'v bean \<Rightarrow> (go_panic, 'v bean) result"

definition provide :: "'v go_env \<Rightarrow> 'v provision \<Rightarrow> 'v resolving \<Rightarrow> (go_panic, 'v resolving) result" where
  "provide env pv c =
     (if rv_state c \<ge> Refreshing then Inl (PanicMsg ''container is already refreshing or refreshed'')
      else
        rbind (new_bean (ge_types env) (ge_ptr_to env) (\<lambda>i. bean_id_of (rv_beans c ! i)) (pv_obj pv) (pv_args pv))
          (\<lambda>b. rbind (pv_configure pv (set_file_line (pv_file pv) (pv_line pv) b))
            (\<lambda>b. Inr (c\<lparr>rv_beans := rv_beans c @ [b]\<rparr>))))"

section \<open>Conditions on the container\<close>

definition is_bean_matched :: "bean_id \<Rightarrow> 'v bean \<Rightarrow> bool" where
  "is_bean_matched sel b =
     (if bid_name sel \<noteq> [] \<and> bid_name sel \<noteq> bd_name b then False
      else case bid_type sel of
             None \<Rightarrow> True
           | Some t \<Rightarrow> t = bd_type b \<or> t \<in> set (bd_exports b))"

definition put_status :: "nat \<Rightarrow> bean_status \<Rightarrow> 'v bean list \<Rightarrow> 'v bean list" where
  "put_status i st bs = bs[i := set_status st (bs ! i)]"

type_synonym ('v, 'a) bean_run = "('v bean list, cond_error, 'a) srun"

primrec find_loop ::
  "(nat \<Rightarrow> 'v bean list \<Rightarrow> ('v, unit) bean_run) \<Rightarrow> bean_id \<Rightarrow> nat list \<Rightarrow> bean_id list \<Rightarrow>
     'v bean list \<Rightarrow> ('v, bean_id list) bean_run" where
  "find_loop res sel [] found bs = Some (Inr found, bs)"
| "find_loop res sel (i # is) found bs =
     (if bd_status (bs ! i) = StatusResolving \<or> bd_status (bs ! i) = StatusDeleted
      then find_loop res sel is found bs
      else if \<not> is_bean_matched sel (bs ! i) then find_loop res sel is found bs
      else sbind (smap_err (FindFailed sel) (res i bs)) (\<lambda>_ bs.
             if bd_status (bs ! i) = StatusDeleted then find_loop res sel is found bs
             else find_loop res sel is (found @ [bean_id_of (bs ! i)]) bs))"

text \<open>\<open>ConditionContext\<close>: configuration questions go to the storage, beans to the container.\<close>

definition bean_ctx ::
  "'v go_env \<Rightarrow> storage \<Rightarrow> (nat \<Rightarrow> 'v bean list \<Rightarrow> ('v, unit) bean_run) \<Rightarrow> 'v bean list cond_ctx" where
  "bean_ctx env p res =
     \<lparr>cx_has = st_exists p, cx_prop = st_value p,
      cx_find = (\<lambda>sel bs. find_loop res sel [0..<length bs] [] bs), cx_eval_expr = ge_expr env\<rparr>"

primrec run_conds ::
  "'v bean list cond_ctx \<Rightarrow> nat \<Rightarrow> cond list \<Rightarrow> 'v bean list \<Rightarrow> ('v, unit) bean_run" where
  "run_conds ctx i [] bs = Some (Inr (), put_status i StatusResolved bs)"
| "run_conds ctx i (c # cs) bs =
     sbind (smap_err (BeanCondFailed (bean_string (bs ! i))) (matches ctx c bs))
       (\<lambda>ok bs. if ok then run_conds ctx i cs bs else Some (Inr (), put_status i StatusDeleted bs))"

primrec resolve_bean ::
  "'v go_env \<Rightarrow> storage \<Rightarrow> nat \<Rightarrow> nat \<Rightarrow> 'v bean list \<Rightarrow> ('v, unit) bean_run" where
  "resolve_bean env p 0 i bs = None"
| "resolve_bean env p (Suc n) i bs =
     (if bd_status (bs ! i) \<ge> StatusResolving then Some (Inr (), bs)
      else run_conds (bean_ctx env p (resolve_bean env p n)) i (bd_conditions (bs ! i))
             (put_status i StatusResolving bs))"

definition resolve_fuel :: "'v bean list \<Rightarrow> nat" where
  "resolve_fuel bs = length bs + 1"

primrec resolve_loop ::
  "'v go_env \<Rightarrow> storage \<Rightarrow> nat list \<Rightarrow> 'v bean list \<Rightarrow> ('v, unit) bean_run" where
  "resolve_loop env p [] bs = Some (Inr (), bs)"
| "resolve_loop env p (i # is) bs =
     sbind (smap_err (BeanResolveFailed (bean_string (bs ! i))) (resolve_bean env p (resolve_fuel bs) i bs))
       (\<lambda>_ bs. resolve_loop env p is bs)"

definition resolve_beans :: "'v go_env \<Rightarrow> storage \<Rightarrow> 'v bean list \<Rightarrow> ('v, unit) bean_run" where
  "resolve_beans env p bs = resolve_loop env p [0..<length bs] bs"

section \<open>Modules\<close>

text \<open>
  A module function provides beans and may then fail. The registries of \<open>gs_init\<close> are
  passed by value, as \<open>Beans\<close> hands them out under test.
\<close>

record 'v module_def =
  md_condition :: "cond option"
  md_provides :: "storage \<Rightarrow> 'v provision list"
  md_error :: "storage \<Rightarrow> string option"
  md_file_line :: string

record 'v registry =
  gi_modules :: "'v module_def list"
  gi_beans :: "'v bean list"

definition add_bean :: "'v bean \<Rightarrow> 'v registry \<Rightarrow> 'v registry" where
  "add_bean b g = g\<lparr>gi_beans := gi_beans g @ [b]\<rparr>"

definition add_module ::
  "cond option \<Rightarrow> (storage \<Rightarrow> 'v provision list) \<Rightarrow> (storage \<Rightarrow> string option) \<Rightarrow> string \<Rightarrow> nat \<Rightarrow>
     'v registry \<Rightarrow> 'v registry" where
  "add_module c provides err file line g =
     g\<lparr>gi_modules := gi_modules g @
        [\<lparr>md_condition = c, md_provides = provides, md_error = err, md_file_line = file @ '':'' @ show_nat line\<rparr>]\<rparr>"

definition clear_registry :: "'v registry \<Rightarrow> 'v registry" where
  "clear_registry g = g\<lparr>gi_modules := [], gi_beans := []\<rparr>"

primrec provide_all ::
  "'v go_env \<Rightarrow> 'v provision list \<Rightarrow> 'v resolving \<Rightarrow> ('v resolving, rv_error, unit) srun" where
  "provide_all env [] c = Some (Inr (), c)"
| "provide_all env (pv # pvs) c =
     (case provide env pv c of Inl e \<Rightarrow> Some (Inl (RvPanic e), c) | Inr c \<Rightarrow> provide_all env pvs c)"

definition run_module ::
  "'v go_env \<Rightarrow> storage \<Rightarrow> 'v module_def \<Rightarrow> 'v resolving \<Rightarrow> ('v resolving, rv_error, unit) srun" where
  "run_module env p m c =
     sbind (provide_all env (md_provides m p) c)
       (\<lambda>_ c. Some (case md_error m p of None \<Rightarrow> Inr () | Some e \<Rightarrow> Inl (ModuleFailed (md_file_line m) e), c))"

definition on_beans ::
  "('v bean list, 'e, 'a) srun \<Rightarrow> 'v resolving \<Rightarrow> ('v resolving, 'e, 'a) srun" where
  "on_beans r c = map_option (\<lambda>(r, bs). (r, c\<lparr>rv_beans := bs\<rparr>)) r"

definition apply_module ::
  "'v go_env \<Rightarrow> storage \<Rightarrow> 'v module_def \<Rightarrow> 'v resolving \<Rightarrow> ('v resolving, rv_error, unit) srun" where
  "apply_module env p m c =
     (case md_condition m of
        None \<Rightarrow> run_module env p m c
      | Some cond \<Rightarrow>
          sbind (smap_err (ModuleCondFailed (md_file_line m)) (on_beans
                  (matches (bean_ctx env p (resolve_bean env p (resolve_fuel (rv_beans c)))) cond (rv_beans c)) c))
            (\<lambda>ok c. if ok then run_module env p m c else Some (Inr (), c)))"

primrec apply_modules ::
  "'v go_env \<Rightarrow> storage \<Rightarrow> 'v module_def list \<Rightarrow> 'v resolving \<Rightarrow> ('v resolving, rv_error, unit) srun" where
  "apply_modules env p [] c = Some (Inr (), c)"
| "apply_modules env p (m # ms) c = sbind (apply_module env p m c) (\<lambda>_ c. apply_modules env p ms c)"

section \<open>Configuration beans\<close>

definition compile_patterns ::
  "'v go_env \<Rightarrow> string list \<Rightarrow> (string, (string \<Rightarrow> bool) list) result" where
  "compile_patterns env ps =
     rfold (\<lambda>acc s. case ge_regexp env s of None \<Rightarrow> Inl s | Some rx \<Rightarrow> Inr (acc @ [rx])) [] ps"

definition method_bean :: "'v go_env \<Rightarrow> nat \<Rightarrow> 'v bean \<Rightarrow> 'v go_method \<Rightarrow> (go_panic, 'v bean) result" where
  "method_bean env i bd m =
     rbind (new_bean (ge_types env) (ge_ptr_to env) (\<lambda>_. bean_id_of bd)
              (FuncObj (gm_func_name m) False (gm_func m)) [BeanArg i (bd_name bd)])
       (\<lambda>b. rbind (add_conditions [Some (OnBean (bean_id_of bd))] (set_name (bd_name bd @ ''_'' @ gm_name m) b))
         (\<lambda>b. Inr (set_file_line (gm_file m) (gm_line m) b)))"

definition scan_configuration ::
  "'v go_env \<Rightarrow> nat \<Rightarrow> 'v bean \<Rightarrow> configuration \<Rightarrow> (rv_error, 'v bean list) result" where
  "scan_configuration env i bd param =
     (let bad = map_err (\<lambda>s. BadPattern (bean_string bd) s)
      in rbind (bad (compile_patterns env (if cf_includes param = [] then [''New.*''] else cf_includes param)))
          (\<lambda>includes. rbind (bad (compile_patterns env (cf_excludes param)))
            (\<lambda>excludes.
               rfold (\<lambda>children m.
                 if list_ex (\<lambda>rx. rx (gm_name m)) excludes then Inr children
                 else if list_ex (\<lambda>rx. rx (gm_name m)) includes
                 then rbind (map_err RvPanic (method_bean env i bd m)) (\<lambda>b. Inr (children @ [b]))
                 else Inr children) [] (ge_methods env (bd_type bd)))))"

text \<open>The loop runs over the beans there were at its start.\<close>

primrec scan_loop :: "'v go_env \<Rightarrow> nat list \<Rightarrow> 'v bean list \<Rightarrow> ('v bean list, rv_error, unit) srun" where
  "scan_loop env [] bs = Some (Inr (), bs)"
| "scan_loop env (i # is) bs =
     (case bd_configuration (bs ! i) of
        None \<Rightarrow> scan_loop env is bs
      | Some param \<Rightarrow>
          (case scan_configuration env i (bs ! i) param of
             Inl e \<Rightarrow> Some (Inl e, bs)
           | Inr children \<Rightarrow> scan_loop env is (bs @ children)))"

definition scan_configurations :: "'v go_env \<Rightarrow> 'v bean list \<Rightarrow> ('v bean list, rv_error, unit) srun" where
  "scan_configurations env bs = scan_loop env [0..<length bs] bs"

section \<open>Duplicates and refresh\<close>

definition bean_ids :: "'v bean \<Rightarrow> bean_id list" where
  "bean_ids b = map (\<lambda>t. \<lparr>bid_type = Some t, bid_name = bd_name b\<rparr>) (bd_exports b @ [bd_type b])"

definition check_bean ::
  "(bean_id, 'v bean) gomap \<Rightarrow> 'v bean \<Rightarrow> (rv_error, (bean_id, 'v bean) gomap) result" where
  "check_bean m b =
     rfold (\<lambda>m k. case map_of m k of
                     Some d \<Rightarrow> Inl (DuplicateBeans (bean_string b) (bean_string d))
                   | None \<Rightarrow> Inr (AList.update k b m)) m (bean_ids b)"

definition check_duplicate_beans :: "'v bean list \<Rightarrow> (rv_error, (bean_id, 'v bean) gomap) result" where
  "check_duplicate_beans bs =
     rfold (\<lambda>m b. if bd_status b = StatusDeleted then Inr m else check_bean m b) [] bs"

text \<open>Merging puts the global beans in front, which moves the pointers to the others.\<close>

fun shift_arg :: "nat \<Rightarrow> 'v arg \<Rightarrow> 'v arg" where
  "shift_arg k (BeanArg b name) = BeanArg (b + k) name"
| "shift_arg k (IndexArg i a) = IndexArg i (shift_arg k a)"
| "shift_arg k (BindArg f args cs fl) = BindArg f (map (shift_arg k) args) cs fl"
| "shift_arg k a = a"

definition shift_bean :: "nat \<Rightarrow> 'v bean \<Rightarrow> 'v bean" where
  "shift_bean k b = b\<lparr>bd_callable := map_option (map_prod id (map (shift_arg k))) (bd_callable b)\<rparr>"

definition merge_beans :: "'v bean list \<Rightarrow> 'v bean list \<Rightarrow> 'v bean list" where
  "merge_beans globals bs = globals @ map (shift_bean (length globals)) bs"

definition refresh ::
  "'v go_env \<Rightarrow> 'v registry \<Rightarrow> storage \<Rightarrow> 'v resolving \<Rightarrow> ('v resolving, rv_error, unit) srun" where
  "refresh env g p c =
     (if rv_state c \<noteq> RefreshDefault then Some (Inl AlreadyRefreshing, c)
      else
        let c = c\<lparr>rv_state := RefreshPrepare, rv_beans := merge_beans (gi_beans g) (rv_beans c)\<rparr>
        in sbind (apply_modules env p (gi_modules g) c) (\<lambda>_ c.
           let c = c\<lparr>rv_state := Refreshing\<rparr>
           in sbind (on_beans (scan_configurations env (rv_beans c)) c) (\<lambda>_ c.
              sbind (smap_err ResolveFailed (on_beans (resolve_beans env p (rv_beans c)) c)) (\<lambda>_ c.
              sbind (Some (check_duplicate_beans (rv_beans c), c)) (\<lambda>_ c.
                Some (Inr (), c\<lparr>rv_state := Refreshed\<rparr>))))))"

section \<open>What resolving may change\<close>

text \<open>Only statuses change, and none returns to the default.\<close>

definition evolves :: "'v bean list \<Rightarrow> 'v bean list \<Rightarrow> bool" where
  "evolves bs bs' \<longleftrightarrow> length bs' = length bs \<and>
     (\<forall>i < length bs. \<exists>st. bs' ! i = set_status st (bs ! i) \<and>
        (bd_status (bs ! i) \<noteq> StatusDefault \<longrightarrow> st \<noteq> StatusDefault))"

definition undecided :: "'v bean list \<Rightarrow> nat" where
  "undecided bs = card {i. i < length bs \<and> bd_status (bs ! i) = StatusDefault}"

lemma set_status_simps [simp]:
  "bd_status (set_status st b) = st" "bd_conditions (set_status st b) = bd_conditions b"
  "bd_name (set_status st b) = bd_name b" "bd_type (set_status st b) = bd_type b"
  "bd_exports (set_status st b) = bd_exports b" "bd_file_line (set_status st b) = bd_file_line b"
  "set_status st (set_status st' b) = set_status st b"
  "bean_id_of (set_status st b) = bean_id_of b" "bean_string (set_status st b) = bean_string b"
  "is_bean_matched sel (set_status st b) = is_bean_matched sel b"
  "bean_ids (set_status st b) = bean_ids b"
  by (auto simp: set_status_def bean_id_of_def bean_string_def is_bean_matched_def bean_ids_def
        split: option.split)

lemma set_status_id: "set_status (bd_status b) b = b"
  by (simp add: set_status_def)

lemma length_put_status [simp]: "length (put_status i st bs) = length bs"
  by (simp add: put_status_def)

lemma put_status_nth: "i < length bs \<Longrightarrow> put_status i st bs ! j = (if i = j then set_status st (bs ! i) else bs ! j)"
  by (simp add: put_status_def nth_list_update)

lemma evolves_refl: "evolves bs bs"
  unfolding evolves_def by (auto intro: set_status_id [symmetric])

lemma evolves_trans: "evolves as bs \<Longrightarrow> evolves bs cs \<Longrightarrow> evolves as cs"
  unfolding evolves_def by fastforce

lemma evolves_put: "st \<noteq> StatusDefault \<Longrightarrow> evolves bs (put_status i st bs)"
  unfolding evolves_def
proof (intro conjI allI impI)
  fix j assume st: "st \<noteq> StatusDefault" and j: "j < length bs"
  show "\<exists>st'. put_status i st bs ! j = set_status st' (bs ! j) \<and>
      (bd_status (bs ! j) \<noteq> StatusDefault \<longrightarrow> st' \<noteq> StatusDefault)"
  proof (cases "i = j")
    case True
    with st j show ?thesis by (auto simp: put_status_nth)
  next
    case False
    with j have "put_status i st bs ! j = set_status (bd_status (bs ! j)) (bs ! j)"
      by (simp add: put_status_def set_status_id)
    then show ?thesis by blast
  qed
qed simp

lemma evolves_put_right: "evolves as bs \<Longrightarrow> st \<noteq> StatusDefault \<Longrightarrow> evolves as (put_status i st bs)"
  using evolves_put evolves_trans by blast

lemma evolves_length: "evolves as bs \<Longrightarrow> length bs = length as"
  by (simp add: evolves_def)

lemma evolves_nth:
  assumes "evolves as bs" and "i < length as"
  shows "bd_conditions (bs ! i) = bd_conditions (as ! i)" "bean_id_of (bs ! i) = bean_id_of (as ! i)"
    "is_bean_matched sel (bs ! i) = is_bean_matched sel (as ! i)" "bean_ids (bs ! i) = bean_ids (as ! i)"
    "bd_status (as ! i) \<noteq> StatusDefault \<Longrightarrow> bd_status (bs ! i) \<noteq> StatusDefault"
proof -
  from assms obtain st where "bs ! i = set_status st (as ! i)"
    and "bd_status (as ! i) \<noteq> StatusDefault \<longrightarrow> st \<noteq> StatusDefault"
    unfolding evolves_def by blast
  then show "bd_conditions (bs ! i) = bd_conditions (as ! i)" "bean_id_of (bs ! i) = bean_id_of (as ! i)"
    "is_bean_matched sel (bs ! i) = is_bean_matched sel (as ! i)" "bean_ids (bs ! i) = bean_ids (as ! i)"
    "bd_status (as ! i) \<noteq> StatusDefault \<Longrightarrow> bd_status (bs ! i) \<noteq> StatusDefault" by simp_all
qed

lemma undecided_mono: "evolves bs bs' \<Longrightarrow> undecided bs' \<le> undecided bs"
  unfolding undecided_def
  by (rule card_mono) (use evolves_length evolves_nth(5) in fastforce)+

lemma undecided_put:
  "i < length bs \<Longrightarrow> bd_status (bs ! i) = StatusDefault \<Longrightarrow> st \<noteq> StatusDefault \<Longrightarrow>
     undecided (put_status i st bs) < undecided bs"
  unfolding undecided_def by (rule psubset_card_mono) (auto simp: put_status_nth split: if_splits)

lemma undecided_less_length: "i < length bs \<Longrightarrow> bd_status (bs ! i) \<noteq> StatusDefault \<Longrightarrow> undecided bs < length bs"
  unfolding undecided_def
  by (rule order.strict_trans2 [OF psubset_card_mono [of "{..<length bs}"]]) auto

lemma undecided_le_length: "undecided bs \<le> length bs"
  unfolding undecided_def by (rule order_trans [OF card_mono [of "{..<length bs}"]]) auto

lemma find_loop_evolves:
  assumes "\<And>i bs r bs'. res i bs = Some (r, bs') \<Longrightarrow> evolves bs bs'"
  shows "find_loop res sel is found bs = Some (r, bs') \<Longrightarrow> evolves bs bs'"
proof (induction "is" arbitrary: found bs)
  case (Cons i "is")
  show ?case
  proof (cases "bd_status (bs ! i) = StatusResolving \<or> bd_status (bs ! i) = StatusDeleted \<or> \<not> is_bean_matched sel (bs ! i)")
    case True
    with Cons show ?thesis by (simp split: if_splits)
  next
    case False
    with Cons.prems obtain q t where q: "res i bs = Some (q, t)"
      and rest: "(\<exists>e. q = Inl e \<and> bs' = t) \<or> (\<exists>fd. find_loop res sel is fd t = Some (r, bs'))"
      by (auto simp: sbind_smap_Some_iff split: if_splits)
    from assms [OF q] rest Cons.IH evolves_trans show ?thesis by blast
  qed
qed (simp add: evolves_refl)

lemma bean_ctx_cond_context:
  assumes "\<And>i bs r bs'. res i bs = Some (r, bs') \<Longrightarrow> evolves bs bs'"
  shows "cond_context (bean_ctx env p res) evolves"
proof
  show "evolves s s'" if "cx_find (bean_ctx env p res) b s = Some (r, s')" for b s r s'
    using that find_loop_evolves [OF assms] by (simp add: bean_ctx_def)
qed (rule evolves_refl, erule evolves_trans)

lemma run_conds_evolves:
  assumes "cond_context ctx evolves"
  shows "run_conds ctx i cs bs = Some (r, bs') \<Longrightarrow> evolves bs bs'"
proof (induction cs arbitrary: bs)
  case (Cons c cs)
  then obtain q t where q: "matches ctx c bs = Some (q, t)"
    and rest: "bs' = t \<or> bs' = put_status i StatusDeleted t \<or> run_conds ctx i cs t = Some (r, bs')"
    by (auto simp: sbind_smap_Some_iff split: if_splits)
  have t: "evolves bs t" by (rule cond_context.matches_le [OF assms q])
  with rest Cons.IH evolves_put_right evolves_trans show ?case by blast
qed (auto simp: evolves_put)

lemma resolve_bean_evolves: "resolve_bean env p n i bs = Some (r, bs') \<Longrightarrow> evolves bs bs'"
proof (induction n arbitrary: i bs r bs')
  case (Suc n)
  show ?case
  proof (cases "bd_status (bs ! i) \<ge> StatusResolving")
    case False
    with Suc.prems have "run_conds (bean_ctx env p (resolve_bean env p n)) i (bd_conditions (bs ! i))
        (put_status i StatusResolving bs) = Some (r, bs')" by simp
    then have "evolves (put_status i StatusResolving bs) bs'"
      by (rule run_conds_evolves [OF bean_ctx_cond_context, rotated]) (rule Suc.IH)
    with evolves_put evolves_trans show ?thesis by blast
  qed (use Suc.prems evolves_refl in auto)
qed simp

interpretation resolving: cond_context "bean_ctx env p (resolve_bean env p n)" evolves for env p n
  by (rule bean_ctx_cond_context) (rule resolve_bean_evolves)

section \<open>Resolving returns\<close>

lemma find_loop_returns:
  assumes "\<And>i bs r bs'. res i bs = Some (r, bs') \<Longrightarrow> evolves bs bs'"
    and "\<And>i bs. i < length bs \<Longrightarrow> bd_status (bs ! i) \<noteq> StatusDeleted \<Longrightarrow> undecided bs < n \<Longrightarrow> res i bs \<noteq> None"
  shows "undecided bs < n \<Longrightarrow> set is \<subseteq> {..<length bs} \<Longrightarrow> find_loop res sel is found bs \<noteq> None"
proof (induction "is" arbitrary: found bs)
  case (Cons i "is")
  show ?case
  proof (cases "bd_status (bs ! i) = StatusResolving \<or> bd_status (bs ! i) = StatusDeleted \<or> \<not> is_bean_matched sel (bs ! i)")
    case True
    with Cons show ?thesis by auto
  next
    case False
    with assms(2) [of i bs] Cons.prems obtain q t where q: "res i bs = Some (q, t)" by fastforce
    then have t: "evolves bs t" by (rule assms(1))
    with Cons.prems undecided_mono evolves_length have
      "undecided t < n" "set is \<subseteq> {..<length t}" by fastforce+
    then have "find_loop res sel is fd t \<noteq> None" for fd by (rule Cons.IH)
    with False q show ?thesis by (cases q) (simp_all add: smap_err_def)
  qed
qed simp

lemma run_conds_returns:
  assumes "returning_context ctx evolves ready"
  shows "ready bs \<Longrightarrow> run_conds ctx i cs bs \<noteq> None"
proof (induction cs arbitrary: bs)
  case (Cons c cs)
  obtain q t where q: "matches ctx c bs = Some (q, t)"
    using returning_context.matches_returns [OF assms Cons.prems, of c] by fastforce
  have "ready t" using assms Cons.prems cond_context.matches_le [OF _ q]
    by (auto simp: returning_context_def returning_context_axioms_def)
  with Cons.IH have "run_conds ctx i cs t \<noteq> None" .
  with q show ?case by (cases q) (simp_all add: smap_err_def)
qed simp

lemma bean_ctx_returning_context:
  assumes "\<And>i bs r bs'. res i bs = Some (r, bs') \<Longrightarrow> evolves bs bs'"
    and "\<And>i bs. i < length bs \<Longrightarrow> bd_status (bs ! i) \<noteq> StatusDeleted \<Longrightarrow> undecided bs < n \<Longrightarrow> res i bs \<noteq> None"
  shows "returning_context (bean_ctx env p res) evolves (\<lambda>bs. undecided bs < n)"
proof -
  have "cond_context (bean_ctx env p res) evolves" by (rule bean_ctx_cond_context) (rule assms(1))
  then show ?thesis
    unfolding returning_context_def returning_context_axioms_def
    using undecided_mono find_loop_returns [OF assms]
    by (fastforce simp: bean_ctx_def lessThan_atLeast0)
qed

lemma resolve_bean_returns:
  "i < length bs \<Longrightarrow> undecided bs + (if bd_status (bs ! i) = StatusDeleted then 1 else 0) < n \<Longrightarrow>
     resolve_bean env p n i bs \<noteq> None"
proof (induction n arbitrary: i bs)
  case (Suc n)
  show ?case
  proof (cases "bd_status (bs ! i) \<ge> StatusResolving")
    case False
    let ?bs = "put_status i StatusResolving bs"
    have "undecided ?bs < n"
    proof (cases "bd_status (bs ! i) = StatusDefault")
      case True
      with undecided_put [of i bs StatusResolving] Suc.prems show ?thesis by simp
    next
      case False
      with \<open>\<not> StatusResolving \<le> bd_status (bs ! i)\<close> have "bd_status (bs ! i) = StatusDeleted"
        by (cases "bd_status (bs ! i)") (simp_all add: less_eq_bean_status_def)
      with undecided_mono [OF evolves_put [of StatusResolving bs i]] Suc.prems show ?thesis by simp
    qed
    moreover have "returning_context (bean_ctx env p (resolve_bean env p n)) evolves (\<lambda>bs. undecided bs < n)"
    proof (rule bean_ctx_returning_context)
      show "resolve_bean env p n j cs \<noteq> None"
        if "j < length cs" "bd_status (cs ! j) \<noteq> StatusDeleted" "undecided cs < n" for j cs
        using that by (intro Suc.IH) simp_all
    qed (rule resolve_bean_evolves)
    ultimately have "run_conds (bean_ctx env p (resolve_bean env p n)) i (bd_conditions (bs ! i)) ?bs \<noteq> None"
      by (intro run_conds_returns)
    with False show ?thesis by simp
  qed simp
qed simp

interpretation resolving_returns:
  returning_context "bean_ctx env p (resolve_bean env p n)" evolves "\<lambda>bs. undecided bs < n" for env p n
proof (rule bean_ctx_returning_context)
  show "resolve_bean env p n i bs \<noteq> None"
    if "i < length bs" "bd_status (bs ! i) \<noteq> StatusDeleted" "undecided bs < n" for env p n i and bs :: "'v bean list"
    using that by (intro resolve_bean_returns) simp_all
qed (rule resolve_bean_evolves)

lemma resolve_fuel_enough: "i < length bs \<Longrightarrow> resolve_bean env p (resolve_fuel bs) i bs \<noteq> None"
  by (rule resolve_bean_returns)
    (auto simp: resolve_fuel_def le_imp_less_Suc undecided_le_length undecided_less_length)

lemma resolve_loop_returns:
  "set is \<subseteq> {..<length bs} \<Longrightarrow> \<exists>r bs'. resolve_loop env p is bs = Some (r, bs') \<and> evolves bs bs'"
proof (induction "is" arbitrary: bs)
  case (Cons i "is")
  then obtain q t where q: "resolve_bean env p (resolve_fuel bs) i bs = Some (q, t)"
    using resolve_fuel_enough [of i bs env p] by fastforce
  then have t: "evolves bs t" by (rule resolve_bean_evolves)
  show ?case
  proof (cases q)
    case (Inr u)
    from Cons t evolves_length have "set is \<subseteq> {..<length t}" by fastforce
    from Cons.IH [OF this] q t Inr evolves_trans show ?thesis by (fastforce simp: smap_err_def)
  qed (use q t in \<open>simp add: smap_err_def\<close>)
qed (simp add: evolves_refl)

section \<open>What resolving decides\<close>

text \<open>The conditions of a bean, asked of a fixed set of active beans.\<close>

definition found_beans :: "'v bean list \<Rightarrow> (nat \<Rightarrow> bool) \<Rightarrow> bean_id \<Rightarrow> bean_id list" where
  "found_beans bs act sel =
     map (\<lambda>j. bean_id_of (bs ! j)) (filter (\<lambda>j. is_bean_matched sel (bs ! j) \<and> act j) [0..<length bs])"

definition static_bean_ctx :: "'v go_env \<Rightarrow> storage \<Rightarrow> (bean_id \<Rightarrow> bean_id list) \<Rightarrow> unit cond_ctx" where
  "static_bean_ctx env p F =
     \<lparr>cx_has = st_exists p, cx_prop = st_value p,
      cx_find = (\<lambda>sel s. Some (Inr (F sel), s)), cx_eval_expr = ge_expr env\<rparr>"

definition wanted :: "'v go_env \<Rightarrow> storage \<Rightarrow> (bean_id \<Rightarrow> bean_id list) \<Rightarrow> 'v bean \<Rightarrow> bool" where
  "wanted env p F b \<longleftrightarrow>
     (\<forall>c \<in> set (bd_conditions b). matches (static_bean_ctx env p F) c () = Some (Inr True, ()))"

text \<open>A set of active beans that agrees with its own conditions.\<close>

definition consistent :: "'v go_env \<Rightarrow> storage \<Rightarrow> 'v bean list \<Rightarrow> (nat \<Rightarrow> bool) \<Rightarrow> bool" where
  "consistent env p bs act \<longleftrightarrow> (\<forall>i < length bs. act i \<longleftrightarrow> wanted env p (found_beans bs act) (bs ! i))"

text \<open>No bean's conditions ask, directly or through other beans, for the bean itself.\<close>

definition ranked :: "'v bean list \<Rightarrow> (nat \<Rightarrow> nat) \<Rightarrow> bool" where
  "ranked bs rank \<longleftrightarrow>
     (\<forall>i < length bs. \<forall>c \<in> set (bd_conditions (bs ! i)). \<forall>sel \<in> cond_asks c. \<forall>j < length bs.
        is_bean_matched sel (bs ! j) \<longrightarrow> rank j < rank i)"

definition strict_bean :: "'v bean \<Rightarrow> bool" where
  "strict_bean b \<longleftrightarrow> list_all strict_cond (bd_conditions b)"

definition bean_asks :: "'v bean \<Rightarrow> bean_id set" where
  "bean_asks b = (\<Union>c \<in> set (bd_conditions b). cond_asks c)"

lemma static_bean_ctx_eq: "static_ctx (bean_ctx env p res) F = static_bean_ctx env p F"
  by (simp add: static_ctx_def bean_ctx_def static_bean_ctx_def)

text \<open>
  The states reached while the beans \<open>R\<close> are being resolved. If \<open>exact\<close>, the beans
  decided so far agree with \<open>act\<close>.
\<close>

definition status_ok :: "bool \<Rightarrow> (nat \<Rightarrow> bool) \<Rightarrow> nat set \<Rightarrow> nat \<Rightarrow> bean_status \<Rightarrow> bool" where
  "status_ok exact act R i st \<longleftrightarrow> (st = StatusResolving \<longleftrightarrow> i \<in> R) \<and>
     (exact \<longrightarrow> st \<in> {StatusDefault, StatusResolving} \<or> st = (if act i then StatusResolved else StatusDeleted))"

definition settled :: "bool \<Rightarrow> (nat \<Rightarrow> bool) \<Rightarrow> 'v bean list \<Rightarrow> nat set \<Rightarrow> 'v bean list \<Rightarrow> bool" where
  "settled exact act bs0 R bs \<longleftrightarrow> evolves bs0 bs \<and>
     (\<forall>i < length bs0. status_ok exact act R i (bd_status (bs ! i)))"

lemma status_ok_insert: "i \<noteq> j \<Longrightarrow> status_ok exact act (insert i R) j st = status_ok exact act R j st"
  by (simp add: status_ok_def)

lemma settled_put:
  assumes "settled exact act bs0 R bs" and "i < length bs0" and "st \<noteq> StatusDefault"
    and "status_ok exact act R' i st" and "\<And>j st'. j \<noteq> i \<Longrightarrow> status_ok exact act R j st' = status_ok exact act R' j st'"
  shows "settled exact act bs0 R' (put_status i st bs)"
  unfolding settled_def
proof (intro conjI allI impI)
  from assms(1,3) show "evolves bs0 (put_status i st bs)" by (simp add: settled_def evolves_put_right)
  fix j assume j: "j < length bs0"
  from assms(1,2) have i: "i < length bs" using evolves_length [of bs0 bs] by (simp add: settled_def)
  show "status_ok exact act R' j (bd_status (put_status i st bs ! j))"
  proof (cases "j = i")
    case True
    with i assms(4) show ?thesis by (simp add: put_status_nth)
  next
    case False
    from assms(1) j have "status_ok exact act R j (bd_status (bs ! j))" by (simp add: settled_def)
    with assms(5) [OF False] False show ?thesis by (simp add: put_status_def)
  qed
qed

lemma settled_start:
  assumes "settled exact act bs0 R bs" and "i < length bs0"
  shows "settled exact act bs0 (insert i R) (put_status i StatusResolving bs)"
  by (rule settled_put [OF assms]) (simp_all add: status_ok_def)

lemma settled_finish:
  assumes "settled exact act bs0 (insert i R) bs" and "i < length bs0" and "i \<notin> R"
    and "st \<in> {StatusResolved, StatusDeleted}" and "exact \<Longrightarrow> st = (if act i then StatusResolved else StatusDeleted)"
  shows "settled exact act bs0 R (put_status i st bs)"
  by (rule settled_put [OF assms(1,2)]) (use assms(3-5) in \<open>auto simp: status_ok_def\<close>)

lemma settled_evolves: "settled exact act bs0 R bs \<Longrightarrow> evolves bs0 bs"
  by (simp add: settled_def)

lemma settled_resolving: "settled exact act bs0 R bs \<Longrightarrow> j < length bs0 \<Longrightarrow> bd_status (bs ! j) = StatusResolving \<longleftrightarrow> j \<in> R"
  by (auto simp: settled_def status_ok_def)

lemma settled_act:
  "settled exact act bs0 R bs \<Longrightarrow> exact \<Longrightarrow> j < length bs0 \<Longrightarrow>
     bd_status (bs ! j) \<notin> {StatusDefault, StatusResolving} \<Longrightarrow> act j \<longleftrightarrow> bd_status (bs ! j) \<noteq> StatusDeleted"
  by (fastforce simp: settled_def status_ok_def split: if_splits)

lemma find_loop_settled:
  assumes res: "\<And>j bs u bs'. j < length bs0 \<Longrightarrow> is_bean_matched sel (bs0 ! j) \<Longrightarrow> j \<notin> R \<Longrightarrow>
      settled exact act bs0 R bs \<Longrightarrow> res j bs = Some (Inr u, bs') \<Longrightarrow>
      settled exact act bs0 R bs' \<and> bd_status (bs' ! j) \<notin> {StatusDefault, StatusResolving}"
    and apart: "\<And>j. exact \<Longrightarrow> j \<in> R \<Longrightarrow> j < length bs0 \<Longrightarrow> \<not> is_bean_matched sel (bs0 ! j)"
  shows "settled exact act bs0 R bs \<Longrightarrow> set is \<subseteq> {..<length bs0} \<Longrightarrow>
    find_loop res sel is found bs = Some (Inr q, bs') \<Longrightarrow>
    settled exact act bs0 R bs' \<and> (exact \<longrightarrow> q = found @
      map (\<lambda>j. bean_id_of (bs0 ! j)) (filter (\<lambda>j. is_bean_matched sel (bs0 ! j) \<and> act j) is))"
proof (induction "is" arbitrary: found bs)
  case (Cons i "is")
  then have i: "i < length bs0" and sub: "set is \<subseteq> {..<length bs0}" by auto
  from Cons.prems(1) have ev: "evolves bs0 bs" by (rule settled_evolves)
  note IH = Cons.IH [OF _ sub]
  show ?case
  proof (cases "bd_status (bs ! i) = StatusResolving \<or> bd_status (bs ! i) = StatusDeleted \<or> \<not> is_bean_matched sel (bs ! i)")
    case True
    then have "exact \<Longrightarrow> \<not> (is_bean_matched sel (bs0 ! i) \<and> act i)"
      using apart [OF _ _ i] settled_resolving [OF Cons.prems(1) i] settled_act [OF Cons.prems(1) _ i]
        evolves_nth(3) [OF ev i] by auto
    moreover from True Cons.prems(3) have "find_loop res sel is found bs = Some (Inr q, bs')"
      by (auto split: if_splits)
    ultimately show ?thesis using IH [OF Cons.prems(1)] by auto
  next
    case False
    with Cons.prems(3) obtain u t where t: "res i bs = Some (Inr u, t)"
      and rest: "(if bd_status (t ! i) = StatusDeleted then find_loop res sel is found t
                  else find_loop res sel is (found @ [bean_id_of (t ! i)]) t) = Some (Inr q, bs')"
      by (auto simp: sbind_smap_Inr_iff)
    from False evolves_nth(3) [OF ev i] have m: "is_bean_matched sel (bs0 ! i)" by simp
    from False settled_resolving [OF Cons.prems(1) i] have "i \<notin> R" by simp
    from res [OF i m this Cons.prems(1) t] have st: "settled exact act bs0 R t"
      and dec: "bd_status (t ! i) \<notin> {StatusDefault, StatusResolving}" by auto
    have id: "bean_id_of (t ! i) = bean_id_of (bs0 ! i)" by (rule evolves_nth(2) [OF settled_evolves [OF st] i])
    show ?thesis
    proof (cases "bd_status (t ! i) = StatusDeleted")
      case True
      with rest IH [OF st, of found] settled_act [OF st _ i dec] show ?thesis by auto
    next
      case False
      with rest id IH [OF st, of "found @ [bean_id_of (bs0 ! i)]"] settled_act [OF st _ i dec] m
      show ?thesis by auto
    qed
  qed
qed simp

lemma run_conds_settled:
  assumes step: "\<And>c s ok s'. c \<in> set cs \<Longrightarrow> P s \<Longrightarrow> matches ctx c s = Some (Inr ok, s') \<Longrightarrow>
      P s' \<and> (exact \<longrightarrow> ok = ev c)"
  shows "P bs \<Longrightarrow> run_conds ctx i cs bs = Some (Inr u, bs') \<Longrightarrow>
    \<exists>t. P t \<and> (bs' = put_status i StatusResolved t \<and> (exact \<longrightarrow> (\<forall>c \<in> set cs. ev c)) \<or>
                bs' = put_status i StatusDeleted t \<and> (exact \<longrightarrow> \<not> (\<forall>c \<in> set cs. ev c)))"
  using step
proof (induction cs arbitrary: bs)
  case (Cons c cs)
  then obtain ok t where t: "matches ctx c bs = Some (Inr ok, t)"
    and rest: "(if ok then run_conds ctx i cs t else Some (Inr (), put_status i StatusDeleted t)) = Some (Inr u, bs')"
    by (auto simp: sbind_smap_Inr_iff)
  from Cons.prems(3) [OF _ Cons.prems(1) t] have pt: "P t" "exact \<longrightarrow> ok = ev c" by auto
  show ?case
  proof (cases ok)
    case True
    with rest have "run_conds ctx i cs t = Some (Inr u, bs')" by simp
    from Cons.IH [OF pt(1) this] Cons.prems(3) pt(2) True show ?thesis by (metis list.set_intros(2) set_ConsD)
  qed (use rest pt in auto)
qed auto

text \<open>Conditions whose questions the beans can answer.\<close>

definition answerable :: "bool \<Rightarrow> (nat \<Rightarrow> nat) \<Rightarrow> 'v bean list \<Rightarrow> bool" where
  "answerable exact rank bs \<longleftrightarrow> list_all strict_bean bs \<and> (exact \<longrightarrow> ranked bs rank)"

lemma bean_ctx_answering:
  assumes bs0: "answerable exact rank bs0" and i: "i < length bs0"
    and R: "exact \<longrightarrow> (\<forall>j \<in> R. rank i \<le> rank j)"
    and res: "\<And>j bs u bs'. j < length bs0 \<Longrightarrow> j \<notin> R \<Longrightarrow> (exact \<longrightarrow> (\<forall>k \<in> R. rank j < rank k)) \<Longrightarrow>
      settled exact act bs0 R bs \<Longrightarrow> res j bs = Some (Inr u, bs') \<Longrightarrow>
      settled exact act bs0 R bs' \<and> bd_status (bs' ! j) \<notin> {StatusDefault, StatusResolving}"
  shows "strict_context (bean_ctx env p res) (settled exact act bs0 R) (bean_asks (bs0 ! i))"
    and "exact \<Longrightarrow> answering_context (bean_ctx env p res) (settled exact act bs0 R) (bean_asks (bs0 ! i))
      (found_beans bs0 act)"
proof -
  have *: "settled exact act bs0 R s' \<and> (exact \<longrightarrow> q = found_beans bs0 act sel)"
    if sel: "sel \<in> bean_asks (bs0 ! i)" and s: "settled exact act bs0 R s"
      and f: "cx_find (bean_ctx env p res) sel s = Some (Inr q, s')" for sel s q s'
  proof -
    from s have len: "length s = length bs0" by (simp add: settled_def evolves_length)
    have below: "rank j < rank i" if "exact" "j < length bs0" "is_bean_matched sel (bs0 ! j)" for j
      using bs0 sel i that unfolding answerable_def ranked_def bean_asks_def by blast
    have r: "settled exact act bs0 R t' \<and> bd_status (t' ! j) \<notin> {StatusDefault, StatusResolving}"
      if "j < length bs0" "is_bean_matched sel (bs0 ! j)" "j \<notin> R" "settled exact act bs0 R t"
        "res j t = Some (Inr u, t')" for j t u t'
      by (rule res [OF that(1,3) _ that(4,5)]) (use R below that(1,2) in fastforce)
    have a: "\<not> is_bean_matched sel (bs0 ! j)" if "exact" "j \<in> R" "j < length bs0" for j
      using R below that by fastforce
    from f have "find_loop res sel [0..<length bs0] [] s = Some (Inr q, s')" by (simp add: bean_ctx_def len)
    then have "settled exact act bs0 R s' \<and> (exact \<longrightarrow> q = [] @
      map (\<lambda>j. bean_id_of (bs0 ! j)) (filter (\<lambda>j. is_bean_matched sel (bs0 ! j) \<and> act j) [0..<length bs0]))"
    proof (rule find_loop_settled [OF _ _ s, rotated 3])
      show "settled exact act bs0 R t' \<and> bd_status (t' ! j) \<notin> {StatusDefault, StatusResolving}"
        if "j < length bs0" "is_bean_matched sel (bs0 ! j)" "j \<notin> R" "settled exact act bs0 R t"
          "res j t = Some (Inr u, t')" for j t u t' by (rule r [OF that])
      show "\<not> is_bean_matched sel (bs0 ! j)" if "exact" "j \<in> R" "j < length bs0" for j by (rule a [OF that])
    qed auto
    then show ?thesis by (simp add: found_beans_def)
  qed
  then show "strict_context (bean_ctx env p res) (settled exact act bs0 R) (bean_asks (bs0 ! i))"
    unfolding strict_context_def by blast
  with * show "answering_context (bean_ctx env p res) (settled exact act bs0 R) (bean_asks (bs0 ! i))
      (found_beans bs0 act)" if exact
    unfolding answering_context_def answering_context_axioms_def using that by blast
qed

lemma resolve_bean_settled:
  assumes bs0: "answerable exact rank bs0" and act: "exact \<Longrightarrow> consistent env p bs0 act"
  shows "i < length bs0 \<Longrightarrow> i \<notin> R \<Longrightarrow> (exact \<longrightarrow> (\<forall>k \<in> R. rank i < rank k)) \<Longrightarrow>
    settled exact act bs0 R bs \<Longrightarrow> resolve_bean env p n i bs = Some (Inr u, bs') \<Longrightarrow>
    settled exact act bs0 R bs' \<and> bd_status (bs' ! i) \<notin> {StatusDefault, StatusResolving}"
proof (induction n arbitrary: i R bs u bs')
  case (Suc n)
  from Suc.prems(4) have ev: "evolves bs0 bs" by (rule settled_evolves)
  show ?case
  proof (cases "bd_status (bs ! i) \<ge> StatusResolving")
    case True
    with Suc.prems settled_resolving [OF Suc.prems(4,1)] show ?thesis
      by (auto simp: less_eq_bean_status_def)
  next
    case False
    let ?R = "insert i R" let ?ctx = "bean_ctx env p (resolve_bean env p n)" let ?b = "bs0 ! i"
    have start: "settled exact act bs0 ?R (put_status i StatusResolving bs)"
      by (rule settled_start [OF Suc.prems(4,1)])
    have R: "exact \<longrightarrow> (\<forall>j \<in> ?R. rank i \<le> rank j)" using Suc.prems(3) by auto
    have strict: "strict_context ?ctx (settled exact act bs0 ?R) (bean_asks ?b)"
      by (rule bean_ctx_answering(1) [OF bs0 Suc.prems(1) R]) (rule Suc.IH)
    have answering: "answering_context ?ctx (settled exact act bs0 ?R) (bean_asks ?b) (found_beans bs0 act)"
      if exact by (rule bean_ctx_answering(2) [OF bs0 Suc.prems(1) R _ that]) (rule Suc.IH)
    let ?ev = "\<lambda>c. matches (static_bean_ctx env p (found_beans bs0 act)) c () = Some (Inr True, ())"
    have step: "settled exact act bs0 ?R s' \<and> (exact \<longrightarrow> ok = ?ev c)"
      if c: "c \<in> set (bd_conditions ?b)" and s: "settled exact act bs0 ?R s"
        and m: "matches ?ctx c s = Some (Inr ok, s')" for c s ok s'
    proof -
      have asks: "cond_asks c \<subseteq> bean_asks ?b" using c by (auto simp: bean_asks_def)
      have sc: "strict_cond c" using bs0 Suc.prems(1) c
        by (auto simp: answerable_def strict_bean_def list_all_iff)
      have "settled exact act bs0 ?R s'" by (rule strict_context.matches_keeps [OF strict asks sc s m])
      moreover have "ok = ?ev c" if exact
        using answering_context.matches_answer [OF answering [OF that] asks sc s m] by (simp add: static_bean_ctx_eq)
      ultimately show ?thesis by blast
    qed
    from False Suc.prems(5) evolves_nth(1) [OF ev Suc.prems(1)]
    have "run_conds ?ctx i (bd_conditions ?b) (put_status i StatusResolving bs) = Some (Inr u, bs')" by simp
    then have "\<exists>t. settled exact act bs0 ?R t \<and>
        (bs' = put_status i StatusResolved t \<and> (exact \<longrightarrow> (\<forall>c \<in> set (bd_conditions ?b). ?ev c)) \<or>
         bs' = put_status i StatusDeleted t \<and> (exact \<longrightarrow> \<not> (\<forall>c \<in> set (bd_conditions ?b). ?ev c)))"
      by (rule run_conds_settled [where P = "settled exact act bs0 ?R" and ev = ?ev, OF _ start, rotated]) (rule step)
    then obtain t where t: "settled exact act bs0 ?R t"
      and cases: "bs' = put_status i StatusResolved t \<and> (exact \<longrightarrow> wanted env p (found_beans bs0 act) ?b) \<or>
        bs' = put_status i StatusDeleted t \<and> (exact \<longrightarrow> \<not> wanted env p (found_beans bs0 act) ?b)"
      unfolding wanted_def by blast
    then obtain st where bs': "bs' = put_status i st t" "st \<in> {StatusResolved, StatusDeleted}"
      and dec: "exact \<longrightarrow> (st = StatusResolved \<longleftrightarrow> wanted env p (found_beans bs0 act) ?b)"
      by auto
    have "st = (if act i then StatusResolved else StatusDeleted)" if exact
    proof -
      from act [OF that] Suc.prems(1) have "act i \<longleftrightarrow> wanted env p (found_beans bs0 act) ?b"
        by (simp only: consistent_def)
      with dec that have "st = StatusResolved \<longleftrightarrow> act i" by simp
      with bs'(2) show ?thesis by auto
    qed
    from settled_finish [OF t Suc.prems(1,2) bs'(2) this] have "settled exact act bs0 R bs'"
      using bs'(1) by simp
    moreover have "i < length t" using Suc.prems(1) evolves_length [OF settled_evolves [OF t]] by simp
    then have "bd_status (bs' ! i) = st" using bs'(1) by (simp add: put_status_nth)
    ultimately show ?thesis using bs'(2) by auto
  qed
qed simp

text \<open>The contexts of the conditions keep the promises their locales ask for.\<close>

interpretation resolving_strict:
  strict_context "bean_ctx env p (resolve_bean env p n)"
    "\<lambda>bs. answerable False (\<lambda>_. 0) bs0 \<and> i < length bs0 \<and> settled False (\<lambda>_. True) bs0 R bs"
    "bean_asks (bs0 ! i)" for env p n i R bs0
proof
  fix b s q s'
  assume b: "b \<in> bean_asks (bs0 ! i)" and f: "cx_find (bean_ctx env p (resolve_bean env p n)) b s = Some (Inr q, s')"
    and s: "answerable False (\<lambda>_. 0) bs0 \<and> i < length bs0 \<and> settled False (\<lambda>_. True) bs0 R s"
  have "strict_context (bean_ctx env p (resolve_bean env p n)) (settled False (\<lambda>_. True) bs0 R) (bean_asks (bs0 ! i))"
    by (rule bean_ctx_answering(1) [of False "\<lambda>_. 0"])
      (use s resolve_bean_settled [of False "\<lambda>_. 0" bs0 env p "\<lambda>_. True"] in blast)+
  with b s f show "answerable False (\<lambda>_. 0) bs0 \<and> i < length bs0 \<and> settled False (\<lambda>_. True) bs0 R s'"
    unfolding strict_context_def by blast
qed

lemma resolve_loop_settled:
  assumes "answerable exact rank bs0" and "exact \<Longrightarrow> consistent env p bs0 act"
  shows "settled exact act bs0 {} bs \<Longrightarrow> set is \<subseteq> {..<length bs0} \<Longrightarrow>
    resolve_loop env p is bs = Some (Inr u, bs') \<Longrightarrow>
    settled exact act bs0 {} bs' \<and> evolves bs bs' \<and>
      (\<forall>i \<in> set is. bd_status (bs' ! i) \<notin> {StatusDefault, StatusResolving})"
proof (induction "is" arbitrary: bs)
  case (Cons i "is")
  then obtain v t where t: "resolve_bean env p (resolve_fuel bs) i bs = Some (Inr v, t)"
    and rest: "resolve_loop env p is t = Some (Inr u, bs')" by (auto simp: sbind_smap_Inr_iff)
  have i: "i < length bs0" using Cons.prems(2) by simp
  have st: "settled exact act bs0 {} t \<and> bd_status (t ! i) \<notin> {StatusDefault, StatusResolving}"
    by (rule resolve_bean_settled [OF assms i _ _ Cons.prems(1) t]) simp_all
  with Cons.IH [OF _ _ rest] Cons.prems(2) have rest: "settled exact act bs0 {} bs'" "evolves t bs'"
      "\<forall>i \<in> set is. bd_status (bs' ! i) \<notin> {StatusDefault, StatusResolving}" by auto
  have len: "i < length t" using i st settled_evolves evolves_length by metis
  have "bd_status (bs' ! i) \<notin> {StatusDefault, StatusResolving}"
    using evolves_nth(5) [OF rest(2) len] st settled_resolving [OF rest(1) i] by auto
  with rest resolve_bean_evolves [OF t] evolves_trans show ?case by auto
qed (simp add: evolves_refl)

section \<open>Beans without cyclic conditions\<close>

lemma found_beans_cong:
  "(\<And>j. j < length bs \<Longrightarrow> is_bean_matched sel (bs ! j) \<Longrightarrow> act j = act' j) \<Longrightarrow>
     found_beans bs act sel = found_beans bs act' sel"
  unfolding found_beans_def by (rule arg_cong [of _ _ "map _"], rule filter_cong) auto

lemma wanted_cong:
  assumes "\<And>sel. sel \<in> bean_asks b \<Longrightarrow> F sel = G sel"
  shows "wanted env p F b = wanted env p G b"
proof -
  have "matches (static_bean_ctx env p F) c = matches (static_bean_ctx env p G) c"
    if "c \<in> set (bd_conditions b)" for c
    unfolding static_bean_ctx_eq [of env p "\<lambda>_ _. None", symmetric]
    by (rule matches_static_cong) (use assms that in \<open>auto simp: bean_asks_def\<close>)
  then show ?thesis by (simp add: wanted_def)
qed

lemma wanted_ranked:
  assumes "ranked bs rank" and "i < length bs"
    and "\<And>j. j < length bs \<Longrightarrow> rank j < rank i \<Longrightarrow> act j = act' j"
  shows "wanted env p (found_beans bs act) (bs ! i) = wanted env p (found_beans bs act') (bs ! i)"
proof (rule wanted_cong, rule found_beans_cong)
  fix sel j assume "sel \<in> bean_asks (bs ! i)" "j < length bs" "is_bean_matched sel (bs ! j)"
  with assms(1,2) have "rank j < rank i" unfolding ranked_def bean_asks_def by blast
  with assms(3) \<open>j < length bs\<close> show "act j = act' j" by blast
qed

lemma consistent_unique:
  assumes "ranked bs rank" and "consistent env p bs act" and "consistent env p bs act'"
  shows "i < length bs \<Longrightarrow> act i = act' i"
proof (induction i rule: measure_induct_rule [of rank])
  case (less i)
  with wanted_ranked [OF assms(1) less.prems, of act act'] assms(2,3) show ?case
    by (simp add: consistent_def)
qed

text \<open>The consistent set, rank by rank.\<close>

primrec act_below :: "'v go_env \<Rightarrow> storage \<Rightarrow> 'v bean list \<Rightarrow> nat \<Rightarrow> nat \<Rightarrow> bool" where
  "act_below env p bs 0 i = False"
| "act_below env p bs (Suc k) i = wanted env p (found_beans bs (act_below env p bs k)) (bs ! i)"

lemma act_below_stable:
  assumes "ranked bs rank"
  shows "i < length bs \<Longrightarrow> rank i < k \<Longrightarrow> rank i < k' \<Longrightarrow> act_below env p bs k i = act_below env p bs k' i"
proof (induction k arbitrary: i k')
  case (Suc k)
  then obtain l where l: "k' = Suc l" by (cases k') auto
  have "wanted env p (found_beans bs (act_below env p bs k)) (bs ! i) =
      wanted env p (found_beans bs (act_below env p bs l)) (bs ! i)"
    by (rule wanted_ranked [OF assms Suc.prems(1)], rule Suc.IH) (use Suc.prems l in auto)
  with l show ?case by simp
qed simp

lemma consistent_exists:
  assumes "ranked bs rank"
  shows "consistent env p bs (\<lambda>i. act_below env p bs (Suc (rank i)) i)"
  unfolding consistent_def act_below.simps
proof (intro allI impI)
  fix i assume i: "i < length bs"
  show "wanted env p (found_beans bs (act_below env p bs (rank i))) (bs ! i) \<longleftrightarrow>
      wanted env p (found_beans bs (\<lambda>i. wanted env p (found_beans bs (act_below env p bs (rank i))) (bs ! i))) (bs ! i)"
    by (rule wanted_ranked [OF assms i]) (use act_below_stable [OF assms, of _ "rank i" "Suc (rank _)" env p] in simp)
qed

interpretation resolving_answers:
  answering_context "bean_ctx env p (resolve_bean env p n)"
    "\<lambda>bs. answerable True rank bs0 \<and> consistent env p bs0 act \<and> i < length bs0 \<and>
       (\<forall>j \<in> R. rank i \<le> rank j) \<and> settled True act bs0 R bs"
    "bean_asks (bs0 ! i)" "found_beans bs0 act" for env p n i R bs0 act rank
proof -
  let ?P = "\<lambda>bs. answerable True rank bs0 \<and> consistent env p bs0 act \<and> i < length bs0 \<and>
       (\<forall>j \<in> R. rank i \<le> rank j) \<and> settled True act bs0 R bs"
  have *: "settled True act bs0 R s' \<and> q = found_beans bs0 act b"
    if b: "b \<in> bean_asks (bs0 ! i)" and s: "?P s"
      and f: "cx_find (bean_ctx env p (resolve_bean env p n)) b s = Some (Inr q, s')" for b s q s'
  proof -
    have "answering_context (bean_ctx env p (resolve_bean env p n)) (settled True act bs0 R) (bean_asks (bs0 ! i))
        (found_beans bs0 act)"
      by (rule bean_ctx_answering(2) [of True rank])
        (use s resolve_bean_settled [of True rank bs0 env p act] in blast)+
    with b s f show ?thesis
      unfolding answering_context_def answering_context_axioms_def strict_context_def by blast
  qed
  show "answering_context (bean_ctx env p (resolve_bean env p n)) ?P (bean_asks (bs0 ! i)) (found_beans bs0 act)"
    unfolding answering_context_def answering_context_axioms_def strict_context_def
    using * by blast
qed

section \<open>Duplicates\<close>

lemma check_ids:
  fixes b :: "'v bean"
  defines "f \<equiv> \<lambda>m k. case map_of m k of
      Some d \<Rightarrow> Inl (DuplicateBeans (bean_string b) (bean_string d))
    | None \<Rightarrow> Inr (AList.update k b m)"
  shows "(\<exists>m'. rfold f m ks = Inr m') \<longleftrightarrow> distinct ks \<and> set ks \<inter> dom (map_of m) = {}"
    and "rfold f m ks = Inr m' \<Longrightarrow> dom (map_of m') = dom (map_of m) \<union> set ks"
proof (induction ks arbitrary: m)
  case (Cons k ks)
  { case 1 from Cons.IH(1) show ?case by (cases "map_of m k") (auto simp: f_def dom_def) }
  { case 2 with Cons.IH(2) show ?case by (cases "map_of m k") (auto simp: f_def) }
qed simp_all

lemma check_bean_iff: "(\<exists>m'. check_bean m b = Inr m') \<longleftrightarrow> distinct (bean_ids b) \<and> set (bean_ids b) \<inter> dom (map_of m) = {}"
  unfolding check_bean_def by (rule check_ids(1))

lemma check_bean_dom: "check_bean m b = Inr m' \<Longrightarrow> dom (map_of m') = dom (map_of m) \<union> set (bean_ids b)"
  unfolding check_bean_def by (rule check_ids(2))

lemma check_fold_iff:
  "(\<exists>m'. rfold (\<lambda>m b. if bd_status b = StatusDeleted then Inr m else check_bean m b) m bs = Inr m') \<longleftrightarrow>
     distinct (concat (map bean_ids (active_beans bs))) \<and>
     set (concat (map bean_ids (active_beans bs))) \<inter> dom (map_of m) = {}"
proof (induction bs arbitrary: m)
  case (Cons b bs)
  show ?case
  proof (cases "bd_status b = StatusDeleted")
    case True
    with Cons show ?thesis by (simp add: active_beans_def)
  next
    case False
    then have act: "active_beans (b # bs) = b # active_beans bs" by (simp add: active_beans_def)
    show ?thesis
    proof (cases "check_bean m b")
      case (Inl e)
      then have "\<nexists>m'. check_bean m b = Inr m'" by simp
      with check_bean_iff [of m b] False Inl act show ?thesis by auto
    next
      case (Inr m')
      with check_bean_iff [of m b] have "distinct (bean_ids b)" "set (bean_ids b) \<inter> dom (map_of m) = {}" by auto
      with False Inr act Cons.IH [of m'] check_bean_dom [OF Inr] show ?thesis by auto
    qed
  qed
qed (simp add: active_beans_def)

lemma check_duplicate_beans_iff:
  "(\<exists>m. check_duplicate_beans bs = Inr m) \<longleftrightarrow> distinct (concat (map bean_ids (active_beans bs)))"
  unfolding check_duplicate_beans_def by (simp add: check_fold_iff)

section \<open>Refresh returns\<close>

lemma apply_module_returns: "apply_module env p m c \<noteq> None"
proof -
  have all: "provide_all env pvs c \<noteq> None" for pvs c
    by (induction pvs arbitrary: c) (auto split: sum.split)
  then have run: "run_module env p m c \<noteq> None" for c
    by (auto simp: run_module_def sbind_None_iff)
  have "undecided (rv_beans c) < resolve_fuel (rv_beans c)"
    using undecided_le_length [of "rv_beans c"] by (simp add: resolve_fuel_def)
  then have ctx: "matches (bean_ctx env p (resolve_bean env p (resolve_fuel (rv_beans c)))) cond (rv_beans c) \<noteq> None"
    for cond by (rule resolving_returns.matches_returns)
  show ?thesis
  proof (cases "md_condition m")
    case (Some cond)
    from ctx [of cond] obtain q t where
      "matches (bean_ctx env p (resolve_bean env p (resolve_fuel (rv_beans c)))) cond (rv_beans c) = Some (q, t)"
      by fastforce
    with Some run show ?thesis by (cases q) (simp_all add: apply_module_def on_beans_def smap_err_def)
  qed (use run in \<open>simp add: apply_module_def\<close>)
qed

lemma apply_modules_returns: "apply_modules env p ms c \<noteq> None"
  using apply_module_returns by (induction ms arbitrary: c) (auto simp: sbind_None_iff)

lemma on_beans_None [simp]: "on_beans r c = None \<longleftrightarrow> r = None"
  by (simp add: on_beans_def)

lemma scan_loop_returns: "scan_loop env is bs \<noteq> None"
  by (induction "is" arbitrary: bs) (auto split: option.split sum.split)

section \<open>Properties\<close>

text \<open>Resolving returns. Conditions ask the container for beans, which are then
  resolved in turn, through any number of user functions; whatever they ask, resolving all
  beans ends, within as many nested calls as there are beans and one more. All that changes
  is the status of beans, and no bean goes back to the default status.\<close>

theorem resolve_beans_returns:
  "\<exists>r bs'. resolve_beans env p bs = Some (r, bs') \<and> evolves bs bs'"
  unfolding resolve_beans_def by (rule resolve_loop_returns) auto

lemma refresh_total: "refresh env g p c \<noteq> None"
proof -
  have "apply_modules env p ms d = None \<longleftrightarrow> False" "scan_configurations env bs = None \<longleftrightarrow> False"
      "resolve_beans env p bs = None \<longleftrightarrow> False"
    for ms d bs
    using apply_modules_returns [of env p ms d] scan_loop_returns [of env "[0..<length bs]" bs]
      resolve_loop_returns [of "[0..<length bs]" bs env p]
    by (auto simp: scan_configurations_def resolve_beans_def on_beans_def lessThan_atLeast0)
  then show ?thesis by (simp add: refresh_def Let_def sbind_None_iff del: not_None_eq)
qed

lemma refresh_succeeded:
  assumes "refresh env g p c = Some (Inr (), c')"
  shows "rv_state c = RefreshDefault" "rv_state c' = Refreshed"
    "distinct (concat (map bean_ids (active_beans (rv_beans c'))))"
  using assms unfolding check_duplicate_beans_iff [symmetric]
  by (auto simp: refresh_def Let_def sbind_Inr_iff split: if_splits)

lemma refresh_refused: "rv_state c \<noteq> RefreshDefault \<Longrightarrow> refresh env g p c = Some (Inl AlreadyRefreshing, c)"
  by (simp add: refresh_def)

text \<open>What a refresh achieves. A refresh returns. It succeeds only on a container
  in the default state, which is then refreshed, so that nothing can be provided and no
  second refresh is possible, and no two active beans share a name and a type, their
  exported types included.\<close>

theorem refresh_outcome:
  fixes env :: "'v go_env"
  shows "\<exists>r c'. refresh env g p c = Some (r, c') \<and>
     (r = Inr () \<longrightarrow>
        rv_state c = RefreshDefault \<and> rv_state c' = Refreshed \<and>
        distinct (concat (map bean_ids (active_beans (rv_beans c')))) \<and>
        (\<forall>pv. \<exists>msg. provide env pv c' = Inl (PanicMsg msg)) \<and>
        refresh env g p c' = Some (Inl AlreadyRefreshing, c'))"
proof -
  have "provide env pv c' = Inl (PanicMsg ''container is already refreshing or refreshed'')"
      "refresh env g p c' = Some (Inl AlreadyRefreshing, c')"
    if "rv_state c' = Refreshed" for c' pv
    using that by (simp_all add: provide_def refresh_refused less_eq_refresh_state_def)
  moreover obtain r c' where "refresh env g p c = Some (r, c')" using refresh_total [of env g p c] by auto
  ultimately show ?thesis using refresh_succeeded by blast
qed

text \<open>Every bean is decided. When the conditions return the errors of the questions
  they ask, a resolving that succeeds leaves no bean undecided or half resolved: each is
  resolved, further along, or deleted.\<close>

theorem resolve_beans_decides:
  assumes "list_all strict_bean bs" and "\<And>b. b \<in> set bs \<Longrightarrow> bd_status b \<noteq> StatusResolving"
    and "resolve_beans env p bs = Some (Inr u, bs')" and "b \<in> set bs'"
  shows "bd_status b \<noteq> StatusDefault \<and> bd_status b \<noteq> StatusResolving"
proof -
  have "settled False (\<lambda>_. True) bs {} bs"
    using assms(2) by (auto simp: settled_def status_ok_def evolves_refl)
  moreover have "answerable False (\<lambda>_. 0) bs" using assms(1) by (simp add: answerable_def)
  ultimately have "evolves bs bs' \<and> (\<forall>i \<in> set [0..<length bs]. bd_status (bs' ! i) \<notin> {StatusDefault, StatusResolving})"
    using resolve_loop_settled [of False "\<lambda>_. 0" bs env p "\<lambda>_. True" bs "[0..<length bs]" u bs'] assms(3)
    by (auto simp: resolve_beans_def lessThan_atLeast0)
  with assms(4) show ?thesis by (auto simp: in_set_conv_nth evolves_length)
qed

text \<open>Property C3: which beans exist. When the beans start undecided, their conditions return the
  errors they get, and no bean's conditions ask for the bean itself, directly or through
  other beans, then a successful resolving finds the only set of active beans that agrees
  with the conditions: a bean is resolved exactly if all its conditions hold for the final
  set, and deleted otherwise. The order of the beans does not matter.\<close>

theorem resolve_beans_exact:
  assumes "list_all strict_bean bs" and "ranked bs rank" and "\<And>b. b \<in> set bs \<Longrightarrow> bd_status b = StatusDefault"
    and "resolve_beans env p bs = Some (Inr u, bs')"
    and f: "final = (\<lambda>i. bd_status (bs' ! i) = StatusResolved)"
  shows "consistent env p bs final \<and>
    (\<forall>act. consistent env p bs act \<longrightarrow> (\<forall>i < length bs. act i = final i)) \<and>
    (\<forall>i < length bs. bd_status (bs' ! i) = (if final i then StatusResolved else StatusDeleted))"
proof -
  define act where "act = (\<lambda>i. act_below env p bs (Suc (rank i)) i)"
  have act: "consistent env p bs act" unfolding act_def by (rule consistent_exists [OF assms(2)])
  have "settled True act bs {} bs"
    using assms(3) by (auto simp: settled_def status_ok_def evolves_refl)
  moreover have "answerable True rank bs" using assms(1,2) by (simp add: answerable_def)
  ultimately have "settled True act bs {} bs' \<and>
      (\<forall>i \<in> set [0..<length bs]. bd_status (bs' ! i) \<notin> {StatusDefault, StatusResolving})"
    using resolve_loop_settled [of True rank bs env p act bs "[0..<length bs]" u bs'] assms(4) act
    by (auto simp: resolve_beans_def lessThan_atLeast0)
  then have st: "bd_status (bs' ! i) = (if act i then StatusResolved else StatusDeleted)" if "i < length bs" for i
    using that by (auto simp: settled_def status_ok_def)
  have same: "final i = act i" if "i < length bs" for i using st [OF that] by (simp add: f)
  then have "found_beans bs final = found_beans bs act" by (intro ext found_beans_cong) simp
  with act same have "consistent env p bs final" by (simp add: consistent_def)
  moreover from consistent_unique [OF assms(2) _ act] same have
    "\<forall>act'. consistent env p bs act' \<longrightarrow> (\<forall>i < length bs. act' i = final i)" by simp
  moreover have "bd_status (bs' ! i) = (if final i then StatusResolved else StatusDeleted)" if "i < length bs" for i
    using st [OF that] same [OF that] by (simp only:)
  ultimately show ?thesis by blast
qed

section \<open>Examples\<close>

definition name_id :: "string \<Rightarrow> bean_id" where
  "name_id n = \<lparr>bid_type = None, bid_name = n\<rparr>"

definition sample_bean :: "string \<Rightarrow> cond list \<Rightarrow> unit bean" where
  "sample_bean n cs = mk_bean None (''*main.'' @ n) n cs"

definition sample_go_env :: "unit go_env" where
  "sample_go_env =
     \<lparr>ge_types = \<lparr>ty_kind = (\<lambda>_. RPointer), ty_elem = id, ty_assignable = (=)\<rparr>, ge_ptr_to = id,
      ge_methods = (\<lambda>_. []), ge_regexp = (\<lambda>_. None), ge_expr = (\<lambda>_ _. Inl ''no expressions'')\<rparr>"

definition empty_storage :: storage where
  "empty_storage = \<lparr>st_exists = (\<lambda>_. False), st_value = (\<lambda>_. None),
     st_map_keys = (\<lambda>_ acc. (False, acc)), st_slice_entries = (\<lambda>_ acc. (False, acc))\<rparr>"

definition outcome :: "('v, unit) bean_run \<Rightarrow> (bool \<times> bean_status list) option" where
  "outcome r = map_option (\<lambda>(r, bs). (case r of Inl _ \<Rightarrow> False | Inr _ \<Rightarrow> True, map bd_status bs)) r"

lemma outcome_Some: "outcome r = Some (True, sts) \<Longrightarrow> \<exists>bs'. r = Some (Inr (), bs') \<and> map bd_status bs' = sts"
  unfolding outcome_def by (cases r) (auto split: sum.splits unit.splits)

text \<open>A default service that steps back when another one is there.\<close>

definition fallback_beans :: "unit bean list" where
  "fallback_beans = [sample_bean ''dflt'' [OnMissingBean (name_id ''own'')], sample_bean ''own'' []]"

lemma fallback_beans_outcome:
  "outcome (resolve_beans sample_go_env empty_storage fallback_beans) = Some (True, [StatusDeleted, StatusResolved])"
  by code_simp

lemma fallback_beans_strict: "list_all strict_bean fallback_beans"
  by (simp add: fallback_beans_def strict_bean_def sample_bean_def mk_bean_def)

lemma resolve_beans_decides_witness:
  "\<exists>bs'. resolve_beans sample_go_env empty_storage fallback_beans = Some (Inr (), bs') \<and>
     length bs' = 2 \<and> (\<forall>b \<in> set bs'. bd_status b \<noteq> StatusDefault \<and> bd_status b \<noteq> StatusResolving)"
proof -
  obtain bs' where r: "resolve_beans sample_go_env empty_storage fallback_beans = Some (Inr (), bs')"
    and sts: "map bd_status bs' = [StatusDeleted, StatusResolved]"
    using outcome_Some [OF fallback_beans_outcome] by (elim exE conjE that)
  have "bd_status b \<noteq> StatusResolving" if "b \<in> set fallback_beans" for b
    using that by (auto simp: fallback_beans_def sample_bean_def mk_bean_def)
  from resolve_beans_decides [OF fallback_beans_strict this r] r arg_cong [OF sts, of length]
  show ?thesis by simp
qed

lemma resolve_beans_exact_witness:
  "\<exists>final. consistent sample_go_env empty_storage fallback_beans final \<and> \<not> final 0 \<and> final 1"
proof -
  obtain bs' where r: "resolve_beans sample_go_env empty_storage fallback_beans = Some (Inr (), bs')"
    and sts: "map bd_status bs' = [StatusDeleted, StatusResolved]"
    using outcome_Some [OF fallback_beans_outcome] by (elim exE conjE that)
  have start: "bd_status b = StatusDefault" if "b \<in> set fallback_beans" for b
    using that by (auto simp: fallback_beans_def sample_bean_def mk_bean_def)
  have "ranked fallback_beans (\<lambda>i. 1 - i)"
    by (auto simp: ranked_def fallback_beans_def sample_bean_def mk_bean_def less_Suc_eq is_bean_matched_def name_id_def)
  from resolve_beans_exact [OF fallback_beans_strict this start r refl]
  have "consistent sample_go_env empty_storage fallback_beans (\<lambda>i. bd_status (bs' ! i) = StatusResolved)" by blast
  moreover from sts have "bd_status (bs' ! 0) = StatusDeleted" "bd_status (bs' ! 1) = StatusResolved"
    by (auto simp: map_eq_Cons_conv)
  ultimately show ?thesis by (intro exI [of _ "\<lambda>i. bd_status (bs' ! i) = StatusResolved"]) simp
qed

lemma refresh_outcome_witness:
  "\<exists>c'. refresh sample_go_env \<lparr>gi_modules = [], gi_beans = fallback_beans\<rparr> empty_storage new_resolving = Some (Inr (), c') \<and>
     rv_state c' = Refreshed \<and> (\<forall>pv. \<exists>msg. provide sample_go_env pv c' = Inl (PanicMsg msg))"
proof -
  let ?r = "refresh sample_go_env \<lparr>gi_modules = [], gi_beans = fallback_beans\<rparr> empty_storage new_resolving"
  have "map_option (\<lambda>(r, c). case r of Inl _ \<Rightarrow> False | Inr _ \<Rightarrow> True) ?r = Some True" by code_simp
  then obtain c' where "?r = Some (Inr (), c')" by (cases ?r) (auto split: sum.splits unit.splits)
  moreover from this refresh_outcome [of sample_go_env "\<lparr>gi_modules = [], gi_beans = fallback_beans\<rparr>" empty_storage new_resolving]
  have "rv_state c' = Refreshed \<and> (\<forall>pv. \<exists>msg. provide sample_go_env pv c' = Inl (PanicMsg msg))" by auto
  ultimately show ?thesis by blast
qed

definition revived_beans :: "unit bean list" where
  "revived_beans = [sample_bean ''first'' [OnMissingBean (name_id ''second'')],
     sample_bean ''second'' [OnBean (name_id ''first'')]]"


definition half_resolved_beans :: "unit bean list" where
  "half_resolved_beans =
     [sample_bean ''first'' [OnFunc ''probe'' (AskFind (name_id ''second'') (\<lambda>_. Ret (Inr True)))],
      sample_bean ''second'' [OnExpression ''broken'']]"

text \<open>A half resolved bean can become active. A user condition that asks for beans
  and carries on when the question fails hides the error of another bean's condition; that
  bean stays half resolved, the resolving succeeds, and the bean is among the active ones.\<close>

theorem half_resolved_bean_active:
  "map_option (\<lambda>(r, bs). (r, map (\<lambda>b. (bd_name b, bd_status b)) (active_beans bs)))
     (resolve_beans sample_go_env empty_storage half_resolved_beans) =
   Some (Inr (), [(''first'', StatusResolved), (''second'', StatusResolving)])"
  by code_simp

end
