(* ===== verification/FlatLayers.thy ===== *)
theory FlatLayers
  imports FlatStore
begin

text \<open>
  \<open>LayeredStorage\<close> of \<open>stdlib/flatten/store.go\<close>: configuration sources in five
  layers. Leaves are overridden, map keys merged, slices replaced whole. The array of
  layers is a list of lists of sources, scanned in order.
\<close>

section \<open>Data\<close>

definition StorageCommandLine :: nat where "StorageCommandLine = 0"
definition StorageEnvironment :: nat where "StorageEnvironment = 1"
definition StorageProfileFile :: nat where "StorageProfileFile = 2"
definition StorageAppFile :: nat where "StorageAppFile = 3"
definition StorageDefault :: nat where "StorageDefault = 4"

definition StorageMax :: nat where
  "StorageMax = 5"

record config_source =
  cs_storage :: properties
  cs_name :: string

record source_snapshot =
  src_name :: string
  src_data :: props

record layered =
  layers :: "config_source list list"

definition new_layered :: layered where
  "new_layered = \<lparr>layers = replicate StorageMax []\<rparr>"

definition layered_wf :: "layered \<Rightarrow> bool" where
  "layered_wf l \<longleftrightarrow> length (layers l) = StorageMax"

section \<open>Operations\<close>

text \<open>\<open>AddStorage\<close> puts the new source in front of its layer; a bad index panics.\<close>

definition add_storage :: "int \<Rightarrow> properties \<Rightarrow> string \<Rightarrow> layered \<Rightarrow> (go_panic, layered) result" where
  "add_storage index source name l =
     (if 0 \<le> index \<and> index < int (length (layers l))
      then let i = nat index
           in Inr (l\<lparr>layers := (layers l)[i := \<lparr>cs_storage = source, cs_name = name\<rparr> # layers l ! i]\<rparr>)
      else Inl IndexOutOfRange)"

definition ls_exists :: "layered \<Rightarrow> string \<Rightarrow> bool" where
  "ls_exists l key = list_ex (list_ex (\<lambda>source. ps_exists (cs_storage source) key)) (layers l)"

definition ls_value :: "layered \<Rightarrow> string \<Rightarrow> string option" where
  "ls_value l key =
     first_some (first_some (\<lambda>source. ps_value (cs_storage source) key)) (layers l)"

definition ls_map_keys_step :: "string \<Rightarrow> config_source \<Rightarrow> bool \<times> string set \<Rightarrow> bool \<times> string set" where
  "ls_map_keys_step key source acc =
     (let (b, result) = ps_map_keys (cs_storage source) key (snd acc)
      in (if b then True else fst acc, result))"

definition ls_map_keys :: "layered \<Rightarrow> string \<Rightarrow> string set \<Rightarrow> bool \<times> string set" where
  "ls_map_keys l key result =
     fold (fold (ls_map_keys_step key)) (layers l) (False, result)"

text \<open>
  \<open>SliceEntries\<close> stops at the first source that holds \<open>key\<close> as a leaf (nothing found) or
  that has slice entries (found). \<open>None\<close> in the first component means no source stopped it.
\<close>

fun slice_sources :: "string \<Rightarrow> config_source list \<Rightarrow> props \<Rightarrow> bool option \<times> props" where
  "slice_sources key [] result = (None, result)"
| "slice_sources key (source # rest) result =
     (case ps_value (cs_storage source) key of
        Some _ \<Rightarrow> (Some False, result)
      | None \<Rightarrow>
          (let (b, result') = ps_slice_entries (cs_storage source) key result
           in if b then (Some True, result') else slice_sources key rest result'))"

fun slice_layers :: "string \<Rightarrow> config_source list list \<Rightarrow> props \<Rightarrow> bool \<times> props" where
  "slice_layers key [] result = (False, result)"
| "slice_layers key (arr # rest) result =
     (case slice_sources key arr result of
        (Some b, result') \<Rightarrow> (b, result')
      | (None, result') \<Rightarrow> slice_layers key rest result')"

definition ls_slice_entries :: "layered \<Rightarrow> string \<Rightarrow> props \<Rightarrow> bool \<times> props" where
  "ls_slice_entries l key result = slice_layers key (layers l) result"

definition ls_sources :: "layered \<Rightarrow> source_snapshot list" where
  "ls_sources l = concat (map (map (\<lambda>source.
     \<lparr>src_name = cs_name source, src_data = gorange (pr_data (cs_storage source))\<rparr>)) (layers l))"

definition layered_storage :: "layered \<Rightarrow> storage" where
  "layered_storage l =
     \<lparr>st_exists = ls_exists l, st_value = ls_value l,
      st_map_keys = ls_map_keys l, st_slice_entries = ls_slice_entries l\<rparr>"

section \<open>What the scans compute\<close>

definition flat_sources :: "layered \<Rightarrow> properties list" where
  "flat_sources l = map cs_storage (concat (layers l))"

lemma ls_sel [simp]:
  "st_exists (layered_storage l) = ls_exists l"
  "st_value (layered_storage l) = ls_value l"
  "st_map_keys (layered_storage l) = ls_map_keys l"
  "st_slice_entries (layered_storage l) = ls_slice_entries l"
  by (simp_all add: layered_storage_def)

lemma ls_exists_eq: "ls_exists l key \<longleftrightarrow> (\<exists>p \<in> set (flat_sources l). ps_exists p key)"
  by (auto simp: ls_exists_def flat_sources_def list_ex_iff)

lemma first_some_map: "first_some f (map g xs) = first_some (\<lambda>x. f (g x)) xs"
  by (induction xs) (auto split: option.splits)

lemma ls_value_eq: "ls_value l key = first_some (\<lambda>p. ps_value p key) (flat_sources l)"
  by (simp add: ls_value_def flat_sources_def first_some_concat first_some_map)

lemma fold_concat: "fold (fold f) xss s = fold f (concat xss) s"
  by (induction xss arbitrary: s) auto

lemma ls_map_keys_fold:
  "fold (ls_map_keys_step key) xs (b, acc) =
     (b \<or> (\<exists>x \<in> set xs. fst (ps_map_keys (cs_storage x) key {})),
      acc \<union> (\<Union>x \<in> set xs. snd (ps_map_keys (cs_storage x) key {})))"
proof (induction xs arbitrary: b acc)
  case (Cons x xs)
  have "ps_map_keys (cs_storage x) key acc =
      (fst (ps_map_keys (cs_storage x) key {}), acc \<union> snd (ps_map_keys (cs_storage x) key {}))"
    using ps.map_keys_acc [of "cs_storage x" key acc] by simp
  with Cons show ?case by (auto simp: ls_map_keys_step_def)
qed simp

lemma ls_map_keys_eq:
  "ls_map_keys l key acc =
     (\<exists>p \<in> set (flat_sources l). fst (ps_map_keys p key {}),
      acc \<union> (\<Union>p \<in> set (flat_sources l). snd (ps_map_keys p key {})))"
  by (simp add: ls_map_keys_def fold_concat ls_map_keys_fold flat_sources_def)

text \<open>The scan for a slice over the sources in one row.\<close>

fun slice_scan :: "string \<Rightarrow> properties list \<Rightarrow> props \<Rightarrow> bool \<times> props" where
  "slice_scan key [] result = (False, result)"
| "slice_scan key (p # ps) result =
     (if ps_value p key \<noteq> None then (False, result)
      else if fst (ps_slice_entries p key []) then ps_slice_entries p key result
      else slice_scan key ps result)"

lemma ps_slice_fst: "fst (ps_slice_entries p key result) = fst (ps_slice_entries p key [])"
  by (simp add: ps_slice_entries_eq)

lemma ps_slice_not_found:
  assumes "\<not> fst (ps_slice_entries p key [])"
  shows "ps_slice_entries p key result = (False, result)"
proof -
  from assms have none: "{k \<in> fst ` set (pr_data p). slice_key key k} = {}"
    by (auto simp: ps_slice_entries_eq)
  have "fst ` set (filter (\<lambda>kv. slice_key key (fst kv)) (gorange (pr_data p))) = {}"
    unfolding keys_filter gokeys_gorange by (rule none)
  then have "filter (\<lambda>kv. slice_key key (fst kv)) (gorange (pr_data p)) = []" by (simp only: image_is_empty set_empty)
  moreover have "fst (ps_slice_entries p key result) = False"
    using assms ps_slice_fst [of p key result] by metis
  ultimately show ?thesis by (simp add: ps_slice_entries_eq)
qed

lemma slice_sources_scan:
  "(case slice_sources key arr result of
      (Some b, result') \<Rightarrow> (b, result') | (None, result') \<Rightarrow> slice_scan key ps result')
   = slice_scan key (map cs_storage arr @ ps) result"
proof (induction arr arbitrary: result)
  case (Cons x arr)
  let ?p = "cs_storage x"
  obtain b r where br: "ps_slice_entries ?p key result = (b, r)"
    by (cases "ps_slice_entries ?p key result")
  then have b: "b = fst (ps_slice_entries ?p key [])" using ps_slice_fst [of ?p key result] by simp
  show ?case
  proof (cases "ps_value ?p key = None \<and> \<not> b")
    case True
    then have "r = result" using ps_slice_not_found [of ?p key result] b br by simp
    with True Cons [of result] br b show ?thesis by simp
  next
    case False
    with br b show ?thesis by auto
  qed
qed simp

lemma ls_slice_entries_eq: "ls_slice_entries l key result = slice_scan key (flat_sources l) result"
proof -
  have "slice_layers key xss result = slice_scan key (map cs_storage (concat xss)) result" for xss
  proof (induction xss arbitrary: result)
    case (Cons arr xss)
    then have "slice_layers key (arr # xss) result =
      (case slice_sources key arr result of
         (Some b, result') \<Rightarrow> (b, result')
       | (None, result') \<Rightarrow> slice_scan key (map cs_storage (concat xss)) result')"
      by (auto split: prod.splits option.splits)
    then show ?case by (simp add: slice_sources_scan)
  qed simp
  then show ?thesis by (simp add: ls_slice_entries_def flat_sources_def)
qed

lemma slice_scan_Some:
  "fst (slice_scan key ps []) \<Longrightarrow>
     \<exists>pre p post. ps = pre @ p # post \<and> fst (ps_slice_entries p key []) \<and>
       ps_value p key = None \<and>
       (\<forall>q \<in> set pre. ps_value q key = None \<and> \<not> fst (ps_slice_entries q key [])) \<and>
       (\<forall>out. slice_scan key ps out = ps_slice_entries p key out)"
proof (induction ps)
  case (Cons p ps)
  show ?case
  proof (cases "fst (ps_slice_entries p key [])")
    case True
    with Cons.prems show ?thesis
      by (intro exI [of _ "[]"] exI [of _ p] exI [of _ ps]) (auto split: if_splits)
  next
    case False
    with Cons.prems have none: "ps_value p key = None" and "fst (slice_scan key ps [])"
      by (auto split: if_splits)
    from Cons.IH [OF this(2)] obtain pre q post where
      "ps = pre @ q # post" and "fst (ps_slice_entries q key [])" "ps_value q key = None"
      "\<forall>q \<in> set pre. ps_value q key = None \<and> \<not> fst (ps_slice_entries q key [])"
      "\<forall>out. slice_scan key ps out = ps_slice_entries q key out" by blast
    with False none show ?thesis
      by (intro exI [of _ "p # pre"] exI [of _ q] exI [of _ post]) auto
  qed
qed simp

lemma slice_scan_None:
  "\<not> fst (slice_scan key ps []) \<Longrightarrow> slice_scan key ps out = (False, out)"
proof (induction ps)
  case (Cons p ps)
  then show ?case by (auto split: if_splits simp: ps_slice_not_found)
qed simp

lemma slice_scan_fst: "fst (slice_scan key ps out) = fst (slice_scan key ps [])"
  by (induction ps) (auto simp: ps_slice_fst [of _ _ out])

section \<open>The layered storage keeps the storage contracts\<close>

lemma slice_before_value:
  assumes pre: "\<forall>q \<in> set pre. ps_value q key = None \<and> \<not> fst (ps_slice_entries q key [])"
    and k: "slice_key key k"
  shows "first_some (\<lambda>q. ps_value q k) (pre @ p # post) =
    (case ps_value p k of Some v \<Rightarrow> Some v | None \<Rightarrow> first_some (\<lambda>q. ps_value q k) post)"
proof -
  have "ps_value q k = None" if "q \<in> set pre" for q
  proof (rule ccontr)
    assume "ps_value q k \<noteq> None"
    then have "k \<in> fst ` set (pr_data q)" using ps_value_key by blast
    with k have "fst (ps_slice_entries q key [])" by (auto simp: ps_slice_entries_eq)
    with pre that show False by blast
  qed
  then have "first_some (\<lambda>q. ps_value q k) pre = None" by (simp add: first_some_None_iff)
  then show ?thesis by (simp add: first_some_append)
qed

interpretation ls: rooted_storage "layered_storage l" for l
proof (unfold_locales, unfold ls_sel)
  fix k v assume "ls_value l k = Some v"
  then show "ls_exists l k"
    by (auto simp: ls_value_eq ls_exists_eq dest!: first_some_SomeD intro: ps_value_exists)
next
  fix k acc show "ls_map_keys l k acc = (fst (ls_map_keys l k {}), acc \<union> snd (ls_map_keys l k {}))"
    by (simp add: ls_map_keys_eq)
next
  fix k show "fst (ls_map_keys l k {}) = (snd (ls_map_keys l k {}) \<noteq> {})"
    using ps.map_keys_found by (auto simp: ls_map_keys_eq)
next
  fix k :: string assume "k \<noteq> []" and "fst (ls_map_keys l k {})"
  then show "ls_exists l k" using ps.map_keys_exists by (auto simp: ls_map_keys_eq ls_exists_eq)
next
  fix c k assume "c \<in> snd (ls_map_keys l k {})"
  then show "\<forall>x \<in> set c. \<not> separator x"
    using ps.map_keys_plain by (auto simp: ls_map_keys_eq)
next
  fix k out show "fst (ls_slice_entries l k out) = fst (ls_slice_entries l k [])"
    unfolding ls_slice_entries_eq by (rule slice_scan_fst)
next
  fix k out
  show "map_of (snd (ls_slice_entries l k out)) = map_of out ++ map_of (snd (ls_slice_entries l k []))"
    unfolding ls_slice_entries_eq
  proof (cases "fst (slice_scan k (flat_sources l) [])")
    case True
    then obtain p where "\<forall>out. slice_scan k (flat_sources l) out = ps_slice_entries p k out"
      using slice_scan_Some by blast
    with ps.slice_acc(2) [of p k out] show "map_of (snd (slice_scan k (flat_sources l) out)) =
        map_of out ++ map_of (snd (slice_scan k (flat_sources l) []))"
      by simp
  qed (simp add: slice_scan_None)
next
  fix k show "fst (ls_slice_entries l k []) = (snd (ls_slice_entries l k []) \<noteq> [])"
    unfolding ls_slice_entries_eq
  proof (cases "fst (slice_scan k (flat_sources l) [])")
    case True
    then obtain p where "fst (ps_slice_entries p k [])"
      and "\<forall>out. slice_scan k (flat_sources l) out = ps_slice_entries p k out"
      using slice_scan_Some by blast
    then show "fst (slice_scan k (flat_sources l) []) = (snd (slice_scan k (flat_sources l) []) \<noteq> [])"
      using ps.slice_found [of p k] by simp
  qed (simp add: slice_scan_None)
next
  fix k assume "fst (ls_slice_entries l k [])"
  then obtain pre p post where "flat_sources l = pre @ p # post" and "fst (ps_slice_entries p k [])"
    unfolding ls_slice_entries_eq using slice_scan_Some by blast
  then show "ls_exists l k" using ps.slice_exists by (auto simp: ls_exists_eq)
next
  fix k k' v assume v: "map_of (snd (ls_slice_entries l k [])) k' = Some v"
  then have found: "fst (slice_scan k (flat_sources l) [])"
    unfolding ls_slice_entries_eq using slice_scan_None [of k "flat_sources l" "[]"] by force
  obtain pre p post where split: "flat_sources l = pre @ p # post"
    and pre: "\<forall>q \<in> set pre. ps_value q k = None \<and> \<not> fst (ps_slice_entries q k [])"
    and eq: "\<forall>out. slice_scan k (flat_sources l) out = ps_slice_entries p k out"
    using slice_scan_Some [OF found] by blast
  from v eq have vp: "map_of (snd (ps_slice_entries p k [])) k' = Some v"
    by (simp add: ls_slice_entries_eq)
  from ps.slice_value [of p k k' v] vp have p: "ps_value p k' = Some v" and r: "\<exists>r. k' = k @ CHR ''['' # r"
    by simp_all
  with slice_before_value [OF pre, of k' p post] split show
    "ls_value l k' = Some v \<and> (\<exists>r. k' = k @ CHR ''['' # r)"
    by (simp add: ls_value_eq slice_key_def)
next
  fix c k assume "c \<in> snd (ls_map_keys l k {})"
  then show "ls_exists l (child_key k c)"
    using ps.child_exists by (auto simp: ls_map_keys_eq ls_exists_eq)
next
  fix k c r v assume "ls_value l (k @ c # r) = Some v" and "separator c"
  then obtain p where "p \<in> set (flat_sources l)" and "ps_value p (k @ c # r) = Some v"
    unfolding ls_value_eq using first_some_SomeD by fast
  with ps.parent_exists [of p k c r v] \<open>separator c\<close> show "ls_exists l k"
    by (auto simp: ls_exists_eq)
qed

section \<open>Properties\<close>

definition upper_layers :: "nat \<Rightarrow> layered \<Rightarrow> layered" where
  "upper_layers n l = \<lparr>layers = take n (layers l)\<rparr>"

definition sample_layers :: layered where
  "sample_layers = new_layered
     \<lparr>layers := [[],
        [\<lparr>cs_storage = \<lparr>pr_data = [(''a'', ''env'')]\<rparr>, cs_name = ''env''\<rparr>], [],
        [\<lparr>cs_storage = \<lparr>pr_data = [(''a'', ''app''), (''b'', ''app'')]\<rparr>, cs_name = ''app''\<rparr>], []]\<rparr>"

lemma ls_value_first_some:
  "ls_value l key = first_some (\<lambda>source. ps_value (cs_storage source) key) (concat (layers l))"
  by (simp add: ls_value_def first_some_concat)

text \<open>Property C29: \<open>AddStorage\<close> succeeds exactly for the five layer indexes (it panics for
  any other). The new source then overrides, leaf by leaf, every source of its own layer and
  of the layers after it, and is itself overridden by the layers before it: a leaf is read
  from the earlier layers, else from the new source, else as before.\<close>

theorem add_storage_overrides:
  assumes "layered_wf l"
  shows "(add_storage index source name l = Inl IndexOutOfRange \<longleftrightarrow> index < 0 \<or> index \<ge> int StorageMax) \<and>
    (\<forall>l'. add_storage index source name l = Inr l' \<longrightarrow> layered_wf l' \<and>
       (\<forall>key. ls_value l' key =
          (case ls_value (upper_layers (nat index) l) key of Some v \<Rightarrow> Some v
           | None \<Rightarrow> (case ps_value source key of Some v \<Rightarrow> Some v | None \<Rightarrow> ls_value l key))))"
proof (intro conjI allI impI)
  show "(add_storage index source name l = Inl IndexOutOfRange) = (index < 0 \<or> index \<ge> int StorageMax)"
    using assms by (auto simp: add_storage_def layered_wf_def Let_def)
next
  fix l' assume l': "add_storage index source name l = Inr l'"
  then show "layered_wf l'" using assms
    by (auto simp: add_storage_def layered_wf_def Let_def split: if_splits)
  fix key
  let ?i = "nat index" and ?x = "\<lparr>cs_storage = source, cs_name = name\<rparr>"
  from l' have i: "?i < length (layers l)"
    and L': "layers l' = (layers l)[?i := ?x # layers l ! ?i]"
    by (auto simp: add_storage_def Let_def split: if_splits)
  from L' i have new: "layers l' = take ?i (layers l) @ (?x # layers l ! ?i) # drop (Suc ?i) (layers l)"
    by (simp add: upd_conv_take_nth_drop)
  have old: "concat (layers l) =
      concat (take ?i (layers l)) @ layers l ! ?i @ concat (drop (Suc ?i) (layers l))"
    using id_take_nth_drop [OF i] by (metis concat.simps(2) concat_append)
  show "ls_value l' key = (case ls_value (upper_layers ?i l) key of Some v \<Rightarrow> Some v
      | None \<Rightarrow> (case ps_value source key of Some v \<Rightarrow> Some v | None \<Rightarrow> ls_value l key))"
    by (simp add: ls_value_first_some new old upper_layers_def first_some_append split: option.split)
qed

lemma add_storage_overrides_witness:
  "\<exists>l'. add_storage 2 \<lparr>pr_data = [(''a'', ''prof''), (''b'', ''prof'')]\<rparr> ''prof'' sample_layers = Inr l' \<and>
     ls_value l' ''a'' = Some ''env'' \<and> ls_value l' ''b'' = Some ''prof''"
proof -
  let ?p = "\<lparr>pr_data = [(''a'', ''prof''), (''b'', ''prof'')]\<rparr>"
  have wf: "layered_wf sample_layers" by (simp add: sample_layers_def layered_wf_def StorageMax_def)
  then obtain l' where l': "add_storage 2 ?p ''prof'' sample_layers = Inr l'"
    by (simp add: add_storage_def layered_wf_def StorageMax_def Let_def)
  then have "ls_value l' key = (case ls_value (upper_layers (nat 2) sample_layers) key of Some v \<Rightarrow> Some v
      | None \<Rightarrow> (case ps_value ?p key of Some v \<Rightarrow> Some v | None \<Rightarrow> ls_value sample_layers key))" for key
    using add_storage_overrides [OF wf, of 2 ?p "''prof''"] by blast
  then show ?thesis using l'
    by (simp add: sample_layers_def upper_layers_def ls_value_def ps_value_def)
qed

text \<open>Slices are replaced whole. When \<open>SliceEntries\<close> of the layered storage
  reports entries, one source supplies all of them and the entries are exactly its leaves
  under \<open>key[\<close>; no source before it in precedence order has the key as a leaf or holds any
  entry of the slice, so nothing is mixed in from another layer.\<close>

theorem layered_slice_from_one_source:
  assumes "fst (ls_slice_entries l key [])"
  shows "\<exists>pre p post. flat_sources l = pre @ p # post \<and>
    (\<forall>k. map_of (snd (ls_slice_entries l key [])) k = (if slice_key key k then ps_value p k else None)) \<and>
    (\<forall>q \<in> set pre. ps_value q key = None \<and> (\<forall>k. slice_key key k \<longrightarrow> ps_value q k = None))"
proof -
  from assms have "fst (slice_scan key (flat_sources l) [])" by (simp add: ls_slice_entries_eq)
  from slice_scan_Some [OF this] obtain pre p post where split: "flat_sources l = pre @ p # post"
    and pre: "\<forall>q \<in> set pre. ps_value q key = None \<and> \<not> fst (ps_slice_entries q key [])"
    and eq: "\<forall>out. slice_scan key (flat_sources l) out = ps_slice_entries p key out" by blast
  have "ps_value q k = None" if "q \<in> set pre" "slice_key key k" for q k
  proof (rule ccontr)
    assume "ps_value q k \<noteq> None"
    then have "k \<in> fst ` set (pr_data q)" using ps_value_key by blast
    with that pre show False by (auto simp: ps_slice_entries_eq)
  qed
  with split pre eq show ?thesis
    by (intro exI [of _ pre] exI [of _ p] exI [of _ post])
       (simp add: ls_slice_entries_eq map_of_ps_slice ps_value_def)
qed

lemma layered_slice_from_one_source_witness:
  "\<exists>pre p post. flat_sources \<lparr>layers = [[\<lparr>cs_storage = sample_props, cs_name = ''s''\<rparr>]]\<rparr> = pre @ p # post \<and>
     ps_value p ''a.b[1]'' = Some ''z''"
proof -
  let ?l = "\<lparr>layers = [[\<lparr>cs_storage = sample_props, cs_name = ''s''\<rparr>]]\<rparr>"
  have "fst (ls_slice_entries ?l ''a.b'' [])"
    by (simp add: ls_slice_entries_eq flat_sources_def ps_value_def ps_slice_entries_eq slice_key_def
        sample_props_def)
  from layered_slice_from_one_source [OF this] show ?thesis
    by (auto simp: flat_sources_def Cons_eq_append_conv ps_value_def sample_props_def)
qed

text \<open>What the layered storage reports can be descended into. Every child key
  that \<open>MapKeys\<close> collects names an existing node and holds no separator, every slice entry
  is the leaf value that \<open>Value\<close> returns for its key, every node above a leaf exists, and a
  method that fills a result map only adds to what the caller passed.\<close>

theorem layered_reports_are_consistent:
  "(\<forall>c \<in> snd (ls_map_keys l k {}). ls_exists l (child_key k c) \<and> (\<forall>x \<in> set c. \<not> separator x)) \<and>
   (\<forall>k' v. map_of (snd (ls_slice_entries l k [])) k' = Some v \<longrightarrow> ls_value l k' = Some v) \<and>
   (\<forall>c r v. ls_value l (k @ c # r) = Some v \<longrightarrow> separator c \<longrightarrow> ls_exists l k) \<and>
   ls_map_keys l k acc = (fst (ls_map_keys l k {}), acc \<union> snd (ls_map_keys l k {})) \<and>
   map_of (snd (ls_slice_entries l k out)) = map_of out ++ map_of (snd (ls_slice_entries l k []))"
  using ls.child_exists [of _ l k] ls.map_keys_plain [of _ l k] ls.slice_value [of l k]
    ls.parent_exists [of l k] ls.map_keys_acc [of l k acc] ls.slice_acc(2) [of l k out]
  unfolding ls_sel by blast

lemma layered_reports_are_consistent_witness:
  "\<exists>c \<in> snd (ls_map_keys sample_layers [] {}). ls_exists sample_layers (child_key [] c)"
proof -
  have "''b'' \<in> snd (ls_map_keys sample_layers [] {})"
    by (simp add: ls_map_keys_eq ps_map_keys_eq flat_sources_def sample_layers_def child_of_def
        separator_def new_layered_def)
  with layered_reports_are_consistent [of sample_layers "[]"] show ?thesis by blast
qed

end
