(* ===== verification/FlatFallback.thy ===== *)
theory FlatFallback
  imports FlatLayers
begin

text \<open>
  \<open>stdlib/flatten/fallback.go\<close>: \<open>FallbackStorage\<close>, which lets the keys of an instance
  bucket inherit from a family-wide default bucket. The wrapped storage is any storage
  that keeps the \<open>rooted_storage\<close> contract; the wrapper keeps \<open>mapped_storage\<close>. It does
  not keep \<open>rooted_storage\<close>: an instance without a key of its own does not exist,
  although its leaves are inherited.
\<close>

section \<open>Operations\<close>

record fallback =
  fb_storage :: storage
  fb_instances :: string
  fb_defaults :: string

definition with_fallback :: "storage \<Rightarrow> string \<Rightarrow> string \<Rightarrow> fallback" where
  "with_fallback s instances defaults =
     \<lparr>fb_storage = s, fb_instances = instances, fb_defaults = defaults\<rparr>"

definition fallback_key :: "fallback \<Rightarrow> string \<Rightarrow> string option" where
  "fallback_key f key =
     (case cut_prefix key (fb_instances f @ ''.'') of
        None \<Rightarrow> None
      | Some rest \<Rightarrow>
          (case cut_char rest CHR ''.'' of
             None \<Rightarrow> None
           | Some (name, below) \<Rightarrow>
               (case index_where (\<lambda>c. c = CHR ''['') below of
                  Some i \<Rightarrow>
                    if i > 0 \<and> st_exists (fb_storage f)
                         (fb_instances f @ ''.'' @ name @ ''.'' @ take i below)
                    then None else Some (fb_defaults f @ ''.'' @ below)
                | None \<Rightarrow> Some (fb_defaults f @ ''.'' @ below))))"

definition fb_exists :: "fallback \<Rightarrow> string \<Rightarrow> bool" where
  "fb_exists f key =
     (if st_exists (fb_storage f) key then True
      else (case fallback_key f key of
              None \<Rightarrow> False
            | Some fallback \<Rightarrow> st_exists (fb_storage f) fallback))"

definition fb_value :: "fallback \<Rightarrow> string \<Rightarrow> string option" where
  "fb_value f key =
     (case st_value (fb_storage f) key of
        Some v \<Rightarrow> Some v
      | None \<Rightarrow> (case fallback_key f key of
                   None \<Rightarrow> None
                 | Some fallback \<Rightarrow> st_value (fb_storage f) fallback))"

definition fb_map_keys :: "fallback \<Rightarrow> string \<Rightarrow> string set \<Rightarrow> bool \<times> string set" where
  "fb_map_keys f key result =
     (let (found, result') = st_map_keys (fb_storage f) key result
      in case fallback_key f key of
           None \<Rightarrow> (found, result')
         | Some fallback \<Rightarrow>
             (let (b, result'') = st_map_keys (fb_storage f) fallback result'
              in (b \<or> found, result'')))"

definition rekey_step :: "string \<Rightarrow> string \<Rightarrow> string \<times> string \<Rightarrow> props \<Rightarrow> props" where
  "rekey_step key fallback kv result =
     AList.update (key @ drop (length fallback) (fst kv)) (snd kv) result"

definition fb_slice_entries :: "fallback \<Rightarrow> string \<Rightarrow> props \<Rightarrow> bool \<times> props" where
  "fb_slice_entries f key result =
     (if st_exists (fb_storage f) key then st_slice_entries (fb_storage f) key result
      else (case fallback_key f key of
              None \<Rightarrow> (False, result)
            | Some fallback \<Rightarrow>
                (let (found, entries) = st_slice_entries (fb_storage f) fallback []
                 in if \<not> found then (False, result)
                    else (True, fold (rekey_step key fallback) (gorange entries) result))))"

definition fallback_storage :: "fallback \<Rightarrow> storage" where
  "fallback_storage f =
     \<lparr>st_exists = fb_exists f, st_value = fb_value f,
      st_map_keys = fb_map_keys f, st_slice_entries = fb_slice_entries f\<rparr>"

lemma fb_sel [simp]:
  "st_exists (fallback_storage f) = fb_exists f"
  "st_value (fallback_storage f) = fb_value f"
  "st_map_keys (fallback_storage f) = fb_map_keys f"
  "st_slice_entries (fallback_storage f) = fb_slice_entries f"
  by (simp_all add: fallback_storage_def)

lemma with_fallback_sel [simp]:
  "fb_storage (with_fallback s i d) = s"
  "fb_instances (with_fallback s i d) = i"
  "fb_defaults (with_fallback s i d) = d"
  by (simp_all add: with_fallback_def)

section \<open>Keys that fall back\<close>

text \<open>The part of a key before its first bracket, when something precedes it.\<close>

definition array_of :: "string \<Rightarrow> string option" where
  "array_of below = (case index_where (\<lambda>c. c = CHR ''['') below of
                       Some i \<Rightarrow> if i > 0 then Some (take i below) else None | None \<Rightarrow> None)"

lemma fallback_key_Some_iff:
  "fallback_key f key = Some fk \<longleftrightarrow>
     (\<exists>name below. key = fb_instances f @ ''.'' @ name @ ''.'' @ below \<and> CHR ''.'' \<notin> set name \<and>
        fk = fb_defaults f @ ''.'' @ below \<and>
        (\<forall>a. array_of below = Some a \<longrightarrow>
           \<not> st_exists (fb_storage f) (fb_instances f @ ''.'' @ name @ ''.'' @ a)))"
  (is "?L \<longleftrightarrow> ?R")
proof
  assume L: ?L
  then obtain rest where rest: "key = fb_instances f @ ''.'' @ rest"
    by (auto simp: fallback_key_def cut_prefix_Some_iff split: option.splits)
  then have cut: "cut_prefix key (fb_instances f @ ''.'') = Some rest"
    by (simp add: cut_prefix_Some_iff)
  with L obtain name below where nb: "cut_char rest CHR ''.'' = Some (name, below)"
    by (auto simp: fallback_key_def split: option.splits)
  then have "rest = name @ ''.'' @ below" and "CHR ''.'' \<notin> set name"
    by (auto simp: cut_char_Some_iff)
  moreover have "fk = fb_defaults f @ ''.'' @ below \<and> (\<forall>a. array_of below = Some a \<longrightarrow>
      \<not> st_exists (fb_storage f) (fb_instances f @ ''.'' @ name @ ''.'' @ a))"
    using L cut nb by (auto simp: fallback_key_def array_of_def split: option.splits if_splits)
  ultimately show ?R using rest by blast
next
  assume ?R
  then obtain name below where key: "key = fb_instances f @ ''.'' @ name @ ''.'' @ below"
    and name: "CHR ''.'' \<notin> set name" and fk: "fk = fb_defaults f @ ''.'' @ below"
    and arr: "\<forall>a. array_of below = Some a \<longrightarrow>
           \<not> st_exists (fb_storage f) (fb_instances f @ ''.'' @ name @ ''.'' @ a)" by blast
  have "cut_prefix key (fb_instances f @ ''.'') = Some (name @ ''.'' @ below)"
    by (simp add: key cut_prefix_Some_iff)
  moreover have "cut_char (name @ ''.'' @ below) CHR ''.'' = Some (name, below)"
    using name by (simp add: cut_char_Some_iff)
  ultimately show ?L
    using arr by (auto simp: fallback_key_def fk array_of_def split: option.splits)
qed

lemma fallback_key_not_Nil: "fallback_key f key = Some fk \<Longrightarrow> key \<noteq> [] \<and> fk \<noteq> []"
  by (auto simp: fallback_key_Some_iff)

lemma array_of_child:
  "\<forall>x \<in> set c. \<not> separator x \<Longrightarrow> array_of (below @ CHR ''.'' # c) = array_of below"
proof -
  assume "\<forall>x \<in> set c. \<not> separator x"
  then have "index_where (\<lambda>c. c = CHR ''['') c = None"
    by (auto simp: index_where_None_iff separator_def)
  then show ?thesis
    by (auto simp: array_of_def index_where_app dest: index_where_less split: option.splits)
qed

lemma array_of_slice:
  "array_of (below @ CHR ''['' # r) = (case array_of below of Some a \<Rightarrow> Some a
     | None \<Rightarrow> if below = [] \<or> CHR ''['' \<in> set below then None else Some below)"
proof (cases "index_where (\<lambda>c. c = CHR ''['') below")
  case None
  then have "CHR ''['' \<notin> set below" by (auto simp: index_where_None_iff)
  with None show ?thesis by (simp add: array_of_def index_where_app)
next
  case (Some i)
  then have "i < length below" and "below ! i = CHR ''[''" by (simp_all add: index_where_Some_iff)
  then have "CHR ''['' \<in> set below" by (metis nth_mem)
  with Some \<open>i < length below\<close> show ?thesis by (simp add: array_of_def index_where_app)
qed

lemma array_of_self: "array_of below = None \<or> (\<exists>a r. array_of below = Some a \<and> below = a @ CHR ''['' # r)"
proof (cases "index_where (\<lambda>c. c = CHR ''['') below")
  case (Some i)
  then have "i < length below" "below ! i = CHR ''[''" by (auto simp: index_where_Some_iff)
  then have "below = take i below @ CHR ''['' # drop (Suc i) below" by (metis id_take_nth_drop)
  with Some show ?thesis by (auto simp: array_of_def)
qed (simp add: array_of_def)

lemma map_of_rekey:
  assumes "gomap_wf m" and "\<forall>kk \<in> fst ` set m. \<exists>r. kk = fk @ r"
  shows "map_of (fold (rekey_step key fk) m result) k =
     (case cut_prefix k key of
        Some r \<Rightarrow> (case map_of m (fk @ r) of Some v \<Rightarrow> Some v | None \<Rightarrow> map_of result k)
      | None \<Rightarrow> map_of result k)"
  using assms
proof (induction m arbitrary: result)
  case (Cons kv m)
  obtain a b where kv: "kv = (a, b)" by (cases kv)
  with Cons.prems obtain r where r: "a = fk @ r" by auto
  have wf: "gomap_wf m" and new: "map_of m a = None" and dom: "\<forall>kk \<in> fst ` set m. \<exists>r. kk = fk @ r"
    using Cons.prems by (auto simp: gomap_wf_def kv map_of_eq_None_iff)
  show ?case using Cons.IH [OF wf dom] new r kv
    by (auto simp: rekey_step_def cut_prefix_Some_iff split: option.splits)
qed (simp split: option.splits)

section \<open>The wrapper keeps the storage contract\<close>

locale fallback_over = rooted_storage +
  fixes instances :: string and defaults :: string
begin

abbreviation F :: fallback where
  "F \<equiv> with_fallback s instances defaults"

lemma fb_slice_fst:
  "fst (fb_slice_entries F k out) =
     (if st_exists s k then fst (st_slice_entries s k [])
      else (case fallback_key F k of None \<Rightarrow> False | Some fk \<Rightarrow> fst (st_slice_entries s fk [])))"
  by (auto simp: fb_slice_entries_def slice_acc(1) [of k out] split: option.splits prod.splits)

lemma fb_slice_map_of:
  assumes "\<not> st_exists s k" and "fallback_key F k = Some fk"
  shows "map_of (snd (fb_slice_entries F k out)) k' =
     (case cut_prefix k' k of
        Some r \<Rightarrow> (case map_of (snd (st_slice_entries s fk [])) (fk @ r) of
                     Some v \<Rightarrow> Some v | None \<Rightarrow> map_of out k')
      | None \<Rightarrow> map_of out k')"
proof -
  obtain b es where es: "st_slice_entries s fk [] = (b, es)" by (cases "st_slice_entries s fk []")
  have "\<exists>r. kk = fk @ r" if "kk \<in> fst ` set es" for kk
  proof -
    from that obtain v where "map_of es kk = Some v" by (metis map_of_ex_iff)
    with slice_value [of fk kk v] es show ?thesis by auto
  qed
  then have dom: "\<forall>kk \<in> fst ` set (gorange es). \<exists>r. kk = fk @ r" unfolding gokeys_gorange by blast
  have empty: "es = []" if "\<not> b" using slice_found [of fk] es that by simp
  show ?thesis
  proof (cases b)
    case True
    with assms es show ?thesis
      by (simp add: fb_slice_entries_def map_of_rekey [OF _ dom] split: option.split)
  next
    case False
    with assms es empty show ?thesis by (simp add: fb_slice_entries_def split: option.splits)
  qed
qed

text \<open>An element of an array that falls back as a whole falls back by itself.\<close>

lemma fallback_key_slice:
  assumes "fallback_key F k = Some fk" and no: "\<not> st_exists s k"
  shows "fallback_key F (k @ CHR ''['' # r) = Some (fk @ CHR ''['' # r)"
proof -
  from assms obtain name below where nb: "k = instances @ ''.'' @ name @ ''.'' @ below"
    "CHR ''.'' \<notin> set name" "fk = defaults @ ''.'' @ below"
    and arr: "\<forall>a. array_of below = Some a \<longrightarrow> \<not> st_exists s (instances @ ''.'' @ name @ ''.'' @ a)"
    by (auto simp: fallback_key_Some_iff)
  have "\<forall>a. array_of (below @ CHR ''['' # r) = Some a \<longrightarrow>
      \<not> st_exists s (instances @ ''.'' @ name @ ''.'' @ a)"
    using arr no nb(1) by (auto simp: array_of_slice split: option.splits if_splits)
  with nb show ?thesis unfolding fallback_key_Some_iff
    by (intro exI [of _ name] exI [of _ "below @ CHR ''['' # r"]) simp
qed

lemma fallback_key_child:
  assumes "fallback_key F k = Some fk" and c: "\<forall>x \<in> set c. \<not> separator x"
  shows "fallback_key F (child_key k c) = Some (child_key fk c)"
proof -
  from assms obtain name below where nb: "k = instances @ ''.'' @ name @ ''.'' @ below"
    "CHR ''.'' \<notin> set name" "fk = defaults @ ''.'' @ below"
    and arr: "\<forall>a. array_of below = Some a \<longrightarrow> \<not> st_exists s (instances @ ''.'' @ name @ ''.'' @ a)"
    by (auto simp: fallback_key_Some_iff)
  have "fallback_key F (k @ ''.'' @ c) = Some (fk @ ''.'' @ c)"
    using arr nb array_of_child [OF c] unfolding fallback_key_Some_iff
    by (intro exI [of _ name] exI [of _ "below @ ''.'' @ c"]) simp
  then show ?thesis using fallback_key_not_Nil [OF assms(1)] by (simp add: child_key_def)
qed

lemma fb_keys_cases:
  assumes "c \<in> snd (fb_map_keys F k {})"
  shows "c \<in> snd (st_map_keys s k {}) \<or>
    (\<exists>fk. fallback_key F k = Some fk \<and> c \<in> snd (st_map_keys s fk {}))"
proof (cases "fallback_key F k")
  case None
  with assms show ?thesis by (auto simp: fb_map_keys_def split: prod.splits)
next
  case (Some fk)
  obtain b ks where k: "st_map_keys s k {} = (b, ks)" by (cases "st_map_keys s k {}")
  have "snd (st_map_keys s fk ks) = ks \<union> snd (st_map_keys s fk {})"
    using map_keys_acc [of fk ks] by simp
  with assms Some k show ?thesis by (auto simp: fb_map_keys_def split: prod.splits)
qed

lemma fb_keys_plain: "c \<in> snd (fb_map_keys F k {}) \<Longrightarrow> \<forall>x \<in> set c. \<not> separator x"
  using fb_keys_cases map_keys_plain by blast

lemma fb_slice_cases:
  "st_exists s k \<and> (\<forall>out. fb_slice_entries F k out = st_slice_entries s k out) \<or>
   \<not> st_exists s k \<and> fallback_key F k = None \<and> (\<forall>out. fb_slice_entries F k out = (False, out)) \<or>
   \<not> st_exists s k \<and> (\<exists>fk. fallback_key F k = Some fk)"
  by (auto simp: fb_slice_entries_def)

lemma fb_slice_add:
  "map_of (snd (fb_slice_entries F k out)) = map_of out ++ map_of (snd (fb_slice_entries F k []))"
  using fb_slice_cases [of k]
proof (elim disjE conjE exE)
  assume "\<forall>out. fb_slice_entries F k out = st_slice_entries s k out"
  then show ?thesis using slice_acc(2) [of k out] by simp
next
  fix fk assume "\<not> st_exists s k" and "fallback_key F k = Some fk"
  then show ?thesis
    by (intro ext) (simp add: fb_slice_map_of map_add_def split: option.split)
qed simp

lemma fb_slice_found: "fst (fb_slice_entries F k []) = (snd (fb_slice_entries F k []) \<noteq> [])"
  using fb_slice_cases [of k]
proof (elim disjE conjE exE)
  assume "\<forall>out. fb_slice_entries F k out = st_slice_entries s k out"
  then show ?thesis using slice_found [of k] by simp
next
  fix fk assume no: "\<not> st_exists s k" and fk: "fallback_key F k = Some fk"
  show ?thesis
  proof (cases "fst (st_slice_entries s fk [])")
    case True
    then have "snd (st_slice_entries s fk []) \<noteq> []" by (simp add: slice_found)
    then obtain kk v where kv: "map_of (snd (st_slice_entries s fk [])) kk = Some v"
      by (metis map_of_eq_empty_iff not_None_eq)
    with slice_value obtain r where "kk = fk @ r" by blast
    with kv have "map_of (snd (fb_slice_entries F k [])) (k @ r) = Some v"
      by (simp add: fb_slice_map_of [OF no fk])
    then have "snd (fb_slice_entries F k []) \<noteq> []" by auto
    with True no fk show ?thesis by (simp add: fb_slice_fst)
  next
    case False
    with no fk show ?thesis
      by (cases "st_slice_entries s fk []") (simp add: fb_slice_entries_def)
  qed
qed simp

lemma fb_slice_value:
  assumes v: "map_of (snd (fb_slice_entries F k [])) k' = Some v"
  shows "fb_value F k' = Some v \<and> (\<exists>r. k' = k @ CHR ''['' # r)"
  using fb_slice_cases [of k]
proof (elim disjE conjE exE)
  assume "\<forall>out. fb_slice_entries F k out = st_slice_entries s k out"
  with v slice_value [of k k' v] show ?thesis by (simp add: fb_value_def)
next
  fix fk assume no: "\<not> st_exists s k" and fk: "fallback_key F k = Some fk"
  from v obtain r where r: "k' = k @ r" and vr: "map_of (snd (st_slice_entries s fk [])) (fk @ r) = Some v"
    by (auto simp: fb_slice_map_of [OF no fk] cut_prefix_Some_iff split: option.splits)
  with slice_value obtain r' where r': "r = CHR ''['' # r'" "st_value s (fk @ r) = Some v"
    by fastforce
  have "st_value s k' = None"
    using parent_exists [of k "CHR ''[''" r'] no r r' by (cases "st_value s k'") (auto simp: separator_def)
  with r r' fallback_key_slice [OF fk no, of r'] show ?thesis by (simp add: fb_value_def)
qed (use v in simp)

end

text \<open>The wrapper over a storage with existing parents is a mapped storage.\<close>

sublocale fallback_over \<subseteq> fb: mapped_storage "fallback_storage (with_fallback s instances defaults)"
proof (unfold_locales, unfold fb_sel)
  fix k v assume "fb_value F k = Some v"
  then show "fb_exists F k"
    by (auto simp: fb_value_def fb_exists_def dest: value_exists split: option.splits)
next
  fix k acc show "fb_map_keys F k acc = (fst (fb_map_keys F k {}), acc \<union> snd (fb_map_keys F k {}))"
  proof (cases "fallback_key F k")
    case None
    then show ?thesis
      using map_keys_acc [of k acc] by (simp add: fb_map_keys_def split: prod.splits)
  next
    case (Some fk)
    obtain b ks where k: "st_map_keys s k {} = (b, ks)" by (cases "st_map_keys s k {}")
    obtain b' ks' where fk: "st_map_keys s fk {} = (b', ks')" by (cases "st_map_keys s fk {}")
    have "st_map_keys s k acc = (b, acc \<union> ks)" using map_keys_acc [of k acc] k by simp
    moreover have "st_map_keys s fk x = (b', x \<union> ks')" for x using map_keys_acc [of fk x] fk by simp
    ultimately show ?thesis using Some k by (simp add: fb_map_keys_def Un_assoc)
  qed
next
  fix k show "fst (fb_map_keys F k {}) = (snd (fb_map_keys F k {}) \<noteq> {})"
  proof (cases "fallback_key F k")
    case None
    then show ?thesis
      using map_keys_found [of k] by (simp add: fb_map_keys_def split: prod.splits)
  next
    case (Some fk)
    obtain b ks where k: "st_map_keys s k {} = (b, ks)" by (cases "st_map_keys s k {}")
    obtain b' ks' where fk: "st_map_keys s fk {} = (b', ks')" by (cases "st_map_keys s fk {}")
    have "st_map_keys s fk ks = (b', ks \<union> ks')" using map_keys_acc [of fk ks] fk by simp
    with Some k map_keys_found [of k] map_keys_found [of fk] fk show ?thesis
      by (auto simp: fb_map_keys_def)
  qed
next
  fix k :: string assume "k \<noteq> []" and found: "fst (fb_map_keys F k {})"
  show "fb_exists F k"
  proof (cases "fst (st_map_keys s k {})")
    case True
    with \<open>k \<noteq> []\<close> show ?thesis by (simp add: fb_exists_def map_keys_exists)
  next
    case False
    with found obtain fk where fk: "fallback_key F k = Some fk"
      by (auto simp: fb_map_keys_def split: prod.splits option.splits)
    obtain ks where "st_map_keys s k {} = (False, ks)" using False by (cases "st_map_keys s k {}") auto
    with found fk have "fst (st_map_keys s fk ks)"
      by (auto simp: fb_map_keys_def split: prod.splits)
    then have "fst (st_map_keys s fk {})" using map_keys_acc [of fk ks] by simp
    with fk show ?thesis using fallback_key_not_Nil [OF fk] by (simp add: fb_exists_def map_keys_exists)
  qed
next
  fix c k assume "c \<in> snd (fb_map_keys F k {})"
  then show "\<forall>x \<in> set c. \<not> separator x" by (rule fb_keys_plain)
next
  fix k out show "fst (fb_slice_entries F k out) = fst (fb_slice_entries F k [])"
    by (simp add: fb_slice_fst)
next
  fix k out
  show "map_of (snd (fb_slice_entries F k out)) = map_of out ++ map_of (snd (fb_slice_entries F k []))"
    by (rule fb_slice_add)
next
  fix k show "fst (fb_slice_entries F k []) = (snd (fb_slice_entries F k []) \<noteq> [])"
    by (rule fb_slice_found)
next
  fix k assume "fst (fb_slice_entries F k [])"
  then show "fb_exists F k"
    by (auto simp: fb_slice_fst fb_exists_def slice_exists split: if_splits option.splits)
next
  fix k k' v assume "map_of (snd (fb_slice_entries F k [])) k' = Some v"
  then show "fb_value F k' = Some v \<and> (\<exists>r. k' = k @ CHR ''['' # r)" by (rule fb_slice_value)
next
  fix c k assume c: "c \<in> snd (fb_map_keys F k {})"
  from fb_keys_cases [OF c] fb_keys_plain [OF c] show "fb_exists F (child_key k c)"
    by (auto simp: fb_exists_def fallback_key_child child_exists)
qed

interpretation ps_fallback: fallback_over "properties_storage p" instances defaults
  for p instances defaults
  by unfold_locales

interpretation ls_fallback: fallback_over "layered_storage l" instances defaults
  for l instances defaults
  by unfold_locales

section \<open>Properties\<close>

text \<open>Inheritance of one key of an instance entry. The instance's own leaf
  wins; without one, the leaf of the same key under the default bucket is read, except
  inside an array that the instance defines itself, which is never mixed; a key outside
  the instance buckets is passed through.\<close>

theorem fallback_inherits:
  assumes "CHR ''.'' \<notin> set name"
    and f: "f = with_fallback (layered_storage l) instances defaults"
  shows "fb_value f (instances @ ''.'' @ name @ ''.'' @ below) =
      (case ls_value l (instances @ ''.'' @ name @ ''.'' @ below) of
         Some v \<Rightarrow> Some v
       | None \<Rightarrow>
           if \<exists>a. array_of below = Some a \<and> ls_exists l (instances @ ''.'' @ name @ ''.'' @ a)
           then None else ls_value l (defaults @ ''.'' @ below)) \<and>
    (\<forall>key. \<not> has_prefix key (instances @ ''.'') \<longrightarrow> fb_value f key = ls_value l key)"
proof -
  let ?k = "instances @ ''.'' @ name @ ''.'' @ below"
  have "cut_prefix ?k (instances @ ''.'') = Some (name @ ''.'' @ below)"
    by (simp add: cut_prefix_Some_iff)
  moreover have "cut_char (name @ ''.'' @ below) CHR ''.'' = Some (name, below)"
    using assms by (simp add: cut_char_Some_iff)
  ultimately have "fallback_key f ?k =
      (if \<exists>a. array_of below = Some a \<and> ls_exists l (instances @ ''.'' @ name @ ''.'' @ a)
       then None else Some (defaults @ ''.'' @ below))"
    by (simp add: fallback_key_def f array_of_def split: option.split)
  moreover have "fb_value f key = ls_value l key" if "\<not> has_prefix key (instances @ ''.'')" for key
    using that by (simp add: fb_value_def fallback_key_def f has_prefix_def split: option.split)
  ultimately show ?thesis by (auto simp add: fb_value_def f split: option.split)
qed

definition sample_instance :: layered where
  "sample_instance = \<lparr>layers = [[\<lparr>cs_storage = \<lparr>pr_data =
     [(''i.a.port'', ''1''), (''i.a.hosts[0]'', ''h''), (''d.port'', ''2''), (''d.db'', ''x''),
      (''d.hosts[0]'', ''p''), (''d.hosts[1]'', ''q'')]\<rparr>, cs_name = ''s''\<rparr>]]\<rparr>"

lemma fallback_inherits_witness:
  "fb_value (with_fallback (layered_storage sample_instance) ''i'' ''d'') ''i.a.db'' = Some ''x'' \<and>
   fb_value (with_fallback (layered_storage sample_instance) ''i'' ''d'') ''i.a.hosts[1]'' = None"
proof -
  have name: "CHR ''.'' \<notin> set ''a''" by simp
  have "ls_exists sample_instance ''i.a.hosts''"
    by (simp add: ls_exists_def ps_exists_def sample_instance_def below_node_def separator_def
        gorange_def AList.delete_eq)
  then show ?thesis
    using fallback_inherits [OF name refl, of sample_instance "''i''" "''d''" "''db''"]
      fallback_inherits [OF name refl, of sample_instance "''i''" "''d''" "''hosts[1]''"]
    by (simp add: array_of_def ls_value_def ps_value_def sample_instance_def)
qed

text \<open>The wrapper reports consistently, so the binder can be pointed at it as at
  the storage it wraps: what has a value exists, each reported child exists, and each slice
  entry, inherited ones re-keyed under the instance included, is the value that \<open>Value\<close>
  returns for its key.\<close>

theorem fallback_reports_are_consistent:
  assumes f: "f = with_fallback (layered_storage l) instances defaults"
  shows "(\<forall>v. fb_value f k = Some v \<longrightarrow> fb_exists f k) \<and>
   (\<forall>c \<in> snd (fb_map_keys f k {}). fb_exists f (child_key k c)) \<and>
   (\<forall>k' v. map_of (snd (fb_slice_entries f k [])) k' = Some v \<longrightarrow> fb_value f k' = Some v) \<and>
   (fst (fb_slice_entries f k []) \<longrightarrow> fb_exists f k)"
  using ls_fallback.fb.value_exists [of l instances defaults k]
    ls_fallback.fb.child_exists [of _ l instances defaults k]
    ls_fallback.fb.slice_value [of l instances defaults k]
    ls_fallback.fb.slice_exists [of l instances defaults k]
  unfolding fb_sel f by blast

lemma fallback_reports_are_consistent_witness:
  "fb_exists (with_fallback (layered_storage sample_instance) ''i'' ''d'') ''i.b.port''"
proof -
  have "fb_value (with_fallback (layered_storage sample_instance) ''i'' ''d'') ''i.b.port'' = Some ''2''"
    by (simp add: fb_value_def fallback_key_def ls_value_def ps_value_def sample_instance_def)
  with fallback_reports_are_consistent [OF refl] show ?thesis by blast
qed

end
