(* ===== verification/ConfResolve.thy ===== *)
theory ConfResolve
  imports FlatFallback
begin

text \<open>
  \<open>spring/conf/bind.go\<close>, reading side: property tags, binding parameters, the resolution
  of property references in strings with its cycle and depth guard, and the storage a
  slice is bound from. An error is a constructor that carries what its message prints.
  Resolution recurses with fuel: \<open>None\<close> is a run that has not returned yet.
\<close>

section \<open>Errors\<close>

datatype conf_error =
    TagNoClosingBrace string
  | TagNoOpening string
  | TagEmptyKey string
  | NotSimpleValue string
  | PropertyMissing string
  | CircularReference string
  | DepthExceeded
  | UnmatchedBraces string
  | InvalidSliceEntry string string
  | InvalidSliceIndex string string
  | MissingSliceIndex nat string

section \<open>Tags\<close>

record parsed_tag =
  tag_key :: string
  tag_def :: string
  tag_has_def :: bool

definition tag_string :: "parsed_tag \<Rightarrow> string" where
  "tag_string tag =
     ''${'' @ tag_key tag @ (if tag_has_def tag then '':='' @ tag_def tag else []) @ ''}''"

definition parse_tag :: "string \<Rightarrow> (conf_error, parsed_tag) result" where
  "parse_tag tag =
     (if \<not> has_suffix tag ''}'' then Inl (TagNoClosingBrace tag)
      else if \<not> has_prefix tag ''${'' then Inl (TagNoOpening tag)
      else
        (case split2 (take (length tag - 1 - 2) (drop 2 tag)) '':='' of
           (k, None) \<Rightarrow> Inr \<lparr>tag_key = trim_space k, tag_def = [], tag_has_def = False\<rparr>
         | (k, Some d) \<Rightarrow>
             Inr \<lparr>tag_key = trim_space k, tag_def = trim_space d, tag_has_def = True\<rparr>))"

section \<open>Binding parameters\<close>

text \<open>The field's struct tag is the text of its \<open>expr\<close> entry, if it has one.\<close>

record bind_param =
  bp_key :: string
  bp_path :: string
  bp_tag :: parsed_tag
  bp_validate :: "string option"

definition no_tag :: parsed_tag where
  "no_tag = \<lparr>tag_key = [], tag_def = [], tag_has_def = False\<rparr>"

definition bind_param0 :: bind_param where
  "bind_param0 = \<lparr>bp_key = [], bp_path = [], bp_tag = no_tag, bp_validate = None\<rparr>"

definition bind_tag :: "string \<Rightarrow> string option \<Rightarrow> bind_param \<Rightarrow> (conf_error, bind_param) result" where
  "bind_tag tag validate param =
     rbind (parse_tag tag) (\<lambda>parsed.
       if tag_key parsed = [] then
         if tag_has_def parsed
         then Inr (param\<lparr>bp_validate := validate, bp_tag := parsed\<rparr>)
         else Inl (TagEmptyKey tag)
       else
         let parsed = (if tag_key parsed = ''ROOT'' then parsed\<lparr>tag_key := []\<rparr> else parsed);
             key = (if bp_key param = [] then tag_key parsed
                    else if tag_key parsed \<noteq> [] then bp_key param @ ''.'' @ tag_key parsed
                    else bp_key param)
         in Inr (param\<lparr>bp_validate := validate, bp_key := key, bp_tag := parsed\<rparr>))"

section \<open>The reference stack\<close>

definition maxResolveDepth :: nat where
  "maxResolveDepth = 100"

record resolve_stack =
  rs_refs :: "string set"
  rs_depth :: nat

definition new_stack :: resolve_stack where
  "new_stack = \<lparr>rs_refs = {}, rs_depth = 0\<rparr>"

definition rs_push :: "string \<Rightarrow> resolve_stack \<Rightarrow> (conf_error, unit) result \<times> resolve_stack" where
  "rs_push key st =
     (if key = [] then (Inr (), st)
      else if key \<in> rs_refs st then (Inl (CircularReference key), st)
      else
        let st = st\<lparr>rs_depth := rs_depth st + 1\<rparr>
        in if rs_depth st > maxResolveDepth
           then (Inl DepthExceeded, st\<lparr>rs_depth := rs_depth st - 1\<rparr>)
           else (Inr (), st\<lparr>rs_refs := insert key (rs_refs st)\<rparr>))"

definition rs_pop :: "string \<Rightarrow> resolve_stack \<Rightarrow> resolve_stack" where
  "rs_pop key st =
     (if key = [] then st
      else st\<lparr>rs_refs := rs_refs st - {key}, rs_depth := rs_depth st - 1\<rparr>)"

section \<open>Resolution\<close>

text \<open>\<open>strings.Index(s, sub)\<close> as the text before and after the first occurrence of \<open>${\<close>.\<close>

definition split_ref :: "string \<Rightarrow> (string \<times> string) option" where
  "split_ref s = (case split2 s ''${'' of (a, Some b) \<Rightarrow> Some (a, b) | (a, None) \<Rightarrow> None)"

text \<open>
  The scan for the matching brace, from behind the opening \<open>${\<close>: the text up to it and
  the text after it.
\<close>

fun scan_close :: "nat \<Rightarrow> string \<Rightarrow> (string \<times> string) option" where
  "scan_close level [] = None"
| "scan_close level (c # s) =
     (if c = CHR ''$'' then
        map_option (\<lambda>(a, b). (c # a, b))
          (scan_close (case s of d # _ \<Rightarrow> if d = CHR ''{'' then level + 1 else level | [] \<Rightarrow> level) s)
      else if c = CHR ''}'' then
        if level - 1 = 0 then Some ([], s)
        else map_option (\<lambda>(a, b). (c # a, b)) (scan_close (level - 1) s)
      else map_option (\<lambda>(a, b). (c # a, b)) (scan_close level s))"

text \<open>The first reference of a string: the text before it, the tag, the text after it.\<close>

datatype ref_split = NoRef | BadRef | Ref string string string

definition find_ref :: "string \<Rightarrow> ref_split" where
  "find_ref s =
     (case split_ref s of
        None \<Rightarrow> NoRef
      | Some (pre, rest) \<Rightarrow>
          (case scan_close 1 rest of
             None \<Rightarrow> BadRef
           | Some (inner, suf) \<Rightarrow> Ref pre (''${'' @ inner @ ''}'') suf))"

type_synonym resolved = "((conf_error, string) result \<times> resolve_stack) option"

text \<open>\<open>resolveWithStack\<close>, given the resolver of strings.\<close>

definition resolve_with_stack ::
  "(string \<Rightarrow> resolve_stack \<Rightarrow> resolved) \<Rightarrow> storage \<Rightarrow> bind_param \<Rightarrow> resolve_stack \<Rightarrow> resolved" where
  "resolve_with_stack res p param st =
     (case st_value p (bp_key param) of
        Some val \<Rightarrow>
          (case rs_push (bp_key param) st of
             (Inl e, st) \<Rightarrow> Some (Inl e, st)
           | (Inr _, st) \<Rightarrow>
               map_option (\<lambda>(r, st). (r, rs_pop (bp_key param) st)) (res val st))
      | None \<Rightarrow>
          if st_exists p (bp_key param) then Some (Inl (NotSimpleValue (bp_key param)), st)
          else if tag_has_def (bp_tag param) then res (tag_def (bp_tag param)) st
          else Some (Inl (PropertyMissing (bp_key param)), st))"

fun resolve_string_stack :: "nat \<Rightarrow> storage \<Rightarrow> string \<Rightarrow> resolve_stack \<Rightarrow> resolved" where
  "resolve_string_stack 0 p s st = None"
| "resolve_string_stack (Suc n) p s st =
     (case find_ref s of
        NoRef \<Rightarrow> Some (Inr s, st)
      | BadRef \<Rightarrow> Some (Inl (UnmatchedBraces s), st)
      | Ref pre tag suf \<Rightarrow>
          (case bind_tag tag None bind_param0 of
             Inl e \<Rightarrow> Some (Inl e, st)
           | Inr param \<Rightarrow>
               Option.bind (resolve_with_stack (resolve_string_stack n p) p param st)
                 (\<lambda>(r, st). case r of
                    Inl e \<Rightarrow> Some (Inl e, st)
                  | Inr resolved \<Rightarrow>
                      Option.bind (resolve_string_stack n p suf st)
                        (\<lambda>(r, st). case r of
                           Inl e \<Rightarrow> Some (Inl e, st)
                         | Inr sfx \<Rightarrow> Some (Inr (pre @ resolved @ sfx), st)))))"

definition resolve :: "nat \<Rightarrow> storage \<Rightarrow> bind_param \<Rightarrow> (conf_error, string) result option" where
  "resolve n p param =
     map_option fst (resolve_with_stack (resolve_string_stack n p) p param new_stack)"

definition resolve_string :: "nat \<Rightarrow> storage \<Rightarrow> string \<Rightarrow> (conf_error, string) result option" where
  "resolve_string n p s = map_option fst (resolve_string_stack n p s new_stack)"

section \<open>Slices\<close>

definition parse_slice_entry_index :: "string \<Rightarrow> string \<Rightarrow> (conf_error, nat) result" where
  "parse_slice_entry_index key entry =
     (case cut_prefix entry key of
        Some (c # sfx) \<Rightarrow>
          if c \<noteq> CHR ''['' then Inl (InvalidSliceEntry entry key)
          else (case cut_char sfx CHR '']'' of
                  None \<Rightarrow> Inl (InvalidSliceEntry entry key)
                | Some (idx, _) \<Rightarrow>
                    (case atoi idx of
                       Some index \<Rightarrow>
                         if index < 0 then Inl (InvalidSliceIndex idx key) else Inr (nat index)
                     | None \<Rightarrow> Inl (InvalidSliceIndex idx key)))
      | _ \<Rightarrow> Inl (InvalidSliceEntry entry key))"

text \<open>The set of indexes and the largest one (\<open>None\<close> for -1) after the loop over the entries.\<close>

definition index_step ::
  "string \<Rightarrow> nat set \<times> nat option \<Rightarrow> string \<Rightarrow> (conf_error, nat set \<times> nat option) result" where
  "index_step key acc entry =
     rbind (parse_slice_entry_index key entry) (\<lambda>index.
       Inr (insert index (fst acc),
            (case snd acc of
               None \<Rightarrow> Some index
             | Some m \<Rightarrow> Some (if index > m then index else m))))"

definition validate_slice_indexes :: "string \<Rightarrow> props \<Rightarrow> (conf_error, unit) result" where
  "validate_slice_indexes key entries =
     rbind (rfold (index_step key) ({}, None) (gokeys (gorange entries))) (\<lambda>(indexes, maxi).
       (case find (\<lambda>i. i \<notin> indexes) (case maxi of None \<Rightarrow> [] | Some m \<Rightarrow> [0..<m + 1]) of
          Some i \<Rightarrow> Inl (MissingSliceIndex i key)
        | None \<Rightarrow> Inr ()))"

definition index_key :: "string \<Rightarrow> nat \<Rightarrow> string" where
  "index_key key i = key @ ''['' @ show_nat i @ '']''"

text \<open>Resolving every entry of the collected map, in place.\<close>

fun resolve_entries ::
  "nat \<Rightarrow> storage \<Rightarrow> (string \<times> string) list \<Rightarrow> props \<Rightarrow> (conf_error, props) result option" where
  "resolve_entries n p [] m = Some (Inr m)"
| "resolve_entries n p ((k, v) # kvs) m =
     Option.bind (resolve_string n p v)
       (\<lambda>r. case r of
          Inl e \<Rightarrow> Some (Inl e)
        | Inr s \<Rightarrow> resolve_entries n p kvs (AList.update k s m))"

text \<open>The map of a delimited string: one entry per comma-separated piece.\<close>

definition split_entries :: "string \<Rightarrow> string \<Rightarrow> props" where
  "split_entries key s =
     (let arr = map trim_space (split_char s CHR '','')
      in fold (\<lambda>(i, x). AList.update (index_key key i) x) (zip [0..<length arr] arr) [])"

definition get_slice ::
  "nat \<Rightarrow> storage \<Rightarrow> bind_param \<Rightarrow> (conf_error, properties option) result option" where
  "get_slice n p param =
     (let (found, m) = st_slice_entries p (bp_key param) []
      in if found then
           (case validate_slice_indexes (bp_key param) m of
              Inl e \<Rightarrow> Some (Inl e)
            | Inr _ \<Rightarrow>
                map_option (\<lambda>r. rbind r (\<lambda>m. Inr (Some (new_properties (Some m)))))
                  (resolve_entries n p (gorange m) m))
         else
           (case (case st_value p (bp_key param) of
                    Some v \<Rightarrow> Inr v
                  | None \<Rightarrow> if \<not> tag_has_def (bp_tag param)
                            then Inl (PropertyMissing (bp_key param))
                            else Inr (tag_def (bp_tag param))) of
              Inl e \<Rightarrow> Some (Inl e)
            | Inr str_val \<Rightarrow>
                map_option (\<lambda>r. rbind r (\<lambda>s.
                    let str_val = trim_space s
                    in if str_val = [] then Inr None
                       else Inr (Some (new_properties (Some (split_entries (bp_key param) str_val))))))
                  (resolve_string n p str_val)))"

section \<open>Tags: printing and parsing\<close>

definition trimmed :: "string \<Rightarrow> bool" where
  "trimmed s \<longleftrightarrow> s = [] \<or> (\<not> is_space (hd s) \<and> \<not> is_space (last s))"

definition tag_wf :: "parsed_tag \<Rightarrow> bool" where
  "tag_wf t \<longleftrightarrow> trimmed (tag_key t) \<and> trimmed (tag_def t) \<and> \<not> sublist '':='' (tag_key t) \<and>
     (\<not> tag_has_def t \<longrightarrow> tag_def t = [])"

lemma parse_tag_print:
  assumes "tag_wf t"
  shows "parse_tag (tag_string t) = Inr t"
proof -
  let ?body = "tag_key t @ (if tag_has_def t then '':='' @ tag_def t else [])"
  have t: "tag_string t = ''${'' @ ?body @ ''}''" by (simp add: tag_string_def)
  have "has_suffix (tag_string t) ''}''" unfolding has_suffix_iff t suffix_def by auto
  moreover have "has_prefix (tag_string t) ''${''" unfolding has_prefix_iff t prefix_def by auto
  moreover have "take (length (tag_string t) - 1 - 2) (drop 2 (tag_string t)) = ?body"
    unfolding t by simp
  ultimately show ?thesis using assms
    by (cases t) (auto simp: parse_tag_def tag_wf_def trimmed_def split2_first split2_absent trim_space_id)
qed

lemma parse_tag_wf: "parse_tag s = Inr t \<Longrightarrow> tag_wf t"
proof -
  assume p: "parse_tag s = Inr t"
  obtain k d where kd: "split2 (take (length s - 1 - 2) (drop 2 s)) '':='' = (k, d)"
    by fastforce
  then have "\<not> sublist '':='' k" by (rule split2_fst_absent) simp
  then have "\<not> sublist '':='' (trim_space k)" using trim_space_sublist sublist_order.order_trans by blast
  with p kd show ?thesis
    by (auto simp: parse_tag_def tag_wf_def trimmed_def trim_space_ends split: if_splits option.splits)
qed

text \<open>Printing and parsing of tags are inverse. \<open>ParseTag\<close> returns a tag for its
  printed form exactly when the tag is well formed (trimmed parts, no \<open>:=\<close> in the key, no
  default text without a default), and whatever it returns for any text is well formed,
  hence parsed back from its own printed form.\<close>

theorem parse_tag_roundtrip:
  "(parse_tag (tag_string t) = Inr t \<longleftrightarrow> tag_wf t) \<and>
   (\<forall>s u. parse_tag s = Inr u \<longrightarrow> parse_tag (tag_string u) = Inr u)"
  using parse_tag_print parse_tag_wf by blast

lemma parse_tag_roundtrip_witness:
  "parse_tag (tag_string \<lparr>tag_key = ''db.host'', tag_def = ''x'', tag_has_def = True\<rparr>) =
     Inr \<lparr>tag_key = ''db.host'', tag_def = ''x'', tag_has_def = True\<rparr>"
proof -
  have "parse_tag ''${ db.host := x}'' = Inr \<lparr>tag_key = ''db.host'', tag_def = ''x'', tag_has_def = True\<rparr>"
    by code_simp
  with parse_tag_roundtrip show ?thesis by blast
qed

section \<open>The shape of references\<close>

lemma scan_close_split: "scan_close n s = Some (a, b) \<Longrightarrow> s = a @ CHR ''}'' # b"
proof (induction s arbitrary: n a b)
  case (Cons c s)
  from Cons.prems show ?case
    by (auto split: if_splits dest!: Cons.IH)
qed simp

lemma find_ref_Ref:
  assumes "find_ref s = Ref pre tag suf"
  shows "s = pre @ tag @ suf \<and> 3 \<le> length tag \<and> has_prefix tag ''${'' \<and> has_suffix tag ''}''"
proof -
  from assms obtain rest inner where "split2 s ''${'' = (pre, Some rest)"
    and "scan_close 1 rest = Some (inner, suf)" and tag: "tag = ''${'' @ inner @ ''}''"
    by (auto simp: find_ref_def split_ref_def split: option.splits prod.splits)
  then have "s = pre @ ''${'' @ rest" and "rest = inner @ CHR ''}'' # suf"
    by (auto dest: split2_Some scan_close_split)
  with tag show ?thesis by (auto simp: has_prefix_iff has_suffix_iff suffix_def)
qed

lemma trim_space_le: "n > length s \<Longrightarrow> n > length (trim_space s)"
  using length_trim_space [of s] by simp

lemma parse_tag_def_shorter:
  assumes "parse_tag t = Inr u" and "t \<noteq> []"
  shows "length (tag_def u) < length t"
proof -
  let ?body = "take (length t - 1 - 2) (drop 2 t)"
  have body: "length ?body < length t" using assms(2) by (cases t) auto
  obtain k d where kd: "split2 ?body '':='' = (k, d)" by fastforce
  then have "length x < length t" if "d = Some x" for x
    using split2_length [of ?body "'':=''" k x] that body by simp
  with assms kd show ?thesis
    by (auto simp: parse_tag_def intro: trim_space_le split: if_splits option.splits)
qed

lemma bind_tag_def_shorter:
  "bind_tag t v q = Inr param \<Longrightarrow> t \<noteq> [] \<Longrightarrow> length (tag_def (bp_tag param)) < length t"
  by (auto simp: bind_tag_def rbind_Inr_iff Let_def dest!: parse_tag_def_shorter split: if_splits)

section \<open>The stack is balanced\<close>

lemma rs_push_pop: "rs_push k st = (Inr u, st') \<Longrightarrow> rs_pop k st' = st"
  by (cases st) (auto simp: rs_push_def rs_pop_def Let_def split: if_splits)

lemma rs_push_error: "rs_push k st = (Inl e, st') \<Longrightarrow> st' = st"
  by (auto simp: rs_push_def Let_def split: if_splits)

lemma resolve_with_stack_balanced:
  assumes "\<And>s st r st'. res s st = Some (r, st') \<Longrightarrow> st' = st"
    and "resolve_with_stack res p param st = Some (r, st')"
  shows "st' = st"
proof (cases "st_value p (bp_key param)")
  case (Some v)
  obtain q st1 where q: "rs_push (bp_key param) st = (q, st1)" by fastforce
  show ?thesis
  proof (cases q)
    case (Inl e)
    with assms(2) Some q show ?thesis by (auto simp: resolve_with_stack_def dest: rs_push_error)
  next
    case (Inr u)
    with assms(2) Some q obtain st2 where "res v st1 = Some (r, st2)" and "st' = rs_pop (bp_key param) st2"
      by (auto simp: resolve_with_stack_def)
    with assms(1) [of v st1 r st2] rs_push_pop [of "bp_key param" st u st1] q Inr show ?thesis by simp
  qed
qed (use assms in \<open>auto simp: resolve_with_stack_def split: if_splits\<close>)

lemma resolve_string_stack_SucE:
  assumes "resolve_string_stack (Suc n) p s st = Some (r, st')"
  obtains "find_ref s = NoRef" "r = Inr s" "st' = st"
  | "find_ref s = BadRef" "r = Inl (UnmatchedBraces s)" "st' = st"
  | pre tag suf e where "find_ref s = Ref pre tag suf" "bind_tag tag None bind_param0 = Inl e"
      "r = Inl e" "st' = st"
  | pre tag suf param e where "find_ref s = Ref pre tag suf"
      "bind_tag tag None bind_param0 = Inr param"
      "resolve_with_stack (resolve_string_stack n p) p param st = Some (Inl e, st')" "r = Inl e"
  | pre tag suf param x st1 e where "find_ref s = Ref pre tag suf"
      "bind_tag tag None bind_param0 = Inr param"
      "resolve_with_stack (resolve_string_stack n p) p param st = Some (Inr x, st1)"
      "resolve_string_stack n p suf st1 = Some (Inl e, st')" "r = Inl e"
  | pre tag suf param x st1 y where "find_ref s = Ref pre tag suf"
      "bind_tag tag None bind_param0 = Inr param"
      "resolve_with_stack (resolve_string_stack n p) p param st = Some (Inr x, st1)"
      "resolve_string_stack n p suf st1 = Some (Inr y, st')" "r = Inr (pre @ x @ y)"
proof (cases "find_ref s")
  case (Ref pre tag suf)
  show ?thesis
  proof (cases "bind_tag tag None bind_param0")
    case (Inr param)
    with Ref assms obtain r1 st1 where
      r1: "resolve_with_stack (resolve_string_stack n p) p param st = Some (r1, st1)"
      by (auto simp: bind_eq_Some_conv)
    show ?thesis
    proof (cases r1)
      case r1': (Inr x)
      with Ref Inr r1 assms obtain r2 st2 where r2: "resolve_string_stack n p suf st1 = Some (r2, st2)"
        by (auto simp: bind_eq_Some_conv)
      show ?thesis by (cases r2) (use that(5,6) Ref Inr r1 r1' r2 assms in auto)
    qed (use that(4) Ref Inr r1 assms in auto)
  qed (use that(3) Ref assms in auto)
qed (use that(1,2) assms in auto)

lemma resolve_string_stack_balanced:
  "resolve_string_stack n p s st = Some (r, st') \<Longrightarrow> st' = st"
proof (induction n arbitrary: s st r st')
  case (Suc n)
  have bal: "st' = st" if "resolve_with_stack (resolve_string_stack n p) p param st = Some (r, st')"
    for param r st st'
    by (rule resolve_with_stack_balanced [OF _ that]) (rule Suc.IH)
  show ?case using Suc.prems by (cases rule: resolve_string_stack_SucE) (auto dest: Suc.IH bal)
qed simp

section \<open>Enough fuel\<close>

text \<open>
  How often \<open>resolve_string_stack\<close> can be entered below a string of length \<open>len\<close> at depth
  \<open>d\<close>, when every value of the storage is at most \<open>L\<close> bytes long and the root is not a leaf.
\<close>

definition resolve_fuel :: "nat \<Rightarrow> nat \<Rightarrow> nat \<Rightarrow> nat" where
  "resolve_fuel L d len = (maxResolveDepth - d) * (L + 1) + len + 1"

lemma resolve_with_stack_returns:
  assumes res: "\<And>s st. rs_depth st \<le> maxResolveDepth \<Longrightarrow>
      resolve_fuel L (rs_depth st) (length s) \<le> n \<Longrightarrow> res s st \<noteq> None"
    and short: "\<And>k v. st_value p k = Some v \<Longrightarrow> length v \<le> L" and root: "st_value p [] = None"
    and d: "rs_depth st \<le> maxResolveDepth"
    and fuel: "resolve_fuel L (rs_depth st) (length (tag_def (bp_tag param))) \<le> n"
  shows "resolve_with_stack res p param st \<noteq> None"
proof (cases "st_value p (bp_key param)")
  case (Some v)
  then have k: "bp_key param \<noteq> []" using root by auto
  have v: "length v \<le> L" using short Some by blast
  obtain q st1 where q: "rs_push (bp_key param) st = (q, st1)" by fastforce
  show ?thesis
  proof (cases q)
    case (Inr u)
    with q k have d1: "rs_depth st1 = rs_depth st + 1" "rs_depth st1 \<le> maxResolveDepth"
      by (auto simp: rs_push_def Let_def split: if_splits)
    then have "maxResolveDepth - rs_depth st = Suc (maxResolveDepth - rs_depth st1)" by simp
    with v fuel have "resolve_fuel L (rs_depth st1) (length v) \<le> n"
      by (simp add: resolve_fuel_def)
    with res [of st1 v] d1 have "res v st1 \<noteq> None" by blast
    with Some q Inr show ?thesis by (simp add: resolve_with_stack_def)
  qed (use Some q in \<open>simp add: resolve_with_stack_def\<close>)
qed (use res d fuel in \<open>auto simp: resolve_with_stack_def\<close>)

lemma resolve_string_stack_returns:
  assumes short: "\<And>k v. st_value p k = Some v \<Longrightarrow> length v \<le> L" and root: "st_value p [] = None"
  shows "rs_depth st \<le> maxResolveDepth \<Longrightarrow> resolve_fuel L (rs_depth st) (length s) \<le> n \<Longrightarrow>
    resolve_string_stack n p s st \<noteq> None"
proof (induction n arbitrary: s st)
  case 0
  then show ?case by (simp add: resolve_fuel_def)
next
  case (Suc n)
  have whole: "resolve_with_stack (resolve_string_stack n p) p param st \<noteq> None"
    if "find_ref s = Ref pre tag suf" "bind_tag tag None bind_param0 = Inr param" for pre tag suf param
  proof (rule resolve_with_stack_returns [OF Suc.IH short root Suc.prems(1)])
    from that(1) have "s = pre @ tag @ suf" "tag \<noteq> []" by (auto dest: find_ref_Ref)
    with bind_tag_def_shorter [OF that(2)] Suc.prems(2)
    show "resolve_fuel L (rs_depth st) (length (tag_def (bp_tag param))) \<le> n"
      by (simp add: resolve_fuel_def)
  qed
  have rest: "resolve_string_stack n p suf st \<noteq> None" if "find_ref s = Ref pre tag suf" for pre tag suf
  proof (rule Suc.IH [OF Suc.prems(1)])
    from that have "s = pre @ tag @ suf" "3 \<le> length tag" by (auto dest: find_ref_Ref)
    with Suc.prems(2) show "resolve_fuel L (rs_depth st) (length suf) \<le> n"
      by (simp add: resolve_fuel_def)
  qed
  have bal: "st' = st" if "resolve_with_stack (resolve_string_stack n p) p param st = Some (r, st')"
    for param r st'
    by (rule resolve_with_stack_balanced [OF _ that]) (rule resolve_string_stack_balanced)
  show ?case
  proof (cases "find_ref s")
    case (Ref pre tag suf)
    show ?thesis
    proof (cases "bind_tag tag None bind_param0")
      case (Inr param)
      with whole [OF Ref] obtain r st' where
        w: "resolve_with_stack (resolve_string_stack n p) p param st = Some (r, st')" by fastforce
      with bal have "st' = st" by blast
      with w Ref Inr rest [OF Ref] show ?thesis by (auto split: sum.split)
    qed (use Ref in simp)
  qed simp_all
qed

section \<open>More fuel gives the same result\<close>

lemma resolve_with_stack_mono:
  assumes "\<And>s st r. res s st = Some r \<Longrightarrow> res' s st = Some r"
    and "resolve_with_stack res p param st = Some r"
  shows "resolve_with_stack res' p param st = Some r"
proof (cases "st_value p (bp_key param)")
  case (Some v)
  obtain q st1 where q: "rs_push (bp_key param) st = (q, st1)" by fastforce
  show ?thesis
  proof (cases q)
    case (Inr u)
    with assms(2) Some q obtain x where x: "res v st1 = Some x"
      by (auto simp: resolve_with_stack_def)
    with assms Some q Inr assms(1) [OF x] show ?thesis by (simp add: resolve_with_stack_def)
  qed (use assms(2) Some q in \<open>simp add: resolve_with_stack_def\<close>)
qed (use assms in \<open>auto simp: resolve_with_stack_def split: if_splits\<close>)

lemma resolve_string_stack_Suc:
  "resolve_string_stack n p s st = Some (r, st') \<Longrightarrow> resolve_string_stack (Suc n) p s st = Some (r, st')"
proof (induction n arbitrary: s st r st')
  case (Suc n)
  have w: "resolve_with_stack (resolve_string_stack (Suc n) p) p param st = Some r"
    if "resolve_with_stack (resolve_string_stack n p) p param st = Some r" for param st r
    by (rule resolve_with_stack_mono [OF _ that]) (use Suc.IH in \<open>metis surj_pair\<close>)
  have step: "resolve_string_stack (Suc (Suc n)) p s st = (case find_ref s of
        NoRef \<Rightarrow> Some (Inr s, st)
      | BadRef \<Rightarrow> Some (Inl (UnmatchedBraces s), st)
      | Ref pre tag suf \<Rightarrow>
          (case bind_tag tag None bind_param0 of
             Inl e \<Rightarrow> Some (Inl e, st)
           | Inr param \<Rightarrow>
               Option.bind (resolve_with_stack (resolve_string_stack (Suc n) p) p param st)
                 (\<lambda>(r, st). case r of
                    Inl e \<Rightarrow> Some (Inl e, st)
                  | Inr resolved \<Rightarrow>
                      Option.bind (resolve_string_stack (Suc n) p suf st)
                        (\<lambda>(r, st). case r of
                           Inl e \<Rightarrow> Some (Inl e, st)
                         | Inr sfx \<Rightarrow> Some (Inr (pre @ resolved @ sfx), st)))))"
    by (rule resolve_string_stack.simps(2))
  show ?case using Suc.prems
  proof (cases rule: resolve_string_stack_SucE)
    case (4 pre tag suf param e)
    with w [OF 4(3)] show ?thesis unfolding step by simp
  next
    case (5 pre tag suf param x st1 e)
    with w [OF 5(3)] Suc.IH [OF 5(4)] show ?thesis
      unfolding step by (simp del: resolve_string_stack.simps)
  next
    case (6 pre tag suf param x st1 y)
    with w [OF 6(3)] Suc.IH [OF 6(4)] show ?thesis
      unfolding step by (simp del: resolve_string_stack.simps)
  qed (simp_all add: step del: resolve_string_stack.simps)
qed simp

lemma resolve_string_stack_mono:
  "resolve_string_stack n p s st = Some r \<Longrightarrow> n \<le> m \<Longrightarrow> resolve_string_stack m p s st = Some r"
proof (induction m)
  case (Suc m)
  then show ?case
    by (cases r) (auto simp: le_Suc_eq simp del: resolve_string_stack.simps intro: resolve_string_stack_Suc)
qed simp

lemma resolve_mono:
  assumes "resolve n p param = Some r" and "n \<le> m"
  shows "resolve m p param = Some r"
proof -
  from assms(1) obtain q where q: "resolve_with_stack (resolve_string_stack n p) p param new_stack = Some q"
    and r: "r = fst q" by (auto simp: resolve_def)
  have "resolve_with_stack (resolve_string_stack m p) p param new_stack = Some q"
    by (rule resolve_with_stack_mono [OF _ q]) (rule resolve_string_stack_mono [OF _ assms(2)])
  with r show ?thesis by (simp add: resolve_def)
qed

lemma resolve_string_mono:
  assumes "resolve_string n p s = Some r" and "n \<le> m"
  shows "resolve_string m p s = Some r"
proof -
  from assms(1) obtain q where q: "resolve_string_stack n p s new_stack = Some q" and r: "r = fst q"
    by (auto simp: resolve_string_def)
  from resolve_string_stack_mono [OF q assms(2)] r show ?thesis by (simp add: resolve_string_def)
qed

lemma resolve_entries_mono:
  "resolve_entries n p kvs m = Some r \<Longrightarrow> n \<le> n' \<Longrightarrow> resolve_entries n' p kvs m = Some r"
proof (induction kvs arbitrary: m)
  case (Cons kv kvs)
  obtain k v where kv: "kv = (k, v)" by (cases kv)
  with Cons.prems obtain q where q: "resolve_string n p v = Some q" by (cases "resolve_string n p v") auto
  show ?case using Cons kv q resolve_string_mono [OF q Cons.prems(2)] by (cases q) auto
qed simp

lemma get_slice_mono: "get_slice n p param = Some r \<Longrightarrow> n \<le> m \<Longrightarrow> get_slice m p param = Some r"
  by (auto simp: get_slice_def Let_def split: prod.splits if_splits sum.splits option.splits
      dest: resolve_entries_mono resolve_string_mono)

section \<open>The unguarded expansion\<close>

text \<open>
  What a string stands for, without any stack: the same recursion with neither the cycle
  check nor the depth limit. It has no result (\<open>None\<close> for every fuel) on a circular string.
\<close>

definition expand_param ::
  "(string \<Rightarrow> (conf_error, string) result option) \<Rightarrow> storage \<Rightarrow> bind_param \<Rightarrow>
   (conf_error, string) result option" where
  "expand_param ex p param =
     (case st_value p (bp_key param) of
        Some val \<Rightarrow> ex val
      | None \<Rightarrow>
          if st_exists p (bp_key param) then Some (Inl (NotSimpleValue (bp_key param)))
          else if tag_has_def (bp_tag param) then ex (tag_def (bp_tag param))
          else Some (Inl (PropertyMissing (bp_key param))))"

fun expand :: "nat \<Rightarrow> storage \<Rightarrow> string \<Rightarrow> (conf_error, string) result option" where
  "expand 0 p s = None"
| "expand (Suc n) p s =
     (case find_ref s of
        NoRef \<Rightarrow> Some (Inr s)
      | BadRef \<Rightarrow> Some (Inl (UnmatchedBraces s))
      | Ref pre tag suf \<Rightarrow>
          (case bind_tag tag None bind_param0 of
             Inl e \<Rightarrow> Some (Inl e)
           | Inr param \<Rightarrow>
               Option.bind (expand_param (expand n p) p param)
                 (\<lambda>r. case r of
                    Inl e \<Rightarrow> Some (Inl e)
                  | Inr x \<Rightarrow> map_option (\<lambda>r. rbind r (\<lambda>y. Inr (pre @ x @ y))) (expand n p suf))))"

lemma expand_param_mono:
  assumes "\<And>s r. ex s = Some r \<Longrightarrow> ex' s = Some r" and "expand_param ex p param = Some r"
  shows "expand_param ex' p param = Some r"
  using assms by (auto simp: expand_param_def split: option.splits if_splits)

lemma expand_Suc: "expand n p s = Some r \<Longrightarrow> expand (Suc n) p s = Some r"
proof (induction n arbitrary: s r)
  case (Suc n)
  have w: "expand_param (expand (Suc n) p) p param = Some r" if "expand_param (expand n p) p param = Some r"
    for param r by (rule expand_param_mono [OF _ that]) (rule Suc.IH)
  show ?case
  proof (cases "find_ref s")
    case (Ref pre tag suf)
    show ?thesis
    proof (cases "bind_tag tag None bind_param0")
      case (Inr param)
      with Ref Suc.prems obtain r1 where r1: "expand_param (expand n p) p param = Some r1"
        by (auto simp: bind_eq_Some_conv)
      show ?thesis
      proof (cases r1)
        case r1': (Inr x)
        with Ref Inr r1 Suc.prems obtain r2 where "expand n p suf = Some r2" by auto
        with Suc.IH [OF this] w [OF r1] Ref Inr r1 r1' Suc.prems show ?thesis
          by (simp del: expand.simps add: expand.simps(2) [of n] expand.simps(2) [of "Suc n"])
      qed (use w [OF r1] Ref Inr r1 Suc.prems in
          \<open>auto simp del: expand.simps simp: expand.simps(2) [of n] expand.simps(2) [of "Suc n"]\<close>)
    qed (use Ref Suc.prems in simp)
  qed (use Suc.prems in simp_all)
qed simp

lemma expand_mono: "expand n p s = Some r \<Longrightarrow> n \<le> m \<Longrightarrow> expand m p s = Some r"
  by (induction m) (auto simp: le_Suc_eq simp del: expand.simps intro: expand_Suc)

lemma expand_unique: "expand n p s = Some r \<Longrightarrow> expand m p s = Some r' \<Longrightarrow> r = r'"
  using expand_mono [of n p s r "max n m"] expand_mono [of m p s r' "max n m"] by simp

text \<open>How a guarded result may differ from the unguarded one, reached with fuel \<open>g\<close>.\<close>

definition agrees :: "nat \<Rightarrow> storage \<Rightarrow> resolve_stack \<Rightarrow> (conf_error, string) result \<Rightarrow>
    (conf_error, string) result \<Rightarrow> bool" where
  "agrees g p st r r' \<longleftrightarrow> r = r' \<or> r = Inl DepthExceeded \<or>
     (\<exists>k v g'. r = Inl (CircularReference k) \<and> k \<in> rs_refs st \<and> st_value p k = Some v \<and>
        g' < g \<and> expand g' p v \<noteq> None)"

lemma agrees_mono: "agrees g p st r r' \<Longrightarrow> g \<le> h \<Longrightarrow> agrees h p st r r'"
  unfolding agrees_def using less_le_trans by blast

lemma resolve_with_stack_agrees:
  assumes IH: "\<And>s st g r st' r'. res s st = Some (r, st') \<Longrightarrow> expand g p s = Some r' \<Longrightarrow> agrees g p st r r'"
    and r: "resolve_with_stack res p param st = Some (r, st')"
    and r': "expand_param (expand g p) p param = Some r'"
  shows "agrees (Suc g) p st r r'"
proof (cases "st_value p (bp_key param)")
  case (Some v)
  let ?k = "bp_key param"
  from Some r' have v: "expand g p v = Some r'" by (simp add: expand_param_def)
  obtain q st1 where q: "rs_push ?k st = (q, st1)" by fastforce
  show ?thesis
  proof (cases q)
    case (Inl e)
    with q have "e = DepthExceeded \<or> e = CircularReference ?k \<and> ?k \<in> rs_refs st"
      by (auto simp: rs_push_def Let_def split: if_splits)
    moreover from r Some q Inl have "r = Inl e" by (simp add: resolve_with_stack_def)
    ultimately show ?thesis using v Some unfolding agrees_def by blast
  next
    case (Inr u)
    with r Some q obtain st2 where st2: "res v st1 = Some (r, st2)"
      by (auto simp: resolve_with_stack_def)
    define h where "h = (LEAST h. expand h p v \<noteq> None)"
    have "expand h p v \<noteq> None" unfolding h_def by (rule LeastI [of _ g]) (simp add: v)
    then obtain r'' where h: "expand h p v = Some r''" by blast
    then have "r'' = r'" using v expand_unique by blast
    have le: "h \<le> g" unfolding h_def by (rule Least_le) (simp add: v)
    have min: "expand g' p v = None" if "g' < h" for g' using that not_less_Least unfolding h_def by blast
    have refs: "k \<in> rs_refs st \<or> k = ?k" if "k \<in> rs_refs st1" for k
      using that q Inr by (auto simp: rs_push_def Let_def split: if_splits)
    from IH [OF st2 h] \<open>r'' = r'\<close> have "agrees h p st1 r r'" by simp
    then show ?thesis unfolding agrees_def using refs min Some le by fastforce
  qed
next
  case None
  show ?thesis
  proof (cases "st_exists p (bp_key param) \<or> \<not> tag_has_def (bp_tag param)")
    case True
    with None r r' show ?thesis by (auto simp: resolve_with_stack_def expand_param_def agrees_def split: if_splits)
  next
    case False
    with None r r' IH [of "tag_def (bp_tag param)" st r st' g r'] show ?thesis
      by (auto simp: resolve_with_stack_def expand_param_def intro: agrees_mono)
  qed
qed

lemma resolve_string_stack_agrees:
  "resolve_string_stack n p s st = Some (r, st') \<Longrightarrow> expand g p s = Some r' \<Longrightarrow> agrees g p st r r'"
proof (induction n arbitrary: s st g r st' r')
  case (Suc n)
  obtain g0 where g: "g = Suc g0" using Suc.prems(2) by (cases g) auto
  have w: "agrees (Suc g0) p st r r'"
    if "resolve_with_stack (resolve_string_stack n p) p param st = Some (r, st')"
      "expand_param (expand g0 p) p param = Some r'" for param st r st' r'
    by (rule resolve_with_stack_agrees [OF Suc.IH that])
  have bal: "st' = st" if "resolve_with_stack (resolve_string_stack n p) p param st = Some (r, st')"
    for param r st st'
    by (rule resolve_with_stack_balanced [OF _ that]) (rule resolve_string_stack_balanced)
  note e = Suc.prems(2) [unfolded g expand.simps]
  show ?case using Suc.prems(1)
  proof (cases rule: resolve_string_stack_SucE)
    case (4 pre tag suf param e)
    with e obtain r1 where r1: "expand_param (expand g0 p) p param = Some r1"
      by (auto simp: bind_eq_Some_conv)
    from w [OF 4(3) r1] 4 e r1 show ?thesis by (auto simp: agrees_def g)
  next
    case (5 pre tag suf param x st1 e')
    with e obtain r1 where r1: "expand_param (expand g0 p) p param = Some r1"
      by (auto simp: bind_eq_Some_conv)
    from w [OF 5(3) r1] have "r1 = Inr x" by (auto simp: agrees_def)
    with 5 e r1 obtain r2 where r2: "expand g0 p suf = Some r2" by auto
    from Suc.IH [OF 5(4) r2] bal [OF 5(3)] have "agrees g0 p st (Inl e') r2" by simp
    with 5 e r1 r2 \<open>r1 = Inr x\<close> show ?thesis unfolding agrees_def g by fastforce
  next
    case (6 pre tag suf param x st1 y)
    with e obtain r1 where r1: "expand_param (expand g0 p) p param = Some r1"
      by (auto simp: bind_eq_Some_conv)
    from w [OF 6(3) r1] have "r1 = Inr x" by (auto simp: agrees_def)
    with 6 e r1 obtain r2 where r2: "expand g0 p suf = Some r2" by auto
    from Suc.IH [OF 6(4) r2] have "r2 = Inr y" by (auto simp: agrees_def)
    with 6 e r1 r2 \<open>r1 = Inr x\<close> show ?thesis by (simp add: agrees_def)
  qed (use e in \<open>auto simp: agrees_def\<close>)
qed simp

lemma expand_not_circular: "expand n p s \<noteq> Some (Inl (CircularReference k))"
proof (induction n arbitrary: s)
  case (Suc n)
  have w: "expand_param (expand n p) p param \<noteq> Some (Inl (CircularReference k))" for param
    using Suc by (auto simp: expand_param_def split: option.splits)
  have b: "bind_tag t v q \<noteq> Inl (CircularReference k)" for t v q
    by (auto simp: bind_tag_def parse_tag_def rbind_Inl_iff Let_def split: if_splits option.splits prod.splits)
  show ?case using w b Suc
    by (auto simp: bind_eq_Some_conv rbind_Inl_iff split: ref_split.splits sum.splits)
qed simp

text \<open>Reference resolution returns. In a storage whose values are at most \<open>L\<close>
  bytes long and in which the empty key is not a leaf, resolving a string enters the resolver
  at most \<open>100 * (L + 1) + length s + 1\<close> levels deep, cyclic and deeply nested references
  included, and the stack is left as it was found.\<close>

theorem resolve_string_returns:
  assumes "\<forall>k v. st_value p k = Some v \<longrightarrow> length v \<le> L" and "st_value p [] = None"
    and "resolve_fuel L 0 (length s) \<le> n"
  shows "\<exists>r. resolve_string_stack n p s new_stack = Some (r, new_stack) \<and> resolve_string n p s = Some r"
proof -
  have "resolve_string_stack n p s new_stack \<noteq> None"
    using assms by (intro resolve_string_stack_returns [of p L]) (simp_all add: new_stack_def)
  then obtain r st where "resolve_string_stack n p s new_stack = Some (r, st)" by fastforce
  with resolve_string_stack_balanced [OF this] show ?thesis by (simp add: resolve_string_def)
qed

text \<open>A property file with a chain, a default inside a reference and a cycle.\<close>

definition sample_refs :: properties where
  "sample_refs = \<lparr>pr_data =
     [(''url'', ''http://${host:=${name}}:${port}''), (''name'', ''h''), (''port'', ''80''),
      (''a'', ''${b}''), (''b'', ''x${a}'')]\<rparr>"

lemma sample_refs_short: "ps_value sample_refs k = Some v \<Longrightarrow> length v \<le> 40"
  by (auto simp: ps_value_def sample_refs_def split: if_splits)

lemma resolve_string_returns_witness:
  "\<exists>r. resolve_string 5000 (properties_storage sample_refs) ''${a}'' = Some r"
proof -
  have short: "\<forall>k v. st_value (properties_storage sample_refs) k = Some v \<longrightarrow> length v \<le> 40"
    by (simp add: sample_refs_short)
  have "st_value (properties_storage sample_refs) [] = None"
    by (simp add: ps_value_def sample_refs_def)
  from resolve_string_returns [where s = "''${a}''" and n = 5000, OF short this] show ?thesis
    by (auto simp: resolve_fuel_def maxResolveDepth_def)
qed

text \<open>Property C16: the cycle check is exact. Whenever the unguarded expansion of a string has
  a result, the guarded resolver returns that same result, value or error, unless it gives
  up at the depth limit; and when it reports a circular reference the unguarded expansion
  never ends.\<close>

theorem resolve_string_guard_exact:
  assumes "resolve_string n p s = Some r"
  shows "(\<forall>g r'. expand g p s = Some r' \<longrightarrow> r = r' \<or> r = Inl DepthExceeded) \<and>
    (\<forall>k. r = Inl (CircularReference k) \<longrightarrow> (\<forall>g. expand g p s = None))"
proof -
  from assms obtain st where st: "resolve_string_stack n p s new_stack = Some (r, st)"
    by (auto simp: resolve_string_def)
  have same: "r = r' \<or> r = Inl DepthExceeded" if "expand g p s = Some r'" for g r'
    using resolve_string_stack_agrees [OF st that] by (simp add: agrees_def new_stack_def)
  moreover have "expand g p s = None" if r: "r = Inl (CircularReference k)" for k g
  proof (rule ccontr)
    assume "expand g p s \<noteq> None"
    then obtain r' where e: "expand g p s = Some r'" by blast
    with same r have "r' = Inl (CircularReference k)" by fastforce
    with e show False using expand_not_circular by blast
  qed
  ultimately show ?thesis by blast
qed

lemma resolve_string_guard_exact_witness:
  "resolve_string 20 (properties_storage sample_refs) ''${url}'' = Some (Inr ''http://h:80'') \<and>
   expand 30 (properties_storage sample_refs) ''${a}'' = None"
proof -
  have "resolve_string 20 (properties_storage sample_refs) ''${url}'' = Some (Inr ''http://h:80'')"
    by code_simp
  moreover have "resolve_string 20 (properties_storage sample_refs) ''${a}'' =
      Some (Inl (CircularReference ''a''))" by code_simp
  ultimately show ?thesis using resolve_string_guard_exact by blast
qed

text \<open>Property C36: a root leaf that refers to the root is never resolved. The stack does not
  track the empty key, so when the storage holds a leaf under the empty key whose first
  reference is \<open>${ROOT}\<close>, resolving any text that starts with that reference never returns,
  whatever the fuel: the cycle is not reported.\<close>

theorem root_cycle_never_returns:
  assumes "st_value p [] = Some v" and "find_ref v = Ref pre ''${ROOT}'' suf"
  shows "resolve_string_stack n p v st = None"
proof (induction n arbitrary: st)
  case (Suc n)
  have "bind_tag ''${ROOT}'' None bind_param0 =
      Inr \<lparr>bp_key = [], bp_path = [], bp_tag = no_tag, bp_validate = None\<rparr>" by code_simp
  with assms Suc show ?case by (simp add: resolve_with_stack_def rs_push_def)
qed simp

lemma root_cycle_never_returns_witness:
  "resolve_string_stack 1000 (properties_storage \<lparr>pr_data = [([], ''x${ROOT}'')]\<rparr>) ''x${ROOT}'' new_stack = None"
proof -
  let ?p = "properties_storage \<lparr>pr_data = [([], ''x${ROOT}'')]\<rparr>"
  have "st_value ?p [] = Some ''x${ROOT}''" by (simp add: ps_value_def)
  moreover have "find_ref ''x${ROOT}'' = Ref ''x'' ''${ROOT}'' []" by code_simp
  ultimately show ?thesis by (rule root_cycle_never_returns)
qed

section \<open>Slices\<close>

definition entry_index :: "string \<Rightarrow> string \<Rightarrow> nat option" where
  "entry_index key e = (case parse_slice_entry_index key e of Inr i \<Rightarrow> Some i | Inl _ \<Rightarrow> None)"

lemma rfold_index_step:
  "rfold (index_step key) (is, m) es = Inr (is', m') \<Longrightarrow>
     (\<forall>e \<in> set es. entry_index key e \<noteq> None) \<and>
     is' = is \<union> {i. \<exists>e \<in> set es. entry_index key e = Some i} \<and>
     (m = None \<and> is = {} \<or> (\<exists>x. m = Some x \<and> x \<in> is \<and> (\<forall>i \<in> is. i \<le> x)) \<longrightarrow>
      m' = None \<and> is' = {} \<or> (\<exists>x. m' = Some x \<and> x \<in> is' \<and> (\<forall>i \<in> is'. i \<le> x)))"
proof (induction es arbitrary: "is" m)
  case (Cons e es)
  then obtain i where i: "parse_slice_entry_index key e = Inr i"
    by (auto simp: index_step_def rbind_Inr_iff)
  let ?m = "case m of None \<Rightarrow> Some i | Some x \<Rightarrow> Some (if i > x then i else x)"
  have "index_step key (is, m) e = Inr (insert i is, ?m)" by (simp add: index_step_def i)
  with Cons.prems have "rfold (index_step key) (insert i is, ?m) es = Inr (is', m')" by simp
  note IH = Cons.IH [OF this]
  have e: "entry_index key e = Some i" by (simp add: entry_index_def i)
  have keep: "\<exists>x. ?m = Some x \<and> x \<in> insert i is \<and> (\<forall>j \<in> insert i is. j \<le> x)"
    if "m = None \<and> is = {} \<or> (\<exists>x. m = Some x \<and> x \<in> is \<and> (\<forall>i \<in> is. i \<le> x))"
  proof (cases m)
    case (Some x)
    with that show ?thesis by (cases "i > x") auto
  qed (use that in auto)
  from IH have "(\<forall>e \<in> set (e # es). entry_index key e \<noteq> None)" using e by simp
  moreover from IH have "is' = is \<union> {j. \<exists>x \<in> set (e # es). entry_index key x = Some j}" using e by auto
  ultimately show ?case using IH keep by blast
qed simp

lemma rfold_index_step_ok:
  "(\<forall>e \<in> set es. entry_index key e \<noteq> None) \<Longrightarrow> \<exists>a. rfold (index_step key) acc es = Inr a"
proof (induction es arbitrary: acc)
  case (Cons e es)
  then obtain i where "parse_slice_entry_index key e = Inr i"
    by (auto simp: entry_index_def split: sum.splits)
  with Cons show ?case by (simp add: index_step_def)
qed simp

text \<open>The entries of a slice are accepted exactly when every key carries an
  index and the indexes that occur are \<open>0, ..., n - 1\<close> for some \<open>n\<close>, with no gap.\<close>

theorem validate_slice_indexes_iff:
  "validate_slice_indexes key entries = Inr () \<longleftrightarrow>
     (\<forall>e \<in> fst ` set entries. entry_index key e \<noteq> None) \<and>
     (\<exists>n. {i. \<exists>e \<in> fst ` set entries. entry_index key e = Some i} = {..<n})"
  (is "?L \<longleftrightarrow> ?all \<and> (\<exists>n. ?I = {..<n})")
proof -
  let ?es = "gokeys (gorange entries)"
  have es: "set ?es = fst ` set entries" unfolding set_map gokeys_gorange ..
  have down: "find (\<lambda>i. i \<notin> ?I) [0..<m + 1] = None \<longleftrightarrow> (\<exists>n. ?I = {..<n})"
    if "m \<in> ?I" "\<forall>i \<in> ?I. i \<le> m" for m
  proof
    assume "find (\<lambda>i. i \<notin> ?I) [0..<m + 1] = None"
    then have "\<forall>i < m + 1. i \<in> ?I" unfolding find_None_iff by (simp del: upt_Suc)
    moreover have "\<forall>i \<in> ?I. i < m + 1" using that(2) by fastforce
    ultimately have "?I = {..<m + 1}" by blast
    then show "\<exists>n. ?I = {..<n}" by blast
  next
    assume "\<exists>n. ?I = {..<n}"
    then obtain n where n: "?I = {..<n}" ..
    then have "m < n" using that(1) by blast
    then have "\<forall>i < m + 1. i \<in> ?I" unfolding n by auto
    then show "find (\<lambda>i. i \<notin> ?I) [0..<m + 1] = None"
      unfolding find_None_iff by (simp del: upt_Suc)
  qed
  show ?thesis
  proof (cases "rfold (index_step key) ({}, None) ?es")
    case (Inl e)
    then have "\<not> (\<forall>e \<in> set ?es. entry_index key e \<noteq> None)"
      using rfold_index_step_ok [of ?es key "({}, None)"] by fastforce
    then have "\<not> ?all" unfolding es .
    moreover have "\<not> ?L" using Inl by (simp add: validate_slice_indexes_def)
    ultimately show ?thesis by blast
  next
    case (Inr acc)
    obtain I m where acc: "acc = (I, m)" by (cases acc)
    from rfold_index_step [OF Inr [unfolded acc]] es have all: ?all and I: "I = ?I"
      and m: "m = None \<and> ?I = {} \<or> (\<exists>x. m = Some x \<and> x \<in> ?I \<and> (\<forall>i \<in> ?I. i \<le> x))" by auto
    have "?L \<longleftrightarrow> (\<exists>n. ?I = {..<n})"
    proof (cases m)
      case None
      with m have "?I = {..<0}" by simp
      then have "\<exists>n. ?I = {..<n}" by blast
      with None Inr acc show ?thesis by (simp add: validate_slice_indexes_def)
    next
      case (Some x)
      with m have "x \<in> ?I" "\<forall>i \<in> ?I. i \<le> x" by auto
      from down [OF this] have "find (\<lambda>i. i \<notin> I) [0..<x + 1] = None \<longleftrightarrow> (\<exists>n. ?I = {..<n})"
        unfolding I .
      with Inr Some acc show ?thesis
        by (auto simp: validate_slice_indexes_def simp del: upt_Suc split: option.splits)
    qed
    with all show ?thesis by blast
  qed
qed

lemma validate_slice_indexes_iff_witness:
  "validate_slice_indexes ''a'' [(''a[1].x'', ''1''), (''a[0].x'', ''2''), (''a[1].y'', ''3'')] = Inr () \<and>
   (\<exists>n. {i. \<exists>e \<in> {''a[1].x'', ''a[0].x'', ''a[1].y''}. entry_index ''a'' e = Some i} = {..<n})"
proof -
  let ?m = "[(''a[1].x'', ''1''), (''a[0].x'', ''2''), (''a[1].y'', ''3'')]"
  have "validate_slice_indexes ''a'' ?m = Inr ()" by code_simp
  with validate_slice_indexes_iff [of "''a''" ?m] show ?thesis by simp
qed

text \<open>A delimited string gives entry \<open>i\<close> its trimmed \<open>i\<close>-th piece.\<close>

lemma index_key_inject [simp]: "index_key k i = index_key k j \<longleftrightarrow> i = j"
  by (simp add: index_key_def)

lemma fold_index_other:
  "(\<And>i. a \<le> i \<Longrightarrow> i < a + length arr \<Longrightarrow> k \<noteq> index_key key i) \<Longrightarrow>
     map_of (fold (\<lambda>(i, x). AList.update (index_key key i) x) (zip [a..<a + length arr] arr) m) k =
     map_of m k"
proof (induction arr arbitrary: a m)
  case (Cons x arr)
  have "[a..<a + length (x # arr)] = a # [Suc a..<Suc a + length arr]" by (simp add: upt_rec)
  with Cons.IH [of "Suc a"] Cons.prems [of a] Cons.prems show ?case by simp
qed simp

lemma fold_index_at:
  "a \<le> i \<Longrightarrow> i < a + length arr \<Longrightarrow>
     map_of (fold (\<lambda>(i, x). AList.update (index_key key i) x) (zip [a..<a + length arr] arr) m)
       (index_key key i) = Some (arr ! (i - a))"
proof (induction arr arbitrary: a m)
  case (Cons x arr)
  have up: "[a..<a + length (x # arr)] = a # [Suc a..<Suc a + length arr]" by (simp add: upt_rec)
  show ?case
  proof (cases "i = a")
    case True
    have "map_of (fold (\<lambda>(i, x). AList.update (index_key key i) x)
        (zip [Suc a..<Suc a + length arr] arr) (AList.update (index_key key a) x m)) (index_key key a) =
      map_of (AList.update (index_key key a) x m) (index_key key a)"
      by (rule fold_index_other) auto
    with True up show ?thesis by simp
  next
    case False
    with Cons.IH [of "Suc a"] Cons.prems up show ?thesis by (simp add: nth_Cons' Suc_diff_le)
  qed
qed simp

lemma split_entries_keys: "k \<in> fst ` set (split_entries key s) \<Longrightarrow> \<exists>i. k = index_key key i"
proof (rule ccontr)
  let ?arr = "map trim_space (split_char s CHR '','')"
  assume k: "k \<in> fst ` set (split_entries key s)" and no: "\<nexists>i. k = index_key key i"
  have "map_of (fold (\<lambda>(i, x). AList.update (index_key key i) x) (zip [0..<0 + length ?arr] ?arr) []) k =
      map_of [] k" by (rule fold_index_other) (use no in blast)
  with k show False by (simp add: split_entries_def Let_def map_of_eq_None_iff)
qed

text \<open>A slice given as one string. The storage made from it has entry \<open>i\<close> for
  exactly the pieces between commas, each trimmed, under \<open>key[i]\<close>, and nothing else.\<close>

theorem split_entries_pieces:
  "(\<forall>i. map_of (split_entries key s) (index_key key i) =
     (if i < length (split_char s CHR '','') then Some (trim_space (split_char s CHR '','' ! i)) else None)) \<and>
   (\<forall>k \<in> fst ` set (split_entries key s). \<exists>i. k = index_key key i)"
proof -
  let ?arr = "map trim_space (split_char s CHR '','')"
  let ?m = "fold (\<lambda>(i, x). AList.update (index_key key i) x) (zip [0..<0 + length ?arr] ?arr) []"
  have m: "split_entries key s = ?m" by (simp add: split_entries_def Let_def)
  have "map_of ?m (index_key key i) =
      (if i < length ?arr then Some (?arr ! i) else None)" for i
    using fold_index_at [of 0 i ?arr key "[]"] fold_index_other [of 0 ?arr "index_key key i" key "[]"] by auto
  moreover have "\<forall>k \<in> fst ` set (split_entries key s). \<exists>i. k = index_key key i"
    using split_entries_keys by blast
  ultimately show ?thesis unfolding m by auto
qed

lemma split_entries_pieces_witness:
  "\<exists>i. (''hosts[1]'', ''b'') \<in> set (split_entries ''hosts'' ''a, b'') \<and> ''hosts[1]'' = index_key ''hosts'' i"
proof -
  have "(''hosts[1]'', ''b'') \<in> set (split_entries ''hosts'' ''a, b'')" by code_simp
  with split_entries_pieces [of "''hosts''" "''a, b''"] show ?thesis by force
qed

end
