(* ===== verification/GoNum.thy ===== *)
theory GoNum
  imports GoStrings
begin

text \<open>
  \<open>strconv.ParseUint\<close>, \<open>ParseInt\<close> and \<open>ParseBool\<close> as the configuration binder calls
  them: base 0, so that the prefix of the text chooses the base and underscores may separate
  digits, and 64 bits, the size \<open>uint\<close> and \<open>int\<close> have on the platforms Go-Spring targets.
\<close>

datatype num_error = NumSyntax | NumRange

definition lower_is :: "char \<Rightarrow> char \<Rightarrow> bool" where
  "lower_is c x \<longleftrightarrow> lower_char c = x"

text \<open>The value of a byte as a digit of any base up to 36.\<close>

definition any_digit :: "char \<Rightarrow> nat option" where
  "any_digit c =
     (if is_digit c then Some (digit_val c)
      else let n = of_char (lower_char c) :: nat
           in if 97 \<le> n \<and> n \<le> 122 then Some (n - 97 + 10) else None)"

text \<open>The base a literal's prefix selects, and the digits after the prefix.\<close>

definition base_split :: "string \<Rightarrow> nat \<times> string" where
  "base_split s =
     (case s of
        c # d # e # r \<Rightarrow>
          if c \<noteq> CHR ''0'' then (10, s)
          else if lower_is d CHR ''b'' then (2, e # r)
          else if lower_is d CHR ''o'' then (8, e # r)
          else if lower_is d CHR ''x'' then (16, e # r)
          else (8, d # e # r)
      | c # r \<Rightarrow> if c = CHR ''0'' then (8, r) else (10, s)
      | [] \<Rightarrow> (10, s))"

text \<open>
  \<open>underscoreOK\<close>: an underscore must stand between digits, or between a base prefix and a
  digit. The first argument is the kind of the byte seen last.
\<close>

datatype seen = SeenStart | SeenDigit | SeenUnderscore | SeenOther

fun underscore_scan :: "bool \<Rightarrow> seen \<Rightarrow> string \<Rightarrow> bool" where
  "underscore_scan hex prev [] = (prev \<noteq> SeenUnderscore)"
| "underscore_scan hex prev (c # s) =
     (if is_digit c \<or> (hex \<and> (case any_digit c of Some d \<Rightarrow> d < 16 | None \<Rightarrow> False))
      then underscore_scan hex SeenDigit s
      else if c = CHR ''_''
      then (if prev \<noteq> SeenDigit then False else underscore_scan hex SeenUnderscore s)
      else (if prev = SeenUnderscore then False else underscore_scan hex SeenOther s))"

definition underscore_ok :: "string \<Rightarrow> bool" where
  "underscore_ok s =
     (let s = (case s of c # r \<Rightarrow> if c = CHR ''-'' \<or> c = CHR ''+'' then r else s | [] \<Rightarrow> s)
      in case s of
           c # d # r \<Rightarrow>
             if c = CHR ''0'' \<and> (lower_is d CHR ''b'' \<or> lower_is d CHR ''o'' \<or> lower_is d CHR ''x'')
             then underscore_scan (lower_is d CHR ''x'') SeenDigit r
             else underscore_scan False SeenStart s
         | _ \<Rightarrow> underscore_scan False SeenStart s)"

text \<open>The digit loop: the value so far, or the first error.\<close>

fun digit_loop :: "nat \<Rightarrow> nat \<Rightarrow> string \<Rightarrow> (num_error, nat) result" where
  "digit_loop base n [] = Inr n"
| "digit_loop base n (c # s) =
     (if c = CHR ''_'' then digit_loop base n s
      else (case any_digit c of
              None \<Rightarrow> Inl NumSyntax
            | Some d \<Rightarrow>
                if d \<ge> base then Inl NumSyntax
                else let n1 = n * base + d
                     in if n1 \<ge> 2 ^ 64 then Inl NumRange else digit_loop base n1 s))"

definition parse_uint0 :: "string \<Rightarrow> (num_error, nat) result" where
  "parse_uint0 s0 =
     (if s0 = [] then Inl NumSyntax
      else let (base, s) = base_split s0
           in rbind (digit_loop base 0 s) (\<lambda>n.
                if CHR ''_'' \<in> set s \<and> \<not> underscore_ok s0 then Inl NumSyntax else Inr n))"

definition parse_int0 :: "string \<Rightarrow> (num_error, int) result" where
  "parse_int0 s0 =
     (if s0 = [] then Inl NumSyntax
      else let (neg, s) = (case s0 of
                   c # r \<Rightarrow> if c = CHR ''+'' then (False, r)
                            else if c = CHR ''-'' then (True, r) else (False, s0)
                 | [] \<Rightarrow> (False, s0))
           in rbind (parse_uint0 s) (\<lambda>un.
                if \<not> neg \<and> un \<ge> 2 ^ 63 then Inl NumRange
                else if neg \<and> un > 2 ^ 63 then Inl NumRange
                else Inr (if neg then - int un else int un)))"

definition parse_bool :: "string \<Rightarrow> bool option" where
  "parse_bool s =
     (if s \<in> {''1'', ''t'', ''T'', ''true'', ''TRUE'', ''True''} then Some True
      else if s \<in> {''0'', ''f'', ''F'', ''false'', ''FALSE'', ''False''} then Some False
      else None)"

lemma digit_loop_bound: "digit_loop base n s = Inr m \<Longrightarrow> n < 2 ^ 64 \<Longrightarrow> m < 2 ^ 64"
  by (induction base n s rule: digit_loop.induct)
     (auto simp: Let_def split: if_splits option.splits)

lemma parse_uint0_bound: "parse_uint0 s = Inr n \<Longrightarrow> n < 2 ^ 64"
  by (auto simp: parse_uint0_def rbind_Inr_iff split: if_splits prod.splits dest!: digit_loop_bound)

lemma parse_int0_bound: "parse_int0 s = Inr i \<Longrightarrow> - (2 ^ 63) \<le> i \<and> i < 2 ^ 63"
  by (auto simp: parse_int0_def rbind_Inr_iff Let_def split: if_splits list.splits)

lemma any_digit_digit: "is_digit c \<Longrightarrow> any_digit c = Some (digit_val c) \<and> digit_val c < 10"
  by (auto simp: any_digit_def is_digit_def digit_val_def Let_def)

lemma digits_val_append: "digits_val (s @ t) = digits_val s * 10 ^ length t + digits_val t"
proof (induction t rule: rev_induct)
  case (snoc c t)
  show ?case using digits_val_snoc [of "s @ t" c] digits_val_snoc [of t c] snoc by (simp add: algebra_simps)
qed (simp add: digits_val_def)

lemma digit_loop_decimal:
  "list_all is_digit t \<Longrightarrow> n * 10 ^ length t + digits_val t < 2 ^ 64 \<Longrightarrow>
     digit_loop 10 n t = Inr (n * 10 ^ length t + digits_val t)"
proof (induction t arbitrary: n)
  case (Cons c t)
  then have c: "any_digit c = Some (digit_val c)" "digit_val c < 10" "c \<noteq> CHR ''_''"
    using any_digit_digit by (auto simp: is_digit_def)
  have v: "digits_val (c # t) = digit_val c * 10 ^ length t + digits_val t"
    using digits_val_append [of "[c]" t] by (simp add: digits_val_def)
  have sum: "n * 10 ^ length (c # t) + digits_val (c # t) =
      (n * 10 + digit_val c) * 10 ^ length t + digits_val t"
    unfolding v by (simp add: algebra_simps)
  have "n * 10 + digit_val c \<le> (n * 10 + digit_val c) * 10 ^ length t" by simp
  with Cons.prems(2) sum have "n * 10 + digit_val c < 2 ^ 64" by linarith
  with c sum Cons.IH [of "n * 10 + digit_val c"] Cons.prems show ?case by (simp add: Let_def)
qed (simp add: digits_val_def)

lemma show_nat_hd: "n > 0 \<Longrightarrow> hd (show_nat n) \<noteq> CHR ''0''"
proof (induction n rule: show_nat.induct)
  case (1 n)
  show ?case
  proof (cases "n < 10")
    case True
    have "of_char (digit_char n) \<noteq> (of_char CHR ''0'' :: nat)" using 1 True by simp
    then have "digit_char n \<noteq> CHR ''0''" by metis
    with True show ?thesis by (subst show_nat.simps) simp
  next
    case False
    then have "hd (show_nat (n div 10)) \<noteq> CHR ''0''" using 1 by simp
    with False show ?thesis by (subst show_nat.simps) simp
  qed
qed

lemma parse_uint0_show_nat: "n < 2 ^ 64 \<Longrightarrow> parse_uint0 (show_nat n) = Inr n"
proof -
  assume n: "n < 2 ^ 64"
  show ?thesis
  proof (cases "n = 0")
    case True
    have "parse_uint0 (show_nat 0) = Inr 0" by code_simp
    with True show ?thesis by simp
  next
    case False
    then have hd: "hd (show_nat n) \<noteq> CHR ''0''" by (simp add: show_nat_hd)
    obtain c r where cr: "show_nat n = c # r" by (cases "show_nat n") auto
    with hd have base: "base_split (show_nat n) = (10, show_nat n)"
      by (auto simp: base_split_def split: list.splits)
    have "CHR ''_'' \<notin> set (show_nat n)"
      using show_nat_digits [of n] by (auto simp: list_all_iff is_digit_def)
    with base digit_loop_decimal [OF show_nat_digits, of 0 n] n show ?thesis
      by (simp add: parse_uint0_def)
  qed
qed

section \<open>Addition\<close>

text \<open>Addition of Go's \<open>int\<close>, which wraps at 64 bits.\<close>

definition int_add :: "int \<Rightarrow> int \<Rightarrow> int" where
  "int_add a b = (a + b + 2 ^ 63) mod 2 ^ 64 - 2 ^ 63"

lemma int_add_in:
  assumes "- (2 ^ 63) \<le> a + b" and "a + b < 2 ^ 63"
  shows "int_add a b = a + b"
proof -
  have "(a + b + 2 ^ 63) mod 2 ^ 64 = a + b + 2 ^ 63"
    using assms by (intro mod_pos_pos_trivial) simp_all
  then show ?thesis by (simp add: int_add_def)
qed

end
