(* ===== verification/ConfBind.thy ===== *)
theory ConfBind
  imports ConfResolve GoNum "HOL-Library.List_Lexorder"
begin

text \<open>
  \<open>spring/conf/bind.go\<close>, writing side, with the entry points of \<open>conf.go\<close>: \<open>BindValue\<close>,
  \<open>bindSlice\<close>, \<open>bindMap\<close> and \<open>bindStruct\<close> over a universe of Go types and values. A
  target is passed as its current value and returned as its new one; on an error the
  callers drop the target. What binding calls outside the package is the environment:
  the converter registry, the expression engine behind \<open>validateField\<close>, the \<open>Validate\<close>
  methods of user types, the decryption of marked values, the field filter and
  floating-point parsing. The storage is never nil here; \<open>bind_conf\<close> makes that check.
\<close>

section \<open>Types and values\<close>

datatype scalar_kind = KBool | KInt nat | KUint nat | KFloat nat | KString

text \<open>A struct field: name, exported, embedded, its \<open>value\<close> tag, its \<open>expr\<close> tag, its type.\<close>

datatype gotype =
    TScalar string scalar_kind
  | TMap gotype gotype
  | TSlice gotype
  | TArray nat gotype
  | TStruct string "gofield list"
  | TPtr gotype
  | TOther string
and gofield = Field string bool bool "string option" "string option" gotype

datatype 'f govalue =
    VBool bool
  | VInt int
  | VUint nat
  | VFloat 'f
  | VString string
  | VMap "(string \<times> 'f govalue) list option"
  | VSlice "'f govalue list option"
  | VArray "'f govalue list"
  | VStruct "'f govalue list"
  | VNil

fun is_scalar :: "gotype \<Rightarrow> bool" where
  "is_scalar (TScalar _ _) = True"
| "is_scalar _ = False"

fun is_struct :: "gotype \<Rightarrow> bool" where
  "is_struct (TStruct _ _) = True"
| "is_struct _ = False"

text \<open>\<open>typeutil.IsPropBindingTarget\<close>.\<close>

fun is_prop_target :: "gotype \<Rightarrow> bool" where
  "is_prop_target (TMap k e) = (is_scalar e \<or> is_struct e)"
| "is_prop_target (TSlice e) = (is_scalar e \<or> is_struct e)"
| "is_prop_target (TArray n e) = (is_scalar e \<or> is_struct e)"
| "is_prop_target t = (is_scalar t \<or> is_struct t)"

fun string_kind :: "gotype \<Rightarrow> bool" where
  "string_kind (TScalar _ KString) = True"
| "string_kind _ = False"

text \<open>\<open>reflect.Value.SetInt\<close> and \<open>SetUint\<close> store the low bits of the value.\<close>

definition wrap_int :: "nat \<Rightarrow> int \<Rightarrow> int" where
  "wrap_int w i = (i + 2 ^ (w - 1)) mod 2 ^ w - 2 ^ (w - 1)"

definition wrap_uint :: "nat \<Rightarrow> nat \<Rightarrow> nat" where
  "wrap_uint w n = n mod 2 ^ w"

section \<open>Environment and errors\<close>

datatype bind_error =
    NilStorage
  | NotSettable
  | TargetNotValue string
  | ValidationFailed string string string
  | ArrayTarget string
  | ResolveFailed string conf_error
  | DecryptFailed string string
  | ConvertFailed string string
  | ParseFailed string string
  | SliceFailed string conf_error
  | MapKeyNotString string
  | MapHasDefault string
  | MapMissing string string
  | StructHasDefault string
  | BadTag string string string conf_error
  | FilterFailed string
  | ValidatorFailed string string
  | BindFailed string bind_error
  | EntryFailed string string string

type_synonym 'f bound = "(bind_error, 'f govalue) result option"

record 'f bind_env =
  be_zero_float :: 'f
  be_parse_float :: "string \<Rightarrow> 'f option"
  be_set_float :: "nat \<Rightarrow> 'f \<Rightarrow> 'f"
  be_decode :: "string \<Rightarrow> (string, string) result"
  be_converters :: "gotype \<Rightarrow> (string \<Rightarrow> (string, 'f govalue) result) option"
  be_validate_field :: "string \<Rightarrow> 'f govalue \<Rightarrow> string option"
  be_validator :: "string \<Rightarrow> ('f govalue \<Rightarrow> string option) option"
  be_filter :: "(gotype \<Rightarrow> bind_param \<Rightarrow> (string, bool) result) option"

fun zero_value :: "'f bind_env \<Rightarrow> gotype \<Rightarrow> 'f govalue"
  and zero_fields :: "'f bind_env \<Rightarrow> gofield list \<Rightarrow> 'f govalue list" where
  "zero_value env (TScalar _ KBool) = VBool False"
| "zero_value env (TScalar _ (KInt _)) = VInt 0"
| "zero_value env (TScalar _ (KUint _)) = VUint 0"
| "zero_value env (TScalar _ (KFloat _)) = VFloat (be_zero_float env)"
| "zero_value env (TScalar _ KString) = VString []"
| "zero_value env (TMap _ _) = VMap None"
| "zero_value env (TSlice _) = VSlice None"
| "zero_value env (TArray n t) = VArray (replicate n (zero_value env t))"
| "zero_value env (TStruct _ fs) = VStruct (zero_fields env fs)"
| "zero_value env (TPtr _) = VNil"
| "zero_value env (TOther _) = VNil"
| "zero_fields env [] = []"
| "zero_fields env (Field _ _ _ _ _ t # fs) = zero_value env t # zero_fields env fs"

section \<open>Scalars\<close>

fun parse_scalar :: "'f bind_env \<Rightarrow> scalar_kind \<Rightarrow> string \<Rightarrow> string \<Rightarrow> (bind_error, 'f govalue) result" where
  "parse_scalar env (KUint w) path val =
     (case parse_uint0 val of
        Inr u \<Rightarrow> Inr (VUint (wrap_uint w u))
      | Inl _ \<Rightarrow> Inl (ParseFailed path ''uint''))"
| "parse_scalar env (KInt w) path val =
     (case parse_int0 val of
        Inr i \<Rightarrow> Inr (VInt (wrap_int w i))
      | Inl _ \<Rightarrow> Inl (ParseFailed path ''int''))"
| "parse_scalar env (KFloat w) path val =
     (case be_parse_float env val of
        Some f \<Rightarrow> Inr (VFloat (be_set_float env w f))
      | None \<Rightarrow> Inl (ParseFailed path ''float''))"
| "parse_scalar env KBool path val =
     (case parse_bool val of
        Some b \<Rightarrow> Inr (VBool b)
      | None \<Rightarrow> Inl (ParseFailed path ''bool''))"
| "parse_scalar env KString path val = Inr (VString val)"

text \<open>The part of \<open>BindValue\<close> after the composite kinds: resolve, trim, decrypt, convert.\<close>

definition convert_value ::
  "'f bind_env \<Rightarrow> gotype \<Rightarrow> 'f govalue \<Rightarrow> string \<Rightarrow> string \<Rightarrow> (bind_error, 'f govalue) result" where
  "convert_value env t v path val =
     (let val = trim_space val
      in if val = [] then Inr v
         else rbind (map_err (DecryptFailed path) (be_decode env val)) (\<lambda>val.
           case be_converters env t of
             Some fn \<Rightarrow> map_err (ConvertFailed path) (fn val)
           | None \<Rightarrow> (case t of
                        TScalar _ k \<Rightarrow> parse_scalar env k path val
                      | _ \<Rightarrow> Inr (VString val))))"

definition bind_scalar ::
  "'f bind_env \<Rightarrow> nat \<Rightarrow> storage \<Rightarrow> gotype \<Rightarrow> 'f govalue \<Rightarrow> bind_param \<Rightarrow> 'f bound" where
  "bind_scalar env n p t v param =
     fbind (map_option (map_err (ResolveFailed (bp_path param))) (resolve n p param))
       (\<lambda>val. Some (convert_value env t v (bp_path param) val))"

text \<open>The deferred \<open>expr\<close> validation, run on the bound value when binding succeeded.\<close>

definition validated :: "'f bind_env \<Rightarrow> bind_param \<Rightarrow> 'f govalue \<Rightarrow> 'f bound" where
  "validated env param v =
     (case bp_validate param of
        Some tag \<Rightarrow>
          if tag = [] then Some (Inr v)
          else (case be_validate_field env tag v of
                  None \<Rightarrow> Some (Inr v)
                | Some e \<Rightarrow> Some (Inl (ValidationFailed (bp_path param) tag e)))
      | None \<Rightarrow> Some (Inr v))"

section \<open>Composite targets\<close>

text \<open>
  The indexes the element loop of \<open>bindSlice\<close> visits: up to the first missing element.
  Every element has a key of its own, so the loop ends within one step per key.
\<close>

definition slice_indexes :: "properties \<Rightarrow> string \<Rightarrow> nat list" where
  "slice_indexes m key =
     takeWhile (\<lambda>i. ps_exists m (index_key key i)) [0..<Suc (length (pr_data m))]"

definition elem_param :: "bind_param \<Rightarrow> nat \<Rightarrow> bind_param" where
  "elem_param param i =
     \<lparr>bp_key = index_key (bp_key param) i, bp_path = index_key (bp_path param) i,
      bp_tag = no_tag, bp_validate = None\<rparr>"

definition entry_param :: "bind_param \<Rightarrow> string \<Rightarrow> bind_param" where
  "entry_param param key =
     \<lparr>bp_key = (if bp_key param \<noteq> [] then bp_key param @ ''.'' @ key else key),
      bp_path = bp_path param, bp_tag = no_tag, bp_validate = None\<rparr>"

definition field_param :: "bind_param \<Rightarrow> string \<Rightarrow> bind_param" where
  "field_param param name =
     \<lparr>bp_key = bp_key param, bp_path = bp_path param @ ''.'' @ name,
      bp_tag = no_tag, bp_validate = None\<rparr>"

definition struct_fields :: "'f govalue \<Rightarrow> 'f govalue list" where
  "struct_fields v = (case v of VStruct vs \<Rightarrow> vs | _ \<Rightarrow> [])"

definition run_validator ::
  "'f bind_env \<Rightarrow> string \<Rightarrow> bind_param \<Rightarrow> 'f govalue \<Rightarrow> 'f bound" where
  "run_validator env name param v =
     (case be_validator env name of
        None \<Rightarrow> Some (Inr v)
      | Some f \<Rightarrow> (case f v of
                    None \<Rightarrow> Some (Inr v)
                  | Some e \<Rightarrow> Some (Inl (ValidatorFailed (bp_path param) e))))"

definition filtered :: "'f bind_env \<Rightarrow> gotype \<Rightarrow> bind_param \<Rightarrow> (bind_error, bool) result" where
  "filtered env t param =
     (case be_filter env of
        None \<Rightarrow> Inr False
      | Some f \<Rightarrow> map_err FilterFailed (f t param))"

text \<open>\<open>bindMap\<close> and \<open>bindSlice\<close>, given how an element is bound from a storage.\<close>

definition bind_map ::
  "(storage \<Rightarrow> bind_param \<Rightarrow> 'f bound) \<Rightarrow> storage \<Rightarrow> gotype \<Rightarrow> bind_param \<Rightarrow> 'f bound" where
  "bind_map bind_elem p kt param =
     (if \<not> string_kind kt then Some (Inl (MapKeyNotString (bp_path param)))
      else if tag_has_def (bp_tag param) \<and> tag_def (bp_tag param) \<noteq> []
      then Some (Inl (MapHasDefault (bp_path param)))
      else if tag_key (bp_tag param) = [] \<and> tag_has_def (bp_tag param)
      then Some (Inr (VMap (Some [])))
      else
        (let keys = snd (st_map_keys p (bp_key param) {})
         in if keys = {} then
              if tag_has_def (bp_tag param) then Some (Inr (VMap (Some [])))
              else Some (Inl (MapMissing (bp_path param) (bp_key param)))
            else
              fbind (ffold (\<lambda>acc key.
                  fbind (bind_elem p (entry_param param key)) (\<lambda>x. Some (Inr (acc @ [(key, x)]))))
                  [] (sorted_list_of_set keys))
                (\<lambda>kvs. Some (Inr (VMap (Some kvs))))))"

definition bind_slice ::
  "(storage \<Rightarrow> bind_param \<Rightarrow> 'f bound) \<Rightarrow> nat \<Rightarrow> storage \<Rightarrow> bind_param \<Rightarrow> 'f bound" where
  "bind_slice bind_elem n p param =
     fbind (map_option (map_err (SliceFailed (bp_path param))) (get_slice n p param))
       (\<lambda>m. case m of
          None \<Rightarrow> Some (Inr (VSlice (Some [])))
        | Some m \<Rightarrow>
            fbind (ffold (\<lambda>acc i.
                fbind (bind_elem (properties_storage m) (elem_param param i)) (\<lambda>x. Some (Inr (acc @ [x]))))
                [] (slice_indexes m (bp_key param)))
              (\<lambda>xs. Some (Inr (VSlice (Some xs)))))"

function bind_value ::
    "'f bind_env \<Rightarrow> nat \<Rightarrow> storage \<Rightarrow> gotype \<Rightarrow> 'f govalue \<Rightarrow> bind_param \<Rightarrow> 'f bound"
  and bind_struct ::
    "'f bind_env \<Rightarrow> nat \<Rightarrow> storage \<Rightarrow> string \<Rightarrow> gofield list \<Rightarrow> 'f govalue \<Rightarrow> bind_param \<Rightarrow> 'f bound"
  and bind_fields ::
    "'f bind_env \<Rightarrow> nat \<Rightarrow> storage \<Rightarrow> string \<Rightarrow> gofield list \<Rightarrow> 'f govalue list \<Rightarrow> bind_param \<Rightarrow>
     (bind_error, 'f govalue list) result option" where
  "bind_value env n p t v param =
     (if \<not> is_prop_target t then Some (Inl (TargetNotValue (bp_path param)))
      else fbind
        (case t of
           TMap kt et \<Rightarrow>
             bind_map (\<lambda>p param. bind_value env n p et (zero_value env et) param) p kt param
         | TSlice et \<Rightarrow>
             bind_slice (\<lambda>p param. bind_value env n p et (zero_value env et) param) n p param
         | TArray _ _ \<Rightarrow> Some (Inl (ArrayTarget (bp_path param)))
         | TStruct name flds \<Rightarrow>
             (case be_converters env t of
                None \<Rightarrow> bind_struct env n p name flds v param
              | Some _ \<Rightarrow> bind_scalar env n p t v param)
         | _ \<Rightarrow> bind_scalar env n p t v param)
        (validated env param))"
| "bind_struct env n p name flds v param =
     (if tag_has_def (bp_tag param) \<and> tag_def (bp_tag param) \<noteq> []
      then Some (Inl (StructHasDefault (bp_path param)))
      else
        fbind (bind_fields env n p name flds (struct_fields v) param)
          (\<lambda>vs. run_validator env name param (VStruct vs)))"
| "bind_fields env n p name [] vs param = Some (Inr [])"
| "bind_fields env n p name (Field fname exported embedded tag expr ft # fs) [] param = Some (Inr [])"
| "bind_fields env n p name (Field fname exported embedded tag expr ft # fs) (v # vs) param =
     fbind
       (if \<not> exported then Some (Inr v)
        else
          (case tag of
             Some t \<Rightarrow>
               (case bind_tag t expr (field_param param fname) of
                  Inl e \<Rightarrow> Some (Inl (BadTag name fname (bp_path param) e))
                | Inr sub \<Rightarrow>
                    (case filtered env ft sub of
                       Inl e \<Rightarrow> Some (Inl e)
                     | Inr True \<Rightarrow> Some (Inr v)
                     | Inr False \<Rightarrow> bind_value env n p ft v sub))
           | None \<Rightarrow>
               if embedded then
                 (case ft of
                    TStruct ename efields \<Rightarrow>
                      bind_struct env n p ename efields v (field_param param fname)
                  | _ \<Rightarrow> Some (Inr v))
               else Some (Inr v)))
       (\<lambda>v. fbind (bind_fields env n p name fs vs param) (\<lambda>vs. Some (Inr (v # vs))))"
  by pat_completeness auto

termination
  by (relation "measure (\<lambda>x. case x of
        Inl (env, n, p, t, v, param) \<Rightarrow> 2 * size t
      | Inr (Inl (env, n, p, name, fs, v, param)) \<Rightarrow> 2 * size_list size fs + 1
      | Inr (Inr (env, n, p, name, fs, vs, param)) \<Rightarrow> 2 * size_list size fs)") auto

declare bind_value.simps [simp del]

section \<open>Entry points\<close>

text \<open>\<open>Bind\<close>: the target is a settable value, or no target when it is not.\<close>

definition bind_conf ::
  "'f bind_env \<Rightarrow> nat \<Rightarrow> storage option \<Rightarrow> (string \<times> gotype \<times> 'f govalue) option \<Rightarrow>
   string option \<Rightarrow> 'f bound" where
  "bind_conf env n p target tag =
     (let s = (case tag of None \<Rightarrow> ''${ROOT}'' | Some t \<Rightarrow> t)
      in case p of
           None \<Rightarrow> Some (Inl (BindFailed s NilStorage))
         | Some p \<Rightarrow>
             (case target of
                None \<Rightarrow> Some (Inl (BindFailed s NotSettable))
              | Some (type_name, t, v) \<Rightarrow>
                  (case bind_tag s None bind_param0 of
                     Inl e \<Rightarrow> Some (Inl (BindFailed s (ResolveFailed [] e)))
                   | Inr param \<Rightarrow>
                       map_option (map_err (BindFailed s))
                         (bind_value (env\<lparr>be_filter := None\<rparr>) n p t v
                            (param\<lparr>bp_path := type_name\<rparr>)))))"

definition bind_each ::
  "'f bind_env \<Rightarrow> nat \<Rightarrow> storage option \<Rightarrow> string \<Rightarrow> gotype \<Rightarrow>
   (string \<Rightarrow> 'f govalue \<Rightarrow> 's \<Rightarrow> (string, 's) result) \<Rightarrow> 's \<Rightarrow> (bind_error, 's) result option" where
  "bind_each env n p tag et fn s =
     fbind (bind_conf env n p (Some (''map'', TMap (TScalar ''string'' KString) et, VMap None)) (Some tag))
       (\<lambda>m. case m of
          VMap (Some kvs) \<Rightarrow>
            Some (rfold (\<lambda>s (name, c). map_err (EntryFailed tag name) (fn name c s)) s kvs)
        | _ \<Rightarrow> Some (Inr s))"

definition resolve_conf ::
  "nat \<Rightarrow> storage option \<Rightarrow> string \<Rightarrow> (bind_error, string) result option" where
  "resolve_conf n p s =
     (case p of
        None \<Rightarrow> Some (Inl (BindFailed s NilStorage))
      | Some p \<Rightarrow> map_option (map_err (\<lambda>e. BindFailed s (ResolveFailed s e))) (resolve_string n p s))"

text \<open>The loop over the elements ends at the first missing index, never at the bound.\<close>

lemma index_key_disjoint:
  assumes "k = index_key key i \<or> below_node (index_key key i) k"
    and "k = index_key key j \<or> below_node (index_key key j) k"
  shows "i = j"
proof -
  from assms(1) obtain r where r: "k = index_key key i @ r" unfolding below_node_iff by fastforce
  from assms(2) obtain r' where "k = index_key key j @ r'" unfolding below_node_iff by fastforce
  with r have "show_nat i @ CHR '']'' # r = show_nat j @ CHR '']'' # r'" by (simp add: index_key_def)
  moreover have "CHR '']'' \<notin> set (show_nat n)" for n
    using show_nat_digits [of n] by (auto simp: list_all_iff is_digit_def)
  ultimately have "Some (show_nat i, r) = Some (show_nat j, r')"
    by (metis cut_char_Some_iff append_Cons append_Nil)
  then show ?thesis by simp
qed

lemma slice_indexes_stop:
  "\<exists>n. slice_indexes m key = [0..<n] \<and> \<not> ps_exists m (index_key key n) \<and>
     (\<forall>i < n. ps_exists m (index_key key i))"
proof -
  let ?ex = "\<lambda>i. ps_exists m (index_key key i)" and ?b = "Suc (length (pr_data m))"
  have "\<exists>i < ?b. \<not> ?ex i"
  proof (rule ccontr)
    assume "\<not> (\<exists>i < ?b. \<not> ?ex i)"
    then have "\<forall>i \<in> {..<?b}. \<exists>k \<in> fst ` set (pr_data m). k = index_key key i \<or> below_node (index_key key i) k"
      by (simp only: ps_exists_iff) blast
    then obtain f where f: "\<forall>i \<in> {..<?b}. f i \<in> fst ` set (pr_data m) \<and>
        (f i = index_key key i \<or> below_node (index_key key i) (f i))" by metis
    then have "inj_on f {..<?b}" by (intro inj_onI) (metis index_key_disjoint)
    then have "card {..<?b} \<le> card (fst ` set (pr_data m))"
      using f by (intro card_inj_on_le [of f]) auto
    also have "\<dots> \<le> length (pr_data m)"
      using card_length [of "map fst (pr_data m)"] by simp
    finally show False by simp
  qed
  then obtain i where "i < ?b" "\<not> ?ex i" by blast
  define n where "n = (LEAST i. \<not> ?ex i)"
  have n: "\<not> ?ex n" unfolding n_def by (rule LeastI) (rule \<open>\<not> ?ex i\<close>)
  have below: "?ex j" if "j < n" for j using that not_less_Least unfolding n_def by blast
  have "n \<le> i" unfolding n_def by (rule Least_le) (rule \<open>\<not> ?ex i\<close>)
  with \<open>i < ?b\<close> have "n < ?b" by simp
  then have "[0..<?b] = [0..<n] @ n # [Suc n..<?b]"
    by (metis append_Nil le0 less_imp_le_nat upt_add_eq_append upt_conv_Cons add_diff_inverse_nat not_le)
  then have "slice_indexes m key = [0..<n]"
    unfolding slice_indexes_def using n below by (simp add: takeWhile_append del: upt_Suc)
  with n below show ?thesis by blast
qed

section \<open>Bound values have the type of their target\<close>

fun has_type :: "gotype \<Rightarrow> 'f govalue \<Rightarrow> bool"
  and has_types :: "gofield list \<Rightarrow> 'f govalue list \<Rightarrow> bool" where
  "has_type (TScalar _ KBool) v = (case v of VBool _ \<Rightarrow> True | _ \<Rightarrow> False)"
| "has_type (TScalar _ (KInt w)) v =
     (case v of VInt i \<Rightarrow> - (2 ^ (w - 1)) \<le> i \<and> i < 2 ^ (w - 1) | _ \<Rightarrow> False)"
| "has_type (TScalar _ (KUint w)) v = (case v of VUint n \<Rightarrow> n < 2 ^ w | _ \<Rightarrow> False)"
| "has_type (TScalar _ (KFloat _)) v = (case v of VFloat _ \<Rightarrow> True | _ \<Rightarrow> False)"
| "has_type (TScalar _ KString) v = (case v of VString _ \<Rightarrow> True | _ \<Rightarrow> False)"
| "has_type (TMap _ t) v =
     (case v of VMap None \<Rightarrow> True
      | VMap (Some kvs) \<Rightarrow> distinct (map fst kvs) \<and> list_all (\<lambda>kv. has_type t (snd kv)) kvs
      | _ \<Rightarrow> False)"
| "has_type (TSlice t) v =
     (case v of VSlice None \<Rightarrow> True | VSlice (Some xs) \<Rightarrow> list_all (has_type t) xs | _ \<Rightarrow> False)"
| "has_type (TArray n t) v = (case v of VArray xs \<Rightarrow> length xs = n \<and> list_all (has_type t) xs | _ \<Rightarrow> False)"
| "has_type (TStruct _ fs) v = (case v of VStruct vs \<Rightarrow> has_types fs vs | _ \<Rightarrow> False)"
| "has_type (TPtr _) v = True"
| "has_type (TOther _) v = True"
| "has_types [] vs = (vs = [])"
| "has_types (Field _ _ _ _ _ t # fs) vs = (case vs of v # vs \<Rightarrow> has_type t v \<and> has_types fs vs | [] \<Rightarrow> False)"

text \<open>Registered converters return values of the type they are registered for.\<close>

definition converters_typed :: "'f bind_env \<Rightarrow> bool" where
  "converters_typed env \<longleftrightarrow>
     (\<forall>t fn s v. be_converters env t = Some fn \<longrightarrow> fn s = Inr v \<longrightarrow> has_type t v)"

lemma zero_has_type:
  "has_type t (zero_value env t)" "has_types fs (zero_fields env fs)"
  by (induction t and fs rule: zero_value_zero_fields.induct) (auto simp: list_all_iff)

lemma wrap_int_range: "- (2 ^ (w - 1)) \<le> wrap_int w i \<and> wrap_int w i < 2 ^ (w - 1)"
proof (cases w)
  case 0
  then show ?thesis by (simp add: wrap_int_def)
next
  case (Suc k)
  have "0 \<le> (i + 2 ^ k) mod 2 ^ Suc k \<and> (i + 2 ^ k) mod 2 ^ Suc k < 2 ^ Suc k"
    by (intro conjI pos_mod_sign pos_mod_bound) simp_all
  with Suc show ?thesis by (simp add: wrap_int_def)
qed

lemma parse_scalar_typed: "parse_scalar env k path val = Inr v \<Longrightarrow> has_type (TScalar name k) v"
  by (cases k) (auto simp: wrap_uint_def wrap_int_range [simplified] split: sum.splits option.splits)

lemma bind_scalar_typed:
  assumes "converters_typed env" and "has_type t v" and "is_scalar t \<or> be_converters env t \<noteq> None"
    and "bind_scalar env n p t v param = Some (Inr v')"
  shows "has_type t v'"
proof -
  from assms(4) obtain val where c: "convert_value env t v (bp_path param) val = Inr v'"
    by (auto simp: bind_scalar_def fbind_Inr_iff)
  show ?thesis
  proof (cases "trim_space val = []")
    case False
    with c obtain d where d: "(case be_converters env t of
          Some fn \<Rightarrow> map_err (ConvertFailed (bp_path param)) (fn d)
        | None \<Rightarrow> (case t of TScalar _ k \<Rightarrow> parse_scalar env k (bp_path param) d | _ \<Rightarrow> Inr (VString d))) = Inr v'"
      by (auto simp: convert_value_def Let_def rbind_Inr_iff)
    show ?thesis
    proof (cases "be_converters env t")
      case None
      with assms(3) obtain name k where "t = TScalar name k" by (cases t) auto
      with d None show ?thesis by (simp add: parse_scalar_typed)
    next
      case (Some fn)
      with d have "fn d = Inr v'" by simp
      with Some assms(1) show ?thesis unfolding converters_typed_def by blast
    qed
  qed (use c assms(2) in \<open>simp add: convert_value_def\<close>)
qed

lemma validated_Inr: "validated env param v = Some (Inr v') \<Longrightarrow> v' = v"
  by (auto simp: validated_def split: option.splits if_splits)

lemma run_validator_Inr: "run_validator env name param v = Some (Inr v') \<Longrightarrow> v' = v"
  by (auto simp: run_validator_def split: option.splits)

text \<open>The composite kinds of \<open>BindValue\<close>, one equation each.\<close>

lemma bind_map_Inr:
  "bind_value env n p (TMap kt et) v param = Some (Inr v') \<Longrightarrow>
     \<exists>ks xs. distinct ks \<and> v' = VMap (Some (zip ks xs)) \<and>
       (xs \<noteq> [] \<longrightarrow> string_kind kt \<and> snd (st_map_keys p (bp_key param) {}) \<noteq> {} \<and>
         \<not> (tag_has_def (bp_tag param) \<and> tag_def (bp_tag param) \<noteq> []) \<and>
         \<not> (tag_key (bp_tag param) = [] \<and> tag_has_def (bp_tag param))) \<and>
       list_all2 (\<lambda>k x. bind_value env n p et (zero_value env et) (entry_param param k) = Some (Inr x)) ks xs"
  by (auto simp: fbind_Inr_iff Let_def ffold_collect dest!: validated_Inr split: if_splits
      intro: exI [of _ "[]"] simp: bind_value.simps [of env n p "TMap kt et"] bind_map_def)

lemma map2_snd: "length ks = length xs \<Longrightarrow> map2 (\<lambda>k x. x) ks xs = xs"
  by (induction ks xs rule: list_induct2) auto

lemma bind_slice_Inr:
  assumes "bind_value env n p (TSlice et) v param = Some (Inr v')"
  shows "(get_slice n p param = Some (Inr None) \<and> v' = VSlice (Some [])) \<or>
    (\<exists>m xs. get_slice n p param = Some (Inr (Some m)) \<and> v' = VSlice (Some xs) \<and>
       list_all2 (\<lambda>i x. bind_value env n (properties_storage m) et (zero_value env et)
           (elem_param param i) = Some (Inr x)) (slice_indexes m (bp_key param)) xs)"
proof -
  from assms obtain v1 where v1: "fbind (map_option (map_err (SliceFailed (bp_path param))) (get_slice n p param))
      (\<lambda>m. case m of None \<Rightarrow> Some (Inr (VSlice (Some [])))
       | Some m \<Rightarrow> fbind (ffold (\<lambda>acc i. fbind (bind_value env n (properties_storage m) et (zero_value env et)
             (elem_param param i)) (\<lambda>x. Some (Inr (acc @ [x])))) [] (slice_indexes m (bp_key param)))
           (\<lambda>xs. Some (Inr (VSlice (Some xs))))) = Some (Inr v1)" and v': "v' = v1"
    by (auto simp: bind_value.simps [of env n p "TSlice et"] bind_slice_def fbind_Inr_iff
        dest!: validated_Inr split: if_splits)
  then obtain m where m: "get_slice n p param = Some (Inr m)"
    by (auto simp: fbind_Inr_iff)
  show ?thesis
  proof (cases m)
    case (Some m')
    with v1 m obtain xs where "list_all2 (\<lambda>i x. bind_value env n (properties_storage m') et (zero_value env et)
           (elem_param param i) = Some (Inr x)) (slice_indexes m' (bp_key param)) xs"
      and "v1 = VSlice (Some (map2 (\<lambda>k x. x) (slice_indexes m' (bp_key param)) xs))"
      by (auto simp: fbind_Inr_iff ffold_collect [where h = "\<lambda>k x. x"])
    moreover from this(1) have "length (slice_indexes m' (bp_key param)) = length xs"
      by (rule list_all2_lengthD)
    ultimately show ?thesis using m Some v' by (auto simp: map2_snd)
  qed (use v1 m v' in \<open>auto simp: fbind_Inr_iff\<close>)
qed

lemma bind_value_kinds:
  "bind_value env n p (TScalar name k) v param =
     fbind (bind_scalar env n p (TScalar name k) v param) (validated env param)"
  "bind_value env n p (TStruct name flds) v param =
     fbind (case be_converters env (TStruct name flds) of
              None \<Rightarrow> bind_struct env n p name flds v param
            | Some _ \<Rightarrow> bind_scalar env n p (TStruct name flds) v param) (validated env param)"
  "bind_value env n p (TArray m t) v param =
     Some (Inl (if is_prop_target (TArray m t) then ArrayTarget (bp_path param)
                else TargetNotValue (bp_path param)))"
  "bind_value env n p (TPtr t) v param = Some (Inl (TargetNotValue (bp_path param)))"
  "bind_value env n p (TOther name) v param = Some (Inl (TargetNotValue (bp_path param)))"
  by (simp_all add: bind_value.simps)

lemma bind_value_target: "bind_value env n p t v param = Some (Inr v') \<Longrightarrow> is_prop_target t"
  by (simp add: bind_value.simps split: if_splits)

lemma bind_other_Inr:
  assumes "bind_value env n p t v param = Some (Inr v')"
    and "\<And>kt et. t \<noteq> TMap kt et" and "\<And>et. t \<noteq> TSlice et"
  shows "(\<exists>name flds. t = TStruct name flds \<and> be_converters env t = None \<and>
      bind_struct env n p name flds v param = Some (Inr v')) \<or>
    ((is_scalar t \<or> be_converters env t \<noteq> None) \<and> bind_scalar env n p t v param = Some (Inr v'))"
  using assms by (cases t) (auto simp: bind_value_kinds fbind_Inr_iff simp del: bind_struct.simps
      dest!: validated_Inr split: if_splits option.splits)

text \<open>What the loop of \<open>bindStruct\<close> does with one field.\<close>

definition bind_field ::
  "'f bind_env \<Rightarrow> nat \<Rightarrow> storage \<Rightarrow> string \<Rightarrow> string \<Rightarrow> bool \<Rightarrow> bool \<Rightarrow> string option \<Rightarrow> string option \<Rightarrow>
   gotype \<Rightarrow> 'f govalue \<Rightarrow> bind_param \<Rightarrow> 'f bound" where
  "bind_field env n p name fname exported embedded tag expr ft v param =
     (if \<not> exported then Some (Inr v)
      else
        (case tag of
           Some t \<Rightarrow>
             (case bind_tag t expr (field_param param fname) of
                Inl e \<Rightarrow> Some (Inl (BadTag name fname (bp_path param) e))
              | Inr sub \<Rightarrow>
                  (case filtered env ft sub of
                     Inl e \<Rightarrow> Some (Inl e)
                   | Inr True \<Rightarrow> Some (Inr v)
                   | Inr False \<Rightarrow> bind_value env n p ft v sub))
         | None \<Rightarrow>
             if embedded then
               (case ft of
                  TStruct ename efields \<Rightarrow>
                    bind_struct env n p ename efields v (field_param param fname)
                | _ \<Rightarrow> Some (Inr v))
             else Some (Inr v)))"

lemma bind_fields_Cons:
  "bind_fields env n p name (Field fname exported embedded tag expr ft # fs) (v # vs) param =
     fbind (bind_field env n p name fname exported embedded tag expr ft v param)
       (\<lambda>v. fbind (bind_fields env n p name fs vs param) (\<lambda>vs. Some (Inr (v # vs))))"
  by (simp add: bind_field_def)

declare bind_fields.simps(3) [simp del]

lemma struct_fields_typed: "has_type (TStruct name flds) v \<Longrightarrow> has_types flds (struct_fields v)"
  by (auto simp: struct_fields_def split: govalue.splits)

text \<open>Property C30: binding is type safe. When the registered converters return values of the
  types they are registered for and the target holds a value of its type, a successful
  \<open>BindValue\<close> yields a value of that type at every depth: integers within the width of their
  kind, maps with distinct keys, one value per struct field.\<close>

theorem bind_value_typed:
  assumes "converters_typed env" and "has_type t v" and "bind_value env n p t v param = Some (Inr v')"
  shows "has_type t v'"
proof -
  have "(converters_typed env \<longrightarrow> has_type t v \<longrightarrow>
      (\<forall>v'. bind_value env n p t v param = Some (Inr v') \<longrightarrow> has_type t v'))"
    and "(converters_typed env \<longrightarrow> has_types flds (struct_fields w) \<longrightarrow>
      (\<forall>w'. bind_struct env n p name flds w param = Some (Inr w') \<longrightarrow> has_type (TStruct name flds) w'))"
    and "(converters_typed env \<longrightarrow> has_types flds vs \<longrightarrow>
      (\<forall>vs'. bind_fields env n p name flds vs param = Some (Inr vs') \<longrightarrow> has_types flds vs'))"
    for name flds w vs
  proof (induction env n p t v param and env n p name flds w param and env n p name flds vs param
      rule: bind_value_bind_struct_bind_fields.induct)
    case (1 env n p t v param)
    show ?case
    proof (intro impI allI)
      fix v' assume env: "converters_typed env" and v: "has_type t v"
        and b: "bind_value env n p t v param = Some (Inr v')"
      from b have target: "is_prop_target t" by (rule bind_value_target)
      consider (TMap) kt et where "t = TMap kt et" | (TSlice) et where "t = TSlice et"
        | (other) "\<And>kt et. t \<noteq> TMap kt et" "\<And>et. t \<noteq> TSlice et" by blast
      then show "has_type t v'"
      proof cases
        case (TMap kt et)
        from bind_map_Inr [OF b [unfolded TMap]] obtain ks xs where "distinct ks"
          and v': "v' = VMap (Some (zip ks xs))"
          and cond: "xs \<noteq> [] \<longrightarrow> string_kind kt \<and> snd (st_map_keys p (bp_key param) {}) \<noteq> {} \<and>
            \<not> (tag_has_def (bp_tag param) \<and> tag_def (bp_tag param) \<noteq> []) \<and>
            \<not> (tag_key (bp_tag param) = [] \<and> tag_has_def (bp_tag param))"
          and all: "list_all2 (\<lambda>k x. bind_value env n p et (zero_value env et) (entry_param param k) = Some (Inr x)) ks xs"
          by blast
        from all have len: "length ks = length xs" by (rule list_all2_lengthD)
        have "has_type et (xs ! i)" if "i < length xs" for i
        proof -
          from that have "xs \<noteq> []" by auto
          with cond 1(1) [OF _ TMap] target TMap env zero_has_type(1) [of et env]
          have "\<forall>key v'. bind_value env n p et (zero_value env et) (entry_param param key) = Some (Inr v') \<longrightarrow>
              has_type et v'" by blast
          moreover have "bind_value env n p et (zero_value env et) (entry_param param (ks ! i)) = Some (Inr (xs ! i))"
            using all that by (simp add: list_all2_conv_all_nth)
          ultimately show ?thesis by blast
        qed
        with len \<open>distinct ks\<close> v' TMap show ?thesis by (auto simp: list_all_iff set_zip)
      next
        case (TSlice et)
        from bind_slice_Inr [OF b [unfolded TSlice]] show ?thesis
        proof (elim disjE exE conjE)
          fix m xs assume g: "get_slice n p param = Some (Inr (Some m))"
            and v': "v' = VSlice (Some xs)"
            and all: "list_all2 (\<lambda>i x. bind_value env n (properties_storage m) et (zero_value env et)
           (elem_param param i) = Some (Inr x)) (slice_indexes m (bp_key param)) xs"
          have "has_type et (xs ! i)" if "i < length xs" for i
          proof -
            from 1(2) [OF _ TSlice] g target TSlice env zero_has_type(1) [of et env]
            have "\<forall>i v'. bind_value env n (properties_storage m) et (zero_value env et) (elem_param param i) =
                Some (Inr v') \<longrightarrow> has_type et v'" by simp
            moreover have "bind_value env n (properties_storage m) et (zero_value env et)
                (elem_param param (slice_indexes m (bp_key param) ! i)) = Some (Inr (xs ! i))"
              using all that by (simp add: list_all2_conv_all_nth)
            ultimately show ?thesis by blast
          qed
          with v' TSlice show ?thesis by (simp add: list_all_length)
        qed (use TSlice in simp)
      next
        case other
        from bind_other_Inr [OF b other] show ?thesis
        proof (elim disjE exE conjE)
          fix name flds assume t: "t = TStruct name flds" and c: "be_converters env t = None"
            and s: "bind_struct env n p name flds v param = Some (Inr v')"
          from v t have "has_types flds (struct_fields v)" using struct_fields_typed by blast
          with 1(3) [OF _ t c] target env s t show ?thesis by blast
        qed (rule bind_scalar_typed [OF env v]; blast)+
      qed
    qed
  next
    case (2 env n p name flds v param)
    then show ?case by (auto simp: fbind_Inr_iff dest!: run_validator_Inr split: if_splits)
  next
    case (5 env n p name fname exported embedded tag expr ft fs v vs param)
    show ?case
    proof (intro impI allI)
      fix vs' assume env: "converters_typed env"
        and vs: "has_types (Field fname exported embedded tag expr ft # fs) (v # vs)"
        and b: "bind_fields env n p name (Field fname exported embedded tag expr ft # fs) (v # vs) param = Some (Inr vs')"
      from b obtain v1 vs1 where F: "bind_field env n p name fname exported embedded tag expr ft v param = Some (Inr v1)"
        and R: "bind_fields env n p name fs vs param = Some (Inr vs1)" and vs': "vs' = v1 # vs1"
        unfolding bind_fields_Cons fbind_Inr_iff by blast
      have "has_types fs vs1" using 5(3) [of v1] F R env vs by (simp add: bind_field_def)
      moreover have "has_type ft v1"
        using F env vs 5(1,2) struct_fields_typed [of _ _ v] unfolding bind_field_def
        by (cases ft) (auto split: if_splits option.splits sum.splits bool.splits)
      ultimately show "has_types (Field fname exported embedded tag expr ft # fs) vs'"
        using vs' by simp
    qed
  qed auto
  with assms show ?thesis by blast
qed

text \<open>A struct of a port and a list of hosts, and the properties it is bound from.\<close>

definition sample_env :: "unit bind_env" where
  "sample_env = \<lparr>be_zero_float = (), be_parse_float = (\<lambda>_. Some ()), be_set_float = (\<lambda>_ f. f),
     be_decode = Inr, be_converters = (\<lambda>_. None), be_validate_field = (\<lambda>_ _. None),
     be_validator = (\<lambda>_. None), be_filter = None\<rparr>"

definition sample_type :: gotype where
  "sample_type = TStruct ''Config''
     [Field ''Port'' True False (Some ''${port:=80}'') None (TScalar ''uint16'' (KUint 16)),
      Field ''Hosts'' True False (Some ''${hosts}'') None (TSlice (TScalar ''string'' KString)),
      Field ''secret'' False False None None (TScalar ''bool'' KBool)]"

definition sample_conf :: properties where
  "sample_conf = \<lparr>pr_data = [(''srv.hosts[0]'', ''a''), (''srv.hosts[1]'', ''${srv.hosts[0]}b''), (''srv.port'', ''0x50'')]\<rparr>"

definition sample_param :: bind_param where
  "sample_param = bind_param0\<lparr>bp_key := ''srv'', bp_path := ''Config''\<rparr>"

lemma sample_env_typed: "converters_typed sample_env"
  by (simp add: converters_typed_def sample_env_def)

definition port_param :: bind_param where
  "port_param = sample_param\<lparr>bp_key := ''srv.port'', bp_path := ''Config.Port'',
     bp_tag := \<lparr>tag_key = ''port'', tag_def = ''80'', tag_has_def = True\<rparr>\<rparr>"

definition hosts_param :: bind_param where
  "hosts_param = sample_param\<lparr>bp_key := ''srv.hosts'', bp_path := ''Config.Hosts'',
     bp_tag := no_tag\<lparr>tag_key := ''hosts''\<rparr>\<rparr>"

definition hosts_slice :: properties where
  "hosts_slice = \<lparr>pr_data = [(''srv.hosts[0]'', ''a''), (''srv.hosts[1]'', ''ab'')]\<rparr>"

lemma sample_steps:
  "bind_tag ''${port:=80}'' None (field_param sample_param ''Port'') = Inr port_param"
  "bind_tag ''${hosts}'' None (field_param sample_param ''Hosts'') = Inr hosts_param"
  "resolve 30 (properties_storage sample_conf) port_param = Some (Inr ''0x50'')"
  "get_slice 30 (properties_storage sample_conf) hosts_param = Some (Inr (Some hosts_slice))"
  "slice_indexes hosts_slice (bp_key hosts_param) = [0, 1]"
  "resolve 30 (properties_storage hosts_slice) (elem_param hosts_param 0) = Some (Inr ''a'')"
  "resolve 30 (properties_storage hosts_slice) (elem_param hosts_param 1) = Some (Inr ''ab'')"
  by code_simp+

lemma sample_port: "parse_uint0 ''0x50'' = Inr 80"
  by (simp add: parse_uint0_def base_split_def lower_is_def lower_char_def any_digit_def is_digit_def
      digit_val_def)

lemma sample_scalars:
  "bind_scalar sample_env 30 (properties_storage sample_conf) (TScalar ''uint16'' (KUint 16)) v port_param =
     Some (Inr (VUint 80))"
  "bind_scalar sample_env 30 (properties_storage hosts_slice) (TScalar ''string'' KString) v (elem_param hosts_param 0) =
     Some (Inr (VString ''a''))"
  "bind_scalar sample_env 30 (properties_storage hosts_slice) (TScalar ''string'' KString) v (elem_param hosts_param 1) =
     Some (Inr (VString ''ab''))"
  by (simp_all add: bind_scalar_def sample_steps [simplified] convert_value_def sample_env_def sample_port
      trim_space_id is_space_def wrap_uint_def)

lemma sample_validate:
  "bp_validate port_param = None" "bp_validate hosts_param = None"
  "bp_validate (elem_param q i) = None" "bp_validate sample_param = None"
  "tag_def (bp_tag sample_param) = []"
  by (simp_all add: port_param_def hosts_param_def elem_param_def sample_param_def bind_param0_def no_tag_def)

lemma sample_env_sel:
  "be_converters sample_env t = None" "be_filter sample_env = None" "be_validator sample_env n = None"
  by (simp_all add: sample_env_def)

lemma sample_bound:
  "bind_value sample_env 30 (properties_storage sample_conf) sample_type (zero_value sample_env sample_type) sample_param =
     Some (Inr (VStruct [VUint 80, VSlice (Some [VString ''a'', VString ''ab'']), VBool False]))"
  by (simp add: sample_type_def bind_value_kinds bind_value.simps [of _ _ _ "TSlice et" for et] bind_slice_def
      struct_fields_def bind_fields_Cons bind_field_def filtered_def run_validator_def validated_def
      sample_steps [simplified] sample_scalars [simplified] sample_validate sample_env_sel)

lemma bind_value_typed_witness:
  "has_type sample_type (VStruct [VUint 80, VSlice (Some [VString ''a'', VString ''ab'']), VBool False :: unit govalue])"
  using bind_value_typed [OF sample_env_typed zero_has_type(1) sample_bound] .

section \<open>Binding returns\<close>

text \<open>More fuel gives the same result.\<close>

lemma bind_scalar_mono:
  "bind_scalar env n p t v param = Some r \<Longrightarrow> n \<le> m \<Longrightarrow> bind_scalar env m p t v param = Some r"
  unfolding bind_scalar_def by (rule fbind_mono) (auto dest: resolve_mono)

lemma bind_loop_mono:
  assumes "\<And>x r. x \<in> set xs \<Longrightarrow> g x = Some r \<Longrightarrow> g' x = Some r"
    and "ffold (\<lambda>acc k. fbind (g k) (\<lambda>x. Some (Inr (acc @ [h k x])))) acc xs = Some r"
  shows "ffold (\<lambda>acc k. fbind (g' k) (\<lambda>x. Some (Inr (acc @ [h k x])))) acc xs = Some r"
proof (rule ffold_mono [OF _ assms(2)])
  fix s x r assume x: "x \<in> set xs" and r: "fbind (g x) (\<lambda>y. Some (Inr (s @ [h x y]))) = Some r"
  show "fbind (g' x) (\<lambda>y. Some (Inr (s @ [h x y]))) = Some r"
    by (rule fbind_mono [OF _ _ r]) (use assms(1) x in auto)
qed

lemma bind_value_mono:
  "n \<le> m \<Longrightarrow> bind_value env n p t v param = Some r \<Longrightarrow> bind_value env m p t v param = Some r"
  "n \<le> m \<Longrightarrow> bind_struct env n p name flds v param = Some r \<Longrightarrow>
    bind_struct env m p name flds v param = Some r"
  "n \<le> m \<Longrightarrow> bind_fields env n p name flds vs param = Some rs \<Longrightarrow>
    bind_fields env m p name flds vs param = Some rs"
proof (induction env n p t v param and env n p name flds v param and env n p name flds vs param
    arbitrary: r and r and rs rule: bind_value_bind_struct_bind_fields.induct)
  case (1 env n p t v param)
  show ?case
  proof (cases "is_prop_target t")
    case False
    with 1 show ?thesis by (simp add: bind_value.simps)
  next
    case target: True
    consider (TMap) kt et where "t = TMap kt et" | (TSlice) et where "t = TSlice et"
      | (TStruct) name flds where "t = TStruct name flds"
      | (TArray) k et where "t = TArray k et" | (other) "is_scalar t" using target by (cases t) auto
    then show ?thesis
    proof cases
      case (TMap kt et)
      note b = 1(5) [unfolded TMap bind_value.simps [of env n p "TMap kt et"] bind_map_def]
      show ?thesis
      proof (cases "string_kind kt \<and> \<not> (tag_has_def (bp_tag param) \<and> tag_def (bp_tag param) \<noteq> []) \<and>
          \<not> (tag_key (bp_tag param) = [] \<and> tag_has_def (bp_tag param)) \<and>
          snd (st_map_keys p (bp_key param) {}) \<noteq> {}")
        case False
        with b target TMap show ?thesis by (auto simp: bind_value.simps [of env m p "TMap kt et"] bind_map_def)
      next
        case True
        let ?loop = "\<lambda>n. ffold (\<lambda>acc key. fbind (bind_value env n p et (zero_value env et) (entry_param param key))
            (\<lambda>x. Some (Inr (acc @ [(key, x)])))) [] (sorted_list_of_set (snd (st_map_keys p (bp_key param) {})))"
        let ?fin = "\<lambda>r. fbind (fbind r (\<lambda>kvs. Some (Inr (VMap (Some kvs))))) (validated env param)"
        have eq: "bind_value env n p t v param = ?fin (?loop n)" for n
          using True target TMap by (auto simp: bind_value.simps [of env n p "TMap kt et"] bind_map_def)
        have step: "bind_value env m p et (zero_value env et) (entry_param param key) = Some q"
          if "bind_value env n p et (zero_value env et) (entry_param param key) = Some q" for key q
          using 1(1) [OF _ TMap] True target that 1(4) by blast
        have loop: "?loop m = Some q" if "?loop n = Some q" for q
          by (rule bind_loop_mono [OF _ that]) (rule step)
        have "fbind (?loop m) (\<lambda>kvs. Some (Inr (VMap (Some kvs)))) = Some q"
          if "fbind (?loop n) (\<lambda>kvs. Some (Inr (VMap (Some kvs)))) = Some q" for q
          by (rule fbind_mono [OF loop _ that])
        then have "?fin (?loop m) = Some r" if "?fin (?loop n) = Some r"
          by (rule fbind_mono [OF _ _ that])
        then show ?thesis using 1(5) unfolding eq .
      qed
    next
      case (TSlice et)
      let ?g = "\<lambda>n. map_option (map_err (SliceFailed (bp_path param))) (get_slice n p param)"
      let ?loop = "\<lambda>n x. ffold (\<lambda>acc i. fbind (bind_value env n (properties_storage x) et (zero_value env et)
          (elem_param param i)) (\<lambda>x. Some (Inr (acc @ [x])))) [] (slice_indexes x (bp_key param))"
      let ?body = "\<lambda>n x. case x of None \<Rightarrow> Some (Inr (VSlice (Some [])))
          | Some x \<Rightarrow> fbind (?loop n x) (\<lambda>xs. Some (Inr (VSlice (Some xs))))"
      have eq: "bind_value env n p t v param = fbind (fbind (?g n) (?body n)) (validated env param)" for n
        using target TSlice by (simp add: bind_value.simps [of env n p "TSlice et"] bind_slice_def)
      have g: "?g m = Some q" if "?g n = Some q" for q
        using that get_slice_mono [OF _ 1(4)] by (cases "get_slice n p param") auto
      have body: "?body m x = Some q" if x: "?g n = Some (Inr x)" and q: "?body n x = Some q" for x q
      proof (cases x)
        case (Some y)
        have step: "bind_value env m (properties_storage y) et (zero_value env et) (elem_param param i) = Some q"
          if "bind_value env n (properties_storage y) et (zero_value env et) (elem_param param i) = Some q" for i q
          using 1(2) [OF _ TSlice] target that 1(4) by blast
        have loop: "?loop m y = Some q" if "?loop n y = Some q" for q
          by (rule bind_loop_mono [OF _ that]) (rule step)
        have "fbind (?loop m y) (\<lambda>xs. Some (Inr (VSlice (Some xs)))) = Some q"
          by (rule fbind_mono [OF loop]) (use q Some in auto)
        with Some show ?thesis by simp
      qed (use q in simp)
      have "fbind (?g m) (?body m) = Some q" if "fbind (?g n) (?body n) = Some q" for q
        by (rule fbind_mono [OF g body that])
      then have "fbind (fbind (?g m) (?body m)) (validated env param) = Some r"
        if "fbind (fbind (?g n) (?body n)) (validated env param) = Some r"
        by (rule fbind_mono [OF _ _ that])
      then show ?thesis using 1(5) unfolding eq .
    next
      case (TStruct name flds)
      show ?thesis
      proof (cases "be_converters env t")
        case None
        with 1(3) [OF _ TStruct] target 1(4)
        have s: "bind_struct env m p name flds v param = Some q" if "bind_struct env n p name flds v param = Some q" for q
          using that by simp
        from 1(5) None TStruct show ?thesis
          unfolding TStruct bind_value_kinds by (auto intro: fbind_mono [OF s] simp del: bind_struct.simps)
      next
        case (Some f)
        from 1(5) Some show ?thesis
          unfolding TStruct bind_value_kinds by (auto intro: fbind_mono [OF bind_scalar_mono [OF _ 1(4)]])
      qed
    next
      case (TArray k et)
      with 1(5) show ?thesis by (simp add: bind_value_kinds)
    next
      case other
      then obtain name k where t: "t = TScalar name k" by (cases t) auto
      show ?thesis unfolding t bind_value_kinds
        by (rule fbind_mono [OF bind_scalar_mono [OF _ 1(4)] _ 1(5) [unfolded t bind_value_kinds]])
    qed
  qed
next
  case (2 env n p name flds v param)
  show ?case
  proof (cases "tag_has_def (bp_tag param) \<and> tag_def (bp_tag param) \<noteq> []")
    case True
    with 2 show ?thesis by simp
  next
    case False
    have f: "bind_fields env m p name flds (struct_fields v) param = Some q"
      if "bind_fields env n p name flds (struct_fields v) param = Some q" for q
      using 2(1) [OF False 2(2) that] .
    from 2(3) False have "fbind (bind_fields env n p name flds (struct_fields v) param)
        (\<lambda>vs. run_validator env name param (VStruct vs)) = Some r" by (simp split: if_splits)
    then have "fbind (bind_fields env m p name flds (struct_fields v) param)
        (\<lambda>vs. run_validator env name param (VStruct vs)) = Some r"
      by (rule fbind_mono [OF f, rotated 2])
    with False show ?thesis by auto
  qed
next
  case (5 env n p name fname exported embedded tag expr ft fs v vs param)
  let ?f = "\<lambda>n. bind_field env n p name fname exported embedded tag expr ft v param"
  have f: "?f m = Some q" if "?f n = Some q" for q
    using that 5(1,2) 5(4) unfolding bind_field_def
    by (cases ft) (auto split: if_splits option.splits sum.splits bool.splits)
  have rest: "bind_fields env m p name fs vs param = Some q"
    if "?f n = Some (Inr a)" "bind_fields env n p name fs vs param = Some q" for a q
    using 5(3) [of a] that 5(4) by (simp add: bind_field_def)
  have inner: "fbind (bind_fields env m p name fs vs param) (\<lambda>vs. Some (Inr (v1 # vs))) = Some q"
    if "?f n = Some (Inr v1)" "fbind (bind_fields env n p name fs vs param) (\<lambda>vs. Some (Inr (v1 # vs))) = Some q"
    for v1 q by (rule fbind_mono [OF rest [OF that(1)] _ that(2)])
  show ?case unfolding bind_fields_Cons
    by (rule fbind_mono [OF f inner 5(5) [unfolded bind_fields_Cons]])
qed auto

text \<open>What binding needs of a storage to return: its contract, leaves of bounded length, no root leaf.\<close>

definition bindable :: "storage \<Rightarrow> bool" where
  "bindable p \<longleftrightarrow> storage_laws p \<and> st_value p [] = None \<and>
     (\<exists>L. \<forall>k v. st_value p k = Some v \<longrightarrow> length v \<le> L)"

lemma bindable_properties: "map_of (pr_data m) [] = None \<Longrightarrow> bindable (properties_storage m)"
proof -
  assume "map_of (pr_data m) [] = None"
  moreover have "length v \<le> sum_list (map (length \<circ> snd) (pr_data m))" if "ps_value m k = Some v" for k v
  proof -
    from that have "(k, v) \<in> set (pr_data m)" by (rule ps_value_mem)
    then have "(length \<circ> snd) (k, v) \<in> set (map (length \<circ> snd) (pr_data m))" by (metis image_eqI set_map)
    then show ?thesis using member_le_sum_list by fastforce
  qed
  ultimately show ?thesis
    using ps.storage_laws_axioms by (auto simp: bindable_def ps_value_def)
qed

lemma resolve_string_ex: "bindable p \<Longrightarrow> \<exists>n r. resolve_string n p s = Some r"
proof -
  assume "bindable p"
  then obtain L where "\<forall>k v. st_value p k = Some v \<longrightarrow> length v \<le> L" and "st_value p [] = None"
    by (auto simp: bindable_def)
  then have "resolve_string_stack (resolve_fuel L 0 (length s)) p s new_stack \<noteq> None"
    by (intro resolve_string_stack_returns) (auto simp: new_stack_def)
  then show ?thesis unfolding resolve_string_def by fastforce
qed

lemma resolve_ex: "bindable p \<Longrightarrow> \<exists>n r. resolve n p param = Some r"
proof -
  assume "bindable p"
  then obtain L where L: "\<forall>k v. st_value p k = Some v \<longrightarrow> length v \<le> L" and root: "st_value p [] = None"
    by (auto simp: bindable_def)
  let ?n = "resolve_fuel L 0 (length (tag_def (bp_tag param)))"
  have res: "resolve_string_stack ?n p s st \<noteq> None"
    if "rs_depth st \<le> maxResolveDepth" "resolve_fuel L (rs_depth st) (length s) \<le> ?n" for s st
    using resolve_string_stack_returns [OF _ root that] L by blast
  have "resolve_with_stack (resolve_string_stack ?n p) p param new_stack \<noteq> None"
    by (rule resolve_with_stack_returns [where L = L, OF res]) (use L root in \<open>auto simp: new_stack_def\<close>)
  then show ?thesis unfolding resolve_def by fastforce
qed

lemma resolve_entries_ex: "bindable p \<Longrightarrow> \<exists>n r. resolve_entries n p kvs m = Some r"
proof (induction kvs arbitrary: m)
  case (Cons kv kvs)
  obtain k v where kv: "kv = (k, v)" by (cases kv)
  obtain n q where q: "resolve_string n p v = Some q" using resolve_string_ex Cons.prems by blast
  show ?case
  proof (cases q)
    case (Inl e)
    with q kv show ?thesis by (intro exI [of _ n]) simp
  next
    case (Inr s)
    obtain n' r where r: "resolve_entries n' p kvs (AList.update k s m) = Some r" using Cons by blast
    let ?m = "max n n'"
    from resolve_string_mono [OF q, of ?m] resolve_entries_mono [OF r, of ?m] kv Inr
    show ?thesis by (intro exI [of _ ?m]) simp
  qed
qed simp

lemma get_slice_ex: "bindable p \<Longrightarrow> \<exists>n r. get_slice n p param = Some r"
proof -
  assume p: "bindable p"
  obtain found m where fm: "st_slice_entries p (bp_key param) [] = (found, m)" by fastforce
  show ?thesis
  proof (cases found)
    case True
    with fm resolve_entries_ex [OF p, of "gorange m" m] show ?thesis
      by (cases "validate_slice_indexes (bp_key param) m") (auto simp: get_slice_def)
  next
    case False
    with fm resolve_string_ex [OF p] show ?thesis
      by (cases "st_value p (bp_key param)") (auto simp: get_slice_def)
  qed
qed

lemma resolve_entries_keys:
  "resolve_entries n p kvs m = Some (Inr m') \<Longrightarrow> fst ` set m' \<subseteq> fst ` set m \<union> fst ` set kvs"
proof (induction kvs arbitrary: m)
  case (Cons kv kvs)
  obtain k v where kv: "kv = (k, v)" by (cases kv)
  from Cons.prems kv obtain s where "resolve_entries n p kvs (AList.update k s m) = Some (Inr m')"
    by (cases "resolve_string n p v") (auto split: sum.splits)
  from Cons.IH [OF this] kv show ?case by (auto simp: dom_update)
qed simp

lemma slice_entry_keys:
  "storage_laws p \<Longrightarrow> st_slice_entries p k [] = (b, m) \<Longrightarrow> [] \<notin> fst ` set m"
proof
  assume p: "storage_laws p" "st_slice_entries p k [] = (b, m)" and "[] \<in> fst ` set m"
  then obtain v where "map_of m [] = Some v" by (metis map_of_ex_iff)
  with storage_laws.slice_value [OF p(1), of k "[]" v] p(2) show False by simp
qed

lemma get_slice_bindable:
  assumes p: "bindable p" and g: "get_slice n p param = Some (Inr (Some m))"
  shows "bindable (properties_storage m)"
proof (rule bindable_properties)
  obtain found es where es: "st_slice_entries p (bp_key param) [] = (found, es)" by fastforce
  have "[] \<notin> fst ` set (pr_data m)"
  proof (cases found)
    case True
    with g es obtain m' where m': "resolve_entries n p (gorange es) es = Some (Inr m')" and "pr_data m = m'"
      by (auto simp: get_slice_def rbind_Inr_iff new_properties_def split: sum.splits)
    moreover have "[] \<notin> fst ` set es" using slice_entry_keys [OF _ es] p by (simp add: bindable_def)
    moreover from resolve_entries_keys [OF m'] have "fst ` set m' \<subseteq> fst ` set es"
      unfolding gokeys_gorange by simp
    ultimately show ?thesis by blast
  next
    case False
    with g es obtain s where "pr_data m = split_entries (bp_key param) s"
      by (auto simp: get_slice_def rbind_Inr_iff new_properties_def Let_def split: sum.splits option.splits if_splits)
    moreover have "[] \<notin> fst ` set (split_entries (bp_key param) s)"
      using split_entries_keys by (fastforce simp: index_key_def)
    ultimately show ?thesis by simp
  qed
  then show "map_of (pr_data m) [] = None" by (simp add: map_of_eq_None_iff)
qed

lemma fuel_loop_ex:
  assumes "\<And>x. x \<in> set xs \<Longrightarrow> \<exists>n r. g n x = Some r"
    and "\<And>n m x r. g (n::nat) x = Some r \<Longrightarrow> n \<le> m \<Longrightarrow> g m x = Some r"
  shows "\<exists>n. \<forall>x \<in> set xs. g n x \<noteq> None"
  using assms(1)
proof (induction xs)
  case (Cons x xs)
  then obtain n where n: "\<forall>x \<in> set xs. g n x \<noteq> None" by auto
  from Cons.prems [of x] obtain k r where k: "g k x = Some r" by auto
  have "g (max n k) y \<noteq> None" if y: "y \<in> set (x # xs)" for y
  proof (cases "y = x")
    case True
    with assms(2) [OF k max.cobounded2, of n] show ?thesis by blast
  next
    case False
    with y n obtain q where "g n y = Some q" by auto
    from assms(2) [OF this max.cobounded1, of k] show ?thesis by blast
  qed
  then show ?case by blast
qed simp

lemma validated_not_None [simp]: "validated env param v \<noteq> None"
  by (auto simp: validated_def split: option.splits)

lemma run_validator_not_None [simp]: "run_validator env name param v \<noteq> None"
  by (auto simp: run_validator_def split: option.splits)

lemma bind_scalar_ex: "bindable p \<Longrightarrow> \<exists>n r. bind_scalar env n p t v param = Some r"
proof -
  assume "bindable p"
  from resolve_ex [OF this, of param] obtain n r where "resolve n p param = Some r" by blast
  then have "bind_scalar env n p t v param \<noteq> None" by (cases r) (simp_all add: bind_scalar_def)
  then show ?thesis by blast
qed

definition returns :: "'f bind_env \<Rightarrow> gotype \<Rightarrow> bool" where
  "returns env t \<longleftrightarrow> (\<forall>p v param. bindable p \<longrightarrow> (\<exists>n r. bind_value env n p t v param = Some r) \<and>
     (\<forall>name flds. t = TStruct name flds \<longrightarrow> (\<exists>n r. bind_struct env n p name flds v param = Some r)))"

lemma bind_field_cases:
  "(\<exists>r. \<forall>n. bind_field env n p name fname exported embedded tag expr ft v param = Some r) \<or>
   (\<exists>sub. \<forall>n. bind_field env n p name fname exported embedded tag expr ft v param = bind_value env n p ft v sub) \<or>
   (\<exists>ename eflds. ft = TStruct ename eflds \<and>
      (\<forall>n. bind_field env n p name fname exported embedded tag expr ft v param =
             bind_struct env n p ename eflds v (field_param param fname)))"
proof (cases "exported \<and> tag \<noteq> None")
  case True
  then obtain t where t: "tag = Some t" and e: exported by auto
  show ?thesis
  proof (cases "bind_tag t expr (field_param param fname)")
    case (Inr sub)
    show ?thesis
    proof (cases "filtered env ft sub")
      case (Inr b)
      with e t \<open>bind_tag t expr (field_param param fname) = Inr sub\<close> show ?thesis
        by (cases b) (auto simp: bind_field_def)
    qed (use e t Inr in \<open>simp add: bind_field_def\<close>)
  qed (use e t in \<open>simp add: bind_field_def\<close>)
next
  case False
  then show ?thesis
    by (cases ft) (auto simp: bind_field_def simp del: bind_struct.simps)
qed

lemma bind_fields_ex:
  assumes "\<And>fld. fld \<in> set flds \<Longrightarrow> case fld of Field _ _ _ _ _ t \<Rightarrow> returns env t" and p: "bindable p"
  shows "\<exists>n r. bind_fields env n p name flds vs param = Some r"
  using assms(1)
proof (induction flds arbitrary: vs)
  case (Cons fld fs)
  obtain fname exported embedded tag expr ft where fld: "fld = Field fname exported embedded tag expr ft"
    by (cases fld)
  with Cons.prems [of fld] have ft: "returns env ft" by simp
  show ?case
  proof (cases vs)
    case (Cons v vs')
    let ?f = "\<lambda>n. bind_field env n p name fname exported embedded tag expr ft v param"
    have "\<exists>n r. ?f n = Some r"
      using bind_field_cases [of env p name fname exported embedded tag expr ft v param] ft p
      unfolding returns_def by (elim disjE exE conjE; simp; blast)
    then obtain n r where f: "?f n = Some r" by blast
    obtain n' r' where rest: "bind_fields env n' p name fs vs' param = Some r'"
      using Cons.IH Cons.prems by fastforce
    let ?m = "max n n'"
    have "?f ?m = Some r"
      using bind_field_cases [of env p name fname exported embedded tag expr ft v param]
    proof (elim disjE exE conjE)
      fix sub assume "\<forall>n. ?f n = bind_value env n p ft v sub"
      with f bind_value_mono(1) [of n ?m env p ft v sub r] show ?thesis by simp
    next
      fix ename eflds assume "\<forall>n. ?f n = bind_struct env n p ename eflds v (field_param param fname)"
      with f bind_value_mono(2) [of n ?m env p ename eflds v "field_param param fname" r]
      show ?thesis by (simp del: bind_struct.simps)
    qed (use f in simp)
    moreover have "bind_fields env ?m p name fs vs' param = Some r'"
      by (rule bind_value_mono(3) [OF _ rest]) simp
    ultimately show ?thesis using fld Cons
      by (intro exI [of _ ?m]) (cases r; cases r'; simp add: bind_fields_Cons)
  qed (use fld in simp)
qed simp

lemma fbind_not_None: "r \<noteq> None \<Longrightarrow> (\<And>a. f a \<noteq> None) \<Longrightarrow> fbind r f \<noteq> None"
  by (auto simp: fbind_None_iff)

lemma bind_struct_ex:
  assumes "\<And>fld. fld \<in> set flds \<Longrightarrow> case fld of Field _ _ _ _ _ t \<Rightarrow> returns env t" and p: "bindable p"
  shows "\<exists>n r. bind_struct env n p name flds v param = Some r"
proof -
  obtain n r where "bind_fields env n p name flds (struct_fields v) param = Some r"
    using bind_fields_ex [OF assms] by blast
  then have "bind_struct env n p name flds v param \<noteq> None"
    by (simp add: fbind_None_iff del: not_None_eq)
  then show ?thesis by blast
qed

lemma bind_map_ex:
  assumes et: "returns env et" and p: "bindable p"
  shows "\<exists>n r. bind_value env n p (TMap kt et) v param = Some r"
proof -
  let ?ks = "sorted_list_of_set (snd (st_map_keys p (bp_key param) {}))"
  let ?g = "\<lambda>n k. bind_value env n p et (zero_value env et) (entry_param param k)"
  have "\<exists>n. \<forall>k \<in> set ?ks. ?g n k \<noteq> None"
    by (rule fuel_loop_ex) (use et p bind_value_mono(1) in \<open>auto simp: returns_def\<close>)
  then obtain n where n: "\<forall>k \<in> set ?ks. ?g n k \<noteq> None" ..
  have "ffold (\<lambda>acc k. fbind (?g n k) (\<lambda>x. Some (Inr (acc @ [(k, x)])))) [] ?ks \<noteq> None"
    by (rule ffold_collect_returns) (use n in blast)
  then have "bind_value env n p (TMap kt et) v param \<noteq> None"
    unfolding bind_value.simps [of env n p "TMap kt et"] bind_map_def
    by (simp add: fbind_None_iff Let_def del: not_None_eq)
  then show ?thesis by blast
qed

lemma bind_slice_ex:
  assumes et: "returns env et" and p: "bindable p"
  shows "\<exists>n r. bind_value env n p (TSlice et) v param = Some r"
proof -
  obtain n r where g: "get_slice n p param = Some r" using get_slice_ex [OF p] by blast
  show ?thesis
  proof (cases "\<exists>m. r = Inr (Some m)")
    case True
    then obtain m where r: "r = Inr (Some m)" ..
    let ?is = "slice_indexes m (bp_key param)"
    let ?g = "\<lambda>n i. bind_value env n (properties_storage m) et (zero_value env et) (elem_param param i)"
    have m: "bindable (properties_storage m)" using get_slice_bindable [OF p] g r by blast
    have "\<exists>n. \<forall>i \<in> set ?is. ?g n i \<noteq> None"
      by (rule fuel_loop_ex) (use et m bind_value_mono(1) in \<open>auto simp: returns_def\<close>)
    then obtain n' where n': "\<forall>i \<in> set ?is. ?g n' i \<noteq> None" ..
    let ?m = "max n n'"
    have "?g ?m i \<noteq> None" if "i \<in> set ?is" for i
      using n' that bind_value_mono(1) [of n' ?m] by fastforce
    then have "ffold (\<lambda>acc i. fbind (?g ?m i) (\<lambda>x. Some (Inr (acc @ [x])))) [] ?is \<noteq> None"
      by (rule ffold_collect_returns)
    moreover have "get_slice ?m p param = Some (Inr (Some m))" using get_slice_mono [OF g] r by simp
    ultimately have "bind_value env ?m p (TSlice et) v param \<noteq> None"
      unfolding bind_value.simps [of env ?m p "TSlice et"] bind_slice_def
      by (simp add: fbind_None_iff del: not_None_eq)
    then show ?thesis by blast
  next
    case False
    with g have "bind_value env n p (TSlice et) v param \<noteq> None"
      unfolding bind_value.simps [of env n p "TSlice et"] bind_slice_def
      by (cases r) (auto simp: fbind_None_iff simp del: not_None_eq split: option.split)
    then show ?thesis by blast
  qed
qed

lemma all_returns: "returns env t" "case fld of Field _ _ _ _ _ t \<Rightarrow> returns env t"
proof (induction t and fld)
  case (TStruct name flds)
  have "\<exists>n r. bind_value env n p (TStruct name flds) v param = Some r" if p: "bindable p" for p v param
  proof (cases "be_converters env (TStruct name flds)")
    case None
    obtain n r where "bind_struct env n p name flds v param = Some r"
      using bind_struct_ex [OF TStruct p] by blast
    with None have "bind_value env n p (TStruct name flds) v param \<noteq> None"
      by (cases r) (simp_all add: bind_value_kinds del: bind_struct.simps)
    then show ?thesis by blast
  next
    case (Some f)
    obtain n r where "bind_scalar env n p (TStruct name flds) v param = Some r"
      using bind_scalar_ex [OF p] by blast
    with Some have "bind_value env n p (TStruct name flds) v param \<noteq> None"
      by (cases r) (simp_all add: bind_value_kinds)
    then show ?thesis by blast
  qed
  with bind_struct_ex [OF TStruct] show ?case by (simp add: returns_def del: bind_struct.simps)
next
  case (TScalar name k)
  have "\<exists>n r. bind_value env n p (TScalar name k) v param = Some r" if p: "bindable p" for p v param
  proof -
    obtain n r where "bind_scalar env n p (TScalar name k) v param = Some r"
      using bind_scalar_ex [OF p] by blast
    then have "bind_value env n p (TScalar name k) v param \<noteq> None"
      by (cases r) (simp_all add: bind_value_kinds)
    then show ?thesis by blast
  qed
  then show ?case by (simp add: returns_def)
qed (simp_all add: returns_def bind_value_kinds bind_map_ex [unfolded returns_def] bind_slice_ex [unfolded returns_def])

text \<open>Binding returns. For every target type, environment and parameter there is
  a fuel with which \<open>BindValue\<close> has returned a value or an error, and more fuel does not change
  what it returns, when the storage keeps the storage contract, its leaves are of bounded
  length and the empty key is not a leaf. The layered storage without a leaf under the
  empty key is such a storage.\<close>

theorem bind_value_returns:
  assumes "storage_laws p" and "\<forall>k v. st_value p k = Some v \<longrightarrow> length v \<le> L" and "st_value p [] = None"
  shows "\<exists>n r. \<forall>m \<ge> n. bind_value env m p t v param = Some r"
proof -
  from assms have "bindable p" by (auto simp: bindable_def)
  then obtain n r where "bind_value env n p t v param = Some r"
    using all_returns unfolding returns_def by blast
  with bind_value_mono(1) show ?thesis by blast
qed

lemma bind_value_returns_witness:
  "\<forall>v. \<exists>n r. \<forall>m \<ge> n. bind_value sample_env m (layered_storage sample_layers) sample_type v sample_param = Some r"
proof
  fix v
  have "\<forall>k v. st_value (layered_storage sample_layers) k = Some v \<longrightarrow> length v \<le> 3"
    by (auto simp: ls_value_def ps_value_def sample_layers_def new_layered_def split: if_splits)
  moreover have "st_value (layered_storage sample_layers) [] = None"
    by (simp add: ls_value_def ps_value_def sample_layers_def new_layered_def)
  ultimately show "\<exists>n r. \<forall>m \<ge> n. bind_value sample_env m (layered_storage sample_layers) sample_type v sample_param = Some r"
    by (rule bind_value_returns [OF ls.storage_laws_axioms])
qed

section \<open>Integers outside the width of the target\<close>

text \<open>An integer that does not fit its target is bound to another number
  without an error. The text is parsed at 64 bits and stored in the field's width, so the
  printed form of any \<open>m < 2^64\<close> bound to a \<open>w\<close>-bit unsigned field gives \<open>m mod 2^w\<close>.\<close>

theorem uint_binding_wraps:
  assumes "m < 2 ^ 64" and "be_converters env (TScalar name (KUint w)) = None"
    and "\<And>s. be_decode env s = Inr s"
  shows "convert_value env (TScalar name (KUint w)) v path (show_nat m) = Inr (VUint (m mod 2 ^ w))"
proof -
  have "\<not> is_space (hd (show_nat m)) \<and> \<not> is_space (last (show_nat m))"
    using show_nat_digits [of m] show_nat_not_Nil [of m]
    by (metis digit_not_space hd_in_set last_in_set list_all_iff)
  then have "trim_space (show_nat m) = show_nat m" by (intro trim_space_id) blast
  with assms show ?thesis
    by (simp add: convert_value_def parse_uint0_show_nat wrap_uint_def)
qed

lemma uint_binding_wraps_witness:
  "convert_value sample_env (TScalar ''uint8'' (KUint 8)) (VUint 0) ''Config.Level'' (show_nat 300) = Inr (VUint 44)"
proof -
  have "(300::nat) < 2 ^ 64" by simp
  moreover have "be_converters sample_env (TScalar ''uint8'' (KUint 8)) = None" by (simp add: sample_env_def)
  moreover have "be_decode sample_env s = Inr s" for s by (simp add: sample_env_def)
  ultimately have "convert_value sample_env (TScalar ''uint8'' (KUint 8)) (VUint 0) ''Config.Level'' (show_nat 300) =
      Inr (VUint (300 mod 2 ^ 8))" by (rule uint_binding_wraps)
  then show ?thesis by simp
qed

end
