(* ===== verification/GsDync.thy ===== *)
theory GsDync
  imports ConfBind
begin

text \<open>
  \<open>spring/gs/internal/gs_dync/dync.go\<close>: configuration values that follow the configuration
  at run time. A \<open>Value[T]\<close> is a cell of a heap, named by a number; a listener is named by
  a text, and what it is called with is recorded as an event. A field is bound by
  \<open>BindValue\<close> of \<open>ConfBind\<close> with its fuel. The lock makes every operation one step.
\<close>

section \<open>The state\<close>

record 'f cell =
  dc_type :: gotype
  dc_value :: "'f govalue option"
  dc_listener :: "string option"

record refresh_object =
  ro_cell :: nat
  ro_param :: bind_param

record 'f dync =
  dy_prop :: storage
  dy_objects :: "refresh_object list"
  dy_cells :: "nat \<Rightarrow> 'f cell"

datatype dync_error =
    NilProperties
  | RefreshFailed "(string \<times> string \<times> bind_error) list"
  | FieldFailed string string bind_error

type_synonym 'f event = "string \<times> 'f govalue \<times> 'f govalue"

definition new_dync :: "storage \<Rightarrow> (nat \<Rightarrow> 'f cell) \<Rightarrow> 'f dync" where
  "new_dync p cells = \<lparr>dy_prop = p, dy_objects = [], dy_cells = cells\<rparr>"

definition objects_count :: "'f dync \<Rightarrow> nat" where
  "objects_count st = length (dy_objects st)"

section \<open>\<open>Value\<close>\<close>

definition cell_value :: "'f bind_env \<Rightarrow> 'f cell \<Rightarrow> 'f govalue" where
  "cell_value env c = (case dc_value c of None \<Rightarrow> zero_value env (dc_type c) | Some v \<Rightarrow> v)"

definition on_changed :: "string \<Rightarrow> 'f cell \<Rightarrow> 'f cell" where
  "on_changed l c = (case dc_listener c of None \<Rightarrow> c\<lparr>dc_listener := Some l\<rparr> | Some _ \<Rightarrow> c)"

definition on_valid :: "'f bind_env \<Rightarrow> nat \<Rightarrow> storage \<Rightarrow> 'f cell \<Rightarrow> bind_param \<Rightarrow> 'f bound" where
  "on_valid env n p c param = bind_value env n p (dc_type c) (zero_value env (dc_type c)) param"

definition on_commit :: "nat \<Rightarrow> 'f govalue \<Rightarrow> (nat \<Rightarrow> 'f cell) \<Rightarrow> 'f govalue option \<times> (nat \<Rightarrow> 'f cell)" where
  "on_commit a v cells = (dc_value (cells a), cells(a := (cells a)\<lparr>dc_value := Some v\<rparr>))"

text \<open>A listener gets both values; converting the absent previous value would panic.\<close>

definition on_finish :: "'f cell \<Rightarrow> 'f govalue \<Rightarrow> 'f govalue option \<Rightarrow> (go_panic, 'f event list) result" where
  "on_finish c new old =
     (case dc_listener c of
        None \<Rightarrow> Inr []
      | Some l \<Rightarrow> (case old of None \<Rightarrow> Inl TypeAssertion | Some old \<Rightarrow> Inr [(l, new, old)]))"

section \<open>\<open>Properties\<close>\<close>

text \<open>The validate phase visits every object and collects all errors.\<close>

fun valid_all ::
  "'f bind_env \<Rightarrow> nat \<Rightarrow> storage \<Rightarrow> (nat \<Rightarrow> 'f cell) \<Rightarrow> refresh_object list \<Rightarrow>
     ((string \<times> string \<times> bind_error) list \<times> 'f govalue list) option" where
  "valid_all env n p cells [] = Some ([], [])"
| "valid_all env n p cells (ob # obs) =
     Option.bind (on_valid env n p (cells (ro_cell ob)) (ro_param ob)) (\<lambda>r.
       map_option (\<lambda>(errs, vals). case r of
           Inl e \<Rightarrow> ((bp_path (ro_param ob), bp_key (ro_param ob), e) # errs, VNil # vals)
         | Inr v \<Rightarrow> (errs, v # vals))
         (valid_all env n p cells obs))"

fun commit_all ::
  "(refresh_object \<times> 'f govalue) list \<Rightarrow> (nat \<Rightarrow> 'f cell) \<Rightarrow> 'f govalue option list \<times> (nat \<Rightarrow> 'f cell)" where
  "commit_all [] cells = ([], cells)"
| "commit_all ((ob, v) # obs) cells =
     (let (old, cells) = on_commit (ro_cell ob) v cells; (olds, cells) = commit_all obs cells
      in (old # olds, cells))"

fun finish_all ::
  "(nat \<Rightarrow> 'f cell) \<Rightarrow> (refresh_object \<times> 'f govalue \<times> 'f govalue option) list \<Rightarrow> (go_panic, 'f event list) result" where
  "finish_all cells [] = Inr []"
| "finish_all cells ((ob, new, old) # obs) =
     rbind (on_finish (cells (ro_cell ob)) new old)
       (\<lambda>evs. rbind (finish_all cells obs) (\<lambda>evs'. Inr (evs @ evs')))"

text \<open>A refresh yields its error, or the outcome of the listeners; \<open>None\<close> while it runs.\<close>

definition refresh_dync ::
  "'f bind_env \<Rightarrow> nat \<Rightarrow> storage option \<Rightarrow> 'f dync \<Rightarrow>
     ((dync_error, (go_panic, 'f event list) result) result \<times> 'f dync) option" where
  "refresh_dync env n p st =
     (case p of
        None \<Rightarrow> Some (Inl NilProperties, st)
      | Some p \<Rightarrow>
          if dy_objects st = [] then Some (Inr (Inr []), st\<lparr>dy_prop := p\<rparr>)
          else map_option (\<lambda>(errs, vals).
            if errs \<noteq> [] then (Inl (RefreshFailed errs), st)
            else
              (let (olds, cells) = commit_all (zip (dy_objects st) vals) (dy_cells st)
               in (Inr (finish_all cells (zip (dy_objects st) (zip vals olds))), st\<lparr>dy_prop := p, dy_cells := cells\<rparr>)))
            (valid_all env n p (dy_cells st) (dy_objects st)))"

text \<open>\<open>RefreshField\<close> for a field that is itself a dynamic value.\<close>

definition refresh_field ::
  "'f bind_env \<Rightarrow> nat \<Rightarrow> nat \<Rightarrow> bind_param \<Rightarrow> 'f dync \<Rightarrow> ((dync_error, unit) result \<times> 'f dync) option" where
  "refresh_field env n a param st =
     map_option (\<lambda>r. case r of
         Inl e \<Rightarrow> (Inl (FieldFailed (bp_path param) (bp_key param) e), st)
       | Inr v \<Rightarrow> (Inr (), st\<lparr>dy_cells := snd (on_commit a v (dy_cells st)),
                               dy_objects := dy_objects st @ [\<lparr>ro_cell = a, ro_param = param\<rparr>]\<rparr>))
       (on_valid env n (dy_prop st) (dy_cells st a) param)"

text \<open>\<open>RefreshField\<close> for any other field: plain binding into the field.\<close>

definition refresh_plain_field ::
  "'f bind_env \<Rightarrow> nat \<Rightarrow> gotype \<Rightarrow> 'f govalue \<Rightarrow> bind_param \<Rightarrow> 'f dync \<Rightarrow> (dync_error, 'f govalue) result option" where
  "refresh_plain_field env n t v param st =
     map_option (map_err (FieldFailed (bp_path param) (bp_key param))) (bind_value env n (dy_prop st) t v param)"

section \<open>Runs\<close>

text \<open>
  What can happen to the dynamic configuration: a field not yet registered is bound, a
  listener is added, a refresh runs and succeeds, fails or is refused.
\<close>

inductive dync_step :: "'f bind_env \<Rightarrow> 'f dync \<Rightarrow> 'f dync \<Rightarrow> bool" for env where
  field: "a \<notin> ro_cell ` set (dy_objects st) \<Longrightarrow> refresh_field env n a param st = Some (r, st') \<Longrightarrow> dync_step env st st'"
| listen: "st' = st\<lparr>dy_cells := (dy_cells st)(a := on_changed l (dy_cells st a))\<rparr> \<Longrightarrow> dync_step env st st'"
| refresh: "refresh_dync env n p st = Some (r, st') \<Longrightarrow> dync_step env st st'"

inductive dync_reachable :: "'f bind_env \<Rightarrow> 'f dync \<Rightarrow> bool" for env where
  start: "dync_reachable env (new_dync p cells)"
| step: "dync_reachable env st \<Longrightarrow> dync_step env st st' \<Longrightarrow> dync_reachable env st'"

inductive_cases dync_stepE: "dync_step env st st'"

text \<open>Every registered value is what its parameters say under the current configuration.\<close>

definition in_sync :: "'f bind_env \<Rightarrow> 'f dync \<Rightarrow> bool" where
  "in_sync env st \<longleftrightarrow> distinct (map ro_cell (dy_objects st)) \<and>
     (\<forall>ob \<in> set (dy_objects st). \<exists>n v.
        on_valid env n (dy_prop st) (dy_cells st (ro_cell ob)) (ro_param ob) = Some (Inr v) \<and>
        dc_value (dy_cells st (ro_cell ob)) = Some v)"

lemma on_valid_cell: "dc_type c = dc_type c' \<Longrightarrow> on_valid env n p c param = on_valid env n p c' param"
  by (simp add: on_valid_def)

lemma valid_all_Cons:
  assumes "valid_all env n p cells (ob # obs) = Some (errs, vals)"
  obtains (bad) e errs' vals' where "on_valid env n p (cells (ro_cell ob)) (ro_param ob) = Some (Inl e)"
      "valid_all env n p cells obs = Some (errs', vals')"
      "errs = (bp_path (ro_param ob), bp_key (ro_param ob), e) # errs'" "vals = VNil # vals'"
    | (good) v vals' where "on_valid env n p (cells (ro_cell ob)) (ro_param ob) = Some (Inr v)"
      "valid_all env n p cells obs = Some (errs, vals')" "vals = v # vals'"
proof -
  from assms obtain r errs' vals' where *: "on_valid env n p (cells (ro_cell ob)) (ro_param ob) = Some r"
      "valid_all env n p cells obs = Some (errs', vals')"
    by (auto simp: bind_eq_Some_conv)
  with assms that show thesis by (cases r) auto
qed

lemma valid_all_ok:
  "valid_all env n p cells obs = Some ([], vals) \<Longrightarrow>
     list_all2 (\<lambda>ob v. on_valid env n p (cells (ro_cell ob)) (ro_param ob) = Some (Inr v)) obs vals"
proof (induction obs arbitrary: vals)
  case (Cons ob obs)
  from Cons.prems show ?case by (cases rule: valid_all_Cons) (use Cons.IH in auto)
qed simp

definition bind_failure :: "'f bind_env \<Rightarrow> nat \<Rightarrow> storage \<Rightarrow> (nat \<Rightarrow> 'f cell) \<Rightarrow> refresh_object \<Rightarrow> (string \<times> string \<times> bind_error) list" where
  "bind_failure env n p cells ob =
     (case on_valid env n p (cells (ro_cell ob)) (ro_param ob) of
        Some (Inl e) \<Rightarrow> [(bp_path (ro_param ob), bp_key (ro_param ob), e)] | _ \<Rightarrow> [])"

lemma valid_all_errors:
  "valid_all env n p cells obs = Some (errs, vals) \<Longrightarrow>
     errs = concat (map (bind_failure env n p cells) obs) \<and> length vals = length obs"
proof (induction obs arbitrary: errs vals)
  case (Cons ob obs)
  from Cons.prems show ?case
    by (cases rule: valid_all_Cons) (use Cons.IH in \<open>force simp: bind_failure_def\<close>)+
qed simp

lemma commit_all_spec:
  assumes "length obs = length vals" and "distinct (map ro_cell obs)"
  shows "fst (commit_all (zip obs vals) cells) = map (\<lambda>ob. dc_value (cells (ro_cell ob))) obs"
    and "i < length obs \<Longrightarrow> snd (commit_all (zip obs vals) cells) (ro_cell (obs ! i)) =
      (cells (ro_cell (obs ! i)))\<lparr>dc_value := Some (vals ! i)\<rparr>"
    and "a \<notin> ro_cell ` set obs \<Longrightarrow> snd (commit_all (zip obs vals) cells) a = cells a"
  using assms
proof (induction obs vals arbitrary: cells i a rule: list_induct2)
  case (Cons ob obs v vals)
  { case 1 then show ?case using Cons.IH(1) by (auto simp: on_commit_def case_prod_beta Let_def image_iff) }
  { case 2 then show ?case using Cons.IH(2,3)
      by (cases i) (auto simp: on_commit_def case_prod_beta Let_def image_iff) }
  { case 3 then show ?case using Cons.IH(3) by (auto simp: on_commit_def case_prod_beta Let_def) }
qed simp_all

lemma dync_type_listener:
  "length obs = length vals \<Longrightarrow> dc_type (snd (commit_all (zip obs vals) cells) a) = dc_type (cells a) \<and>
     dc_listener (snd (commit_all (zip obs vals) cells) a) = dc_listener (cells a)"
  by (induction obs vals arbitrary: cells rule: list_induct2) (auto simp: on_commit_def case_prod_beta Let_def)

lemma in_sync_field:
  assumes "in_sync env st" and "a \<notin> ro_cell ` set (dy_objects st)" and "refresh_field env n a param st = Some (r, st')"
  shows "in_sync env st'"
proof -
  from assms(3) obtain q where q: "on_valid env n (dy_prop st) (dy_cells st a) param = Some q"
    and res: "(r, st') = (case q of
         Inl e \<Rightarrow> (Inl (FieldFailed (bp_path param) (bp_key param) e), st)
       | Inr v \<Rightarrow> (Inr (), st\<lparr>dy_cells := snd (on_commit a v (dy_cells st)),
                               dy_objects := dy_objects st @ [\<lparr>ro_cell = a, ro_param = param\<rparr>]\<rparr>))"
    by (auto simp: refresh_field_def)
  show ?thesis
  proof (cases q)
    case (Inl e)
    with res assms(1) show ?thesis by simp
  next
    case (Inr v)
    with res have st': "st' = st\<lparr>dy_cells := (dy_cells st)(a := (dy_cells st a)\<lparr>dc_value := Some v\<rparr>),
        dy_objects := dy_objects st @ [\<lparr>ro_cell = a, ro_param = param\<rparr>]\<rparr>" by (simp add: on_commit_def)
    have new: "on_valid env n (dy_prop st') (dy_cells st' a) param = Some (Inr v)"
      using q Inr by (simp add: st' on_valid_def)
    have "\<exists>n w. on_valid env n (dy_prop st') (dy_cells st' (ro_cell ob)) (ro_param ob) = Some (Inr w) \<and>
        dc_value (dy_cells st' (ro_cell ob)) = Some w" if "ob \<in> set (dy_objects st')" for ob
    proof (cases "ob \<in> set (dy_objects st)")
      case True
      with assms(2) have "ro_cell ob \<noteq> a" by blast
      with True assms(1) show ?thesis by (auto simp: in_sync_def st')
    next
      case False
      with that have "ob = \<lparr>ro_cell = a, ro_param = param\<rparr>" by (simp add: st')
      with new show ?thesis by (auto simp: st')
    qed
    moreover have "distinct (map ro_cell (dy_objects st'))" using assms(1,2) by (simp add: st' in_sync_def)
    ultimately show ?thesis by (simp add: in_sync_def)
  qed
qed

text \<open>The outcomes of a refresh with a storage.\<close>

lemma refresh_dync_cases:
  assumes "refresh_dync env n (Some p) st = Some (r, st')"
  obtains (failed) errs vals where "valid_all env n p (dy_cells st) (dy_objects st) = Some (errs, vals)" "errs \<noteq> []"
      "r = Inl (RefreshFailed errs)" "st' = st"
    | (applied) vals olds cells where "valid_all env n p (dy_cells st) (dy_objects st) = Some ([], vals)"
      "commit_all (zip (dy_objects st) vals) (dy_cells st) = (olds, cells)"
      "r = Inr (finish_all cells (zip (dy_objects st) (zip vals olds)))"
      "st' = st\<lparr>dy_prop := p, dy_cells := cells\<rparr>"
proof (cases "dy_objects st = []")
  case True
  from assms True have "r = Inr (Inr [])" "st' = st\<lparr>dy_prop := p, dy_cells := dy_cells st\<rparr>"
    by (auto simp: refresh_dync_def)
  with True applied [of "[]" "[]" "dy_cells st"] show thesis by simp
next
  case False
  from assms False obtain errs vals where v: "valid_all env n p (dy_cells st) (dy_objects st) = Some (errs, vals)"
    by (auto simp: refresh_dync_def)
  obtain olds cells where c: "commit_all (zip (dy_objects st) vals) (dy_cells st) = (olds, cells)" by fastforce
  show thesis
  proof (cases "errs = []")
    case True
    with assms False v c show thesis by (intro applied [of vals olds cells]) (simp_all add: refresh_dync_def)
  next
    case nil: False
    with assms False v show thesis by (intro failed [of errs vals]) (simp_all add: refresh_dync_def)
  qed
qed

lemma in_sync_refresh:
  assumes "in_sync env st" and "refresh_dync env n p st = Some (r, st')"
  shows "in_sync env st'"
proof (cases p)
  case None
  with assms show ?thesis by (simp add: refresh_dync_def)
next
  case (Some p)
  with assms(2) have "refresh_dync env n (Some p) st = Some (r, st')" by simp
  then show ?thesis
  proof (cases rule: refresh_dync_cases)
    case failed
    with assms(1) show ?thesis by simp
  next
    case (applied vals olds cells)
    let ?obs = "dy_objects st"
    note ok = valid_all_ok [OF applied(1)]
    then have len: "length ?obs = length vals" by (rule list_all2_lengthD)
    from assms(1) have dist: "distinct (map ro_cell ?obs)" by (simp add: in_sync_def)
    have cells: "cells = snd (commit_all (zip ?obs vals) (dy_cells st))" using applied(2) by simp
    have "on_valid env n p (cells (ro_cell (?obs ! i))) (ro_param (?obs ! i)) = Some (Inr (vals ! i)) \<and>
        dc_value (cells (ro_cell (?obs ! i))) = Some (vals ! i)" if "i < length ?obs" for i
      using list_all2_nthD [OF ok that] commit_all_spec(2) [OF len dist that, of "dy_cells st"]
      by (simp add: cells on_valid_def)
    then have "\<exists>n v. on_valid env n p (cells (ro_cell ob)) (ro_param ob) = Some (Inr v) \<and> dc_value (cells (ro_cell ob)) = Some v"
      if "ob \<in> set ?obs" for ob using that by (auto simp: in_set_conv_nth)
    with applied(4) dist show ?thesis by (simp add: in_sync_def)
  qed
qed

lemma in_sync_step: "in_sync env st \<Longrightarrow> dync_step env st st' \<Longrightarrow> in_sync env st'"
proof (erule dync_stepE)
  fix a l assume "in_sync env st" "st' = st\<lparr>dy_cells := (dy_cells st)(a := on_changed l (dy_cells st a))\<rparr>"
  then show ?thesis
    by (fastforce simp: in_sync_def on_changed_def on_valid_def split: option.split)
qed (blast intro: in_sync_field in_sync_refresh)+

lemma finish_all_spec:
  "list_all2 (\<lambda>ob old. old \<noteq> None) obs olds \<Longrightarrow> length obs = length vals \<Longrightarrow>
     finish_all cells (zip obs (zip vals olds)) = Inr (concat (map (\<lambda>(ob, new, old).
       case dc_listener (cells (ro_cell ob)) of None \<Rightarrow> [] | Some l \<Rightarrow> [(l, new, the old)]) (zip obs (zip vals olds))))"
proof (induction obs olds arbitrary: vals rule: list_all2_induct)
  case (Cons ob obs old olds)
  then obtain v vals' where "vals = v # vals'" by (cases vals) auto
  with Cons show ?case by (auto simp: on_finish_def split: option.split)
qed simp

section \<open>Properties\<close>

definition notifications :: "'f bind_env \<Rightarrow> 'f dync \<Rightarrow> 'f dync \<Rightarrow> refresh_object \<Rightarrow> 'f event list" where
  "notifications env st st' ob =
     (case dc_listener (dy_cells st (ro_cell ob)) of
        None \<Rightarrow> []
      | Some l \<Rightarrow> [(l, cell_value env (dy_cells st' (ro_cell ob)), cell_value env (dy_cells st (ro_cell ob)))])"

text \<open>Property C18: the dynamic values follow the configuration. After any sequence of field
  bindings, listener registrations and refreshes, successful or not, every registered value
  is the one its parameters give under the configuration in force.\<close>

theorem dync_in_sync:
  assumes "dync_reachable env st" and "ob \<in> set (dy_objects st)"
  shows "\<exists>n. on_valid env n (dy_prop st) (dy_cells st (ro_cell ob)) (ro_param ob) =
    Some (Inr (cell_value env (dy_cells st (ro_cell ob))))"
proof -
  from assms(1) have "in_sync env st"
  proof (induction rule: dync_reachable.induct)
    case (start p cells)
    then show ?case by (simp add: in_sync_def new_dync_def)
  next
    case (step st st')
    then show ?case using in_sync_step by blast
  qed
  with assms(2) obtain n v where "on_valid env n (dy_prop st) (dy_cells st (ro_cell ob)) (ro_param ob) = Some (Inr v)"
    "dc_value (dy_cells st (ro_cell ob)) = Some v" unfolding in_sync_def by blast
  then show ?thesis by (auto simp: cell_value_def)
qed

text \<open>Property C17: a refresh is all or nothing. It fails exactly if some registered value does
  not bind under the new configuration; it then reports every such value, in the order of
  registration, and changes nothing. Otherwise the new configuration is in force, and each
  listener has been called once, in the order of registration, with the new and the previous
  value of its own cell.\<close>

theorem refresh_atomic:
  assumes "in_sync env st" and "refresh_dync env n (Some p) st = Some (r, st')"
    and f: "failures = concat (map (bind_failure env n p (dy_cells st)) (dy_objects st))"
  shows "if failures \<noteq> [] then r = Inl (RefreshFailed failures) \<and> st' = st
    else r = Inr (Inr (concat (map (notifications env st st') (dy_objects st)))) \<and>
      dy_prop st' = p \<and> dy_objects st' = dy_objects st"
  using assms(2)
proof (cases rule: refresh_dync_cases)
  case (failed errs vals)
  with valid_all_errors [OF failed(1)] f show ?thesis by simp
next
  case (applied vals olds cells)
  let ?obs = "dy_objects st"
  from valid_all_errors [OF applied(1)] f have none: "failures = []" and len: "length ?obs = length vals" by auto
  from assms(1) have dist: "distinct (map ro_cell ?obs)" by (simp add: in_sync_def)
  have olds: "olds = map (\<lambda>ob. dc_value (dy_cells st (ro_cell ob))) ?obs"
    using commit_all_spec(1) [OF len dist, of "dy_cells st"] applied(2) by simp
  have cells: "cells = snd (commit_all (zip ?obs vals) (dy_cells st))" using applied(2) by simp
  have "list_all2 (\<lambda>ob old. old \<noteq> None) ?obs olds"
    using assms(1) by (fastforce simp: olds list_all2_conv_all_nth in_sync_def)
  from finish_all_spec [OF this len] applied(3) have r: "r = Inr (Inr (concat (map (\<lambda>(ob, new, old).
       case dc_listener (cells (ro_cell ob)) of None \<Rightarrow> [] | Some l \<Rightarrow> [(l, new, the old)]) (zip ?obs (zip vals olds)))))"
    by simp
  have "map (\<lambda>(ob, new, old). case dc_listener (cells (ro_cell ob)) of None \<Rightarrow> [] | Some l \<Rightarrow> [(l, new, the old)])
      (zip ?obs (zip vals olds)) = map (notifications env st st') ?obs"
  proof (rule nth_equalityI)
    fix i assume "i < length (map (\<lambda>(ob, new, old). case dc_listener (cells (ro_cell ob)) of None \<Rightarrow> [] | Some l \<Rightarrow> [(l, new, the old)])
      (zip ?obs (zip vals olds)))"
    then have i: "i < length ?obs" by simp
    let ?c = "dy_cells st (ro_cell (?obs ! i))"
    have new: "cells (ro_cell (?obs ! i)) = ?c\<lparr>dc_value := Some (vals ! i)\<rparr>"
      using commit_all_spec(2) [OF len dist i] by (simp add: cells)
    from assms(1) i obtain w where "dc_value ?c = Some w" by (auto simp: in_sync_def dest: nth_mem)
    with new i len applied(4) show "map (\<lambda>(ob, new, old). case dc_listener (cells (ro_cell ob)) of None \<Rightarrow> [] | Some l \<Rightarrow> [(l, new, the old)])
      (zip ?obs (zip vals olds)) ! i = map (notifications env st st') ?obs ! i"
      by (simp add: olds notifications_def cell_value_def cong: option.case_cong)
  qed (simp add: olds len)
  with r none applied(4) show ?thesis by simp
qed

definition named_storage :: "string \<Rightarrow> storage" where
  "named_storage v = properties_storage \<lparr>pr_data = [(''name'', v)]\<rparr>"

definition name_param :: bind_param where
  "name_param = \<lparr>bp_key = ''name'', bp_path = ''App.Name'', bp_tag = \<lparr>tag_key = ''name'', tag_def = [], tag_has_def = False\<rparr>,
     bp_validate = None\<rparr>"

definition name_cell :: "unit cell" where
  "name_cell = \<lparr>dc_type = TScalar ''string'' KString, dc_value = None, dc_listener = None\<rparr>"

definition bound_dync :: "unit dync" where
  "bound_dync = \<lparr>dy_prop = named_storage ''a'', dy_objects = [\<lparr>ro_cell = 0, ro_param = name_param\<rparr>],
     dy_cells = (\<lambda>_. name_cell)(0 := name_cell\<lparr>dc_value := Some (VString ''a'')\<rparr>)\<rparr>"

lemma name_binds: "on_valid sample_env 9 (named_storage ''a'') name_cell name_param = Some (Inr (VString ''a''))"
  by code_simp

lemma bound_dync_reachable: "dync_reachable sample_env bound_dync"
proof -
  let ?st = "new_dync (named_storage ''a'') (\<lambda>_. name_cell)"
  have "refresh_field sample_env 9 0 name_param ?st = Some (Inr (), bound_dync)"
    using name_binds by (simp add: refresh_field_def new_dync_def on_commit_def bound_dync_def)
  then have "dync_step sample_env ?st bound_dync" by (intro dync_step.field) (simp_all add: new_dync_def)
  with dync_reachable.start show ?thesis by (rule dync_reachable.step)
qed

lemma dync_in_sync_witness:
  "\<exists>n. on_valid sample_env n (named_storage ''a'') (dy_cells bound_dync 0) name_param = Some (Inr (VString ''a''))"
  using dync_in_sync [OF bound_dync_reachable, of "\<lparr>ro_cell = 0, ro_param = name_param\<rparr>"]
  by (simp add: bound_dync_def cell_value_def)

definition watched_dync :: "unit dync" where
  "watched_dync = bound_dync\<lparr>dy_cells := (dy_cells bound_dync)(0 := on_changed ''log'' (dy_cells bound_dync 0))\<rparr>"

lemma refresh_atomic_witness:
  "\<exists>st'. refresh_dync sample_env 9 (Some (named_storage ''b'')) watched_dync =
     Some (Inr (Inr [(''log'', VString ''b'', VString ''a'')]), st') \<and> dy_objects st' = dy_objects watched_dync"
proof -
  have c: "dy_cells watched_dync 0 = \<lparr>dc_type = TScalar ''string'' KString, dc_value = Some (VString ''a''), dc_listener = Some ''log''\<rparr>"
    "dy_objects watched_dync = [\<lparr>ro_cell = 0, ro_param = name_param\<rparr>]" "dy_prop watched_dync = named_storage ''a''"
    by (simp_all add: watched_dync_def bound_dync_def on_changed_def name_cell_def)
  have "on_valid sample_env 9 (named_storage ''b'') name_cell name_param = Some (Inr (VString ''b''))" by code_simp
  then have b: "on_valid sample_env 9 (named_storage ''b'') (dy_cells watched_dync 0) name_param = Some (Inr (VString ''b''))"
    by (simp add: c on_valid_def name_cell_def)
  have sync: "in_sync sample_env watched_dync"
    using name_binds by (auto simp: in_sync_def c on_valid_def name_cell_def)
  obtain st' where r: "refresh_dync sample_env 9 (Some (named_storage ''b'')) watched_dync =
      Some (Inr (Inr [(''log'', VString ''b'', VString ''a'')]), st')"
    using b by (simp add: refresh_dync_def c on_commit_def on_finish_def)
  from refresh_atomic [OF sync r refl] r b show ?thesis by (auto simp: bind_failure_def c split: if_splits)
qed

end
