(* ===== verification/TopoSort.thy ===== *)
theory TopoSort
  imports GoPrelude
begin

text \<open>
  \<open>spring/gs/internal/gs_util/util.go\<close>: the depth-first topological sort that orders the
  destroyers of beans. A \<open>container/list\<close> is a list; items are distinct, non-nil values.
  The recursion has fuel, one unit per item on the path.
\<close>

section \<open>The code\<close>

datatype 'a topo_error = DependencyCycle 'a 'a

record 'a topo =
  ts_to_sort :: "'a list"
  ts_sorted :: "'a list"
  ts_processing :: "'a list"

type_synonym 'a before_items = "'a list \<Rightarrow> 'a \<Rightarrow> 'a list"

fun dfs_topo_visit ::
  "nat \<Rightarrow> 'a list \<Rightarrow> 'a option \<Rightarrow> 'a before_items \<Rightarrow> 'a topo \<Rightarrow> ('a topo_error, 'a topo) result option" where
  "dfs_topo_visit 0 items current fn st = None"
| "dfs_topo_visit (Suc n) items current fn st =
     (let (current, st) = (case current of
            Some c \<Rightarrow> (c, st)
          | None \<Rightarrow> (hd (ts_to_sort st), st\<lparr>ts_to_sort := tl (ts_to_sort st)\<rparr>));
          l = fn items current;
          st = st\<lparr>ts_processing := ts_processing st @ [current]\<rparr>
      in fbind
        (ffold (\<lambda>st c.
            if c \<in> set (ts_processing st) then Some (Inl (DependencyCycle current c))
            else if c \<notin> set (ts_sorted st) \<and> c \<in> set (ts_to_sort st)
            then dfs_topo_visit n items (Some c) fn st
            else Some (Inr st)) st l)
        (\<lambda>st. Some (Inr (st\<lparr>ts_processing := remove1 current (ts_processing st),
                            ts_to_sort := remove1 current (ts_to_sort st),
                            ts_sorted := ts_sorted st @ [current]\<rparr>))))"

fun topo_loop :: "nat \<Rightarrow> nat \<Rightarrow> 'a list \<Rightarrow> 'a before_items \<Rightarrow> 'a topo \<Rightarrow> ('a topo_error, 'a list) result option" where
  "topo_loop 0 n items fn st = None"
| "topo_loop (Suc k) n items fn st =
     (if ts_to_sort st = [] then Some (Inr (ts_sorted st))
      else fbind (dfs_topo_visit n items None fn st) (topo_loop k n items fn))"

definition topological_sort :: "'a list \<Rightarrow> 'a before_items \<Rightarrow> ('a topo_error, 'a list) result option" where
  "topological_sort items fn =
     topo_loop (length items + 1) (length items + 1) items fn
       \<lparr>ts_to_sort = items, ts_sorted = [], ts_processing = []\<rparr>"

section \<open>Invariant\<close>

text \<open>Every dependency of an item that was given stands before the item.\<close>

definition ordered :: "'a before_items \<Rightarrow> 'a list \<Rightarrow> 'a list \<Rightarrow> bool" where
  "ordered fn items xs \<longleftrightarrow>
     (\<forall>ys y zs. xs = ys @ y # zs \<longrightarrow> set (fn items y) \<inter> set items \<subseteq> set ys)"

definition dep_rel :: "'a before_items \<Rightarrow> 'a list \<Rightarrow> ('a \<times> 'a) set" where
  "dep_rel fn items = {(x, d). x \<in> set items \<and> d \<in> set items \<and> d \<in> set (fn items x)}"

definition topo_inv :: "'a before_items \<Rightarrow> 'a list \<Rightarrow> 'a topo \<Rightarrow> bool" where
  "topo_inv fn items st \<longleftrightarrow>
     distinct (ts_to_sort st) \<and> distinct (ts_sorted st) \<and> distinct (ts_processing st) \<and>
     set (ts_to_sort st) \<inter> set (ts_sorted st) = {} \<and>
     set (ts_processing st) \<inter> set (ts_sorted st) = {} \<and>
     set items = set (ts_to_sort st) \<union> set (ts_sorted st) \<union> set (ts_processing st) \<and>
     ordered fn items (ts_sorted st) \<and>
     successively (\<lambda>x d. (x, d) \<in> dep_rel fn items) (ts_processing st)"

lemma ordered_snoc:
  "ordered fn items xs \<Longrightarrow> set (fn items y) \<inter> set items \<subseteq> set xs \<Longrightarrow> ordered fn items (xs @ [y])"
  unfolding ordered_def
proof (intro allI impI)
  fix ys z zs
  assume xs: "\<forall>ys y zs. xs = ys @ y # zs \<longrightarrow> set (fn items y) \<inter> set items \<subseteq> set ys"
    and y: "set (fn items y) \<inter> set items \<subseteq> set xs" and eq: "xs @ [y] = ys @ z # zs"
  show "set (fn items z) \<inter> set items \<subseteq> set ys"
  proof (cases zs rule: rev_cases)
    case Nil
    with eq y show ?thesis by simp
  next
    case (snoc zs' w)
    with eq have "xs = ys @ z # zs'" by simp
    with xs show ?thesis by blast
  qed
qed

lemma successively_rtrancl:
  "successively (\<lambda>x d. (x, d) \<in> R) xs \<Longrightarrow> c \<in> set xs \<Longrightarrow> (c, last xs) \<in> R\<^sup>*"
proof (induction xs arbitrary: c)
  case (Cons x xs)
  show ?case
  proof (cases xs)
    case (Cons y ys)
    with Cons.prems have xy: "(x, y) \<in> R" and s: "successively (\<lambda>x d. (x, d) \<in> R) xs" by auto
    show ?thesis
    proof (cases "c \<in> set xs")
      case True
      with Cons.IH s Cons show ?thesis by simp
    next
      case False
      then have "c = x" using Cons.prems by simp
      moreover have "(y, last xs) \<in> R\<^sup>*" by (rule Cons.IH [OF s]) (simp add: Cons)
      ultimately show ?thesis using xy Cons by simp
    qed
  qed (use Cons.prems in simp)
qed simp

text \<open>What a visit establishes.\<close>

definition visited :: "'a before_items \<Rightarrow> 'a list \<Rightarrow> 'a topo \<Rightarrow> 'a \<Rightarrow> 'a topo \<Rightarrow> bool" where
  "visited fn items st c st' \<longleftrightarrow> topo_inv fn items st' \<and> ts_processing st' = ts_processing st \<and>
     set (ts_sorted st) \<union> {c} \<subseteq> set (ts_sorted st') \<and> set (ts_to_sort st') \<subseteq> set (ts_to_sort st) \<and>
     length (ts_to_sort st') \<le> length (ts_to_sort st)"

text \<open>The loop over the dependencies of \<open>current\<close>, once \<open>current\<close> is being processed.\<close>

lemma visit_deps:
  assumes visit: "\<And>st c r. topo_inv fn items st \<Longrightarrow> ts_processing st = pre @ [cur] \<Longrightarrow> c \<in> set l \<Longrightarrow>
      c \<in> set (ts_to_sort st) \<Longrightarrow> c \<notin> set (ts_processing st) \<Longrightarrow> (cur, c) \<in> dep_rel fn items \<Longrightarrow>
      v c st = Some r \<Longrightarrow>
      (case r of Inl e \<Rightarrow> \<exists>x. (x, x) \<in> (dep_rel fn items)\<^sup>+ | Inr st' \<Rightarrow> visited fn items st c st')"
    and inv: "topo_inv fn items st" and proc: "ts_processing st = pre @ [cur]" and cur: "cur \<in> set items"
    and l: "set l \<subseteq> set (fn items cur)"
    and r: "ffold (\<lambda>st c.
            if c \<in> set (ts_processing st) then Some (Inl (DependencyCycle cur c))
            else if c \<notin> set (ts_sorted st) \<and> c \<in> set (ts_to_sort st) then v c st
            else Some (Inr st)) st l = Some r"
  shows "case r of Inl e \<Rightarrow> \<exists>x. (x, x) \<in> (dep_rel fn items)\<^sup>+
    | Inr st' \<Rightarrow> topo_inv fn items st' \<and> ts_processing st' = ts_processing st \<and>
        set (ts_sorted st) \<union> (set l \<inter> set items) \<subseteq> set (ts_sorted st') \<and>
        set (ts_to_sort st') \<subseteq> set (ts_to_sort st) \<and> length (ts_to_sort st') \<le> length (ts_to_sort st)"
  using visit inv proc l r
proof (induction l arbitrary: st)
  case (Cons c l)
  have items: "set items = set (ts_to_sort st) \<union> set (ts_sorted st) \<union> set (ts_processing st)"
    using Cons.prems(2) by (simp add: topo_inv_def)
  show ?case
  proof (cases "c \<in> set (ts_processing st)")
    case True
    then have r': "r = Inl (DependencyCycle cur c)" using Cons.prems(5) by simp
    have "successively (\<lambda>x d. (x, d) \<in> dep_rel fn items) (ts_processing st)"
      using Cons.prems(2) by (simp add: topo_inv_def)
    from successively_rtrancl [OF this True] have "(c, cur) \<in> (dep_rel fn items)\<^sup>*"
      using Cons.prems(3) by simp
    moreover have "(cur, c) \<in> dep_rel fn items"
      using Cons.prems(4) True items cur by (auto simp: dep_rel_def)
    ultimately have "(cur, cur) \<in> (dep_rel fn items)\<^sup>+" by auto
    with r' show ?thesis by auto
  next
    case notin: False
    show ?thesis
    proof (cases "c \<notin> set (ts_sorted st) \<and> c \<in> set (ts_to_sort st)")
      case True
      with notin Cons.prems(5) obtain q where q: "v c st = Some q" by (cases "v c st") auto
      have "(cur, c) \<in> dep_rel fn items" using Cons.prems(4) True items cur by (auto simp: dep_rel_def)
      from Cons.prems(1) [OF Cons.prems(2,3) _ _ notin this q] True
      have post: "case q of Inl e \<Rightarrow> \<exists>x. (x, x) \<in> (dep_rel fn items)\<^sup>+ | Inr st' \<Rightarrow> visited fn items st c st'"
        by simp
      show ?thesis
      proof (cases q)
        case (Inl e)
        with post q notin True Cons.prems(5) show ?thesis by auto
      next
        case (Inr st1)
        with post have st1: "visited fn items st c st1" by simp
        have "case r of Inl e \<Rightarrow> \<exists>x. (x, x) \<in> (dep_rel fn items)\<^sup>+
          | Inr st' \<Rightarrow> topo_inv fn items st' \<and> ts_processing st' = ts_processing st1 \<and>
              set (ts_sorted st1) \<union> (set l \<inter> set items) \<subseteq> set (ts_sorted st') \<and>
              set (ts_to_sort st') \<subseteq> set (ts_to_sort st1) \<and> length (ts_to_sort st') \<le> length (ts_to_sort st1)"
          by (rule Cons.IH) (use Cons.prems q Inr notin True st1 in \<open>auto simp: visited_def\<close>)
        with st1 show ?thesis by (auto simp: visited_def split: sum.splits)
      qed
    next
      case False
      have "case r of Inl e \<Rightarrow> \<exists>x. (x, x) \<in> (dep_rel fn items)\<^sup>+
          | Inr st' \<Rightarrow> topo_inv fn items st' \<and> ts_processing st' = ts_processing st \<and>
              set (ts_sorted st) \<union> (set l \<inter> set items) \<subseteq> set (ts_sorted st') \<and>
              set (ts_to_sort st') \<subseteq> set (ts_to_sort st) \<and> length (ts_to_sort st') \<le> length (ts_to_sort st)"
        by (rule Cons.IH) (use Cons.prems False notin in auto)
      with False notin items show ?thesis by (auto split: sum.splits)
    qed
  qed
qed auto

lemma topo_inv_enter:
  assumes "topo_inv fn items st" and "c \<in> set items" and "c \<notin> set (ts_processing st)"
    and "c \<notin> set (ts_sorted st)"
    and "ts_processing st = [] \<or> (last (ts_processing st), c) \<in> dep_rel fn items"
  shows "topo_inv fn items (st\<lparr>ts_processing := ts_processing st @ [c]\<rparr>)"
  using assms by (auto simp: topo_inv_def successively_append_iff)

lemma topo_inv_leave:
  assumes inv: "topo_inv fn items st" and proc: "ts_processing st = pre @ [c]" and c: "c \<in> set items"
    and deps: "set (fn items c) \<inter> set items \<subseteq> set (ts_sorted st)"
  shows "topo_inv fn items (st\<lparr>ts_processing := remove1 c (ts_processing st),
      ts_to_sort := remove1 c (ts_to_sort st), ts_sorted := ts_sorted st @ [c]\<rparr>)"
    and "remove1 c (ts_processing st) = pre"
proof -
  from inv proc have "c \<notin> set pre" by (auto simp: topo_inv_def)
  then show pre: "remove1 c (ts_processing st) = pre" using proc by (simp add: remove1_append)
  have "set (remove1 c (ts_to_sort st)) = set (ts_to_sort st) - {c}"
    using inv by (simp add: topo_inv_def)
  moreover have "ordered fn items (ts_sorted st @ [c])"
    using inv deps by (simp add: ordered_snoc topo_inv_def)
  moreover have "successively (\<lambda>x d. (x, d) \<in> dep_rel fn items) pre"
    using inv proc by (auto simp: topo_inv_def successively_append_iff)
  ultimately show "topo_inv fn items (st\<lparr>ts_processing := remove1 c (ts_processing st),
      ts_to_sort := remove1 c (ts_to_sort st), ts_sorted := ts_sorted st @ [c]\<rparr>)"
    using inv proc c \<open>c \<notin> set pre\<close> unfolding pre by (auto simp: topo_inv_def)
qed

lemma dfs_topo_visit_spec:
  assumes "topo_inv fn items st" and "dfs_topo_visit n items current fn st = Some r"
    and "case current of
        Some c \<Rightarrow> c \<in> set (ts_to_sort st) \<and> c \<notin> set (ts_processing st) \<and>
          (ts_processing st = [] \<or> (last (ts_processing st), c) \<in> dep_rel fn items)
      | None \<Rightarrow> ts_to_sort st \<noteq> [] \<and> ts_processing st = []"
  shows "case r of Inl e \<Rightarrow> \<exists>x. (x, x) \<in> (dep_rel fn items)\<^sup>+
    | Inr st' \<Rightarrow> visited fn items st (case current of Some c \<Rightarrow> c | None \<Rightarrow> hd (ts_to_sort st)) st' \<and>
        (current = None \<longrightarrow> length (ts_to_sort st') < length (ts_to_sort st))"
  using assms
proof (induction n arbitrary: current st r)
  case (Suc n)
  define c where "c = (case current of Some c \<Rightarrow> c | None \<Rightarrow> hd (ts_to_sort st))"
  define st0 where "st0 = (case current of Some c \<Rightarrow> st | None \<Rightarrow> st\<lparr>ts_to_sort := tl (ts_to_sort st)\<rparr>)"
  define st1 where "st1 = st0\<lparr>ts_processing := ts_processing st0 @ [c]\<rparr>"
  let ?loop = "ffold (\<lambda>st d.
            if d \<in> set (ts_processing st) then Some (Inl (DependencyCycle c d))
            else if d \<notin> set (ts_sorted st) \<and> d \<in> set (ts_to_sort st)
            then dfs_topo_visit n items (Some d) fn st
            else Some (Inr st)) st1 (fn items c)"
  have run: "fbind ?loop (\<lambda>st. Some (Inr (st\<lparr>ts_processing := remove1 c (ts_processing st),
      ts_to_sort := remove1 c (ts_to_sort st), ts_sorted := ts_sorted st @ [c]\<rparr>))) = Some r"
    using Suc.prems(2) by (cases current) (simp_all add: c_def st0_def st1_def cong: if_cong)
  have c: "c \<in> set (ts_to_sort st)" using Suc.prems(3) by (auto simp: c_def split: option.splits)
  then have items: "c \<in> set items" and sorted: "c \<notin> set (ts_sorted st)"
    using Suc.prems(1) by (auto simp: topo_inv_def)
  have proc: "c \<notin> set (ts_processing st)" "ts_processing st0 = ts_processing st" "ts_sorted st0 = ts_sorted st"
    "ts_processing st = [] \<or> (last (ts_processing st), c) \<in> dep_rel fn items"
    using Suc.prems(3) by (auto simp: c_def st0_def split: option.splits)
  have len: "length (ts_to_sort st0) \<le> length (ts_to_sort st)"
    "current = None \<Longrightarrow> length (ts_to_sort st0) < length (ts_to_sort st)"
    "set (ts_to_sort st0) \<subseteq> set (ts_to_sort st)"
    using Suc.prems(3) by (auto simp: st0_def split: option.splits dest: list.set_sel(2))
  have inv1: "topo_inv fn items st1"
  proof (cases current)
    case None
    with Suc.prems(3) have "ts_to_sort st = c # tl (ts_to_sort st)" and "ts_processing st = []"
      by (simp_all add: c_def)
    with Suc.prems(1) sorted None show ?thesis
      by (cases "ts_to_sort st") (auto simp: topo_inv_def st1_def st0_def)
  next
    case (Some d)
    with topo_inv_enter [OF Suc.prems(1) items proc(1) sorted proc(4)] show ?thesis
      by (simp add: st1_def st0_def)
  qed
  obtain q where q: "?loop = Some q" using run by (cases ?loop) auto
  have post: "case q of Inl e \<Rightarrow> \<exists>x. (x, x) \<in> (dep_rel fn items)\<^sup>+
    | Inr st' \<Rightarrow> topo_inv fn items st' \<and> ts_processing st' = ts_processing st1 \<and>
        set (ts_sorted st1) \<union> (set (fn items c) \<inter> set items) \<subseteq> set (ts_sorted st') \<and>
        set (ts_to_sort st') \<subseteq> set (ts_to_sort st1) \<and> length (ts_to_sort st') \<le> length (ts_to_sort st1)"
  proof (rule visit_deps [OF _ inv1 _ items subset_refl q])
    show "ts_processing st1 = ts_processing st @ [c]" by (simp add: st1_def proc)
    fix s d r' assume s: "topo_inv fn items s" "ts_processing s = ts_processing st @ [c]"
      "d \<in> set (ts_to_sort s)" "d \<notin> set (ts_processing s)" "(c, d) \<in> dep_rel fn items"
      and "dfs_topo_visit n items (Some d) fn s = Some r'"
    from Suc.IH [OF s(1) this(6)] s show
      "case r' of Inl e \<Rightarrow> \<exists>x. (x, x) \<in> (dep_rel fn items)\<^sup>+ | Inr st' \<Rightarrow> visited fn items s d st'"
      by (auto split: sum.splits)
  qed
  show ?case
  proof (cases q)
    case (Inl e)
    with post run q show ?thesis by auto
  next
    case (Inr st2)
    with run q have r: "r = Inr (st2\<lparr>ts_processing := remove1 c (ts_processing st2),
      ts_to_sort := remove1 c (ts_to_sort st2), ts_sorted := ts_sorted st2 @ [c]\<rparr>)" by simp
    from post Inr have st2: "topo_inv fn items st2" "ts_processing st2 = ts_processing st @ [c]"
      "set (ts_sorted st) \<union> (set (fn items c) \<inter> set items) \<subseteq> set (ts_sorted st2)"
      "set (ts_to_sort st2) \<subseteq> set (ts_to_sort st0)" "length (ts_to_sort st2) \<le> length (ts_to_sort st0)"
      by (simp_all add: st1_def proc)
    from topo_inv_leave [OF st2(1,2) items] st2(3) have
      "topo_inv fn items (st2\<lparr>ts_processing := remove1 c (ts_processing st2),
        ts_to_sort := remove1 c (ts_to_sort st2), ts_sorted := ts_sorted st2 @ [c]\<rparr>)"
      "remove1 c (ts_processing st2) = ts_processing st" by simp_all
    moreover have "length (remove1 c (ts_to_sort st2)) \<le> length (ts_to_sort st2)"
      by (simp add: length_remove1)
    moreover have "set (remove1 c (ts_to_sort st2)) \<subseteq> set (ts_to_sort st2)" by (rule set_remove1_subset)
    ultimately show ?thesis using st2 len
      by (auto simp: r visited_def c_def [symmetric] dest: le_less_trans)
  qed
qed simp

section \<open>Enough fuel\<close>

text \<open>A visit needs one unit for each item that is not on the path yet.\<close>

definition off_path :: "'a list \<Rightarrow> 'a topo \<Rightarrow> nat" where
  "off_path items st = card (set items - set (ts_processing st))"

lemma visit_deps_returns:
  assumes visit: "\<And>st c. topo_inv fn items st \<Longrightarrow> ts_processing st = pre @ [cur] \<Longrightarrow>
      c \<in> set (ts_to_sort st) \<Longrightarrow> c \<notin> set (ts_processing st) \<Longrightarrow> (cur, c) \<in> dep_rel fn items \<Longrightarrow>
      v c st \<noteq> None \<and> (\<forall>st'. v c st = Some (Inr st') \<longrightarrow> visited fn items st c st')"
    and "topo_inv fn items st" and "ts_processing st = pre @ [cur]" and "cur \<in> set items"
    and "set l \<subseteq> set (fn items cur)"
  shows "ffold (\<lambda>st c.
            if c \<in> set (ts_processing st) then Some (Inl (DependencyCycle cur c))
            else if c \<notin> set (ts_sorted st) \<and> c \<in> set (ts_to_sort st) then v c st
            else Some (Inr st)) st l \<noteq> None"
  using assms(2-5)
proof (induction l arbitrary: st)
  case (Cons c l)
  show ?case
  proof (cases "c \<in> set (ts_processing st)")
    case notin: False
    show ?thesis
    proof (cases "c \<notin> set (ts_sorted st) \<and> c \<in> set (ts_to_sort st)")
      case True
      then have "(cur, c) \<in> dep_rel fn items"
        using Cons.prems by (auto simp: dep_rel_def topo_inv_def)
      with visit [OF Cons.prems(1,2) _ notin] True obtain q where q: "v c st = Some q"
        and post: "\<forall>st'. q = Inr st' \<longrightarrow> visited fn items st c st'" by fastforce
      show ?thesis
      proof (cases q)
        case (Inr st1)
        with post have "visited fn items st c st1" by simp
        with Cons.IH [of st1] Cons.prems q Inr notin True show ?thesis by (simp add: visited_def)
      qed (use q notin True in simp)
    next
      case False
      with Cons notin show ?thesis by auto
    qed
  qed simp
qed simp

lemma dfs_topo_visit_returns:
  assumes "topo_inv fn items st" and "off_path items st < n \<or> current = None \<and> length items < n"
    and "case current of
        Some c \<Rightarrow> c \<in> set (ts_to_sort st) \<and> c \<notin> set (ts_processing st) \<and>
          (ts_processing st = [] \<or> (last (ts_processing st), c) \<in> dep_rel fn items)
      | None \<Rightarrow> ts_to_sort st \<noteq> [] \<and> ts_processing st = []"
  shows "dfs_topo_visit n items current fn st \<noteq> None"
  using assms
proof (induction n arbitrary: current st)
  case (Suc n)
  define c where "c = (case current of Some c \<Rightarrow> c | None \<Rightarrow> hd (ts_to_sort st))"
  define st0 where "st0 = (case current of Some c \<Rightarrow> st | None \<Rightarrow> st\<lparr>ts_to_sort := tl (ts_to_sort st)\<rparr>)"
  define st1 where "st1 = st0\<lparr>ts_processing := ts_processing st0 @ [c]\<rparr>"
  let ?loop = "ffold (\<lambda>st d.
            if d \<in> set (ts_processing st) then Some (Inl (DependencyCycle c d))
            else if d \<notin> set (ts_sorted st) \<and> d \<in> set (ts_to_sort st)
            then dfs_topo_visit n items (Some d) fn st
            else Some (Inr st)) st1 (fn items c)"
  have c: "c \<in> set (ts_to_sort st)" using Suc.prems(3) by (auto simp: c_def split: option.splits)
  then have items: "c \<in> set items" and sorted: "c \<notin> set (ts_sorted st)"
    using Suc.prems(1) by (auto simp: topo_inv_def)
  have proc: "c \<notin> set (ts_processing st)" "ts_processing st0 = ts_processing st" "ts_sorted st0 = ts_sorted st"
    "ts_processing st = [] \<or> (last (ts_processing st), c) \<in> dep_rel fn items"
    using Suc.prems(3) by (auto simp: c_def st0_def split: option.splits)
  have inv1: "topo_inv fn items st1"
  proof (cases current)
    case None
    with Suc.prems(3) have "ts_to_sort st = c # tl (ts_to_sort st)" and "ts_processing st = []"
      by (simp_all add: c_def)
    with Suc.prems(1) sorted None show ?thesis
      by (cases "ts_to_sort st") (auto simp: topo_inv_def st1_def st0_def)
  next
    case (Some d)
    with topo_inv_enter [OF Suc.prems(1) items proc(1) sorted proc(4)] show ?thesis
      by (simp add: st1_def st0_def)
  qed
  have proc1: "ts_processing st1 = ts_processing st @ [c]" by (simp add: st1_def proc)
  have "card (set items - set (ts_processing st1)) < card (set items - set (ts_processing st))"
    using items proc(1) by (intro psubset_card_mono) (auto simp: proc1)
  moreover have "card (set items - set (ts_processing st)) \<le> length items"
    by (meson Diff_subset card_length card_mono finite_set order_trans)
  ultimately have fuel: "card (set items - set (ts_processing st1)) < n"
    using Suc.prems(2) by (auto simp: off_path_def)
  have "?loop \<noteq> None"
  proof (rule visit_deps_returns [OF _ inv1 proc1 items subset_refl], rule conjI)
    fix s d assume s: "topo_inv fn items s" "ts_processing s = ts_processing st @ [c]"
      "d \<in> set (ts_to_sort s)" "d \<notin> set (ts_processing s)" "(c, d) \<in> dep_rel fn items"
    then show "dfs_topo_visit n items (Some d) fn s \<noteq> None"
      using fuel proc1 by (intro Suc.IH) (auto simp: off_path_def)
    show "\<forall>st'. dfs_topo_visit n items (Some d) fn s = Some (Inr st') \<longrightarrow> visited fn items s d st'"
      using dfs_topo_visit_spec [OF s(1), of n "Some d"] s by fastforce
  qed
  then show ?case
    by (cases current) (simp_all add: c_def st0_def st1_def fbind_None_iff cong: if_cong del: not_None_eq)
qed simp

lemma topo_loop_spec:
  assumes "topo_inv fn items st" and "ts_processing st = []" and "length (ts_to_sort st) < k"
  shows "\<exists>r. topo_loop k (length items + 1) items fn st = Some r \<and>
    (case r of Inl e \<Rightarrow> \<exists>x. (x, x) \<in> (dep_rel fn items)\<^sup>+
     | Inr xs \<Rightarrow> distinct xs \<and> set xs = set items \<and> ordered fn items xs)"
  using assms
proof (induction k arbitrary: st)
  case (Suc k)
  show ?case
  proof (cases "ts_to_sort st = []")
    case True
    with Suc.prems show ?thesis by (auto simp: topo_inv_def)
  next
    case False
    have "dfs_topo_visit (length items + 1) items None fn st \<noteq> None"
      by (rule dfs_topo_visit_returns) (use Suc.prems False in auto)
    then obtain q where q: "dfs_topo_visit (length items + 1) items None fn st = Some q" by blast
    from dfs_topo_visit_spec [OF Suc.prems(1) q] Suc.prems False have
      post: "case q of Inl e \<Rightarrow> \<exists>x. (x, x) \<in> (dep_rel fn items)\<^sup>+
        | Inr st' \<Rightarrow> visited fn items st (hd (ts_to_sort st)) st' \<and>
            length (ts_to_sort st') < length (ts_to_sort st)" by (cases q) simp_all
    show ?thesis
    proof (cases q)
      case (Inl e)
      with q post False show ?thesis by (simp del: dfs_topo_visit.simps)
    next
      case (Inr st1)
      with post Suc.prems have "\<exists>r. topo_loop k (length items + 1) items fn st1 = Some r \<and>
        (case r of Inl e \<Rightarrow> \<exists>x. (x, x) \<in> (dep_rel fn items)\<^sup>+
         | Inr xs \<Rightarrow> distinct xs \<and> set xs = set items \<and> ordered fn items xs)"
        by (intro Suc.IH) (auto simp: visited_def)
      with q Inr False show ?thesis by (simp del: dfs_topo_visit.simps)
    qed
  qed
qed simp

section \<open>Property\<close>

lemma distinct_append_unique: "distinct (a @ d # b) \<Longrightarrow> a @ d # b = a' @ d # b' \<Longrightarrow> a = a'"
  by (metis append_Cons_eq_iff distinct.simps(2) distinct_append not_distinct_conv_prefix
      disjoint_iff list.set_intros(1))

lemma ordered_acyclic:
  assumes "ordered fn items xs" and "distinct xs" and "set xs = set items"
  shows "(x, x) \<notin> (dep_rel fn items)\<^sup>+"
proof -
  have step: "\<exists>ps ms. xs = ps @ y # ms \<and> d \<in> set ps" if "(y, d) \<in> dep_rel fn items" for y d
  proof -
    from that have "y \<in> set xs" and d: "d \<in> set (fn items y) \<inter> set items" using assms(3) by (auto simp: dep_rel_def)
    then obtain ps ms where xs: "xs = ps @ y # ms" by (meson split_list)
    with assms(1) d show ?thesis by (force simp: ordered_def)
  qed
  have "\<exists>ps ms. xs = ps @ y # ms \<and> d \<in> set ps" if "(y, d) \<in> (dep_rel fn items)\<^sup>+" for y d
    using that
  proof (induction rule: trancl_induct)
    case (step d e)
    then obtain ps ms qs ns where 1: "xs = ps @ y # ms" "d \<in> set ps" and 2: "xs = qs @ d # ns" "e \<in> set qs"
      using \<open>\<And>y d. (y, d) \<in> dep_rel fn items \<Longrightarrow> \<exists>ps ms. xs = ps @ y # ms \<and> d \<in> set ps\<close> by metis
    from 1(2) obtain as bs where ps: "ps = as @ d # bs" by (meson split_list)
    with 1 2 assms(2) have "as = qs" by (metis append_Cons append_assoc distinct_append_unique)
    with 1 2 ps have "xs = (qs @ d # bs) @ y # ms" "e \<in> set (qs @ d # bs)" by simp_all
    then show ?case by blast
  qed (rule step)
  from this [of x x] assms(2) show ?thesis by auto
qed

lemma topological_sort_spec:
  assumes "distinct items"
  shows "\<exists>r. topological_sort items fn = Some r \<and>
    (case r of
       Inr xs \<Rightarrow> (\<forall>x. (x, x) \<notin> (dep_rel fn items)\<^sup>+) \<and> distinct xs \<and> set xs = set items \<and>
         ordered fn items xs
     | Inl e \<Rightarrow> \<exists>x. (x, x) \<in> (dep_rel fn items)\<^sup>+)"
proof -
  let ?st = "\<lparr>ts_to_sort = items, ts_sorted = [], ts_processing = []\<rparr>"
  have "topo_inv fn items ?st" using assms by (simp add: topo_inv_def ordered_def)
  from topo_loop_spec [OF this, of "length items + 1"] obtain r where
    r: "topological_sort items fn = Some r"
    and post: "case r of Inl e \<Rightarrow> \<exists>x. (x, x) \<in> (dep_rel fn items)\<^sup>+
      | Inr xs \<Rightarrow> distinct xs \<and> set xs = set items \<and> ordered fn items xs"
    by (auto simp: topological_sort_def simp del: topo_loop.simps)
  show ?thesis
  proof (cases r)
    case (Inr xs)
    with post have "(x, x) \<notin> (dep_rel fn items)\<^sup>+" for x using ordered_acyclic by fastforce
    with r post Inr show ?thesis by auto
  qed (use r post in auto)
qed

text \<open>Property C32: the topological sort is exact. For distinct items \<open>TopologicalSort\<close>
  always returns. It returns a list exactly when the dependencies among the given items
  have no cycle; the list then holds the given items, each once, every item behind the
  dependencies it has among them. Otherwise it reports a cycle.\<close>

theorem topological_sort_exact:
  assumes "distinct items"
  shows "\<exists>r. topological_sort items fn = Some r \<and>
    (case r of
       Inr xs \<Rightarrow> (\<forall>x. (x, x) \<notin> (dep_rel fn items)\<^sup>+) \<and> distinct xs \<and> set xs = set items \<and>
         ordered fn items xs
     | Inl e \<Rightarrow> \<exists>x. (x, x) \<in> (dep_rel fn items)\<^sup>+)"
  using assms by (rule topological_sort_spec)

definition sample_deps :: "nat before_items" where
  "sample_deps items x = (if x = 1 then [2, 3] else if x = 2 then [3, 9] else [])"

lemma topological_sort_exact_witness:
  "topological_sort [1, 2, 3] sample_deps = Some (Inr [3, 2, 1]) \<and> ordered sample_deps [1, 2, 3] [3, 2, 1]"
proof -
  have "topological_sort [1, 2, 3] sample_deps = Some (Inr [3, 2, 1])" by code_simp
  with topological_sort_exact [of "[1, 2, 3]" sample_deps] show ?thesis by simp
qed

end
