(* ===== verification/GsInjecting.thy ===== *)
theory GsInjecting
  imports GsResolving GsDync TopoSort
begin

text \<open>
  \<open>spring/gs/internal/gs_core/injecting/injecting.go\<close>: the container that creates the beans
  and wires them. A pointer to a bean definition is its index in the heap of definitions.
  What \<open>reflect\<close> tells about values and types, and what the user's constructors and
  life-cycle functions do, is the record \<open>inj_env\<close>; configuration is bound by \<open>ConfBind\<close> and
  \<open>GsDync\<close>, constructor arguments by \<open>GsArg\<close>. \<open>wireBean\<close> calls, through fields and
  constructor arguments, itself: the recursion carries a fuel, \<open>None\<close> is fuel spent, and
  one more than the number of beans is shown to be enough.
\<close>

section \<open>Values and struct fields\<close>

text \<open>
  A reflected value: nil, a reference to an object with its dynamic type and address, a
  pointer the container allocated for a bean's value, a value bound from the configuration,
  or an injected collection.
\<close>

datatype 'f ivalue =
    NilV
  | RefV rtype nat
  | PtrV nat "'f ivalue"
  | ConfV "'f govalue"
  | SliceV "'f ivalue list"
  | MapV "(string \<times> 'f ivalue) list"

text \<open>A struct field: its name, the tags \<open>autowire\<close>, \<open>inject\<close>, \<open>value\<close> and \<open>expr\<close>, whether it is
  embedded, its type, the dynamic value it is (if any), and its fields if it is a struct.\<close>

datatype sfield = SField (sf_name: string) (sf_autowire: "string option") (sf_inject: "string option")
  (sf_value: "string option") (sf_expr: "string option") (sf_anonymous: bool) (sf_type: rtype)
  (sf_cell: "nat option") (sf_sub: "sfield list option")

record 'f inj_env =
  ie_types :: types
  ie_key_string :: "rtype \<Rightarrow> bool"
  ie_gotype :: "rtype \<Rightarrow> gotype"
  ie_type_name :: "rtype \<Rightarrow> string"
  ie_dyn_type :: "'f ivalue \<Rightarrow> rtype"
  ie_struct :: "'f ivalue \<Rightarrow> (string \<times> sfield list) option"
  ie_field0 :: "'f ivalue \<Rightarrow> string \<Rightarrow> 'f govalue"
  ie_init :: "string \<Rightarrow> 'f ivalue \<Rightarrow> string option"
  ie_expr :: "string \<Rightarrow> string \<Rightarrow> (string, bool) result"
  ie_bind :: "'f bind_env"
  ie_resolve_fuel :: "string \<Rightarrow> nat"
  ie_bind_fuel :: "gotype \<Rightarrow> 'f govalue \<Rightarrow> bind_param \<Rightarrow> nat"
  ie_range :: "nat list \<Rightarrow> nat list"

section \<open>The state of the wiring\<close>

record 'f lazy_field =
  lf_bean :: nat
  lf_object :: "'f ivalue"
  lf_path :: string
  lf_type :: rtype
  lf_tag :: string

text \<open>
  The definitions and their values, the fields set so far, the init functions called, the
  dynamic configuration, and the \<open>Stack\<close>: the wiring path, top first, the same as a set, the
  recorded dependencies, and the fields left for later.
\<close>

record 'f wiring =
  wi_beans :: "'f ivalue bean list"
  wi_values :: "nat \<Rightarrow> 'f ivalue"
  wi_fields :: "'f ivalue \<Rightarrow> string \<Rightarrow> 'f ivalue option"
  wi_inits :: "nat list"
  wi_dync :: "'f dync"
  wi_path :: "nat list"
  wi_cycle :: "nat set"
  wi_deps :: "(nat, nat list) gomap"
  wi_lazy :: "'f lazy_field list"

record injector =
  ij_state :: refresh_state
  ij_beans :: "nat list"
  ij_force :: bool

type_synonym ('f, 'a) inj_run = "('f wiring, go_error, 'a) srun"

definition set_bean_status :: "nat \<Rightarrow> bean_status \<Rightarrow> 'f wiring \<Rightarrow> 'f wiring" where
  "set_bean_status b st s = s\<lparr>wi_beans := put_status b st (wi_beans s)\<rparr>"

definition set_field :: "'f ivalue \<Rightarrow> string \<Rightarrow> 'f ivalue \<Rightarrow> 'f wiring \<Rightarrow> 'f wiring" where
  "set_field ob path v s = s\<lparr>wi_fields := (wi_fields s)(ob := (wi_fields s ob)(path \<mapsto> v))\<rparr>"

text \<open>\<open>beanDep.dependOn\<close> adds a dependency once.\<close>

definition depend_on :: "nat \<Rightarrow> nat list \<Rightarrow> nat list" where
  "depend_on b ds = (if b \<in> set ds then ds else ds @ [b])"

text \<open>The bean on top always has an entry, which its own push made.\<close>

definition push_bean :: "nat \<Rightarrow> 'f wiring \<Rightarrow> 'f wiring" where
  "push_bean b s =
     (let deps = (case wi_path s of [] \<Rightarrow> wi_deps s | cur # _ \<Rightarrow> AList.map_entry cur (depend_on b) (wi_deps s))
      in s\<lparr>wi_cycle := insert b (wi_cycle s), wi_path := b # wi_path s,
           wi_deps := (if map_of deps b = None then deps @ [(b, [])] else deps)\<rparr>)"

definition pop_bean :: "'f wiring \<Rightarrow> 'f wiring" where
  "pop_bean s = s\<lparr>wi_cycle := wi_cycle s - {hd (wi_path s)}, wi_path := tl (wi_path s)\<rparr>"

definition push_lazy :: "'f lazy_field \<Rightarrow> 'f wiring \<Rightarrow> 'f wiring" where
  "push_lazy f s = s\<lparr>wi_lazy := wi_lazy s @ [f]\<rparr>"

section \<open>Finding beans\<close>

text \<open>The index by type: every bean under its type and each exported interface, in order.\<close>

definition beans_by_type :: "'v bean list \<Rightarrow> nat list \<Rightarrow> rtype \<Rightarrow> nat list" where
  "beans_by_type bs act t =
     concat (map (\<lambda>b. map (\<lambda>_. b) (filter ((=) t) (bd_type (bs ! b) # bd_exports (bs ! b)))) act)"

definition find_beans :: "'v bean list \<Rightarrow> nat list \<Rightarrow> bean_id \<Rightarrow> nat list" where
  "find_beans bs act sel =
     (let beans = (case bid_type sel of None \<Rightarrow> [] | Some t \<Rightarrow> beans_by_type bs act t)
      in if bid_name sel \<noteq> [] then filter (\<lambda>b. bid_name sel = bd_name (bs ! b)) beans else beans)"

record wire_tag =
  wt_name :: string
  wt_nullable :: bool

definition wire_tag_string :: "wire_tag \<Rightarrow> string" where
  "wire_tag_string tag = wt_name tag @ (if wt_nullable tag then ''?'' else [])"

definition parse_wire_tag :: "string \<Rightarrow> wire_tag" where
  "parse_wire_tag str =
     (if str = [] then \<lparr>wt_name = [], wt_nullable = False\<rparr>
      else if last str = CHR ''?'' then \<lparr>wt_name = butlast str, wt_nullable = True\<rparr>
      else \<lparr>wt_name = str, wt_nullable = False\<rparr>)"

fun to_wire_string :: "wire_tag list \<Rightarrow> string" where
  "to_wire_string [] = []"
| "to_wire_string [t] = wire_tag_string t"
| "to_wire_string (t # u # ts) = wire_tag_string t @ '','' @ to_wire_string (u # ts)"

text \<open>The choice of the bean for a single field; \<open>None\<close> is a missing nullable one.\<close>

definition pick_bean ::
  "types \<Rightarrow> 'v bean list \<Rightarrow> nat list \<Rightarrow> rtype \<Rightarrow> wire_tag \<Rightarrow> (go_error, nat option) result" where
  "pick_bean ty bs act t tag =
     (if \<not> is_bean_injection_target ty t then Inl (ErrMsg (t @ '' is not a valid injection target type''))
      else if wt_name tag = ''*'' then Inl (ErrMsg ''the * wildcard is not allowed for single bean injection'')
      else
        (case filter (\<lambda>b. wt_name tag = [] \<or> wt_name tag = bd_name (bs ! b)) (beans_by_type bs act t) of
           [] \<Rightarrow> if wt_nullable tag then Inr None
                  else Inl (ErrMsg (''cannot find bean for tag '' @ wire_tag_string tag @ '' and type '' @ t))
         | [b] \<Rightarrow> Inr (Some b)
         | _ \<Rightarrow> Inl (ErrMsg (''found several beans for tag '' @ wire_tag_string tag @ '' and type '' @ t))))"

text \<open>The loop over the tags of a collection sorts positions of \<open>beans\<close> around the \<open>*\<close>.\<close>

record tag_scan =
  sc_found_any :: bool
  sc_before :: "nat list"
  sc_after :: "nat list"

definition scan_tag :: "string list \<Rightarrow> tag_scan \<Rightarrow> wire_tag \<Rightarrow> (go_error, tag_scan) result" where
  "scan_tag names sc tag =
     (if wt_name tag = ''*'' then
        if sc_found_any sc then Inl (ErrMsg ''more than one * in collection tags'')
        else Inr (sc\<lparr>sc_found_any := True\<rparr>)
      else
        (case filter (\<lambda>i. wt_name tag = names ! i) [0..<length names] of
           [] \<Rightarrow> if wt_nullable tag then Inr sc
                  else Inl (ErrMsg (''cannot find bean for tag '' @ wire_tag_string tag))
         | [i] \<Rightarrow> if sc_found_any sc then Inr (sc\<lparr>sc_after := sc_after sc @ [i]\<rparr>)
                   else Inr (sc\<lparr>sc_before := sc_before sc @ [i]\<rparr>)
         | _ \<Rightarrow> Inl (ErrMsg (''found several beans for tag '' @ wire_tag_string tag))))"

text \<open>\<open>sort.SliceStable\<close> by name.\<close>

definition order_beans :: "'v bean list \<Rightarrow> nat list \<Rightarrow> wire_tag list \<Rightarrow> (go_error, nat list) result" where
  "order_beans bs beans tags =
     (if tags = [] then Inr (sort_key (\<lambda>b. bd_name (bs ! b)) beans)
      else
        rbind (rfold (scan_tag (map (\<lambda>b. bd_name (bs ! b)) beans))
                 \<lparr>sc_found_any = False, sc_before = [], sc_after = []\<rparr> tags)
          (\<lambda>sc.
            let any = (if sc_found_any sc
                       then map ((!) beans) (filter (\<lambda>i. i \<notin> set (sc_before sc @ sc_after sc)) [0..<length beans])
                       else [])
            in Inr (map ((!) beans) (sc_before sc) @ sort_key (\<lambda>b. bd_name (bs ! b)) any
                    @ map ((!) beans) (sc_after sc))))"

definition pick_beans ::
  "types \<Rightarrow> 'v bean list \<Rightarrow> nat list \<Rightarrow> rtype \<Rightarrow> wire_tag list \<Rightarrow> bool \<Rightarrow> (go_error, nat list) result" where
  "pick_beans ty bs act t tags nullable =
     (if \<not> is_bean_injection_target ty (ty_elem ty t)
      then Inl (ErrMsg (t @ '' is not a valid injection target type''))
      else
        rbind (order_beans bs (beans_by_type bs act (ty_elem ty t)) tags) (\<lambda>beans.
          if beans = [] then
            if nullable then Inr [] else Inl (ErrMsg (''no beans collected for tags '' @ to_wire_string tags))
          else if \<not> distinct beans
          then Inl (ErrMsg (''duplicate bean in collection, tags: '' @ to_wire_string tags))
          else Inr beans))"

section \<open>Injection\<close>


fun wire_all :: "(nat \<Rightarrow> 's \<Rightarrow> ('s, 'e, unit) srun) \<Rightarrow> nat list \<Rightarrow> 's \<Rightarrow> ('s, 'e, unit) srun" where
  "wire_all wire [] s = Some (Inr (), s)"
| "wire_all wire (b # bs) s = sbind (wire b s) (\<lambda>_ s. wire_all wire bs s)"

text \<open>\<open>getBean\<close> and \<open>getBeans\<close> wire what they found while the container is refreshing.\<close>

definition get_bean ::
  "'f inj_env \<Rightarrow> injector \<Rightarrow> (nat \<Rightarrow> 'f wiring \<Rightarrow> ('f, unit) inj_run) \<Rightarrow> rtype \<Rightarrow> wire_tag \<Rightarrow>
     'f wiring \<Rightarrow> ('f, nat option) inj_run" where
  "get_bean env c wire t tag s =
     (case pick_bean (ie_types env) (wi_beans s) (ij_beans c) t tag of
        Inl e \<Rightarrow> Some (Inl e, s)
      | Inr None \<Rightarrow> Some (Inr None, s)
      | Inr (Some b) \<Rightarrow>
          sbind (if ij_state c = Refreshing then wire b s else Some (Inr (), s))
            (\<lambda>_ s. Some (Inr (Some b), s)))"

definition get_beans ::
  "'f inj_env \<Rightarrow> injector \<Rightarrow> (nat \<Rightarrow> 'f wiring \<Rightarrow> ('f, unit) inj_run) \<Rightarrow> rtype \<Rightarrow> wire_tag list \<Rightarrow> bool \<Rightarrow>
     'f wiring \<Rightarrow> ('f, nat list) inj_run" where
  "get_beans env c wire t tags nullable s =
     (case pick_beans (ie_types env) (wi_beans s) (ij_beans c) t tags nullable of
        Inl e \<Rightarrow> Some (Inl e, s)
      | Inr beans \<Rightarrow>
          sbind (if ij_state c = Refreshing then wire_all wire beans s else Some (Inr (), s))
            (\<lambda>_ s. Some (Inr beans, s)))"

text \<open>A collection's tag: the names and whether the collection may be empty.\<close>

definition collection_tags :: "bool \<Rightarrow> string \<Rightarrow> wire_tag list \<times> bool" where
  "collection_tags force str =
     (let tags = (if str = [] \<or> str = ''?'' then [] else map parse_wire_tag (split_char str CHR '',''));
          nullable = (str \<noteq> [] \<and> list_all wt_nullable tags)
      in if force then (map (wt_nullable_update (\<lambda>_. True)) tags, True) else (tags, nullable))"

definition conf_resolve :: "'f inj_env \<Rightarrow> string \<Rightarrow> 'f wiring \<Rightarrow> ('f, string) inj_run" where
  "conf_resolve env str s =
     map_option (\<lambda>r. (map_err (\<lambda>_. ErrMsg (''conf: resolve '' @ str)) r, s))
       (resolve_conf (ie_resolve_fuel env str) (Some (dy_prop (wi_dync s))) str)"

text \<open>\<open>autowire\<close> yields what it sets the target to; \<open>None\<close> leaves it as it is.\<close>

definition autowire ::
  "'f inj_env \<Rightarrow> injector \<Rightarrow> (nat \<Rightarrow> 'f wiring \<Rightarrow> ('f, unit) inj_run) \<Rightarrow> rtype \<Rightarrow> string \<Rightarrow>
     'f wiring \<Rightarrow> ('f, 'f ivalue option) inj_run" where
  "autowire env c wire t str s =
     sbind (conf_resolve env str s) (\<lambda>str s.
       let k = ty_kind (ie_types env) t
       in if k = RArray then Some (Inr None, s)
          else if k = RMap \<or> k = RSlice then
            (let (tags, nullable) = collection_tags (ij_force c) str
             in sbind (get_beans env c wire t tags nullable s) (\<lambda>beans s.
                  if k = RSlice then Some (Inr (Some (SliceV (map (wi_values s) beans))), s)
                  else if \<not> ie_key_string env t then Some (Inl (ErrMsg ''map key should be string''), s)
                  else Some (Inr (Some (MapV (fold (\<lambda>b. AList.update (bd_name (wi_beans s ! b)) (wi_values s b)) beans []))), s)))
          else
            (let g = parse_wire_tag str;
                 g = (if ij_force c then g\<lparr>wt_nullable := True\<rparr> else g)
             in sbind (get_bean env c wire t g s) (\<lambda>b s. Some (Inr (map_option (wi_values s) b), s))))"

section \<open>Constructors\<close>

text \<open>\<open>ArgContext\<close>: conditions see the configuration and every bean of the index.\<close>

definition arg_cond_ctx :: "'f inj_env \<Rightarrow> injector \<Rightarrow> storage \<Rightarrow> 'f wiring cond_ctx" where
  "arg_cond_ctx env c p =
     \<lparr>cx_has = st_exists p, cx_prop = st_value p,
      cx_find = (\<lambda>sel s. Some (Inr (map (\<lambda>b. bean_id_of (wi_beans s ! b)) (find_beans (wi_beans s) (ij_beans c) sel)), s)),
      cx_eval_expr = ie_expr env\<rparr>"

text \<open>\<open>conf.Bind\<close> of a new value of type \<open>t\<close>.\<close>

definition conf_bind :: "'f inj_env \<Rightarrow> rtype \<Rightarrow> string \<Rightarrow> 'f wiring \<Rightarrow> ('f, 'f ivalue) inj_run" where
  "conf_bind env t tag s =
     (let g = ie_gotype env t; v = zero_value (ie_bind env) g; name = ie_type_name env t;
          fuel = (case bind_tag tag None bind_param0 of Inl _ \<Rightarrow> 0
                  | Inr param \<Rightarrow> ie_bind_fuel env g v (param\<lparr>bp_path := name\<rparr>))
      in map_option (\<lambda>r. (case r of Inl _ \<Rightarrow> Inl (ErrMsg (''conf: bind '' @ tag)) | Inr v \<Rightarrow> Inr (ConfV v), s))
           (bind_conf (ie_bind env) fuel (Some (dy_prop (wi_dync s))) (Some (name, g, v)) (Some tag)))"

definition new_arg_context ::
  "'f inj_env \<Rightarrow> injector \<Rightarrow> storage \<Rightarrow> (nat \<Rightarrow> 'f wiring \<Rightarrow> ('f, unit) inj_run) \<Rightarrow> ('f wiring, 'f ivalue) arg_ctx" where
  "new_arg_context env c p wire =
     \<lparr>ac_types = ie_types env, ac_zero = (\<lambda>_. NilV),
      ac_check = (\<lambda>cnd s. smap_err FromCond (matches (arg_cond_ctx env c p) cnd s)),
      ac_bind = conf_bind env,
      ac_wire = (\<lambda>t tag s. sbind (autowire env c wire t tag s)
                   (\<lambda>v s. Some (Inr (case v of None \<Rightarrow> NilV | Some v \<Rightarrow> v), s))),
      ac_bean = (\<lambda>b s. (bd_type (wi_beans s ! b), wi_values s b))\<rparr>"

text \<open>What an interface-typed or a value-typed result of a constructor becomes.\<close>

definition bean_result :: "'f inj_env \<Rightarrow> nat \<Rightarrow> rtype \<times> 'f ivalue \<Rightarrow> 'f ivalue" where
  "bean_result env b out =
     (let (t, v) = out
      in if is_bean_type (ie_types env) t then
           if v \<noteq> NilV \<and> ty_kind (ie_types env) t = RInterface \<and> prop_binding_target (ie_types env) (ie_dyn_type env v)
           then PtrV b v else v
         else PtrV b v)"

text \<open>
  \<open>getBeanValue\<close>: \<open>None\<close> is the invalid value of a constructor that failed while missing
  references are allowed. A constructor without an error result can only fail by a panic,
  as a call with too few arguments does.
\<close>

definition get_bean_value ::
  "'f inj_env \<Rightarrow> injector \<Rightarrow> (nat \<Rightarrow> 'f wiring \<Rightarrow> ('f, unit) inj_run) \<Rightarrow> nat \<Rightarrow>
     'f wiring \<Rightarrow> ('f, 'f ivalue option) inj_run" where
  "get_bean_value env c wire b s =
     (case bd_callable (wi_beans s ! b) of
        None \<Rightarrow> Some (Inr (Some (wi_values s b)), s)
      | Some (Func ft call, args) \<Rightarrow>
          (case get_args (new_arg_context env c (dy_prop (wi_dync s)) wire) ft 0 args s of
             None \<Rightarrow> None
           | Some (Inl e, s) \<Rightarrow>
               if ij_force c then Some (Inr None, s)
               else Some (Inl (wrap_inject_err (bean_string (wi_beans s ! b)) e (Some ''call constructor failed'')), s)
           | Some (Inr vs, s) \<Rightarrow>
               (case call_func ft call vs of
                  Inl e \<Rightarrow>
                    if length vs < fixed_count ft \<or> \<not> ft_variadic ft \<and> length vs > fixed_count ft
                       \<or> last (ft_out ft) \<noteq> error_type
                    then Some (Inl (ErrMsg e), s)
                    else if ij_force c then Some (Inr None, s)
                    else Some (Inl (wrap_inject_err (bean_string (wi_beans s ! b)) (ErrMsg e)
                                     (Some ''constructor returned error'')), s)
                | Inr out \<Rightarrow>
                    (let v = bean_result env b out; s = s\<lparr>wi_values := (wi_values s)(b := v)\<rparr>
                     in if v = NilV
                        then Some (Inl (wrap_inject_err (bean_string (wi_beans s ! b))
                                         (ErrMsg ''constructor returned nil'') None), s)
                        else Some (Inr (Some v), s)))))"

section \<open>Fields\<close>

definition inject_tag :: "sfield \<Rightarrow> string option" where
  "inject_tag f = (case sf_autowire f of Some t \<Rightarrow> Some t | None \<Rightarrow> sf_inject f)"

text \<open>\<open>RefreshField\<close>: a dynamic value is registered, any other field is bound in place.\<close>

definition refresh_value_field ::
  "'f inj_env \<Rightarrow> 'f ivalue \<Rightarrow> string \<Rightarrow> sfield \<Rightarrow> bind_param \<Rightarrow> 'f wiring \<Rightarrow> ('f, unit) inj_run" where
  "refresh_value_field env ob path f param s =
     (let fail = (\<lambda>_. ErrMsg (''refresh field '' @ path))
      in case sf_cell f of
           Some a \<Rightarrow>
             (let g = dc_type (dy_cells (wi_dync s) a)
              in map_option (\<lambda>(r, d). (map_err fail r, s\<lparr>wi_dync := d\<rparr>))
                   (refresh_field (ie_bind env) (ie_bind_fuel env g (zero_value (ie_bind env) g) param) a param (wi_dync s)))
         | None \<Rightarrow>
             (let g = ie_gotype env (sf_type f); v = ie_field0 env ob path
              in map_option (\<lambda>r. case r of Inl e \<Rightarrow> (Inl (fail e), s) | Inr v \<Rightarrow> (Inr (), set_field ob path (ConfV v) s))
                   (refresh_plain_field (ie_bind env) (ie_bind_fuel env g v param) g v param (wi_dync s))))"

text \<open>An injected field: set at once, or left for later when its tag ends in \<open>,lazy\<close>.\<close>

definition wire_inject_field ::
  "'f inj_env \<Rightarrow> injector \<Rightarrow> (nat \<Rightarrow> 'f wiring \<Rightarrow> ('f, unit) inj_run) \<Rightarrow> nat \<Rightarrow> 'f ivalue \<Rightarrow> string \<Rightarrow>
     sfield \<Rightarrow> string \<Rightarrow> 'f wiring \<Rightarrow> ('f, unit) inj_run" where
  "wire_inject_field env c wire b ob path f tag s =
     (if has_suffix tag '',lazy''
      then Some (Inr (), push_lazy \<lparr>lf_bean = b, lf_object = ob, lf_path = path, lf_type = sf_type f, lf_tag = tag\<rparr> s)
      else
        sbind (smap_err (\<lambda>e. wrap_inject_err (bean_string (wi_beans s ! b)) e None) (autowire env c wire (sf_type f) tag s))
          (\<lambda>v s. Some (Inr (), case v of None \<Rightarrow> s | Some v \<Rightarrow> set_field ob path v s)))"

fun wire_struct ::
  "'f inj_env \<Rightarrow> injector \<Rightarrow> (nat \<Rightarrow> 'f wiring \<Rightarrow> ('f, unit) inj_run) \<Rightarrow> nat \<Rightarrow> 'f ivalue \<Rightarrow> bind_param \<Rightarrow>
     sfield list \<Rightarrow> 'f wiring \<Rightarrow> ('f, unit) inj_run"
  and wire_field ::
  "'f inj_env \<Rightarrow> injector \<Rightarrow> (nat \<Rightarrow> 'f wiring \<Rightarrow> ('f, unit) inj_run) \<Rightarrow> nat \<Rightarrow> 'f ivalue \<Rightarrow> bind_param \<Rightarrow>
     sfield \<Rightarrow> 'f wiring \<Rightarrow> ('f, unit) inj_run" where
  "wire_struct env c wire b ob opt [] s = Some (Inr (), s)"
| "wire_struct env c wire b ob opt (f # fs) s =
     sbind (wire_field env c wire b ob opt f s) (\<lambda>_ s. wire_struct env c wire b ob opt fs s)"
| "wire_field env c wire b ob opt (SField nm aw ij vt ex anon t cell sub) s =
     (let f = SField nm aw ij vt ex anon t cell sub;
          path = bp_path opt @ ''.'' @ nm;
          param = bind_param0\<lparr>bp_key := bp_key opt, bp_path := path\<rparr>
      in case inject_tag f of
           Some tag \<Rightarrow> wire_inject_field env c wire b ob path f tag s
         | None \<Rightarrow>
             (case vt of
                Some tag \<Rightarrow>
                  (case bind_tag tag ex param of
                     Inl e \<Rightarrow> Some (Inl (wrap_inject_err (bean_string (wi_beans s ! b)) (ErrMsg (''invalid tag '' @ tag)) None), s)
                   | Inr param \<Rightarrow>
                       (let value = smap_err (\<lambda>e. wrap_inject_err (bean_string (wi_beans s ! b)) e None)
                              (refresh_value_field env ob path f param s)
                        in case sub of
                             Some fs \<Rightarrow> if anon then wire_struct env c wire b ob param fs s else value
                           | None \<Rightarrow> value))
              | None \<Rightarrow>
                  (case sub of
                     Some fs \<Rightarrow> if anon then wire_struct env c wire b ob param fs s else Some (Inr (), s)
                   | None \<Rightarrow> Some (Inr (), s))))"

definition wire_bean_value ::
  "'f inj_env \<Rightarrow> injector \<Rightarrow> (nat \<Rightarrow> 'f wiring \<Rightarrow> ('f, unit) inj_run) \<Rightarrow> nat \<Rightarrow>
     'f wiring \<Rightarrow> ('f, unit) inj_run" where
  "wire_bean_value env c wire b s =
     (case ie_struct env (wi_values s b) of
        None \<Rightarrow> Some (Inr (), s)
      | Some (tname, fs) \<Rightarrow>
          wire_struct env c wire b (wi_values s b) (bind_param0\<lparr>bp_path := tname\<rparr>) fs s)"

section \<open>Beans\<close>

definition init_bean :: "'f inj_env \<Rightarrow> nat \<Rightarrow> 'f wiring \<Rightarrow> ('f, unit) inj_run" where
  "init_bean env b s =
     (case bd_init (wi_beans s ! b) of
        None \<Rightarrow> Some (Inr (), s)
      | Some fn \<Rightarrow>
          (let s = s\<lparr>wi_inits := wi_inits s @ [b]\<rparr>
           in case ie_init env fn (wi_values s b) of
                None \<Rightarrow> Some (Inr (), s)
              | Some e \<Rightarrow> Some (Inl (wrap_inject_err (bean_string (wi_beans s ! b)) (ErrMsg e)
                                      (Some ''init callback failed'')), s)))"

text \<open>\<open>wireBean\<close> behind the push of the bean.\<close>

definition wire_pushed ::
  "'f inj_env \<Rightarrow> injector \<Rightarrow> (nat \<Rightarrow> 'f wiring \<Rightarrow> ('f, unit) inj_run) \<Rightarrow> nat \<Rightarrow>
     'f wiring \<Rightarrow> ('f, unit) inj_run" where
  "wire_pushed env c wire b s =
     (if bd_status (wi_beans s ! b) \<ge> StatusCreated then Some (Inr (), s)
      else
        let s = set_bean_status b StatusCreating s
        in sbind (wire_all wire (concat (map (find_beans (wi_beans s) (ij_beans c)) (bd_depends_on (wi_beans s ! b)))) s)
             (\<lambda>_ s. sbind (get_bean_value env c wire b s)
               (\<lambda>v s.
                 let s = set_bean_status b StatusCreated s
                 in sbind
                      (if v = None then Some (Inr (), s)
                       else sbind (wire_bean_value env c wire b s) (\<lambda>_ s. init_bean env b s))
                      (\<lambda>_ s. Some (Inr (), set_bean_status b StatusWired s)))))"

primrec wire_bean :: "'f inj_env \<Rightarrow> injector \<Rightarrow> nat \<Rightarrow> nat \<Rightarrow> 'f wiring \<Rightarrow> ('f, unit) inj_run" where
  "wire_bean env c 0 b s = None"
| "wire_bean env c (Suc n) b s =
     (if bd_status (wi_beans s ! b) = StatusCreating
      then Some (Inl (wrap_inject_err (bean_string (wi_beans s ! b))
                       (ErrMsg ''circular autowire dependency detected'') None), s)
      else if b \<in> wi_cycle s then Some (Inr (), s)
      else map_option (\<lambda>(r, s). (r, pop_bean s)) (wire_pushed env c (wire_bean env c n) b (push_bean b s)))"

section \<open>Destroyers\<close>

definition depends_of :: "'f wiring \<Rightarrow> nat \<Rightarrow> nat list" where
  "depends_of s b = (case map_of (wi_deps s) b of None \<Rightarrow> [] | Some ds \<Rightarrow> ds)"

definition get_before_deps :: "'f wiring \<Rightarrow> nat list \<Rightarrow> nat \<Rightarrow> nat list" where
  "get_before_deps s items b = filter (\<lambda>d. d \<in> set (depends_of s b)) items"

text \<open>The order in which \<open>range\<close> visits the map is the environment's.\<close>

definition get_sorted_destroyers ::
  "'f inj_env \<Rightarrow> 'f wiring \<Rightarrow> (nat topo_error, (nat \<times> string) list) result option" where
  "get_sorted_destroyers env s =
     fbind (topological_sort (ie_range env (gokeys (wi_deps s))) (get_before_deps s))
       (\<lambda>sorted. Some (Inr (concat (map (\<lambda>b. case bd_destroy (wi_beans s ! b) of None \<Rightarrow> [] | Some fn \<Rightarrow> [(b, fn)])
                                      (rev sorted)))))"

section \<open>The container\<close>

text \<open>The destroyers are functions of values: the name of the function and its argument.\<close>

record 'f injecting =
  in_props :: "'f dync option"
  in_destroyers :: "(string \<times> 'f ivalue) list"

definition new_injecting :: "storage \<Rightarrow> (nat \<Rightarrow> 'f cell) \<Rightarrow> 'f injecting" where
  "new_injecting p cells = \<lparr>in_props = Some (new_dync p cells), in_destroyers = []\<rparr>"

definition dynamic_objects_count :: "'f injecting \<Rightarrow> nat" where
  "dynamic_objects_count c = (case in_props c of None \<Rightarrow> 0 | Some d \<Rightarrow> objects_count d)"

datatype inj_error = WireFailed go_error | SortFailed "nat topo_error"

text \<open>The start of a refresh: nothing on the stack, the heap as the caller has it.\<close>

definition start_wiring :: "'f ivalue bean list \<Rightarrow> (nat \<Rightarrow> 'f ivalue) \<Rightarrow> 'f dync \<Rightarrow> 'f wiring" where
  "start_wiring bs vals d =
     \<lparr>wi_beans = bs, wi_values = vals, wi_fields = (\<lambda>_ _. None), wi_inits = [], wi_dync = d,
      wi_path = [], wi_cycle = {}, wi_deps = [], wi_lazy = []\<rparr>"

definition force_nullable :: "storage \<Rightarrow> bool" where
  "force_nullable p =
     (case parse_bool (case st_value p ''spring.force-autowire-is-nullable'' of None \<Rightarrow> [] | Some s \<Rightarrow> s) of
        None \<Rightarrow> False | Some b \<Rightarrow> b)"

text \<open>The lazy fields are injected when nothing is wired any more.\<close>

fun wire_lazy :: "'f inj_env \<Rightarrow> injector \<Rightarrow> 'f lazy_field list \<Rightarrow> 'f wiring \<Rightarrow> ('f, unit) inj_run" where
  "wire_lazy env c [] s = Some (Inr (), s)"
| "wire_lazy env c (f # fs) s =
     sbind (smap_err (\<lambda>e. wrap_inject_err (bean_string (wi_beans s ! lf_bean f)) e None)
             (autowire env c (wire_bean env c 0) (lf_type f)
               (take (length (lf_tag f) - length '',lazy'') (lf_tag f)) s))
       (\<lambda>v s. wire_lazy env c fs (case v of None \<Rightarrow> s | Some v \<Rightarrow> set_field (lf_object f) (lf_path f) v s))"

text \<open>
  \<open>Refresh\<close> from the definitions, the values and the dynamic configuration: the outcome,
  the container, and the state the wiring ended in. \<open>n\<close> is the fuel of \<open>wireBean\<close>.
\<close>

definition refresh_injecting ::
  "'f inj_env \<Rightarrow> nat \<Rightarrow> nat list \<Rightarrow> nat list \<Rightarrow> 'f ivalue bean list \<Rightarrow> (nat \<Rightarrow> 'f ivalue) \<Rightarrow> 'f dync \<Rightarrow>
     ((inj_error, unit) result \<times> 'f injecting \<times> 'f wiring) option" where
  "refresh_injecting env n roots beans bs vals d =
     (let c = \<lparr>ij_state = Refreshing, ij_beans = beans, ij_force = force_nullable (dy_prop d)\<rparr>
      in case wire_all (wire_bean env c n) roots (start_wiring bs vals d) of
           None \<Rightarrow> None
         | Some (Inl e, s) \<Rightarrow> Some (Inl (WireFailed e), \<lparr>in_props = Some (wi_dync s), in_destroyers = []\<rparr>, s)
         | Some (Inr _, s) \<Rightarrow>
             (case wire_lazy env (c\<lparr>ij_state := Refreshed\<rparr>) (wi_lazy s) s of
                None \<Rightarrow> None
              | Some (Inl e, s) \<Rightarrow> Some (Inl (WireFailed e), \<lparr>in_props = Some (wi_dync s), in_destroyers = []\<rparr>, s)
              | Some (Inr _, s) \<Rightarrow>
                  map_option (\<lambda>r. case r of
                      Inl e \<Rightarrow> (Inl (SortFailed e), \<lparr>in_props = Some (wi_dync s), in_destroyers = []\<rparr>, s)
                    | Inr ds \<Rightarrow>
                        (Inr (), \<lparr>in_props = (if objects_count (wi_dync s) = 0 then None else Some (wi_dync s)),
                                  in_destroyers = map (\<lambda>(b, fn). (fn, wi_values s b)) ds\<rparr>, s))
                    (get_sorted_destroyers env s)))"

text \<open>\<open>Close\<close> calls every destroyer and carries on after errors: its effect is the calls.\<close>

definition close_injecting :: "'f injecting \<Rightarrow> (string \<times> 'f ivalue) list" where
  "close_injecting c = in_destroyers c"

definition refresh_properties ::
  "'f bind_env \<Rightarrow> nat \<Rightarrow> storage option \<Rightarrow> 'f injecting \<Rightarrow>
     ((dync_error, (go_panic, 'f event list) result) result \<times> 'f injecting) option" where
  "refresh_properties env n p c =
     (case in_props c of
        None \<Rightarrow> Some (Inr (Inr []), c)
      | Some d \<Rightarrow> map_option (\<lambda>(r, d). (r, c\<lparr>in_props := Some d\<rparr>)) (refresh_dync env n p d))"

section \<open>What wiring does to the state\<close>

text \<open>The part of the state that only \<open>wireBean\<close> changes.\<close>

definition core :: "'f wiring \<Rightarrow> 'f ivalue bean list \<times> nat list \<times> nat list \<times> nat set \<times> (nat, nat list) gomap \<times> storage" where
  "core s = (wi_beans s, wi_inits s, wi_path s, wi_cycle s, wi_deps s, dy_prop (wi_dync s))"

text \<open>Every end of a run, or with \<open>strict\<close> every successful end, is related to its start.\<close>

definition moves :: "bool \<Rightarrow> ('s \<Rightarrow> 's \<Rightarrow> bool) \<Rightarrow> ('s, 'e, 'a) srun \<Rightarrow> 's \<Rightarrow> bool" where
  "moves strict R run s \<longleftrightarrow> (\<forall>r s'. run = Some (r, s') \<longrightarrow> (strict \<longrightarrow> \<not> isl r) \<longrightarrow> R s s')"

lemma movesI: "(\<And>r s'. run = Some (r, s') \<Longrightarrow> (strict \<longrightarrow> \<not> isl r) \<Longrightarrow> R s s') \<Longrightarrow> moves strict R run s"
  by (simp add: moves_def)

lemma moves_result: "moves strict R (Some (r, t)) s \<longleftrightarrow> ((strict \<longrightarrow> \<not> isl r) \<longrightarrow> R s t)"
  by (auto simp: moves_def)

lemma moves_smap: "moves strict R (smap_err g run) s \<longleftrightarrow> moves strict R run s"
proof (cases run)
  case (Some q)
  then show ?thesis by (cases q; cases "fst q") (auto simp: moves_def smap_err_def)
qed (simp add: moves_def smap_err_def)

lemma core_simps [bean_simps]:
  "core (set_field ob path v s) = core s" "core (push_lazy f s) = core s"
  "core (s\<lparr>wi_values := vals\<rparr>) = core s"
  "dy_prop d = dy_prop (wi_dync s) \<Longrightarrow> core (s\<lparr>wi_dync := d\<rparr>) = core s"
  by (simp_all add: core_def set_field_def push_lazy_def)

text \<open>
  The interface between \<open>wireBean\<close> and what it calls: a relation of states that \<open>wireBean\<close>
  keeps for the beans of the index, transitive and closed under changes outside the core.
  A run is strict where failed constructors are not passed over.
\<close>

locale wiring_steps =
  fixes env :: "'f inj_env" and c :: injector and wire :: "nat \<Rightarrow> 'f wiring \<Rightarrow> ('f, unit) inj_run"
    and strict :: bool and R :: "'f wiring \<Rightarrow> 'f wiring \<Rightarrow> bool"
  assumes R_core: "core t = core s \<Longrightarrow> R s t"
    and R_trans: "R s t \<Longrightarrow> R t u \<Longrightarrow> R s u"
    and wire_moves: "b \<in> set (ij_beans c) \<Longrightarrow> moves strict R (wire b s) s"
    and strict_force: "strict \<Longrightarrow> \<not> ij_force c"
begin

lemma R_refl: "R s s"
  by (rule R_core) (rule refl)

lemma moves_here: "core t = core s \<Longrightarrow> moves strict R (Some (r, t)) s"
  by (simp add: moves_result R_core)

lemma moves_sbind:
  assumes run: "moves strict R run s"
    and k: "\<And>a t. run = Some (Inr a, t) \<Longrightarrow> moves strict R (k a t) t"
  shows "moves strict R (sbind run k) s"
proof (rule movesI)
  fix r s' assume r: "sbind run k = Some (r, s')" and ok: "strict \<longrightarrow> \<not> isl r"
  then consider (err) e where "run = Some (Inl e, s')" "r = Inl e" |
      (val) a t where "run = Some (Inr a, t)" "k a t = Some (r, s')"
    by (auto simp: sbind_Some_iff)
  then show "R s s'"
  proof cases
    case err
    then show ?thesis using run ok by (auto simp: moves_def)
  next
    case val
    then have "R s t" using run by (simp add: moves_def)
    moreover have "R t s'" using k [OF val(1)] val(2) ok by (simp add: moves_def)
    ultimately show ?thesis by (rule R_trans)
  qed
qed

lemma moves_trans: "R s t \<Longrightarrow> moves strict R run t \<Longrightarrow> moves strict R run s"
  by (auto simp: moves_def intro: R_trans)

lemma moves_from: "core t = core s \<Longrightarrow> moves strict R run t \<Longrightarrow> moves strict R run s"
  by (rule moves_trans [OF R_core])

lemma wire_all_moves: "set bs \<subseteq> set (ij_beans c) \<Longrightarrow> moves strict R (wire_all wire bs s) s"
  by (induction bs arbitrary: s) (simp_all add: moves_here moves_sbind wire_moves)

end

lemma set_beans_by_type: "set (beans_by_type bs act t) \<subseteq> set act"
  by (auto simp: beans_by_type_def)

lemma set_find_beans: "set (find_beans bs act sel) \<subseteq> set act"
  by (auto simp: find_beans_def Let_def split: option.splits if_splits dest: subsetD [OF set_beans_by_type])

lemma pick_bean_in: "pick_bean ty bs act t tag = Inr (Some b) \<Longrightarrow> b \<in> set act"
proof -
  assume "pick_bean ty bs act t tag = Inr (Some b)"
  then have "filter (\<lambda>b. wt_name tag = [] \<or> wt_name tag = bd_name (bs ! b)) (beans_by_type bs act t) = [b]"
    by (auto simp: pick_bean_def split: if_splits list.splits)
  then have "b \<in> set (beans_by_type bs act t)" by (metis filter_is_subset list.set_intros(1) subset_code(1))
  then show ?thesis using set_beans_by_type by blast
qed

lemma scan_tag_cases:
  assumes "scan_tag names sc tag = Inr sc'"
  obtains (star) "wt_name tag = ''*''" "\<not> sc_found_any sc" "sc' = sc\<lparr>sc_found_any := True\<rparr>"
  | (missing) "wt_name tag \<noteq> ''*''" "filter (\<lambda>i. wt_name tag = names ! i) [0..<length names] = []"
      "wt_nullable tag" "sc' = sc"
  | (found) i where "wt_name tag \<noteq> ''*''" "filter (\<lambda>i. wt_name tag = names ! i) [0..<length names] = [i]"
      "sc' = (if sc_found_any sc then sc\<lparr>sc_after := sc_after sc @ [i]\<rparr> else sc\<lparr>sc_before := sc_before sc @ [i]\<rparr>)"
proof (cases "wt_name tag = ''*''")
  case True
  with assms show ?thesis by (intro star) (simp_all add: scan_tag_def split: if_splits)
next
  case False
  show ?thesis
  proof (cases "filter (\<lambda>i. wt_name tag = names ! i) [0..<length names]")
    case Nil
    with False assms show ?thesis by (intro missing) (simp_all add: scan_tag_def split: if_splits)
  next
    case (Cons i is')
    with False assms have "is' = []" by (cases is') (simp_all add: scan_tag_def)
    with Cons False assms show ?thesis
      by (intro found [of i]) (simp_all add: scan_tag_def split: if_splits)
  qed
qed

lemma filter_singleton: "filter P xs = [x] \<Longrightarrow> x \<in> set xs \<and> P x"
proof -
  assume "filter P xs = [x]"
  then have "x \<in> set (filter P xs)" by simp
  then show ?thesis by simp
qed

lemma scan_tags_bound:
  assumes "rfold (scan_tag names) sc tags = Inr sc'"
    and "set (sc_before sc) \<union> set (sc_after sc) \<subseteq> {..<length names}"
  shows "set (sc_before sc') \<union> set (sc_after sc') \<subseteq> {..<length names}"
proof (rule rfold_invariant [OF assms(1), where I = "\<lambda>sc. set (sc_before sc) \<union> set (sc_after sc) \<subseteq> {..<length names}"])
  fix sc tag sc' assume I: "set (sc_before sc) \<union> set (sc_after sc) \<subseteq> {..<length names}"
    and step: "scan_tag names sc tag = Inr sc'"
  from step show "set (sc_before sc') \<union> set (sc_after sc') \<subseteq> {..<length names}"
  proof (cases rule: scan_tag_cases)
    case (found i)
    from filter_singleton [OF found(2)] have "i < length names" by simp
    with I found(3) show ?thesis by simp
  qed (use I in simp_all)
qed (rule assms(2))

lemma order_beans_in:
  assumes "order_beans bs beans tags = Inr xs"
  shows "set xs \<subseteq> set beans"
proof (cases "tags = []")
  case False
  let ?sc = "\<lparr>sc_found_any = False, sc_before = [], sc_after = []\<rparr>"
  from False assms obtain sc where sc: "rfold (scan_tag (map (\<lambda>b. bd_name (bs ! b)) beans)) ?sc tags = Inr sc"
    by (auto simp: order_beans_def rbind_Inr_iff)
  from scan_tags_bound [OF this] have "set (sc_before sc) \<union> set (sc_after sc) \<subseteq> {..<length beans}" by simp
  then have "\<forall>i \<in> set (sc_before sc) \<union> set (sc_after sc). beans ! i \<in> set beans" by auto
  with False assms sc show ?thesis by (auto simp: order_beans_def Let_def split: if_splits)
qed (use assms in \<open>auto simp: order_beans_def\<close>)

lemma pick_beans_in: "pick_beans ty bs act t tags nullable = Inr xs \<Longrightarrow> set xs \<subseteq> set act"
  using set_beans_by_type order_beans_in
  by (fastforce simp: pick_beans_def rbind_Inr_iff split: if_splits)

text \<open>Conditions of constructor arguments neither change the state nor run forever.\<close>

interpretation arg_cond: returning_context "arg_cond_ctx env c p" "\<lambda>s t. t = s" "\<lambda>_. True" for env c p
  by unfold_locales (auto simp: arg_cond_ctx_def)

lemma refresh_field_prop:
  assumes "refresh_field be n a param d = Some (r, d')"
  shows "dy_prop d' = dy_prop d"
proof (cases "on_valid be n (dy_prop d) (dy_cells d a) param")
  case (Some q)
  with assms show ?thesis by (cases q) (auto simp: refresh_field_def)
qed (use assms in \<open>simp add: refresh_field_def\<close>)

context wiring_steps begin

lemma conf_resolve_moves: "moves strict R (conf_resolve env str s) s"
  by (auto simp: conf_resolve_def moves_def R_refl)

lemma conf_bind_moves: "moves strict R (conf_bind env t tag s) s"
  by (auto simp: conf_bind_def moves_def R_refl Let_def)

lemma get_bean_moves: "moves strict R (get_bean env c wire t tag s) s"
  by (auto simp: get_bean_def moves_here wire_moves pick_bean_in intro!: moves_sbind
      split: sum.split option.split)

lemma get_beans_moves: "moves strict R (get_beans env c wire t tags nullable s) s"
  by (auto simp: get_beans_def moves_here intro!: moves_sbind wire_all_moves
      split: sum.split dest: subsetD [OF pick_beans_in])

lemma autowire_moves: "moves strict R (autowire env c wire t str s) s"
  unfolding autowire_def Let_def
  by (rule moves_sbind [OF conf_resolve_moves])
    (auto simp: moves_here split: prod.split intro!: moves_sbind [OF get_beans_moves] moves_sbind [OF get_bean_moves])

lemma check_all_moves:
  assumes "\<And>cnd s. moves strict R (ac_check ctx cnd s) s"
  shows "moves strict R (check_all ctx cs s) s"
proof (induction cs arbitrary: s)
  case (Cons cnd cs)
  then show ?case by (auto simp: moves_here intro!: moves_sbind [OF assms])
qed (simp add: moves_here)

lemma args_move:
  assumes check: "\<forall>cnd s. moves strict R (ac_check ctx cnd s) s"
    and bind: "\<forall>t tag s. moves strict R (ac_bind ctx t tag s) s"
    and wire: "\<forall>t tag s. moves strict R (ac_wire ctx t tag s) s"
  shows "moves strict R (get_arg_value ctx a t s) s" and "moves strict R (get_args ctx ft idx args s) s"
  using assms
proof (induction ctx a t s and ctx ft idx args s rule: get_arg_value_get_args.induct)
  case (1 ctx tag t s)
  then show ?case
    by (auto simp: tag_arg_value_def Let_def moves_here moves_smap intro!: moves_sbind)
next
  case (5 ctx fn args conds fl t s)
  note inner = 5
  obtain ft call where fn: "fn = Func ft call" by (cases fn)
  have "moves strict R (sbind (check_all ctx conds s) (\<lambda>ok s.
      if \<not> ok then Some (Inr None, s)
      else sbind (get_args ctx (func_type_of fn) 0 args s) (\<lambda>vs s.
          (case fn of Func ft call \<Rightarrow>
             (case call_func ft call vs of
                Inl e \<Rightarrow> Some (Inl (ErrMsg e), s)
              | Inr out \<Rightarrow> Some (rbind (check_assignable (ac_types ctx) out t) (\<lambda>v. Inr (Some v)), s)))))) s"
  proof (rule moves_sbind [OF check_all_moves])
    fix ok s1 assume "check_all ctx conds s = Some (Inr ok, s1)"
    with inner show "moves strict R (if \<not> ok then Some (Inr None, s1)
      else sbind (get_args ctx (func_type_of fn) 0 args s1) (\<lambda>vs s.
          (case fn of Func ft call \<Rightarrow>
             (case call_func ft call vs of
                Inl e \<Rightarrow> Some (Inl (ErrMsg e), s)
              | Inr out \<Rightarrow> Some (rbind (check_assignable (ac_types ctx) out t) (\<lambda>v. Inr (Some v)), s))))) s1"
      by (auto simp: moves_here fn split: sum.split intro!: moves_sbind)
  qed (use inner in simp)
  then show ?case by (simp add: moves_smap)
next
  case (7 ctx ft idx arg args s)
  then show ?case
    by (auto simp: moves_here moves_smap intro!: moves_sbind)
qed (auto simp: moves_here split: option.split)

lemma arg_ctx_moves:
  "\<forall>cnd s. moves strict R (ac_check (new_arg_context env c p wire) cnd s) s"
  "\<forall>t tag s. moves strict R (ac_bind (new_arg_context env c p wire) t tag s) s"
  "\<forall>t tag s. moves strict R (ac_wire (new_arg_context env c p wire) t tag s) s"
proof -
  show "\<forall>cnd s. moves strict R (ac_check (new_arg_context env c p wire) cnd s) s"
    by (simp add: new_arg_context_def moves_smap) (auto simp: moves_def R_refl dest: arg_cond.matches_le)
  show "\<forall>t tag s. moves strict R (ac_bind (new_arg_context env c p wire) t tag s) s"
    by (simp add: new_arg_context_def conf_bind_moves)
  show "\<forall>t tag s. moves strict R (ac_wire (new_arg_context env c p wire) t tag s) s"
    by (auto simp: new_arg_context_def moves_here intro!: moves_sbind [OF autowire_moves])
qed

lemma get_args_moves: "moves strict R (get_args (new_arg_context env c p wire) ft idx args s) s"
  by (rule args_move(2)) (rule arg_ctx_moves)+

lemma get_bean_value_moves: "moves strict R (get_bean_value env c wire b s) s"
proof (cases "bd_callable (wi_beans s ! b)")
  case (Some fa)
  obtain ft call args where fa: "fa = (Func ft call, args)" by (metis func.exhaust prod.exhaust)
  let ?run = "get_args (new_arg_context env c (dy_prop (wi_dync s)) wire) ft 0 args s"
  show ?thesis
  proof (cases ?run)
    case None
    with Some fa show ?thesis by (simp add: get_bean_value_def moves_def)
  next
    case run: (Some q)
    obtain r t where q: "q = (r, t)" by (cases q)
    have R: "R s t" if "strict \<longrightarrow> \<not> isl r" using get_args_moves run q that by (simp add: moves_def)
    show ?thesis
    proof (cases r)
      case (Inl e)
      with Some fa run q R show ?thesis using strict_force by (auto simp: get_bean_value_def moves_result)
    next
      case (Inr vs)
      then have R: "R s t" using R by simp
      have upd: "R s (t\<lparr>wi_values := vals\<rparr>)" for vals
        by (rule R_trans [OF R R_core]) (simp add: bean_simps)
      from Some fa run q Inr R upd show ?thesis
        by (auto simp: get_bean_value_def moves_result Let_def split: sum.split)
    qed
  qed
qed (simp add: get_bean_value_def moves_here)

lemma refresh_value_field_moves: "moves strict R (refresh_value_field env ob path f param s) s"
proof (cases "sf_cell f")
  case None
  let ?v = "ie_field0 env ob path" and ?g = "ie_gotype env (sf_type f)"
  show ?thesis
  proof (cases "refresh_plain_field (ie_bind env) (ie_bind_fuel env ?g ?v param) ?g ?v param (wi_dync s)")
    case (Some q)
    with None show ?thesis
      by (cases q) (simp_all add: refresh_value_field_def moves_here bean_simps)
  qed (use None in \<open>simp add: refresh_value_field_def moves_def\<close>)
next
  case (Some a)
  then show ?thesis
    by (auto simp: refresh_value_field_def Let_def moves_def R_core bean_simps dest: refresh_field_prop)
qed

lemma wire_inject_field_moves: "moves strict R (wire_inject_field env c wire b ob path f tag s) s"
  by (auto simp: wire_inject_field_def moves_here moves_smap autowire_moves bean_simps
      intro!: moves_sbind split: option.split)

lemma wire_fields_move:
  "env' = env \<Longrightarrow> c' = c \<Longrightarrow> wire' = wire \<Longrightarrow> moves strict R (wire_struct env' c' wire' b ob opt fs s) s"
  "env' = env \<Longrightarrow> c' = c \<Longrightarrow> wire' = wire \<Longrightarrow> moves strict R (wire_field env' c' wire' b ob opt f s) s"
proof (induction env' c' wire' b ob opt fs s and env' c' wire' b ob opt f s rule: wire_struct_wire_field.induct)
  case (3 env' c' wire' b ob opt nm aw ij vt ex anon t cell sub s)
  then show ?case
    by (auto simp: Let_def moves_here moves_smap wire_inject_field_moves refresh_value_field_moves
        split: option.split sum.split)
qed (auto simp: moves_here intro!: moves_sbind)

lemma wire_bean_value_moves: "moves strict R (wire_bean_value env c wire b s) s"
  by (auto simp: wire_bean_value_def moves_here wire_fields_move split: option.split)

end

section \<open>Wiring returns\<close>

definition ended :: "'a option \<Rightarrow> bool" where
  "ended run \<longleftrightarrow> run \<noteq> None"

lemma ended_simps [simp]:
  "ended (Some r)" "\<not> ended None" "ended (smap_err g run) = ended run" "ended (map_option f opt) = ended opt"
  by (auto simp: ended_def)

lemma endedE: "ended run \<Longrightarrow> (\<And>r s. run = Some (r, s) \<Longrightarrow> P) \<Longrightarrow> P"
  by (auto simp: ended_def)

text \<open>The fuel functions give the configuration enough, for a storage \<open>p\<close>.\<close>

definition conf_returns :: "'f inj_env \<Rightarrow> storage \<Rightarrow> bool" where
  "conf_returns env p \<longleftrightarrow>
     (\<forall>str. ended (resolve_conf (ie_resolve_fuel env str) (Some p) str)) \<and>
     (\<forall>g v q. ended (bind_value (ie_bind env) (ie_bind_fuel env g v q) p g v q) \<and>
        ended (bind_value ((ie_bind env)\<lparr>be_filter := None\<rparr>) (ie_bind_fuel env g v q) p g v q))"

text \<open>Where \<open>wireBean\<close> returns in every state that is ready, so does everything around it.\<close>

locale wiring_returns = wiring_steps env c wire False R
  for env :: "'f inj_env" and c and wire and R +
  fixes ready :: "'f wiring \<Rightarrow> bool"
  assumes ready_R: "ready s \<Longrightarrow> R s t \<Longrightarrow> ready t"
    and ready_conf: "ready s \<Longrightarrow> conf_returns env (dy_prop (wi_dync s))"
    and wire_returns: "ready s \<Longrightarrow> b \<in> set (ij_beans c) \<Longrightarrow> ended (wire b s)"
begin

lemma ready_after: "ready s \<Longrightarrow> moves False R run s \<Longrightarrow> run = Some (r, t) \<Longrightarrow> ready t"
  by (auto simp: moves_def intro: ready_R)

lemma sbind_returns:
  assumes "ended run" and "moves False R run s" and "ready s"
    and "\<And>a t. run = Some (Inr a, t) \<Longrightarrow> ready t \<Longrightarrow> ended (k a t)"
  shows "ended (sbind run k)"
  using assms(1)
proof (rule endedE)
  fix r t assume run: "run = Some (r, t)"
  with ready_after [OF assms(3,2)] assms(4) show ?thesis by (cases r) simp_all
qed

lemma wire_all_returns: "ready s \<Longrightarrow> set bs \<subseteq> set (ij_beans c) \<Longrightarrow> ended (wire_all wire bs s)"
proof (induction bs arbitrary: s)
  case (Cons b bs)
  then show ?case by (auto intro!: sbind_returns [OF wire_returns wire_moves])
qed simp

lemma conf_resolve_returns: "ready s \<Longrightarrow> ended (conf_resolve env str s)"
  using ready_conf by (auto simp: conf_resolve_def conf_returns_def)

lemma conf_bind_returns: "ready s \<Longrightarrow> ended (conf_bind env t tag s)"
  using ready_conf [of s]
  by (auto simp: conf_bind_def conf_returns_def Let_def bind_conf_def split: sum.split)

lemma get_bean_returns: "ready s \<Longrightarrow> ended (get_bean env c wire t tag s)"
  by (auto simp: get_bean_def pick_bean_in intro!: sbind_returns [OF wire_returns wire_moves]
      split: sum.split option.split)

lemma get_beans_returns: "ready s \<Longrightarrow> ended (get_beans env c wire t tags nullable s)"
  by (auto simp: get_beans_def intro!: sbind_returns [OF wire_all_returns wire_all_moves]
      split: sum.split dest: subsetD [OF pick_beans_in])

lemma autowire_returns: "ready s \<Longrightarrow> ended (autowire env c wire t str s)"
  unfolding autowire_def Let_def
  by (rule sbind_returns [OF conf_resolve_returns conf_resolve_moves])
    (auto split: prod.split
      intro!: sbind_returns [OF get_beans_returns get_beans_moves] sbind_returns [OF get_bean_returns get_bean_moves])

lemma check_all_returns:
  assumes "\<And>cnd s. moves False R (ac_check ctx cnd s) s" and "\<And>cnd s. ready s \<Longrightarrow> ended (ac_check ctx cnd s)"
  shows "ready s \<Longrightarrow> ended (check_all ctx cs s)"
proof (induction cs arbitrary: s)
  case (Cons cnd cs)
  then show ?case by (auto intro!: sbind_returns [OF assms(2) assms(1)])
qed simp

lemma args_return:
  fixes ctx :: "('f wiring, 'v) arg_ctx"
  assumes move: "(\<forall>cnd s. moves False R (ac_check ctx cnd s) s) \<and> (\<forall>t tag s. moves False R (ac_bind ctx t tag s) s) \<and>
      (\<forall>t tag s. moves False R (ac_wire ctx t tag s) s)"
    and returns: "(\<forall>cnd s. ready s \<longrightarrow> ended (ac_check ctx cnd s)) \<and> (\<forall>t tag s. ready s \<longrightarrow> ended (ac_bind ctx t tag s)) \<and>
      (\<forall>t tag s. ready s \<longrightarrow> ended (ac_wire ctx t tag s))"
  shows "ready s \<Longrightarrow> ended (get_arg_value ctx a t s)" and "ready s \<Longrightarrow> ended (get_args ctx ft idx args s)"
  using assms
proof (induction ctx a t s and ctx ft idx args s rule: get_arg_value_get_args.induct)
  case (1 ctx tag t s)
  then show ?case
    by (auto simp: tag_arg_value_def Let_def moves_smap intro!: sbind_returns)
next
  case (5 ctx fn args conds fl t s)
  note IH = 5(1) and hyps = 5(2,3,4)
  obtain ft call where fn: "fn = Func ft call" by (cases fn)
  have "ended (check_all ctx conds s)" by (rule check_all_returns) (use hyps in auto)
  moreover have "moves False R (check_all ctx conds s) s" by (rule check_all_moves) (use hyps in simp)
  moreover have "ended (sbind (get_args ctx (func_type_of fn) 0 args s1) k)"
    if run: "check_all ctx conds s = Some (Inr ok, s1)" and "ok" "ready s1"
      and k: "\<And>vs s. ended (k vs s)" for ok s1 and k :: "'v list \<Rightarrow> 'f wiring \<Rightarrow> ('f, 'v option) inj_run"
  proof (rule sbind_returns [OF _ _ \<open>ready s1\<close>])
    show "ended (get_args ctx (func_type_of fn) 0 args s1)" using IH [OF run] that hyps by simp
    show "moves False R (get_args ctx (func_type_of fn) 0 args s1) s1" by (rule args_move) (use hyps in simp_all)
  qed (rule k)
  ultimately show ?case using hyps(1)
    by (auto simp: fn intro!: sbind_returns split: sum.split)
next
  case (7 ctx ft idx arg args s)
  note IH = 7(1,2) and hyps = 7(3,4,5)
  let ?run = "get_arg_value ctx arg (arg_target (ac_types ctx) ft idx) s"
  have v: "ended ?run" using IH(1) hyps by blast
  have m: "moves False R ?run s" by (rule args_move) (use hyps in simp_all)
  have "ended (get_args ctx ft (idx + 1) args t)" if "?run = Some (Inr w, t)" "ready t" for w t
    using IH(2) [of w t] that hyps by simp
  moreover have "moves False R (get_args ctx ft (idx + 1) args t) t" for t
    by (rule args_move) (use hyps in simp_all)
  ultimately show ?case using v m hyps(1)
    by (auto simp: moves_smap intro!: sbind_returns)
qed (simp_all split: option.split)

lemma get_args_returns: "ready s \<Longrightarrow> ended (get_args (new_arg_context env c p wire) ft idx args s)"
proof (rule args_return(2))
  let ?ctx = "new_arg_context env c p wire"
  show "(\<forall>cnd s. moves False R (ac_check ?ctx cnd s) s) \<and> (\<forall>t tag s. moves False R (ac_bind ?ctx t tag s) s) \<and>
      (\<forall>t tag s. moves False R (ac_wire ?ctx t tag s) s)"
    by (intro conjI arg_ctx_moves)
  show "(\<forall>cnd s. ready s \<longrightarrow> ended (ac_check ?ctx cnd s)) \<and> (\<forall>t tag s. ready s \<longrightarrow> ended (ac_bind ?ctx t tag s)) \<and>
      (\<forall>t tag s. ready s \<longrightarrow> ended (ac_wire ?ctx t tag s))"
    using arg_cond.matches_returns
    by (auto simp: new_arg_context_def conf_bind_returns ended_def [of "matches _ _ _"]
        intro!: sbind_returns [OF autowire_returns autowire_moves])
qed

lemma get_bean_value_returns: "ready s \<Longrightarrow> ended (get_bean_value env c wire b s)"
proof (cases "bd_callable (wi_beans s ! b)")
  case (Some fa)
  assume ready: "ready s"
  obtain ft call args where fa: "fa = (Func ft call, args)" by (metis func.exhaust prod.exhaust)
  show ?thesis
    by (rule endedE [OF get_args_returns [OF ready, of "dy_prop (wi_dync s)" ft 0 args]])
      (simp add: get_bean_value_def Some fa Let_def split: sum.split)
qed (simp add: get_bean_value_def)

lemma refresh_value_field_returns: "ready s \<Longrightarrow> ended (refresh_value_field env ob path f param s)"
  using ready_conf [of s]
  by (auto simp: refresh_value_field_def conf_returns_def Let_def refresh_field_def refresh_plain_field_def on_valid_def
      split: option.split)

lemma wire_inject_field_returns: "ready s \<Longrightarrow> ended (wire_inject_field env c wire b ob path f tag s)"
  by (auto simp: wire_inject_field_def moves_smap autowire_moves autowire_returns intro!: sbind_returns)

lemma wire_fields_return:
  "env' = env \<Longrightarrow> c' = c \<Longrightarrow> wire' = wire \<Longrightarrow> ready s \<Longrightarrow> ended (wire_struct env' c' wire' b ob opt fs s)"
  "env' = env \<Longrightarrow> c' = c \<Longrightarrow> wire' = wire \<Longrightarrow> ready s \<Longrightarrow> ended (wire_field env' c' wire' b ob opt f s)"
proof (induction env' c' wire' b ob opt fs s and env' c' wire' b ob opt f s rule: wire_struct_wire_field.induct)
  case (3 env' c' wire' b ob opt nm aw ij vt ex anon t cell sub s)
  then show ?case
    by (auto simp: Let_def wire_inject_field_returns refresh_value_field_returns split: option.split sum.split)
qed (auto simp: wire_fields_move intro!: sbind_returns)

lemma wire_bean_value_returns: "ready s \<Longrightarrow> ended (wire_bean_value env c wire b s)"
  by (auto simp: wire_bean_value_def wire_fields_return split: option.split)

end

section \<open>What \<open>wireBean\<close> keeps\<close>

abbreviation status_of :: "'f wiring \<Rightarrow> nat \<Rightarrow> bean_status" where
  "status_of s b \<equiv> bd_status (wi_beans s ! b)"

definition wired_keys :: "'f wiring \<Rightarrow> nat set" where
  "wired_keys s = fst ` set (wi_deps s)"

text \<open>Nothing but the status of a definition changes, and it only moves on.\<close>

definition evolved :: "'v bean list \<Rightarrow> 'v bean list \<Rightarrow> bool" where
  "evolved bs bs' \<longleftrightarrow> list_all2 (\<lambda>b b'. b' = set_status (bd_status b') b \<and> bd_status b \<le> bd_status b') bs bs'"

text \<open>
  The beans whose wiring has ended, in the order it ended, with the path behind them: every
  recorded dependency of a bean stands before it.
\<close>

definition ranked :: "nat list \<Rightarrow> 'f wiring \<Rightarrow> bool" where
  "ranked fin s \<longleftrightarrow> distinct (fin @ wi_path s) \<and> gomap_wf (wi_deps s) \<and> wired_keys s = set (fin @ wi_path s) \<and>
     wi_cycle s = set (wi_path s) \<and>
     (\<forall>x \<in> set (fin @ wi_path s). x < length (wi_beans s) \<and> status_of s x \<ge> StatusCreating \<and>
        set (depends_of s x) \<subseteq> set (takeWhile ((\<noteq>) x) (fin @ wi_path s))) \<and>
     subseq (wi_inits s) fin"

text \<open>Off the path, the beans that were entered are wired and initialised, and no other was begun.\<close>

definition all_wired :: "'f wiring \<Rightarrow> bool" where
  "all_wired s \<longleftrightarrow> (\<forall>x < length (wi_beans s). x \<notin> wi_cycle s \<longrightarrow>
     (x \<in> wired_keys s \<longrightarrow> status_of s x = StatusWired \<and>
        (bd_init (wi_beans s ! x) \<noteq> None \<longrightarrow> x \<in> set (wi_inits s))) \<and>
     (status_of s x \<ge> StatusCreating \<longrightarrow> x \<in> wired_keys s))"

text \<open>From one state to another, with the bean \<open>b\<close> entered (if any) in between.\<close>

definition keeps_from :: "bool \<Rightarrow> nat list \<Rightarrow> 'f wiring \<Rightarrow> 'f wiring \<Rightarrow> bool" where
  "keeps_from strict entered s t \<longleftrightarrow> evolved (wi_beans s) (wi_beans t) \<and> wi_path t = entered @ wi_path s \<and>
     wi_cycle t = set entered \<union> wi_cycle s \<and> dy_prop (wi_dync t) = dy_prop (wi_dync s) \<and>
     wired_keys s \<subseteq> wired_keys t \<and>
     (\<forall>x \<in> wi_cycle s. status_of t x = status_of s x) \<and>
     ((\<exists>fin. ranked fin s) \<longrightarrow> (\<exists>fin. ranked fin t)) \<and> (strict \<longrightarrow> all_wired s \<longrightarrow> all_wired t)"

definition keeps :: "injector \<Rightarrow> bool \<Rightarrow> 'f wiring \<Rightarrow> 'f wiring \<Rightarrow> bool" where
  "keeps c strict s t \<longleftrightarrow> (\<forall>b \<in> set (ij_beans c). b < length (wi_beans s)) \<longrightarrow> keeps_from strict [] s t"

definition opened :: "bool \<Rightarrow> 'f wiring \<Rightarrow> nat \<Rightarrow> 'f wiring \<Rightarrow> bool" where
  "opened strict s b t \<longleftrightarrow> b \<notin> wi_cycle s \<and> b < length (wi_beans s) \<and> b \<in> wired_keys t \<and> keeps_from strict [b] s t \<and>
     (status_of t b = StatusCreating \<or> status_of t b = StatusCreated)"

lemma evolved_refl [simp]: "evolved bs bs"
  by (auto simp: evolved_def set_status_def list_all2_same)

lemma evolved_length: "evolved bs bs' \<Longrightarrow> length bs' = length bs"
  by (auto simp: evolved_def list_all2_lengthD)

lemma evolved_status: "evolved bs bs' \<Longrightarrow> b < length bs \<Longrightarrow> bd_status (bs ! b) \<le> bd_status (bs' ! b)"
  by (auto simp: evolved_def list_all2_conv_all_nth)

lemma set_status_idem [simp]: "set_status x (set_status y b) = set_status x b" "bd_status (set_status x b) = x"
  by (simp_all add: set_status_def)

lemma evolved_trans: "evolved bs cs \<Longrightarrow> evolved cs ds \<Longrightarrow> evolved bs ds"
  unfolding evolved_def
proof (erule list_all2_trans [rotated 1], assumption)
  fix b d e :: "'a bean"
  assume "d = set_status (bd_status d) b \<and> bd_status b \<le> bd_status d"
    and "e = set_status (bd_status e) d \<and> bd_status d \<le> bd_status e"
  then show "e = set_status (bd_status e) b \<and> bd_status b \<le> bd_status e"
    by (metis set_status_idem(1) order_trans)
qed

lemma put_status_beyond: "\<not> b < length bs \<Longrightarrow> put_status b st bs = bs"
  by (simp add: put_status_def list_update_beyond)

lemma status_put [simp]:
  "bd_status (put_status b st bs ! x) = (if x = b \<and> b < length bs then st else bd_status (bs ! x))"
  "length (put_status b st bs) = length bs"
  by (cases "b < length bs"; auto simp: put_status_beyond; simp add: put_status_def nth_list_update)
    (simp add: put_status_def)

lemma init_put [simp]: "bd_init (put_status b st bs ! x) = bd_init (bs ! x)"
proof (cases "b < length bs")
  case True
  then show ?thesis by (cases "x = b") (simp_all add: put_status_def set_status_def)
qed (simp add: put_status_beyond)

lemma evolved_put:
  assumes "bd_status (bs ! b) \<le> st"
  shows "evolved bs (put_status b st bs)"
proof -
  have "put_status b st bs ! i = set_status (bd_status (put_status b st bs ! i)) (bs ! i)" if "i < length bs" for i
    using that by (cases "i = b") (simp_all add: put_status_def nth_list_update set_status_def)
  with assms show ?thesis by (auto simp: evolved_def list_all2_conv_all_nth)
qed

lemma ranked_core: "core t = core s \<Longrightarrow> ranked fin t = ranked fin s"
  by (simp add: core_def ranked_def depends_of_def wired_keys_def)

lemma all_wired_core: "core t = core s \<Longrightarrow> all_wired t = all_wired s"
  by (simp add: core_def all_wired_def wired_keys_def)

lemma keeps_from_core:
  assumes "core t = core s"
  shows "keeps_from strict [] s t"
proof -
  from assms have "wi_beans t = wi_beans s" "wi_path t = wi_path s" "wi_cycle t = wi_cycle s"
    "dy_prop (wi_dync t) = dy_prop (wi_dync s)" "wired_keys t = wired_keys s" by (simp_all add: core_def wired_keys_def)
  then show ?thesis by (simp add: keeps_from_def ranked_core [OF assms] all_wired_core [OF assms])
qed

lemma keeps_from_trans:
  assumes "keeps_from strict xs s t" and "keeps_from strict [] t u"
  shows "keeps_from strict xs s u"
proof -
  note s = assms(1) [unfolded keeps_from_def] and t = assms(2) [unfolded keeps_from_def]
  have "evolved (wi_beans s) (wi_beans u)" using s t evolved_trans by blast
  moreover have "\<forall>x \<in> wi_cycle s. status_of u x = status_of s x" using s t by simp
  moreover have "wired_keys s \<subseteq> wired_keys u" using s t by (meson subset_trans)
  ultimately show ?thesis unfolding keeps_from_def using s t by simp
qed

lemma keeps_core: "core t = core s \<Longrightarrow> keeps c strict s t"
  by (simp add: keeps_def keeps_from_core)

lemma keeps_trans: "keeps c strict s t \<Longrightarrow> keeps c strict t u \<Longrightarrow> keeps c strict s u"
proof (unfold keeps_def, intro impI)
  assume st: "(\<forall>b \<in> set (ij_beans c). b < length (wi_beans s)) \<longrightarrow> keeps_from strict [] s t"
    and tu: "(\<forall>b \<in> set (ij_beans c). b < length (wi_beans t)) \<longrightarrow> keeps_from strict [] t u"
    and range: "\<forall>b \<in> set (ij_beans c). b < length (wi_beans s)"
  then have s: "keeps_from strict [] s t" by blast
  then have "length (wi_beans t) = length (wi_beans s)" by (auto simp: keeps_from_def evolved_length)
  with tu range have "keeps_from strict [] t u" by simp
  with s show "keeps_from strict [] s u" by (rule keeps_from_trans)
qed

text \<open>Entering a bean that was not begun, or passing one that was.\<close>

lemma depends_of_push:
  "depends_of (push_bean b s) x =
     (case wi_path s of [] \<Rightarrow> depends_of s x
      | cur # _ \<Rightarrow> if x = cur \<and> x \<in> wired_keys s then depend_on b (depends_of s x) else depends_of s x)"
proof -
  have keys: "([b \<mapsto> []] ++ m) x = (case m x of None \<Rightarrow> if x = b then Some [] else None | Some v \<Rightarrow> Some v)"
    for m :: "nat \<Rightarrow> nat list option" by (simp add: map_add_def split: option.split)
  have upd: "map_of (AList.map_entry cur (depend_on b) xs) x =
      (if x = cur then map_option (depend_on b) (map_of xs x) else map_of xs x)" for cur and xs :: "(nat, nat list) gomap"
    by (induction xs) (auto)
  have "x \<in> wired_keys s \<longleftrightarrow> (\<exists>ds. map_of (wi_deps s) x = Some ds)" by (simp add: map_of_ex_iff wired_keys_def)
  then show ?thesis
    by (cases "map_of (wi_deps s) x"; cases "wi_path s") (auto simp: depends_of_def push_bean_def Let_def keys upd)
qed

lemma push_bean_simps [simp]:
  "wi_beans (push_bean b s) = wi_beans s" "wi_inits (push_bean b s) = wi_inits s"
  "wi_path (push_bean b s) = b # wi_path s" "wi_cycle (push_bean b s) = insert b (wi_cycle s)"
  "wi_dync (push_bean b s) = wi_dync s" "wi_values (push_bean b s) = wi_values s"
  by (simp_all add: push_bean_def Let_def)

lemma fst_map_entry [simp]: "map fst (AList.map_entry k f xs) = map fst xs"
  by (induction xs) auto

lemma fst_set_map_entry [simp]: "fst ` set (AList.map_entry k f xs) = fst ` set xs"
  by (simp flip: set_map)

lemma push_bean_keys [simp]: "wired_keys (push_bean b s) = insert b (wired_keys s)"
proof -
  have "map_of xs b = None \<longleftrightarrow> b \<notin> fst ` set xs" for xs :: "(nat, nat list) gomap"
    by (simp add: map_of_eq_None_iff)
  then show ?thesis by (auto simp: push_bean_def Let_def wired_keys_def split: list.split)
qed

lemma gomap_wf_push [simp]: "gomap_wf (wi_deps s) \<Longrightarrow> gomap_wf (wi_deps (push_bean b s))"
  by (auto simp: push_bean_def Let_def gomap_wf_def map_of_eq_None_iff split: list.split)

lemma pop_bean_simps [simp]:
  "wi_beans (pop_bean s) = wi_beans s" "wi_inits (pop_bean s) = wi_inits s"
  "wi_path (pop_bean s) = tl (wi_path s)" "wi_cycle (pop_bean s) = wi_cycle s - {hd (wi_path s)}"
  "wi_dync (pop_bean s) = wi_dync s" "wi_deps (pop_bean s) = wi_deps s" "depends_of (pop_bean s) = depends_of s"
  "wired_keys (pop_bean s) = wired_keys s"
  by (simp_all add: pop_bean_def depends_of_def [abs_def] wired_keys_def)

lemma set_bean_status_simps [simp]:
  "wi_beans (set_bean_status b st s) = put_status b st (wi_beans s)" "wi_inits (set_bean_status b st s) = wi_inits s"
  "wi_path (set_bean_status b st s) = wi_path s" "wi_cycle (set_bean_status b st s) = wi_cycle s"
  "wi_dync (set_bean_status b st s) = wi_dync s" "wi_deps (set_bean_status b st s) = wi_deps s"
  "depends_of (set_bean_status b st s) = depends_of s" "wi_values (set_bean_status b st s) = wi_values s"
  "wired_keys (set_bean_status b st s) = wired_keys s"
  by (simp_all add: set_bean_status_def depends_of_def [abs_def] wired_keys_def)

lemma set_same_status: "set_bean_status b (status_of s b) s = s"
  by (simp add: set_bean_status_def put_status_def set_status_def)

lemma set_depend_on: "set (depend_on b ds) = insert b (set ds)"
  by (auto simp: depend_on_def)

lemma depends_of_wired: "x \<notin> wired_keys s \<Longrightarrow> depends_of s x = []"
  by (simp add: depends_of_def wired_keys_def map_of_eq_None_iff [symmetric] split: option.split)

lemma ranked_enter:
  assumes r: "ranked fin s" and b: "b \<notin> set fin" "b \<notin> wi_cycle s" "b < length (wi_beans s)" and st: "StatusCreating \<le> st"
  shows "ranked fin (set_bean_status b st (push_bean b s))"
proof -
  let ?t = "set_bean_status b st (push_bean b s)"
  have path: "b \<notin> set (wi_path s)" using r b by (simp add: ranked_def)
  have new: "b \<notin> wired_keys s" using r b path by (simp add: ranked_def)
  have deps: "depends_of (push_bean b s) x = (case wi_path s of [] \<Rightarrow> depends_of s x
      | cur # _ \<Rightarrow> if x = cur then depend_on b (depends_of s x) else depends_of s x)" for x
    using r by (auto simp: depends_of_push ranked_def split: list.split)
  have "set (depends_of ?t x) \<subseteq> set (takeWhile ((\<noteq>) x) (fin @ b # wi_path s))" if x: "x \<in> set (fin @ b # wi_path s)" for x
  proof (cases "x = b")
    case True
    then show ?thesis using path depends_of_wired [OF new] by (auto simp: deps split: list.split)
  next
    case False
    with x r have old: "set (depends_of s x) \<subseteq> set (takeWhile ((\<noteq>) x) (fin @ wi_path s))" by (simp add: ranked_def)
    show ?thesis
    proof (cases "x \<in> set fin")
      case True
      then have "x \<notin> set (wi_path s)" using r by (auto simp: ranked_def)
      with True old show ?thesis
        by (auto simp: deps takeWhile_append1 split: list.split)
    next
      case notin: False
      then have all: "takeWhile ((\<noteq>) x) (fin @ ys) = fin @ takeWhile ((\<noteq>) x) ys" for ys
        by (auto intro!: takeWhile_append2)
      from old False show ?thesis by (auto simp: deps all set_depend_on split: list.split)
    qed
  qed
  then show ?thesis using r b st path by (auto simp: ranked_def)
qed

lemma ranked_pass:
  assumes r: "ranked fin s" and b: "b \<in> set fin"
  shows "ranked fin (pop_bean (push_bean b s))"
proof -
  have path: "b \<notin> set (wi_path s)" "b \<in> wired_keys s" using r b by (auto simp: ranked_def)
  have "set (depends_of (push_bean b s) x) \<subseteq> set (takeWhile ((\<noteq>) x) (fin @ wi_path s))"
    if x: "x \<in> set (fin @ wi_path s)" for x
  proof -
    have "b \<in> set (takeWhile ((\<noteq>) x) (fin @ wi_path s))" if "x \<in> set (wi_path s)"
    proof -
      have "x \<notin> set fin" using r that by (auto simp: ranked_def)
      then have "takeWhile ((\<noteq>) x) (fin @ wi_path s) = fin @ takeWhile ((\<noteq>) x) (wi_path s)"
        by (auto intro!: takeWhile_append2)
      with b show ?thesis by simp
    qed
    moreover have "set (depends_of s x) \<subseteq> set (takeWhile ((\<noteq>) x) (fin @ wi_path s))" using r x by (simp add: ranked_def)
    ultimately show ?thesis by (auto simp: depends_of_push set_depend_on split: list.split if_splits)
  qed
  then show ?thesis using r b path by (auto simp: ranked_def)
qed

lemma ranked_leave:
  assumes r: "ranked fin t" and path: "wi_path t = b # P"
    and u: "wi_path u = wi_path t" "wi_cycle u = wi_cycle t" "wi_deps u = wi_deps t"
      "evolved (wi_beans t) (wi_beans u)" "wi_inits u = wi_inits t \<or> wi_inits u = wi_inits t @ [b]"
  shows "ranked (fin @ [b]) (pop_bean u)"
proof -
  have d: "depends_of u = depends_of t" "wired_keys u = wired_keys t"
    using u by (simp_all add: depends_of_def [abs_def] wired_keys_def)
  have "subseq (wi_inits u) (fin @ [b])"
    using r u(5) by (auto simp: ranked_def intro: subseq_append' subseq_rev_drop_many)
  moreover have "\<forall>x \<in> set (fin @ wi_path t). x < length (wi_beans u) \<and> status_of u x \<ge> StatusCreating"
  proof
    fix x assume x: "x \<in> set (fin @ wi_path t)"
    with r have "x < length (wi_beans t)" "StatusCreating \<le> status_of t x" unfolding ranked_def by blast+
    with evolved_length [OF u(4)] evolved_status [OF u(4)] show "x < length (wi_beans u) \<and> StatusCreating \<le> status_of u x"
      by (metis order_trans)
  qed
  ultimately show ?thesis using r u(1,2,3) path d unfolding ranked_def by auto
qed

lemma all_wired_enter:
  assumes "all_wired s" and "b \<notin> wi_cycle s"
  shows "all_wired (set_bean_status b st (push_bean b s))"
  using assms by (auto simp: all_wired_def)

lemma keeps_fromI:
  assumes "evolved (wi_beans s) (wi_beans t)" and "wi_path t = entered @ wi_path s"
    and "wi_cycle t = set entered \<union> wi_cycle s" and "dy_prop (wi_dync t) = dy_prop (wi_dync s)"
    and "wired_keys s \<subseteq> wired_keys t" and "\<And>x. x \<in> wi_cycle s \<Longrightarrow> status_of t x = status_of s x"
    and "\<And>fin. ranked fin s \<Longrightarrow> \<exists>fin. ranked fin t" and "strict \<Longrightarrow> all_wired s \<Longrightarrow> all_wired t"
  shows "keeps_from strict entered s t"
  using assms unfolding keeps_from_def by blast

lemma opened_push:
  assumes b: "b \<notin> wi_cycle s" "b < length (wi_beans s)" and st: "status_of s b < StatusCreating"
  shows "opened strict s b (set_bean_status b StatusCreating (push_bean b s))"
proof -
  have "\<exists>fin. ranked fin (set_bean_status b StatusCreating (push_bean b s))" if r: "ranked fin s" for fin
  proof -
    have "b \<notin> set fin"
    proof
      assume "b \<in> set fin"
      with r have "StatusCreating \<le> status_of s b" by (simp add: ranked_def)
      with st show False by simp
    qed
    from ranked_enter [OF r this b order_refl] show ?thesis by blast
  qed
  note ranked = this
  have "keeps_from strict [b] s (set_bean_status b StatusCreating (push_bean b s))"
  proof (rule keeps_fromI)
    show "all_wired (set_bean_status b StatusCreating (push_bean b s))" if "all_wired s"
      by (rule all_wired_enter [OF that b(1)])
    show "\<exists>fin. ranked fin (set_bean_status b StatusCreating (push_bean b s))" if "ranked fin s" for fin
      by (rule ranked [OF that])
  qed (use b st in \<open>auto intro!: evolved_put\<close>)
  with b show ?thesis by (simp add: opened_def)
qed

lemma keeps_passed:
  assumes b: "b \<notin> wi_cycle s" "b < length (wi_beans s)" and st: "status_of s b \<ge> StatusCreated"
  shows "keeps_from strict [] s (pop_bean (push_bean b s))"
proof -
  have "\<exists>fin. ranked fin (pop_bean (push_bean b s))" if r: "ranked fin s" for fin
  proof (cases "b \<in> set fin")
    case False
    have "StatusCreating \<le> status_of s b" using st by (rule order_trans [rotated]) (simp add: less_eq_bean_status_def)
    from ranked_enter [OF r False b this] have "ranked fin (push_bean b s)"
      using set_same_status [of b "push_bean b s"] by simp
    from ranked_leave [OF this, of b "wi_path s" "push_bean b s"] show ?thesis by auto
  qed (use ranked_pass [OF r] in blast)
  note ranked = this
  have "all_wired (pop_bean (push_bean b s))" if w: "all_wired s"
  proof -
    have "StatusCreating \<le> status_of s b" using st by (rule order_trans [rotated]) (simp add: less_eq_bean_status_def)
    with w b have "b \<in> wired_keys s" unfolding all_wired_def by blast
    with w b have "status_of s b = StatusWired \<and> (bd_init (wi_beans s ! b) \<noteq> None \<longrightarrow> b \<in> set (wi_inits s))"
      by (simp add: all_wired_def del: not_None_eq)
    with w b show ?thesis by (auto simp: all_wired_def)
  qed
  note wired = this
  show ?thesis
  proof (rule keeps_fromI)
    show "\<exists>fin. ranked fin (pop_bean (push_bean b s))" if "ranked fin s" for fin by (rule ranked [OF that])
    show "all_wired (pop_bean (push_bean b s))" if "all_wired s" by (rule wired [OF that])
  qed (use b in auto)
qed

lemma opened_keeps:
  assumes "opened strict s b t" and "keeps_from strict [] t u"
  shows "opened strict s b u"
proof -
  have "b \<in> wi_cycle t" using assms(1) by (simp add: opened_def keeps_from_def)
  then have "status_of u b = status_of t b" using assms(2) by (simp add: keeps_from_def)
  moreover have "wired_keys t \<subseteq> wired_keys u" using assms(2) by (simp add: keeps_from_def)
  moreover have "keeps_from strict [b] s u" using assms by (auto simp: opened_def intro: keeps_from_trans)
  ultimately show ?thesis using assms(1) by (auto simp: opened_def)
qed

lemma keeps_from_entered:
  assumes k: "keeps_from strict xs s t" and "wi_path u = ys @ wi_path s" "wi_cycle u = set ys \<union> wi_cycle s"
    and "wi_dync u = wi_dync t" "wired_keys u = wired_keys t" "wi_beans u = put_status b st (wi_beans t)"
    and "b \<notin> wi_cycle s" "status_of t b \<le> st"
    and "\<And>fin. ranked fin t \<Longrightarrow> \<exists>fin. ranked fin u" "strict \<Longrightarrow> all_wired t \<Longrightarrow> all_wired u"
  shows "keeps_from strict ys s u"
proof (rule keeps_fromI)
  note k = k [unfolded keeps_from_def]
  show "evolved (wi_beans s) (wi_beans u)"
    using k evolved_put [OF assms(8)] unfolding assms(6) by (blast intro: evolved_trans)
  show "status_of u x = status_of s x" if "x \<in> wi_cycle s" for x using k that assms(6,7) by auto
  show "\<exists>fin. ranked fin u" if "ranked fin s" for fin using k that assms(9) by blast
  show "all_wired u" if strict "all_wired s" using k that assms(10) by blast
qed (use k [unfolded keeps_from_def] assms in simp_all)

lemma opened_created:
  assumes o: "opened strict s b t"
  shows "opened strict s b (set_bean_status b StatusCreated t)"
proof -
  let ?u = "set_bean_status b StatusCreated t"
  have t: "keeps_from strict [b] s t" "b \<notin> wi_cycle s" "b \<in> wired_keys t" using o by (simp_all add: opened_def)
  have len: "b < length (wi_beans t)" and le: "status_of t b \<le> StatusCreated"
    using o by (auto simp: opened_def keeps_from_def evolved_length less_eq_bean_status_def)
  have c: "b \<in> wi_cycle t" "wi_path t = [b] @ wi_path s" "wi_cycle t = set [b] \<union> wi_cycle s"
    using t(1) by (simp_all add: keeps_from_def)
  have "\<exists>fin. ranked fin ?u" if "ranked fin t" for fin
    using that len by (intro exI [of _ fin]) (auto simp: ranked_def less_eq_bean_status_def)
  note ranked = this
  have "keeps_from strict [b] s ?u"
  proof (rule keeps_from_entered [OF t(1)])
    show "\<exists>fin. ranked fin ?u" if "ranked fin t" for fin by (rule ranked [OF that])
    have "x \<noteq> b" if "x \<notin> wi_cycle t" for x using that c(1) by blast
    then show "all_wired ?u" if "all_wired t" using that by (simp add: all_wired_def)
  qed (use t c le in simp_all)
  with t len o show ?thesis by (simp add: opened_def)
qed

lemma opened_close:
  assumes o: "opened strict s b t"
    and u: "wi_path u = wi_path t" "wi_cycle u = wi_cycle t" "wi_deps u = wi_deps t" "wi_dync u = wi_dync t"
      "wi_inits u = wi_inits t \<or> wi_inits u = wi_inits t @ [b]" "wi_beans u = put_status b st (wi_beans t)"
    and st: "status_of t b \<le> st" "strict \<longrightarrow> st = StatusWired"
    and init: "strict \<longrightarrow> bd_init (wi_beans t ! b) \<noteq> None \<longrightarrow> b \<in> set (wi_inits u)"
  shows "keeps_from strict [] s (pop_bean u)"
proof -
  from o have t: "keeps_from strict [b] s t" and b: "b \<notin> wi_cycle s" "b < length (wi_beans s)" by (auto simp: opened_def)
  have path: "wi_path t = b # wi_path s" using t by (simp add: keeps_from_def)
  have cycle: "wi_cycle t = insert b (wi_cycle s)" using t by (simp add: keeps_from_def)
  have keys: "wired_keys u = wired_keys t" using u(3) by (simp add: wired_keys_def)
  have ev: "evolved (wi_beans t) (wi_beans u)" unfolding u(6) by (rule evolved_put [OF st(1)])
  have "\<exists>fin. ranked fin (pop_bean u)" if "ranked fin t" for fin
    using ranked_leave [OF that path u(1,2,3) ev u(5)] by blast
  note ranked = this
  have "all_wired (pop_bean u)" if strict "all_wired t"
  proof -
    have "b < length (wi_beans t)" using t b by (auto simp: keeps_from_def evolved_length)
    moreover have "b \<in> wired_keys t" using o by (simp add: opened_def)
    moreover have "set (wi_inits t) \<subseteq> set (wi_inits u)" using u(5) by auto
    ultimately show ?thesis using that u st cycle path keys b(1) init by (auto simp: all_wired_def)
  qed
  note wired = this
  show ?thesis
  proof (rule keeps_from_entered [OF t])
    show "\<exists>fin. ranked fin (pop_bean u)" if "ranked fin t" for fin by (rule ranked [OF that])
    show "all_wired (pop_bean u)" if strict "all_wired t" by (rule wired [OF that])
  qed (use u path cycle keys b st in auto)
qed

lemma opened_range: "opened strict s b t \<Longrightarrow> length (wi_beans t) = length (wi_beans s)"
  by (auto simp: opened_def keeps_from_def evolved_length)

lemma opened_moves:
  assumes "opened strict s b t" and "moves strict (keeps c strict) run t" and "run = Some (q, v)"
    and "strict \<longrightarrow> \<not> isl q" and "\<forall>x \<in> set (ij_beans c). x < length (wi_beans s)"
  shows "opened strict s b v"
proof -
  from assms(2-4) have "keeps c strict t v" by (simp add: moves_def)
  with assms(5) opened_range [OF assms(1)] have "keeps_from strict [] t v" by (simp add: keeps_def)
  with assms(1) show ?thesis by (rule opened_keeps)
qed

lemma opened_abort:
  assumes "opened strict s b t" and "\<not> strict"
  shows "keeps_from strict [] s (pop_bean t)"
proof (rule opened_close [OF assms(1), where st = "status_of t b"])
  show "wi_beans t = put_status b (status_of t b) (wi_beans t)"
    by (simp add: put_status_def set_status_def)
qed (use assms in simp_all)

lemma init_bean_cases:
  assumes "init_bean env b t = Some (r, u)"
  shows "wi_beans u = wi_beans t \<and> wi_path u = wi_path t \<and> wi_cycle u = wi_cycle t \<and> wi_deps u = wi_deps t \<and>
    wi_dync u = wi_dync t \<and> (wi_inits u = wi_inits t \<or> wi_inits u = wi_inits t @ [b]) \<and>
    (bd_init (wi_beans t ! b) \<noteq> None \<longrightarrow> b \<in> set (wi_inits u))"
  using assms by (auto simp: init_bean_def Let_def split: option.splits)

lemma get_bean_value_valid: "\<not> ij_force c \<Longrightarrow> get_bean_value env c wire b s \<noteq> Some (Inr None, t)"
  by (auto simp: get_bean_value_def Let_def split: option.splits prod.splits sum.splits func.splits)

lemma wire_pushed_keeps:
  assumes loc: "wiring_steps c wire strict (keeps c strict)"
    and range: "\<forall>x \<in> set (ij_beans c). x < length (wi_beans s)"
    and b: "b \<notin> wi_cycle s" "b < length (wi_beans s)" "status_of s b \<noteq> StatusCreating"
    and run: "wire_pushed env c wire b (push_bean b s) = Some (r, u)" and ok: "strict \<longrightarrow> \<not> isl r"
  shows "keeps_from strict [] s (pop_bean u)"
proof (cases "status_of s b \<ge> StatusCreated")
  case True
  with run keeps_passed [OF b(1,2) True] show ?thesis by (simp add: wire_pushed_def)
next
  case False
  with b(3) have low: "status_of s b < StatusCreating"
    by (cases "status_of s b") (simp_all add: less_eq_bean_status_def less_bean_status_def)
  let ?t0 = "set_bean_status b StatusCreating (push_bean b s)"
  let ?deps = "concat (map (find_beans (wi_beans ?t0) (ij_beans c)) (bd_depends_on (wi_beans ?t0 ! b)))"
  let ?rest = "\<lambda>v t. let t = set_bean_status b StatusCreated t in
      sbind (if v = None then Some (Inr (), t) else sbind (wire_bean_value env c wire b t) (\<lambda>_ t. init_bean env b t))
        (\<lambda>_ t. Some (Inr (), set_bean_status b StatusWired t))"
  have o0: "opened strict s b ?t0" by (rule opened_push [OF b(1,2) low])
  have m1: "moves strict (keeps c strict) (wire_all wire ?deps ?t0) ?t0"
    by (rule wiring_steps.wire_all_moves [OF loc]) (auto dest: subsetD [OF set_find_beans])
  have run': "sbind (wire_all wire ?deps ?t0) (\<lambda>_ t. sbind (get_bean_value env c wire b t) ?rest) = Some (r, u)"
    using run False by (simp add: wire_pushed_def Let_def)
  then obtain q1 t1 where w1: "wire_all wire ?deps ?t0 = Some (q1, t1)" by (auto simp: sbind_Some_iff)
  show ?thesis
  proof (cases q1)
    case (Inl e)
    with run' w1 ok have "u = t1" "\<not> strict" by auto
    with opened_abort opened_moves [OF o0 m1 w1 _ range] show ?thesis by blast
  next
    case (Inr x)
    have o1: "opened strict s b t1" by (rule opened_moves [OF o0 m1 w1 _ range]) (simp add: Inr)
    from run' w1 Inr have run1: "sbind (get_bean_value env c wire b t1) ?rest = Some (r, u)" by simp
    then obtain q2 t2 where w2: "get_bean_value env c wire b t1 = Some (q2, t2)" by (auto simp: sbind_Some_iff)
    note m2 = wiring_steps.get_bean_value_moves [OF loc, of env b t1]
    show ?thesis
    proof (cases q2)
      case (Inl e)
      with run1 w2 ok have "u = t2" "\<not> strict" by auto
      with opened_abort opened_moves [OF o1 m2 w2 _ range] show ?thesis by blast
    next
      case (Inr v)
      let ?t3 = "set_bean_status b StatusCreated t2"
      have o3: "opened strict s b ?t3"
        by (rule opened_created, rule opened_moves [OF o1 m2 w2 _ range]) (simp add: Inr)
      from run1 w2 Inr have run2: "?rest v t2 = Some (r, u)" by simp
      have close: "keeps_from strict [] s (pop_bean (set_bean_status b StatusWired u'))"
        if "opened strict s b t" "wi_beans u' = wi_beans t" "wi_path u' = wi_path t" "wi_cycle u' = wi_cycle t"
          "wi_deps u' = wi_deps t" "wi_dync u' = wi_dync t" "wi_inits u' = wi_inits t \<or> wi_inits u' = wi_inits t @ [b]"
          "strict \<longrightarrow> bd_init (wi_beans t ! b) \<noteq> None \<longrightarrow> b \<in> set (wi_inits u')" for t u'
      proof (rule opened_close [OF that(1), where st = StatusWired])
        show "status_of t b \<le> StatusWired" by (cases "status_of t b") (simp_all add: less_eq_bean_status_def)
      qed (use that in simp_all)
      show ?thesis
      proof (cases v)
        case None
        with w2 Inr get_bean_value_valid wiring_steps.strict_force [OF loc] have "\<not> strict" by blast
        with run2 None close [OF o3, of ?t3] show ?thesis by simp
      next
        case (Some w)
        note m3 = wiring_steps.wire_bean_value_moves [OF loc, of env b ?t3]
        from run2 Some have run3: "sbind (sbind (wire_bean_value env c wire b ?t3) (\<lambda>_. init_bean env b))
            (\<lambda>_ t. Some (Inr (), set_bean_status b StatusWired t)) = Some (r, u)" by (simp add: Let_def)
        then obtain q4 t4 where w4: "wire_bean_value env c wire b ?t3 = Some (q4, t4)" by (auto simp: sbind_Some_iff)
        show ?thesis
        proof (cases q4)
          case (Inl e)
          with run3 w4 ok have "u = t4" "\<not> strict" by auto
          with opened_abort opened_moves [OF o3 m3 w4 _ range] show ?thesis by blast
        next
          case (Inr y)
          have o4: "opened strict s b t4" by (rule opened_moves [OF o3 m3 w4 _ range]) (simp add: Inr)
          from run3 w4 Inr obtain q5 t5 where w5: "init_bean env b t4 = Some (q5, t5)" by (auto simp: sbind_Some_iff)
          note i = init_bean_cases [OF w5]
          show ?thesis
          proof (cases q5)
            case (Inl e)
            with run3 w4 w5 \<open>q4 = Inr y\<close> ok have u: "u = t5" "\<not> strict" by auto
            show ?thesis unfolding u(1)
            proof (rule opened_close [OF o4, where st = "status_of t4 b"])
              show "wi_beans t5 = put_status b (status_of t4 b) (wi_beans t4)"
                using i by (simp add: put_status_def set_status_def)
            qed (use i u(2) in simp_all)
          next
            case (Inr z)
            with run3 w4 w5 \<open>q4 = Inr y\<close> have "u = set_bean_status b StatusWired t5" by simp
            with close [OF o4, of t5] i show ?thesis by simp
          qed
        qed
      qed
    qed
  qed
qed

lemma wire_bean_keeps:
  assumes range: "\<forall>x \<in> set (ij_beans c). x < length (wi_beans s)" and b: "b < length (wi_beans s)"
    and loc: "wiring_steps c (wire_bean env c n) strict (keeps c strict)"
  shows "moves strict (keeps_from strict []) (wire_bean env c (Suc n) b s) s"
proof -
  have "keeps_from strict [] s s" by (rule keeps_from_core) (rule refl)
  then show ?thesis
    using wire_pushed_keeps [OF loc range _ b] by (auto simp: moves_def)
qed

lemma wiring_steps_wire_bean: "wiring_steps c (wire_bean env c n) (strict \<and> \<not> ij_force c) (keeps c (strict \<and> \<not> ij_force c))"
proof (induction n)
  case 0
  show ?case by unfold_locales (auto simp: moves_def intro: keeps_core keeps_trans)
next
  case (Suc n)
  have "moves (strict \<and> \<not> ij_force c) (keeps c (strict \<and> \<not> ij_force c)) (wire_bean env c (Suc n) b s) s"
    if "b \<in> set (ij_beans c)" for b s
  proof (rule movesI)
    fix r t assume "wire_bean env c (Suc n) b s = Some (r, t)" "strict \<and> \<not> ij_force c \<longrightarrow> \<not> isl r"
    with wire_bean_keeps [OF _ _ Suc] that show "keeps c (strict \<and> \<not> ij_force c) s t"
      unfolding keeps_def moves_def by blast
  qed
  then show ?case by unfold_locales (auto intro: keeps_core keeps_trans)
qed

interpretation wiring: wiring_steps env c "wire_bean env c n" "strict \<and> \<not> ij_force c" "keeps c (strict \<and> \<not> ij_force c)"
  for env c n strict
  by (rule wiring_steps_wire_bean)

section \<open>The number of beans bounds the depth of the wiring\<close>

definition not_begun :: "'f wiring \<Rightarrow> nat set" where
  "not_begun s = {x. x < length (wi_beans s) \<and> status_of s x < StatusCreating}"

definition wire_ready :: "'f inj_env \<Rightarrow> injector \<Rightarrow> nat \<Rightarrow> 'f wiring \<Rightarrow> bool" where
  "wire_ready env c n s \<longleftrightarrow> (\<forall>b \<in> set (ij_beans c). b < length (wi_beans s)) \<and>
     conf_returns env (dy_prop (wi_dync s)) \<and> card (not_begun s) < n"

lemma not_begun_finite [simp]: "finite (not_begun s)"
  by (simp add: not_begun_def)

lemma not_begun_evolved: "evolved (wi_beans s) (wi_beans t) \<Longrightarrow> not_begun t \<subseteq> not_begun s"
  using evolved_status by (fastforce simp: not_begun_def evolved_length)

lemma wire_ready_keeps:
  assumes "wire_ready env c n s" and "keeps c strict s t"
  shows "wire_ready env c n t"
proof -
  from assms have k: "keeps_from strict [] s t" by (simp add: keeps_def wire_ready_def)
  then have ev: "evolved (wi_beans s) (wi_beans t)" by (simp add: keeps_from_def)
  have "card (not_begun t) \<le> card (not_begun s)" by (rule card_mono [OF _ not_begun_evolved [OF ev]]) simp
  then show ?thesis using assms(1) k evolved_length [OF ev] by (simp add: wire_ready_def keeps_from_def)
qed

lemma wire_ready_begun:
  assumes "wire_ready env c (Suc n) s" and "b < length (wi_beans s)" and "status_of s b < StatusCreating"
  shows "wire_ready env c n (set_bean_status b StatusCreating (push_bean b s))"
proof -
  let ?t = "set_bean_status b StatusCreating (push_bean b s)"
  have "not_begun ?t = not_begun s - {b}" by (auto simp: not_begun_def split: if_splits)
  moreover have "b \<in> not_begun s" using assms by (simp add: not_begun_def)
  ultimately have "card (not_begun ?t) < card (not_begun s)"
    by (simp only: card_Diff1_less not_begun_finite)
  with assms(1) show ?thesis by (simp add: wire_ready_def)
qed

lemma wire_ready_created:
  assumes "wire_ready env c n s"
  shows "wire_ready env c n (set_bean_status b StatusCreated s)"
proof -
  have "not_begun (set_bean_status b StatusCreated s) \<subseteq> not_begun s"
    by (auto simp: not_begun_def less_bean_status_def split: if_splits)
  then have "card (not_begun (set_bean_status b StatusCreated s)) \<le> card (not_begun s)" by (rule card_mono [rotated]) simp
  with assms show ?thesis by (simp add: wire_ready_def)
qed

lemma wiring_steps_any: "wiring_steps c (wire_bean env c n) False (keeps c False)"
  using wiring_steps_wire_bean [of c env n False] by simp

lemma wire_pushed_returns:
  assumes loc: "wiring_returns env c wire (keeps c False) (wire_ready env c n)"
    and ready: "wire_ready env c (Suc n) s" and b: "b < length (wi_beans s)" "status_of s b \<noteq> StatusCreating"
  shows "ended (wire_pushed env c wire b (push_bean b s))"
proof (cases "status_of s b \<ge> StatusCreated")
  case False
  with b(2) have "status_of s b < StatusCreating"
    by (cases "status_of s b") (simp_all add: less_eq_bean_status_def less_bean_status_def)
  note t0 = wire_ready_begun [OF ready b(1) this]
  have steps: "wiring_steps c wire False (keeps c False)" using loc by (simp add: wiring_returns_def)
  note seq = wiring_returns.sbind_returns [OF loc]
  have in_range: "set (concat (map (find_beans bs (ij_beans c)) sels)) \<subseteq> set (ij_beans c)" for bs :: "'a ivalue bean list" and sels
    by (auto dest: subsetD [OF set_find_beans])
  have deps: "ended (wire_all wire (concat (map (find_beans bs (ij_beans c)) sels)) t)" if "wire_ready env c n t" for bs :: "'a ivalue bean list" and sels t
    by (rule wiring_returns.wire_all_returns [OF loc that in_range])
  have deps_moves: "moves False (keeps c False) (wire_all wire (concat (map (find_beans bs (ij_beans c)) sels)) t) t" for bs :: "'a ivalue bean list" and sels t
    by (rule wiring_steps.wire_all_moves [OF steps in_range])
  have valu: "ended (get_bean_value env c wire b t)" if "wire_ready env c n t" for t
    by (rule wiring_returns.get_bean_value_returns [OF loc that])
  have valu_moves: "moves False (keeps c False) (get_bean_value env c wire b t) t" for t
    by (rule wiring_steps.get_bean_value_moves [OF steps])
  have fields: "ended (wire_bean_value env c wire b t)" if "wire_ready env c n t" for t
    by (rule wiring_returns.wire_bean_value_returns [OF loc that])
  have fields_moves: "moves False (keeps c False) (wire_bean_value env c wire b t) t" for t
    by (rule wiring_steps.wire_bean_value_moves [OF steps])
  have init: "ended (init_bean env b t)" for t :: "'a wiring"
    by (auto simp: init_bean_def Let_def split: option.split)
  have tail: "ended (sbind run (\<lambda>_ t. Some (Inr (), set_bean_status b StatusWired t)))" if "ended run" for run :: "('a, unit) inj_run"
    using that by (cases run rule: option.exhaust; cases "the run"; cases "fst (the run)") auto
  have rest: "ended (sbind (if v = None then Some (Inr (), t)
        else sbind (wire_bean_value env c wire b t) (\<lambda>_. init_bean env b)) (\<lambda>_ t. Some (Inr (), set_bean_status b StatusWired t)))"
    if "wire_ready env c n t" for v :: "'a ivalue option" and t
    by (rule tail) (auto intro!: seq [OF fields [OF that] fields_moves that] init that)
  show ?thesis
    unfolding wire_pushed_def Let_def using False
    by (auto intro!: seq [OF deps deps_moves] seq [OF valu valu_moves] rest wire_ready_created t0)
qed (simp add: wire_pushed_def)

lemma wire_bean_ends:
  assumes loc: "wiring_returns env c (wire_bean env c n) (keeps c False) (wire_ready env c n)"
    and "wire_ready env c (Suc n) s" and "b < length (wi_beans s)"
  shows "ended (wire_bean env c (Suc n) b s)"
  using wire_pushed_returns [OF assms] by auto

lemma wiring_returns_wire_bean:
  "wiring_returns env c (wire_bean env c n) (keeps c False) (wire_ready env c n)"
proof (induction n)
  case 0
  show ?case
    by (intro wiring_returns.intro wiring_steps_any wiring_returns_axioms.intro)
      (auto simp: wire_ready_def intro: wire_ready_keeps)
next
  case (Suc n)
  show ?case
  proof (intro wiring_returns.intro wiring_steps_any wiring_returns_axioms.intro)
    show "ended (wire_bean env c (Suc n) b s)" if "wire_ready env c (Suc n) s" "b \<in> set (ij_beans c)" for s b
      using wire_bean_ends [OF Suc] that by (auto simp: wire_ready_def)
    show "wire_ready env c (Suc n) t" if "wire_ready env c (Suc n) s" "keeps c False s t" for s t
      by (rule wire_ready_keeps [OF that])
    show "conf_returns env (dy_prop (wi_dync s))" if "wire_ready env c (Suc n) s" for s
      using that by (simp add: wire_ready_def)
  qed
qed

interpretation wiring_ends: wiring_returns env c "wire_bean env c n" "keeps c False" "wire_ready env c n" for env c n
  by (rule wiring_returns_wire_bean)

section \<open>The lazy fields\<close>

text \<open>Once nothing is being wired any more, injection asks \<open>wireBean\<close> for nothing.\<close>

interpretation idle: wiring_returns env c "\<lambda>_ s. Some (Inr (), s)" "\<lambda>s t. core t = core s"
    "\<lambda>s. conf_returns env (dy_prop (wi_dync s))" for env c
  by unfold_locales (auto simp: moves_def core_def)

lemma autowire_idle:
  assumes "ij_state c \<noteq> Refreshing"
  shows "autowire env c wire t str s = autowire env c (\<lambda>_ s. Some (Inr (), s)) t str s"
proof -
  have bean: "get_bean env c wire = get_bean env c (\<lambda>_ s. Some (Inr (), s))"
    and beans: "get_beans env c wire = get_beans env c (\<lambda>_ s. Some (Inr (), s))"
    using assms by (simp_all add: get_bean_def [abs_def] get_beans_def [abs_def] cong: option.case_cong sum.case_cong)
  show ?thesis unfolding autowire_def bean beans ..
qed

lemma wire_lazy_core:
  "ij_state c \<noteq> Refreshing \<Longrightarrow> wire_lazy env c fs s = Some (r, t) \<Longrightarrow> core t = core s"
proof (induction fs arbitrary: s)
  case (Cons f fs)
  let ?tag = "take (length (lf_tag f) - length '',lazy'') (lf_tag f)"
  let ?run = "autowire env c (\<lambda>_ s. Some (Inr (), s)) (lf_type f) ?tag s"
  from Cons.prems obtain q u where run: "?run = Some (q, u)"
    by (auto simp: autowire_idle [of c env "wire_bean env c 0"] sbind_smap_Some_iff)
  have u: "core u = core s" using idle.autowire_moves [of env c "lf_type f" ?tag s] run by (simp add: moves_def)
  show ?case
  proof (cases q)
    case (Inl e)
    with Cons.prems run u show ?thesis
      by (simp add: autowire_idle [of c env "wire_bean env c 0"] smap_err_def)
  next
    case (Inr v)
    with Cons.prems run have "wire_lazy env c fs (case v of None \<Rightarrow> u | Some w \<Rightarrow> set_field (lf_object f) (lf_path f) w u) = Some (r, t)"
      by (simp add: autowire_idle [of c env "wire_bean env c 0"] smap_err_def)
    with Cons.IH Cons.prems(1) u show ?thesis by (auto simp: bean_simps split: option.splits)
  qed
qed simp

lemma wire_lazy_returns:
  "ij_state c \<noteq> Refreshing \<Longrightarrow> conf_returns env (dy_prop (wi_dync s)) \<Longrightarrow> ended (wire_lazy env c fs s)"
proof (induction fs arbitrary: s)
  case (Cons f fs)
  let ?tag = "take (length (lf_tag f) - length '',lazy'') (lf_tag f)"
  let ?run = "autowire env c (\<lambda>_ s. Some (Inr (), s)) (lf_type f) ?tag s"
  have "ended ?run" by (rule idle.autowire_returns [OF Cons.prems(2)])
  then obtain q u where run: "?run = Some (q, u)" by (rule endedE)
  then have "core u = core s" using idle.autowire_moves [of env c "lf_type f" ?tag s] by (simp add: moves_def)
  then have "dy_prop (wi_dync u) = dy_prop (wi_dync s)" by (simp add: core_def)
  with run Cons show ?case
    by (cases q) (auto simp: autowire_idle [of c env "wire_bean env c 0"] smap_err_def set_field_def split: option.split)
qed simp

section \<open>\<open>Refresh\<close>\<close>

text \<open>Entered beans stay entered.\<close>

abbreviation keys_grow :: "'f wiring \<Rightarrow> 'f wiring \<Rightarrow> bool" where
  "keys_grow s t \<equiv> wired_keys s \<subseteq> wired_keys t"

lemma init_bean_keys: "moves False keys_grow (init_bean env b s) s"
  by (auto simp: moves_def init_bean_def Let_def wired_keys_def split: option.splits)

text \<open>A relation that does not look at statuses and inits is kept behind the push.\<close>

lemma wire_pushed_moves:
  assumes loc: "wiring_steps c wire False R"
    and status: "\<And>st t. R t (set_bean_status b st t)" and init: "\<And>t. moves False R (init_bean env b t) t"
  shows "moves False R (wire_pushed env c wire b s) s"
proof (cases "status_of s b \<ge> StatusCreated")
  case False
  note seq = wiring_steps.moves_sbind [OF loc] and shift = wiring_steps.moves_trans [OF loc]
  have deps: "moves False R (wire_all wire (concat (map (find_beans bs (ij_beans c)) sels)) t) t"
    for bs :: "'a ivalue bean list" and sels t
    by (rule wiring_steps.wire_all_moves [OF loc]) (auto dest: subsetD [OF set_find_beans])
  have last: "moves False R (Some (r, set_bean_status b st t)) t"
    for st t and r :: "(go_error, unit) result" by (simp add: moves_result status)
  have tail: "moves False R (if v = None then Some (Inr (), t)
      else sbind (wire_bean_value env c wire b t) (\<lambda>_. init_bean env b)) t" for v :: "'a ivalue option" and t
    by (cases v)
      (simp_all add: moves_result wiring_steps.R_refl [OF loc] seq [OF wiring_steps.wire_bean_value_moves [OF loc] init])
  have "moves False R (wire_pushed env c wire b s) s"
    unfolding wire_pushed_def Let_def if_not_P [OF False]
    by (rule shift [OF status], rule seq [OF deps], rule seq [OF wiring_steps.get_bean_value_moves [OF loc]],
        rule shift [OF status], rule seq [OF tail last])
  then show ?thesis .
qed (simp add: wire_pushed_def moves_result wiring_steps.R_refl [OF loc])

lemma wire_pushed_keys:
  assumes "wiring_steps c wire False keys_grow"
  shows "moves False keys_grow (wire_pushed env c wire b s) s"
  by (rule wire_pushed_moves [OF assms _ init_bean_keys]) simp

lemma wiring_steps_keys: "wiring_steps c (wire_bean env c n) False keys_grow"
proof (induction n)
  case (Suc n)
  have "moves False keys_grow (wire_bean env c (Suc n) b s) s" for b s
    using wire_pushed_keys [OF Suc, of env b "push_bean b s"] by (auto simp: moves_def)
  then show ?case by unfold_locales (auto simp: core_def wired_keys_def)
qed (unfold_locales, auto simp: moves_def core_def wired_keys_def)

interpretation key_steps: wiring_steps env c "wire_bean env c n" False keys_grow for env c n
  by (rule wiring_steps_keys)

lemma wire_bean_enters:
  assumes "wire_bean env c n b s = Some (Inr (), t)" and "b \<notin> wi_cycle s"
  shows "b \<in> wired_keys t"
proof (cases n)
  case (Suc m)
  with assms obtain u where "wire_pushed env c (wire_bean env c m) b (push_bean b s) = Some (Inr (), u)" "t = pop_bean u"
    by (auto split: if_splits)
  with wire_pushed_keys [OF wiring_steps_keys [of c env m], of env b "push_bean b s"] show ?thesis
    by (auto simp: moves_def)
qed (use assms in simp)

text \<open>Wiring enters beans of the index only, apart from the one it was called for.\<close>

abbreviation keys_within :: "injector \<Rightarrow> 'f wiring \<Rightarrow> 'f wiring \<Rightarrow> bool" where
  "keys_within c s t \<equiv> wired_keys t \<subseteq> wired_keys s \<union> set (ij_beans c)"

lemma init_bean_within: "moves False (keys_within c) (init_bean env b s) s"
  by (auto simp: moves_def init_bean_def Let_def wired_keys_def split: option.splits)

lemma wire_bean_within:
  assumes "\<And>m. n = Suc m \<Longrightarrow> wiring_steps c (wire_bean env c m) False (keys_within c)"
  shows "moves False (\<lambda>s t. wired_keys t \<subseteq> insert b (wired_keys s) \<union> set (ij_beans c)) (wire_bean env c n b s) s"
proof (cases n)
  case (Suc m)
  have "moves False (keys_within c) (wire_pushed env c (wire_bean env c m) b (push_bean b s)) (push_bean b s)"
    by (rule wire_pushed_moves [OF assms [OF Suc] _ init_bean_within]) auto
  then show ?thesis unfolding Suc by (auto simp: moves_def)
qed (simp add: moves_def)

lemma wiring_steps_within: "wiring_steps c (wire_bean env c n) False (keys_within c)"
proof (induction n)
  case (Suc n)
  have "moves False (keys_within c) (wire_bean env c (Suc n) b s) s" if "b \<in> set (ij_beans c)" for b s
    using wire_bean_within [of "Suc n" c env b s] Suc that by (auto simp: moves_def)
  then show ?case by unfold_locales (blast | simp add: core_def wired_keys_def del: wire_bean.simps)+
next
  case 0
  show ?case by unfold_locales (blast | simp add: moves_def core_def wired_keys_def)+
qed

lemma wire_roots_within:
  assumes "wire_all (wire_bean env c n) roots s = Some (r, t)"
  shows "wired_keys t \<subseteq> wired_keys s \<union> set roots \<union> set (ij_beans c)"
  using assms
proof (induction roots arbitrary: s)
  case (Cons b bs)
  obtain q u where run: "wire_bean env c n b s = Some (q, u)" using Cons.prems by (auto simp: sbind_Some_iff)
  with wire_bean_within [where n = n and c = c and env = env and b = b and s = s, OF wiring_steps_within]
  have u: "wired_keys u \<subseteq> insert b (wired_keys s) \<union> set (ij_beans c)"
    by (simp add: moves_def)
  show ?case
  proof (cases q)
    case (Inl e)
    with run Cons.prems u show ?thesis by auto
  next
    case (Inr x)
    with run Cons.prems have "wire_all (wire_bean env c n) bs u = Some (r, t)" by simp
    from Cons.IH [OF this] u show ?thesis by auto
  qed
qed auto

lemma start_simps [simp]:
  "wi_beans (start_wiring bs vals d) = bs" "wi_dync (start_wiring bs vals d) = d"
  "wi_path (start_wiring bs vals d) = []" "wi_cycle (start_wiring bs vals d) = {}"
  "wired_keys (start_wiring bs vals d) = {}" "wi_inits (start_wiring bs vals d) = []"
  "ranked [] (start_wiring bs vals d)"
  by (simp_all add: start_wiring_def wired_keys_def ranked_def)

lemma wire_roots_keeps:
  assumes range: "\<forall>b \<in> set roots \<union> set (ij_beans c). b < length (wi_beans s)"
    and run: "wire_all (wire_bean env c n) roots s = Some (r, t)"
    and ok: "strict \<longrightarrow> \<not> isl r" and force: "strict \<longrightarrow> \<not> ij_force c"
  shows "keeps_from strict [] s t \<and> (\<not> isl r \<longrightarrow> wi_cycle s = {} \<longrightarrow> set roots \<subseteq> wired_keys t)"
  using assms
proof (induction roots arbitrary: s)
  case Nil
  then show ?case using keeps_from_core [of s s strict] by auto
next
  case (Cons b bs)
  obtain m where n: "n = Suc m" using Cons.prems(2) by (cases n) auto
  obtain q u where run: "wire_bean env c n b s = Some (q, u)"
    using Cons.prems(2) by (auto simp: sbind_Some_iff)
  have loc: "wiring_steps c (wire_bean env c m) strict (keeps c strict)"
  proof (cases strict)
    case True
    with Cons.prems(4) wiring_steps_wire_bean [of c env m True] show ?thesis by simp
  next
    case False
    with wiring_steps_any [of c env m] show ?thesis by simp
  qed
  show ?case
  proof (cases q)
    case (Inl e)
    with run Cons.prems(2,3) have "u = t" "\<not> strict" "isl r" by auto
    with wire_bean_keeps [OF _ _ loc, of s b] run n Cons.prems(1) show ?thesis by (simp add: moves_def del: wire_bean.simps)
  next
    case (Inr x)
    with wire_bean_keeps [OF _ _ loc, of s b] run n Cons.prems(1) have su: "keeps_from strict [] s u"
      by (simp add: moves_def del: wire_bean.simps)
    then have len: "length (wi_beans u) = length (wi_beans s)" and cyc: "wi_cycle u = wi_cycle s"
      by (simp_all add: keeps_from_def evolved_length)
    have rest: "wire_all (wire_bean env c n) bs u = Some (r, t)" using Cons.prems(2) run Inr by simp
    from Cons.IH [OF _ rest] Cons.prems len have ut: "keeps_from strict [] u t"
      and keys: "\<not> isl r \<longrightarrow> wi_cycle u = {} \<longrightarrow> set bs \<subseteq> wired_keys t" by auto
    have "b \<in> wired_keys t" if "wi_cycle s = {}"
    proof -
      have "b \<in> wired_keys u" using run Inr that by (intro wire_bean_enters [of env c n b s u]) simp_all
      with ut show ?thesis by (auto simp: keeps_from_def)
    qed
    with keeps_from_trans [OF su ut] keys cyc show ?thesis by auto
  qed
qed

text \<open>The parts of a refresh that came to the sorting of the destroyers.\<close>

lemma refresh_injecting_cases:
  assumes "refresh_injecting env n roots beans bs vals d = Some (r, con, s)"
  obtains (failed) e where "r = Inl (WireFailed e)" "in_destroyers con = []"
  | (sorted) c u q where "c = \<lparr>ij_state = Refreshing, ij_beans = beans, ij_force = force_nullable (dy_prop d)\<rparr>"
      "wire_all (wire_bean env c n) roots (start_wiring bs vals d) = Some (Inr (), u)" "core s = core u"
      "get_sorted_destroyers env s = Some q"
      "case q of Inl e \<Rightarrow> r = Inl (SortFailed e) \<and> in_destroyers con = []
       | Inr ds \<Rightarrow> r = Inr () \<and> in_destroyers con = map (\<lambda>(b, fn). (fn, wi_values s b)) ds"
proof -
  let ?c = "\<lparr>ij_state = Refreshing, ij_beans = beans, ij_force = force_nullable (dy_prop d)\<rparr>"
  obtain q u where roots: "wire_all (wire_bean env ?c n) roots (start_wiring bs vals d) = Some (q, u)"
    using assms by (auto simp: refresh_injecting_def Let_def split: option.splits)
  show ?thesis
  proof (cases q)
    case (Inl e)
    with roots assms show ?thesis by (intro failed [of e]) (auto simp: refresh_injecting_def Let_def)
  next
    case (Inr x)
    then obtain p w where lzy: "wire_lazy env (?c\<lparr>ij_state := Refreshed\<rparr>) (wi_lazy u) u = Some (p, w)"
      using roots assms by (auto simp: refresh_injecting_def Let_def split: option.splits)
    show ?thesis
    proof (cases p)
      case (Inl e)
      with roots Inr lzy assms show ?thesis by (intro failed [of e]) (auto simp: refresh_injecting_def Let_def)
    next
      case (Inr y)
      obtain q' where sort: "get_sorted_destroyers env w = Some q'"
        using roots \<open>q = Inr x\<close> lzy Inr assms by (auto simp: refresh_injecting_def Let_def)
      have w: "w = s" using roots \<open>q = Inr x\<close> lzy Inr assms sort
        by (cases q') (auto simp: refresh_injecting_def Let_def)
      have "core w = core u" by (rule wire_lazy_core [OF _ lzy]) simp
      with roots \<open>q = Inr x\<close> lzy Inr assms sort w show ?thesis
        by (intro sorted [OF refl, of u q']) (auto simp: refresh_injecting_def Let_def split: sum.split)
    qed
  qed
qed

section \<open>Properties of a refresh\<close>

text \<open>One element stands before another in a list.\<close>

definition before :: "nat list \<Rightarrow> nat \<Rightarrow> nat \<Rightarrow> bool" where
  "before xs x y \<longleftrightarrow> (\<exists>as bs cs. xs = as @ x # bs @ y # cs)"

lemma before_rev: "before (rev xs) x y \<longleftrightarrow> before xs y x"
proof -
  have "before ys y x" if "before (rev ys) x y" for ys x y
  proof -
    from that obtain as bs cs where "rev ys = as @ x # bs @ y # cs" by (auto simp: before_def)
    then have "ys = rev cs @ y # rev bs @ x # rev as" by (simp add: rev_swap)
    then show ?thesis unfolding before_def by blast
  qed
  from this [of xs x y] this [of "rev xs" y x] show ?thesis by auto
qed

lemma before_filter:
  assumes "before xs x y" and "P x" and "P y"
  shows "before (filter P xs) x y"
proof -
  from assms(1) obtain as bs cs where "xs = as @ x # bs @ y # cs" by (auto simp: before_def)
  with assms have "filter P xs = filter P as @ x # filter P bs @ y # filter P cs" by simp
  then show ?thesis unfolding before_def by blast
qed

lemma takeWhile_before: "y \<in> set (takeWhile ((\<noteq>) x) xs) \<Longrightarrow> x \<in> set xs \<Longrightarrow> before xs y x"
proof (induction xs)
  case (Cons a xs)
  show ?case
  proof (cases "a = y")
    case True
    have "x \<noteq> a" using Cons.prems(1) by (cases "x = a") simp_all
    then have "x \<in> set xs" using Cons.prems(2) by simp
    then obtain bs cs where "xs = bs @ x # cs" by (meson split_list)
    then have "a # xs = [] @ y # bs @ x # cs" using True by simp
    then show ?thesis unfolding before_def by blast
  next
    case False
    have "x \<noteq> a" using Cons.prems(1) by (cases "x = a") simp_all
    with False Cons have "before xs y x" by simp
    then obtain as bs cs where "xs = as @ y # bs @ x # cs" by (auto simp: before_def)
    then have "a # xs = (a # as) @ y # bs @ x # cs" by simp
    then show ?thesis unfolding before_def by blast
  qed
qed simp

lemma before_subseq:
  assumes "subseq ys xs" and "distinct xs" and "before xs x y" and "x \<in> set ys" and "y \<in> set ys"
  shows "before ys x y"
proof -
  have "ys = filter (\<lambda>z. z \<in> set ys) xs"
    using assms(1,2)
  proof (induction rule: list_emb.induct)
    case (list_emb_Cons ys xs z)
    then have "z \<notin> set ys" by (auto dest: list_emb_set)
    with list_emb_Cons show ?case by simp
  next
    case (list_emb_Cons2 a b ys xs)
    then have "filter (\<lambda>z. z = a \<or> z \<in> set ys) xs = filter (\<lambda>z. z \<in> set ys) xs" by (intro filter_cong) auto
    with list_emb_Cons2 show ?case by simp
  qed simp
  with before_filter [of xs x y "\<lambda>z. z \<in> set ys"] assms show ?thesis by simp
qed

text \<open>A ranking makes the sorting of the destroyers succeed.\<close>

lemma ranked_sorts:
  assumes r: "ranked fin s" and path: "wi_path s = []" and range: "\<forall>xs. mset (ie_range env xs) = mset xs"
  shows "\<exists>order. get_sorted_destroyers env s =
      Some (Inr (concat (map (\<lambda>b. case bd_destroy (wi_beans s ! b) of None \<Rightarrow> [] | Some fn \<Rightarrow> [(b, fn)]) order))) \<and>
    distinct order \<and> set order = wired_keys s \<and> (\<forall>x \<in> wired_keys s. \<forall>y \<in> set (depends_of s x). before order x y)"
proof -
  let ?items = "ie_range env (gokeys (wi_deps s))" and ?fn = "get_before_deps s"
  have perm: "mset ?items = mset (gokeys (wi_deps s))" using range by blast
  have items: "distinct ?items" "set ?items = wired_keys s"
    using mset_eq_imp_distinct_iff [OF perm] mset_eq_setD [OF perm] r
    by (auto simp: ranked_def gomap_wf_def wired_keys_def)
  have fin: "set fin = wired_keys s" "distinct fin" using r path by (auto simp: ranked_def)
  have deps: "set (depends_of s x) \<subseteq> set (takeWhile ((\<noteq>) x) fin)" if "x \<in> wired_keys s" for x
    using r path that fin by (simp add: ranked_def)
  have "ordered ?fn ?items fin"
    unfolding ordered_def
  proof (intro allI impI)
    fix ys x zs assume split: "fin = ys @ x # zs"
    then have "x \<notin> set ys" using fin by auto
    then have "takeWhile ((\<noteq>) x) (ys @ x # zs) = ys @ takeWhile ((\<noteq>) x) (x # zs)"
      by (intro takeWhile_append2) auto
    with split have "takeWhile ((\<noteq>) x) fin = ys" by simp
    moreover have "x \<in> wired_keys s" using fin split by auto
    ultimately show "set (?fn ?items x) \<inter> set ?items \<subseteq> set ys"
      using deps by (auto simp: get_before_deps_def)
  qed
  then have acyclic: "(x, x) \<notin> (dep_rel ?fn ?items)\<^sup>+" for x
    using ordered_acyclic fin items by metis
  obtain q where q: "topological_sort ?items ?fn = Some q" and post: "case q of
       Inr xs \<Rightarrow> (\<forall>x. (x, x) \<notin> (dep_rel ?fn ?items)\<^sup>+) \<and> distinct xs \<and> set xs = set ?items \<and> ordered ?fn ?items xs
     | Inl e \<Rightarrow> \<exists>x. (x, x) \<in> (dep_rel ?fn ?items)\<^sup>+"
    using topological_sort_spec [OF items(1)] by blast
  with acyclic obtain xs where xs: "q = Inr xs" "distinct xs" "set xs = wired_keys s" "ordered ?fn ?items xs"
    using items by (cases q) auto
  have "before (rev xs) x y" if "x \<in> wired_keys s" "y \<in> set (depends_of s x)" for x y
  proof -
    have "x \<in> set xs" using that(1) xs(3) by simp
    then obtain ys zs where split: "xs = ys @ x # zs" by (meson split_list)
    have "y \<in> set (takeWhile ((\<noteq>) x) fin)" using deps [OF that(1)] that(2) by blast
    from set_takeWhileD [OF this] fin(1) have "y \<in> wired_keys s" by simp
    then have "y \<in> set ys" using xs(4) split that items by (auto simp: ordered_def get_before_deps_def)
    then obtain as bs where "ys = as @ y # bs" by (meson split_list)
    with split have "xs = as @ y # bs @ x # zs" by simp
    then have "before xs y x" unfolding before_def by blast
    then show ?thesis by (simp add: before_rev)
  qed
  with xs q show ?thesis by (intro exI [of _ "rev xs"]) (simp add: get_sorted_destroyers_def)
qed

lemma refresh_ranked:
  assumes range: "set roots \<union> set beans \<subseteq> {..<length bs}"
    and run: "wire_all (wire_bean env c n) roots (start_wiring bs vals d) = Some (Inr (), u)"
    and c: "ij_beans c = beans" and strict: "strict \<longrightarrow> \<not> ij_force c"
  shows "(\<exists>fin. ranked fin u) \<and> wi_path u = [] \<and> wi_cycle u = {} \<and> evolved bs (wi_beans u) \<and>
    set roots \<subseteq> wired_keys u \<and> (strict \<longrightarrow> all_wired (start_wiring bs vals d) \<longrightarrow> all_wired u)"
proof -
  have "keeps_from strict [] (start_wiring bs vals d) u \<and>
      (\<not> isl (Inr () :: (go_error, unit) result) \<longrightarrow> wi_cycle (start_wiring bs vals d) = {} \<longrightarrow> set roots \<subseteq> wired_keys u)"
    by (rule wire_roots_keeps [OF _ run _ strict]) (use range c in auto)
  moreover have "\<exists>fin. ranked fin (start_wiring bs vals d)" by (rule exI [of _ "[]"]) simp
  ultimately show ?thesis by (simp add: keeps_from_def)
qed

lemma evolved_destroy: "evolved bs bs' \<Longrightarrow> b < length bs \<Longrightarrow> bd_destroy (bs' ! b) = bd_destroy (bs ! b) \<and> bd_init (bs' ! b) = bd_init (bs ! b)"
proof -
  assume "evolved bs bs'" and "b < length bs"
  then have "bs' ! b = set_status (bd_status (bs' ! b)) (bs ! b)" by (auto simp: evolved_def list_all2_conv_all_nth)
  then have "bd_destroy (bs' ! b) = bd_destroy (set_status (bd_status (bs' ! b)) (bs ! b))"
    "bd_init (bs' ! b) = bd_init (set_status (bd_status (bs' ! b)) (bs ! b))" by metis+
  then show ?thesis by (simp add: set_status_def)
qed

text \<open>Destroyers are sorted, and called in the order of their dependencies.\<close>

lemma refresh_destroys:
  assumes "set roots \<union> set beans \<subseteq> {..<length bs}" and "\<forall>xs. mset (ie_range env xs) = mset xs"
    and "refresh_injecting env n roots beans bs vals d = Some (r, con, s)"
  shows "(\<forall>e. r \<noteq> Inl (SortFailed e)) \<and>
    (r = Inr () \<longrightarrow> set roots \<subseteq> wired_keys s \<and> (\<exists>order. distinct order \<and> set order = wired_keys s \<and>
        (\<forall>x \<in> wired_keys s. \<forall>y \<in> set (depends_of s x). before order x y) \<and>
        close_injecting con = concat (map (\<lambda>b. case bd_destroy (bs ! b) of None \<Rightarrow> [] | Some fn \<Rightarrow> [(fn, wi_values s b)]) order)))"
  using assms(3)
proof (cases rule: refresh_injecting_cases)
  case (failed e)
  then show ?thesis by simp
next
  case (sorted c u q)
  have "ij_beans c = beans" using sorted(1) by simp
  from refresh_ranked [OF assms(1) sorted(2) this, of False] obtain fin where
    u: "ranked fin u" "wi_path u = []" "evolved bs (wi_beans u)" "set roots \<subseteq> wired_keys u" by auto
  have s: "ranked fin s" "wi_path s = []" "evolved bs (wi_beans s)" "set roots \<subseteq> wired_keys s"
    using u sorted(3) ranked_core [OF sorted(3)] by (simp_all add: core_def wired_keys_def)
  from ranked_sorts [OF s(1,2) assms(2)] obtain order where
    sort: "get_sorted_destroyers env s =
      Some (Inr (concat (map (\<lambda>b. case bd_destroy (wi_beans s ! b) of None \<Rightarrow> [] | Some fn \<Rightarrow> [(b, fn)]) order)))"
    and order: "distinct order" "set order = wired_keys s" "\<forall>x \<in> wired_keys s. \<forall>y \<in> set (depends_of s x). before order x y"
    by blast
  have bound: "b < length bs" if "b \<in> set order" for b
    using that order s evolved_length [OF s(3)] by (simp add: ranked_def)
  have same: "map (\<lambda>b. map (\<lambda>(b, fn). (fn, wi_values s b)) (case bd_destroy (wi_beans s ! b) of None \<Rightarrow> [] | Some fn \<Rightarrow> [(b, fn)])) order =
      map (\<lambda>b. case bd_destroy (bs ! b) of None \<Rightarrow> [] | Some fn \<Rightarrow> [(fn, wi_values s b)]) order"
    using evolved_destroy [OF s(3)] bound by (auto split: option.split)
  have "map (\<lambda>(b, fn). (fn, wi_values s b)) (concat (map (\<lambda>b. case bd_destroy (wi_beans s ! b) of None \<Rightarrow> [] | Some fn \<Rightarrow> [(b, fn)]) order)) =
      concat (map (\<lambda>b. case bd_destroy (bs ! b) of None \<Rightarrow> [] | Some fn \<Rightarrow> [(fn, wi_values s b)]) order)"
    unfolding map_concat map_map o_def same ..
  moreover from sorted(4) sort have "q = Inr (concat (map (\<lambda>b. case bd_destroy (wi_beans s ! b) of None \<Rightarrow> [] | Some fn \<Rightarrow> [(b, fn)]) order))"
    by simp
  ultimately have "r = Inr ()"
    "close_injecting con = concat (map (\<lambda>b. case bd_destroy (bs ! b) of None \<Rightarrow> [] | Some fn \<Rightarrow> [(fn, wi_values s b)]) order)"
    using sorted(5) by (simp_all add: close_injecting_def)
  with order s(4) show ?thesis by auto
qed


text \<open>Property C2: a refresh wires what the roots reach, completely. When no bean had been begun
  before and missing references are not allowed, a refresh that succeeds entered all roots;
  every bean it entered is wired and its init function, if it has one, was called, exactly
  once and after those of the beans it asked for; no other bean was begun.\<close>

theorem refresh_wires_completely:
  assumes "set roots \<union> set beans \<subseteq> {..<length bs}" and "\<forall>b < length bs. bd_status (bs ! b) < StatusCreating"
    and "\<not> force_nullable (dy_prop d)" and "refresh_injecting env n roots beans bs vals d = Some (Inr (), con, s)"
  shows "set roots \<subseteq> wired_keys s \<and>
    (\<forall>b < length bs. if b \<in> wired_keys s then bd_status (wi_beans s ! b) = StatusWired
       else bd_status (wi_beans s ! b) < StatusCreating) \<and>
    distinct (wi_inits s) \<and> {b \<in> wired_keys s. bd_init (bs ! b) \<noteq> None} \<subseteq> set (wi_inits s) \<and>
    (\<forall>x \<in> set (wi_inits s). \<forall>y \<in> set (depends_of s x) \<inter> set (wi_inits s). before (wi_inits s) y x)"
  using assms(4)
proof (cases rule: refresh_injecting_cases)
  case (sorted c u q)
  have c: "ij_beans c = beans" "True \<longrightarrow> \<not> ij_force c" using sorted(1) assms(3) by simp_all
  have "all_wired (start_wiring bs vals d)" using assms(2) by (auto simp: all_wired_def)
  with refresh_ranked [OF assms(1) sorted(2) c] obtain fin where
    u: "ranked fin u" "wi_path u = []" "wi_cycle u = {}" "evolved bs (wi_beans u)" "set roots \<subseteq> wired_keys u" "all_wired u"
    by auto
  have s: "ranked fin s" "wi_path s = []" "wi_cycle s = {}" "evolved bs (wi_beans s)" "set roots \<subseteq> wired_keys s" "all_wired s"
    using u sorted(3) ranked_core [OF sorted(3)] all_wired_core [OF sorted(3)] by (simp_all add: core_def wired_keys_def)
  have len: "length (wi_beans s) = length bs" using s(4) by (rule evolved_length)
  have fin: "distinct fin" "set fin = wired_keys s" "subseq (wi_inits s) fin" using s by (auto simp: ranked_def)
  have inits: "set (wi_inits s) \<subseteq> set fin" using fin(3) by (rule list_emb_set [THEN subsetI]) auto
  have "before (wi_inits s) y x" if "x \<in> set (wi_inits s)" "y \<in> set (depends_of s x)" "y \<in> set (wi_inits s)" for x y
  proof -
    have "set (depends_of s x) \<subseteq> set (takeWhile ((\<noteq>) x) fin)" using s that inits by (auto simp: ranked_def)
    with that inits have "before fin y x" by (intro takeWhile_before) auto
    from before_subseq [OF fin(3,1) this] that show ?thesis by simp
  qed
  moreover have "{b \<in> wired_keys s. bd_init (bs ! b) \<noteq> None} \<subseteq> set (wi_inits s)"
  proof
    fix b assume b: "b \<in> {b \<in> wired_keys s. bd_init (bs ! b) \<noteq> None}"
    then have "b < length bs" using fin s len by (auto simp: ranked_def)
    with b s len evolved_destroy [OF s(4)] show "b \<in> set (wi_inits s)" by (auto simp: all_wired_def)
  qed
  moreover have "\<forall>b < length bs. if b \<in> wired_keys s then bd_status (wi_beans s ! b) = StatusWired
       else bd_status (wi_beans s ! b) < StatusCreating"
    using s(3,6) len by (auto simp: all_wired_def not_less [symmetric])
  moreover have "distinct (wi_inits s)" using fin(3,1)
  proof (induction rule: list_emb.induct)
    case (list_emb_Cons2 x y xs ys)
    then show ?case by (auto dest: list_emb_set)
  qed simp_all
  ultimately show ?thesis using s(5) by auto
qed simp

text \<open>Two beans: the first has a field for the second. Both have life-cycle functions.\<close>

definition sample_types :: types where
  "sample_types = \<lparr>ty_kind = (\<lambda>t. if t = [] then RPrimitive else if hd t = CHR ''*'' then RPointer else RStruct),
     ty_elem = tl, ty_assignable = (=)\<rparr>"

definition sample_inj_env :: "unit inj_env" where
  "sample_inj_env =
     \<lparr>ie_types = sample_types, ie_key_string = (\<lambda>_. True), ie_gotype = (\<lambda>_. TScalar ''string'' KString),
      ie_type_name = id, ie_dyn_type = (\<lambda>_. ''*A''),
      ie_struct = (\<lambda>v. if v = RefV ''*A'' 0
         then Some (''A'', [SField ''B'' (Some []) None None None False ''*B'' None None]) else None),
      ie_field0 = (\<lambda>_ _. VString []), ie_init = (\<lambda>_ _. None), ie_expr = (\<lambda>_ _. Inr False), ie_bind = sample_env,
      ie_resolve_fuel = (\<lambda>_. 5), ie_bind_fuel = (\<lambda>_ _ _. 5), ie_range = rev\<rparr>"

definition sample_bean :: "rtype \<Rightarrow> string \<Rightarrow> unit ivalue bean" where
  "sample_bean t name =
     \<lparr>bd_type = t, bd_callable = None, bd_name = name, bd_init = Some ''Init'', bd_destroy = Some ''Close'',
      bd_depends_on = [], bd_exports = [], bd_conditions = [], bd_status = StatusResolved, bd_file_line = [],
      bd_configuration = None\<rparr>"

definition sample_beans :: "unit ivalue bean list" where
  "sample_beans = [sample_bean ''*A'' ''a'', sample_bean ''*B'' ''b'']"

definition sample_values :: "nat \<Rightarrow> unit ivalue" where
  "sample_values b = (if b = 0 then RefV ''*A'' 0 else RefV ''*B'' 1)"

definition sample_dync :: "unit dync" where
  "sample_dync = new_dync (properties_storage \<lparr>pr_data = []\<rparr>) (\<lambda>_. name_cell)"

lemma sample_refresh:
  "map_option (\<lambda>(r, con, s). (r, close_injecting con, wi_inits s, wi_deps s))
     (refresh_injecting sample_inj_env 3 [0] [0, 1] sample_beans sample_values sample_dync) =
   Some (Inr (), [(''Close'', RefV ''*A'' 0), (''Close'', RefV ''*B'' 1)], [1, 0], [(0, [1]), (1, [])])"
  by code_simp

lemma sample_run:
  "\<exists>con s. refresh_injecting sample_inj_env 3 [0] [0, 1] sample_beans sample_values sample_dync = Some (Inr (), con, s) \<and>
     close_injecting con = [(''Close'', RefV ''*A'' 0), (''Close'', RefV ''*B'' 1)] \<and> wi_inits s = [1, 0] \<and>
     wi_deps s = [(0, [1]), (1, [])]"
proof -
  from sample_refresh obtain r con s where
    "refresh_injecting sample_inj_env 3 [0] [0, 1] sample_beans sample_values sample_dync = Some (r, con, s)"
    and "(r, close_injecting con, wi_inits s, wi_deps s) =
      (Inr (), [(''Close'', RefV ''*A'' 0), (''Close'', RefV ''*B'' 1)], [1, 0], [(0, [1]), (1, [])])"
    by (auto simp del: not_None_eq)
  then show ?thesis by auto
qed

lemma sample_range: "set [0] \<union> set [0, 1] \<subseteq> {..<length sample_beans}" "\<forall>xs. mset (ie_range sample_inj_env xs) = mset xs"
  by (simp_all add: sample_beans_def sample_inj_env_def)


lemma refresh_wires_completely_witness:
  "\<exists>con s. refresh_injecting sample_inj_env 3 [0] [0, 1] sample_beans sample_values sample_dync = Some (Inr (), con, s) \<and>
     bd_status (wi_beans s ! 1) = StatusWired \<and> {0, 1} \<subseteq> set (wi_inits s) \<and> before (wi_inits s) 1 0"
proof -
  obtain con s where run: "refresh_injecting sample_inj_env 3 [0] [0, 1] sample_beans sample_values sample_dync = Some (Inr (), con, s)"
    and deps: "wi_deps s = [(0, [1]), (1, [])]" using sample_run by blast
  then have keys: "wired_keys s = {0, 1}" "depends_of s 0 = [1]" by (simp_all add: wired_keys_def depends_of_def)
  have fresh: "\<forall>b < length sample_beans. bd_status (sample_beans ! b) < StatusCreating" by code_simp
  have "\<not> force_nullable (dy_prop sample_dync)" by code_simp
  note all = refresh_wires_completely [OF sample_range(1) fresh this run]
  have "bd_init (sample_beans ! 0) \<noteq> None" "bd_init (sample_beans ! 1) \<noteq> None"
    by (simp_all add: sample_beans_def sample_bean_def)
  then have "{0, 1} \<subseteq> set (wi_inits s)" using all keys by auto
  moreover have "bd_status (wi_beans s ! 1) = StatusWired" using all keys by (auto simp: sample_beans_def)
  ultimately show ?thesis using all keys run by auto
qed

section \<open>A refresh returns\<close>

text \<open>Fuel functions for a storage that keeps its contract.\<close>

lemma bind_fuel_exists:
  assumes "bindable p"
  shows "\<exists>n. bind_value env n p t v q \<noteq> None \<and> bind_value env' n p t v q \<noteq> None"
proof -
  from assms obtain n r m r' where nm: "bind_value env n p t v q = Some r" "bind_value env' m p t v q = Some r'"
    using all_returns(1) unfolding returns_def by meson
  from bind_value_mono(1) [OF max.cobounded1 nm(1), of m] bind_value_mono(1) [OF max.cobounded2 nm(2), of n]
  show ?thesis by (intro exI [of _ "max n m"]) simp
qed

lemma conf_fuel_exists:
  fixes env :: "'f inj_env"
  assumes "bindable p"
  shows "\<exists>f g. conf_returns (env\<lparr>ie_resolve_fuel := f, ie_bind_fuel := g\<rparr>) p"
proof -
  from assms obtain L where L: "\<forall>k v. st_value p k = Some v \<longrightarrow> length v \<le> L" and root: "st_value p [] = None"
    unfolding bindable_def by blast
  let ?f = "\<lambda>s :: string. resolve_fuel L 0 (length s)"
  have "resolve_string (?f s) p s \<noteq> None" for s
    unfolding resolve_string_def
    using resolve_string_stack_returns [of p L new_stack s "?f s"] L root by (simp add: new_stack_def)
  then have f: "ended (resolve_conf (?f s) (Some p) s)" for s by (simp add: resolve_conf_def ended_def)
  have "\<forall>x. \<exists>n. bind_value (ie_bind env) n p (fst x) (fst (snd x)) (snd (snd x)) \<noteq> None \<and>
      bind_value ((ie_bind env)\<lparr>be_filter := None\<rparr>) n p (fst x) (fst (snd x)) (snd (snd x)) \<noteq> None"
    using bind_fuel_exists [OF assms] by blast
  then obtain g where g: "\<forall>x. bind_value (ie_bind env) (g x) p (fst x) (fst (snd x)) (snd (snd x)) \<noteq> None \<and>
      bind_value ((ie_bind env)\<lparr>be_filter := None\<rparr>) (g x) p (fst x) (fst (snd x)) (snd (snd x)) \<noteq> None"
    by (rule choice [THEN exE])
  from g [rule_format, of "(_, _, _)"] have "conf_returns (env\<lparr>ie_resolve_fuel := ?f, ie_bind_fuel := (\<lambda>t v q. g (t, v, q))\<rparr>) p"
    by (simp add: conf_returns_def f [unfolded ended_def] ended_def)
  then show ?thesis by blast
qed

lemma wire_roots_returns:
  assumes "\<forall>b \<in> set roots. b < length (wi_beans s)" and "wire_ready env c n s"
  shows "ended (wire_all (wire_bean env c n) roots s)"
  using assms
proof (induction roots arbitrary: s)
  case (Cons b bs)
  then obtain m where n: "n = Suc m" by (cases n) (simp_all add: wire_ready_def)
  have "ended (wire_bean env c n b s)"
    unfolding n by (rule wire_bean_ends [OF wiring_returns_wire_bean]) (use Cons.prems n in simp_all)
  then obtain q u where run: "wire_bean env c n b s = Some (q, u)" by (rule endedE)
  have "moves False (keeps_from False []) (wire_bean env c n b s) s"
    unfolding n by (rule wire_bean_keeps [OF _ _ wiring_steps_any]) (use Cons.prems in \<open>auto simp: wire_ready_def\<close>)
  then have k: "keeps_from False [] s u" using run by (simp add: moves_def)
  then have "wire_ready env c n u" using wire_ready_keeps [OF Cons.prems(2), of False u] by (simp add: keeps_def)
  moreover have "length (wi_beans u) = length (wi_beans s)" using k by (simp add: keeps_from_def evolved_length)
  ultimately have "ended (wire_all (wire_bean env c n) bs u)" using Cons by simp
  with run show ?case by (cases q) simp_all
qed simp

lemma refresh_ends:
  assumes range: "set roots \<union> set beans \<subseteq> {..<length bs}" and perm: "\<forall>xs. mset (ie_range env xs) = mset xs"
    and conf: "conf_returns env (dy_prop d)" and n: "length bs < n"
  shows "refresh_injecting env n roots beans bs vals d \<noteq> None"
proof -
  let ?c = "\<lparr>ij_state = Refreshing, ij_beans = beans, ij_force = force_nullable (dy_prop d)\<rparr>"
  let ?s = "start_wiring bs vals d"
  have "card (not_begun ?s) \<le> card {..<length bs}" by (rule card_mono) (auto simp: not_begun_def)
  then have "wire_ready env ?c n ?s" using range conf n by (auto simp: wire_ready_def)
  then have "ended (wire_all (wire_bean env ?c n) roots ?s)"
    by (intro wire_roots_returns) (use range in auto)
  then obtain q u where roots: "wire_all (wire_bean env ?c n) roots ?s = Some (q, u)" by (rule endedE)
  show ?thesis
  proof (cases q)
    case (Inl e)
    with roots show ?thesis by (simp add: refresh_injecting_def Let_def)
  next
    case (Inr x)
    with roots have roots: "wire_all (wire_bean env ?c n) roots ?s = Some (Inr (), u)" by simp
    from refresh_ranked [OF range this, of False] obtain fin where u: "ranked fin u" "wi_path u = []" by auto
    have "keeps_from False [] ?s u" using wire_roots_keeps [OF _ roots, of False] range by auto
    then have "conf_returns env (dy_prop (wi_dync u))" using conf by (simp add: keeps_from_def)
    then have "ended (wire_lazy env (?c\<lparr>ij_state := Refreshed\<rparr>) (wi_lazy u) u)"
      by (intro wire_lazy_returns) simp_all
    then obtain p w where lzy: "wire_lazy env (?c\<lparr>ij_state := Refreshed\<rparr>) (wi_lazy u) u = Some (p, w)" by (rule endedE)
    have core: "core w = core u" by (rule wire_lazy_core [OF _ lzy]) simp
    have "ranked fin w" "wi_path w = []" using u core ranked_core [OF core] by (simp_all add: core_def)
    from ranked_sorts [OF this perm] obtain ds where "get_sorted_destroyers env w = Some (Inr ds)" by blast
    with roots lzy show ?thesis by (cases p) (simp_all add: refresh_injecting_def Let_def)
  qed
qed

text \<open>A refresh of the injecting container returns, an error or success. For a
  configuration that keeps the storage contract, has leaves of bounded length and no root
  leaf there are fuels for resolving and binding with which, from one more unit of wiring
  fuel than there are definitions, every refresh has returned, whatever the beans, their
  dependencies, constructors and fields are, cyclic ones included.\<close>

theorem injecting_returns:
  assumes "bindable (dy_prop d)" and "\<forall>xs. mset (ie_range env xs) = mset xs"
  shows "\<exists>f g. \<forall>n roots beans bs vals. length bs < n \<and> set roots \<union> set beans \<subseteq> {..<length bs} \<longrightarrow>
    refresh_injecting (env\<lparr>ie_resolve_fuel := f, ie_bind_fuel := g\<rparr>) n roots beans bs vals d \<noteq> None"
proof -
  from conf_fuel_exists [OF assms(1), of env] obtain f g where
    conf: "conf_returns (env\<lparr>ie_resolve_fuel := f, ie_bind_fuel := g\<rparr>) (dy_prop d)" by blast
  have "refresh_injecting (env\<lparr>ie_resolve_fuel := f, ie_bind_fuel := g\<rparr>) n roots beans bs vals d \<noteq> None"
    if "length bs < n" "set roots \<union> set beans \<subseteq> {..<length bs}" for n roots beans bs vals
    by (rule refresh_ends [OF that(2) _ conf that(1)]) (use assms(2) in simp)
  then show ?thesis by blast
qed

lemma injecting_returns_witness:
  "\<exists>f g. refresh_injecting (sample_inj_env\<lparr>ie_resolve_fuel := f, ie_bind_fuel := g\<rparr>) 3 [0] [0, 1] sample_beans sample_values sample_dync \<noteq> None"
proof -
  have "bindable (dy_prop sample_dync)"
    unfolding sample_dync_def new_dync_def by (simp add: bindable_properties)
  from injecting_returns [OF this sample_range(2)] obtain f g where
    run: "\<forall>n roots beans bs vals. length bs < n \<and> set roots \<union> set beans \<subseteq> {..<length bs} \<longrightarrow>
      refresh_injecting (sample_inj_env\<lparr>ie_resolve_fuel := f, ie_bind_fuel := g\<rparr>) n roots beans bs vals sample_dync \<noteq> None" by blast
  have "length sample_beans < 3" by (simp add: sample_beans_def)
  with run sample_range(1) have "refresh_injecting (sample_inj_env\<lparr>ie_resolve_fuel := f, ie_bind_fuel := g\<rparr>) 3 [0] [0, 1]
      sample_beans sample_values sample_dync \<noteq> None" by blast
  then show ?thesis by blast
qed

end
