(* ===== verification/GsContainer.thy ===== *)
theory GsContainer
  imports GsInjecting
begin

text \<open>
  \<open>spring/gs/internal/gs_core/core.go\<close>: the container, which resolves bean definitions
  (\<open>GsResolving\<close>) and then wires the active ones from given roots (\<open>GsInjecting\<close>). Definitions
  are shared pointers in the code; here the second phase works on the list of the first, with
  the roots, which are not registered, at its end.
\<close>

section \<open>The container\<close>

text \<open>What the phases take from outside; \<open>ce_values\<close> are the values the definitions hold.\<close>

record 'f container_env =
  ce_go :: "'f ivalue go_env"
  ce_inj :: "'f inj_env"
  ce_values :: "'f ivalue bean list \<Rightarrow> nat \<Rightarrow> 'f ivalue"
  ce_cells :: "nat \<Rightarrow> 'f cell"
  ce_testing :: bool

datatype container_error =
    ContainerRefreshed
  | ContainerPanicked go_panic
  | ResolvingFailed rv_error
  | InjectingFailed inj_error

record 'f container =
  ct_resolving :: "'f ivalue resolving option"
  ct_injecting :: "'f injecting option"
  ct_state :: refresh_state

definition new_container :: "'f container" where
  "new_container = \<lparr>ct_resolving = Some new_resolving, ct_injecting = None, ct_state = RefreshDefault\<rparr>"

text \<open>\<open>Resolving.Beans\<close>, as positions in the list of definitions.\<close>

definition active_positions :: "'v bean list \<Rightarrow> nat list" where
  "active_positions bs = filter (\<lambda>i. bd_status (bs ! i) \<noteq> StatusDeleted) [0..<length bs]"

text \<open>Outside tests the global definitions are the registry's own, which resolving changes.\<close>

definition shared_registry :: "bool \<Rightarrow> 'v registry \<Rightarrow> 'v bean list \<Rightarrow> 'v registry" where
  "shared_registry testing g bs = (if testing then g else g\<lparr>gi_beans := take (length (gi_beans g)) bs\<rparr>)"

text \<open>
  A panic of a module or a configuration method leaves the container as it is at that moment.
  The second phase: the outcome, the container, the registry, and the state the wiring
  ended in.
\<close>

definition inject_resolved ::
  "'f container_env \<Rightarrow> 'f ivalue registry \<Rightarrow> storage \<Rightarrow> 'f ivalue bean list \<Rightarrow> 'f container \<Rightarrow> 'f ivalue resolving \<Rightarrow>
   ((container_error, unit) result \<times> 'f container \<times> 'f ivalue registry \<times> 'f wiring option) option" where
  "inject_resolved env g p roots c rv =
     (let n = length (rv_beans rv);
          bs = rv_beans rv @ roots
      in map_option (\<lambda>(r, con, s).
           let rv = rv\<lparr>rv_beans := take n (wi_beans s)\<rparr>;
               g = shared_registry (ce_testing env) g (rv_beans rv);
               c = c\<lparr>ct_injecting := Some con\<rparr>
           in case r of
                Inl e \<Rightarrow> (Inl (InjectingFailed e), c\<lparr>ct_resolving := Some rv, ct_state := RefreshDefault\<rparr>, g, Some s)
              | Inr _ \<Rightarrow> (Inr (), c\<lparr>ct_resolving := None, ct_state := Refreshed\<rparr>,
                          if ce_testing env then g else clear_registry g, Some s))
           (refresh_injecting (ce_inj env) (Suc (length bs)) [n..<length bs] (active_positions (rv_beans rv)) bs
              (ce_values env bs) (new_dync p (ce_cells env))))"

definition refresh_container ::
  "'f container_env \<Rightarrow> 'f ivalue registry \<Rightarrow> storage \<Rightarrow> 'f ivalue bean list \<Rightarrow> 'f container \<Rightarrow>
   ((container_error, unit) result \<times> 'f container \<times> 'f ivalue registry \<times> 'f wiring option) option" where
  "refresh_container env g p roots c =
     (if ct_state c \<noteq> RefreshDefault then Some (Inl ContainerRefreshed, c, g, None)
      else
        let c = c\<lparr>ct_state := Refreshing\<rparr>
        in case ct_resolving c of
             None \<Rightarrow> Some (Inl (ContainerPanicked NilDereference), c, g, None)
           | Some rv0 \<Rightarrow>
               (case refresh (ce_go env) g p rv0 of
                  None \<Rightarrow> None
                | Some (r, rv) \<Rightarrow>
                    let g = (if rv_state rv0 \<noteq> RefreshDefault then g
                             else shared_registry (ce_testing env) g (rv_beans rv))
                    in case r of
                         Inl (RvPanic e) \<Rightarrow>
                           Some (Inl (ContainerPanicked e), c\<lparr>ct_resolving := Some rv\<rparr>, g, None)
                       | Inl e \<Rightarrow> Some (Inl (ResolvingFailed e),
                           c\<lparr>ct_resolving := Some rv, ct_state := RefreshDefault\<rparr>, g, None)
                       | Inr _ \<Rightarrow> inject_resolved env g p roots (c\<lparr>ct_resolving := Some rv\<rparr>) rv))"

definition close_container :: "'f container \<Rightarrow> (string \<times> 'f ivalue) list" where
  "close_container c = (case ct_injecting c of None \<Rightarrow> [] | Some con \<Rightarrow> close_injecting con)"

text \<open>\<open>Provide\<close> of the embedded phase, a nil pointer after a refresh.\<close>

definition provide_container ::
  "'f container_env \<Rightarrow> 'f ivalue provision \<Rightarrow> 'f container \<Rightarrow> (go_panic, 'f container) result" where
  "provide_container env pv c =
     (case ct_resolving c of
        None \<Rightarrow> Inl NilDereference
      | Some rv \<Rightarrow> rbind (provide (ce_go env) pv rv) (\<lambda>rv. Inr (c\<lparr>ct_resolving := Some rv\<rparr>)))"

section \<open>At most one refresh\<close>

lemma provide_state: "provide env pv c = Inr c' \<Longrightarrow> rv_state c' = rv_state c"
  by (auto simp: provide_def rbind_Inr_iff split: if_splits)

lemma provide_all_state:
  "provide_all env pvs c = Some (r, c') \<Longrightarrow> rv_state c' = rv_state c"
proof (induction pvs arbitrary: c)
  case (Cons pv pvs)
  show ?case
  proof (cases "provide env pv c")
    case (Inl e)
    with Cons.prems show ?thesis by simp
  next
    case (Inr d)
    with Cons.prems have "provide_all env pvs d = Some (r, c')" by simp
    from Cons.IH [OF this] provide_state [OF Inr] show ?thesis by simp
  qed
qed simp

lemma on_beans_state: "on_beans run c = Some (r, c') \<Longrightarrow> rv_state c' = rv_state c"
  by (auto simp: on_beans_def)

lemma smap_err_state:
  assumes "smap_err f run = Some (r, c')"
  obtains r0 where "run = Some (r0, c')"
  using assms by (cases run) (auto simp: smap_err_def)

lemma run_module_state: "run_module env p m c = Some (r, c') \<Longrightarrow> rv_state c' = rv_state c"
  by (auto simp: run_module_def sbind_Some_iff dest: provide_all_state)

lemma apply_module_state:
  assumes "apply_module env p m c = Some (r, c')"
  shows "rv_state c' = rv_state c"
proof (cases "md_condition m")
  case None
  with assms show ?thesis by (simp add: apply_module_def run_module_state)
next
  case (Some cond)
  with assms show ?thesis
    by (auto simp: apply_module_def sbind_Some_iff split: if_splits
        elim!: smap_err_state dest!: on_beans_state run_module_state)
qed

lemma apply_modules_state: "apply_modules env p ms c = Some (r, c') \<Longrightarrow> rv_state c' = rv_state c"
  by (induction ms arbitrary: c) (fastforce simp: sbind_Some_iff dest: apply_module_state)+

lemma refresh_leaves_default:
  assumes "refresh env g p c = Some (r, c')"
  shows "rv_state c' \<noteq> RefreshDefault"
proof (cases "rv_state c = RefreshDefault")
  case True
  then show ?thesis using assms
    by (auto simp: refresh_def Let_def sbind_Some_iff
        elim!: smap_err_state dest!: apply_modules_state on_beans_state)
qed (use assms in \<open>simp add: refresh_def\<close>)

lemma active_positions_set: "set (active_positions bs) = {i. i < length bs \<and> bd_status (bs ! i) \<noteq> StatusDeleted}"
  by (auto simp: active_positions_def)

text \<open>The ways through a refresh.\<close>

lemma refresh_container_cases:
  assumes "refresh_container env g p roots c = Some (r, c', g', w)"
  obtains (refused) "ct_state c \<noteq> RefreshDefault" "r = Inl ContainerRefreshed" "c' = c" "g' = g"
  | (panicked) e where "r = Inl (ContainerPanicked e)" "ct_state c' = Refreshing" "ct_injecting c' = ct_injecting c"
  | (resolving) rv0 rv e where "ct_resolving c = Some rv0" "refresh (ce_go env) g p rv0 = Some (Inl e, rv)"
      "r = Inl (ResolvingFailed e)" "c' = c\<lparr>ct_resolving := Some rv, ct_state := RefreshDefault\<rparr>"
      "rv_state rv0 \<noteq> RefreshDefault \<Longrightarrow> g' = g" "w = None"
  | (injecting) rv0 rv q con s where "ct_resolving c = Some rv0" "refresh (ce_go env) g p rv0 = Some (Inr (), rv)"
      "refresh_injecting (ce_inj env) (Suc (length (rv_beans rv @ roots)))
         [length (rv_beans rv)..<length (rv_beans rv @ roots)] (active_positions (rv_beans rv)) (rv_beans rv @ roots)
         (ce_values env (rv_beans rv @ roots)) (new_dync p (ce_cells env)) = Some (q, con, s)"
      "ct_state c = RefreshDefault" "ct_injecting c' = Some con" "w = Some s"
      "case q of Inl e \<Rightarrow> r = Inl (InjectingFailed e) \<and> ct_state c' = RefreshDefault \<and>
           (\<exists>bs. ct_resolving c' = Some (rv\<lparr>rv_beans := bs\<rparr>))
       | Inr _ \<Rightarrow> r = Inr () \<and> ct_state c' = Refreshed \<and> ct_resolving c' = None"
proof (cases "ct_state c = RefreshDefault")
  case False
  with assms have "r = Inl ContainerRefreshed" "c' = c" "g' = g" by (simp_all add: refresh_container_def)
  with False show thesis by (rule that(1))
next
  case default: True
  show thesis
  proof (cases "ct_resolving c")
    case None
    with assms default have "r = Inl (ContainerPanicked NilDereference)" "c' = c\<lparr>ct_state := Refreshing\<rparr>"
      by (simp_all add: refresh_container_def)
    then show thesis by (intro that(2)) simp_all
  next
    case (Some rv0)
    obtain q rv where run: "refresh (ce_go env) g p rv0 = Some (q, rv)"
      using refresh_total [of "ce_go env" g p rv0] by auto
    show thesis
    proof (cases q)
      case (Inl e)
      show thesis
      proof (cases "\<exists>x. e = RvPanic x")
        case True
        with assms default Some run Inl obtain x where
          "r = Inl (ContainerPanicked x)" "c' = c\<lparr>ct_state := Refreshing, ct_resolving := Some rv\<rparr>"
          by (auto simp: refresh_container_def Let_def)
        then show thesis by (intro that(2)) simp_all
      next
        case False
        with assms default Some run Inl have "r = Inl (ResolvingFailed e)" "w = None"
          "c' = c\<lparr>ct_resolving := Some rv, ct_state := RefreshDefault\<rparr>" "rv_state rv0 \<noteq> RefreshDefault \<longrightarrow> g' = g"
          by (cases e; auto simp: refresh_container_def Let_def)+
        then show thesis using Some run [unfolded Inl] by (intro that(3)) blast+
      qed
    next
      case (Inr u)
      with assms default Some run have run: "refresh (ce_go env) g p rv0 = Some (Inr (), rv)"
        and "\<exists>g0 c0. inject_resolved env g0 p roots c0 rv = Some (r, c', g', w)"
        by (auto simp: refresh_container_def Let_def)
      then obtain g0 c0 where inj: "inject_resolved env g0 p roots c0 rv = Some (r, c', g', w)" by blast
      let ?bs = "rv_beans rv @ roots"
      obtain q con s where wired: "refresh_injecting (ce_inj env) (Suc (length ?bs)) [length (rv_beans rv)..<length ?bs]
          (active_positions (rv_beans rv)) ?bs (ce_values env ?bs) (new_dync p (ce_cells env)) = Some (q, con, s)"
        using inj by (auto simp: inject_resolved_def Let_def)
      have "ct_injecting c' = Some con \<and> w = Some s \<and> (case q of
            Inl e \<Rightarrow> r = Inl (InjectingFailed e) \<and> ct_state c' = RefreshDefault \<and>
              (\<exists>bs. ct_resolving c' = Some (rv\<lparr>rv_beans := bs\<rparr>))
          | Inr _ \<Rightarrow> r = Inr () \<and> ct_state c' = Refreshed \<and> ct_resolving c' = None)"
        using inj unfolding inject_resolved_def Let_def wired by (cases q) auto
      then show thesis by (intro that(4) [OF Some run wired default]) simp_all
    qed
  qed
qed

text \<open>
  Property C6: a container is refreshed at most once. A refresh succeeds only in the default
  state, and then nothing can be provided any more. After a refresh that returned, whatever its
  outcome, every further refresh fails, with any configuration, roots and registry, and leaves
  what the container will destroy as it is. A first refresh that failed leaves nothing to destroy:
  \<open>Close\<close> is safe, and the beans that had been initialised are not destroyed.
\<close>

theorem container_refreshed_once:
  assumes "refresh_container env g p roots c = Some (r, c', g', w)"
  shows "(r = Inr () \<longrightarrow> ct_state c = RefreshDefault \<and> ct_state c' = Refreshed \<and>
      (\<forall>pv. provide_container env pv c' = Inl NilDereference)) \<and>
    (isl r \<and> ct_injecting c = None \<longrightarrow> close_container c' = []) \<and>
    (\<exists>e c''. refresh_container env2 g2 p2 roots2 c' = Some (Inl e, c'', g2, None) \<and>
       close_container c'' = close_container c')"
  using assms
proof (cases rule: refresh_container_cases)
  case refused
  then show ?thesis by (simp add: refresh_container_def close_container_def)
next
  case (panicked e)
  then show ?thesis by (simp add: refresh_container_def close_container_def)
next
  case (resolving rv0 rv e)
  have "rv_state rv \<noteq> RefreshDefault" by (rule refresh_leaves_default [OF resolving(2)])
  then show ?thesis
    using resolving by (simp add: refresh_container_def close_container_def refresh_refused)
next
  case (injecting rv0 rv q con s)
  have rv: "rv_state rv = Refreshed" by (rule refresh_succeeded(2) [OF injecting(2)])
  show ?thesis
  proof (cases q)
    case (Inr u)
    with injecting show ?thesis by (simp add: refresh_container_def provide_container_def)
  next
    case (Inl e)
    then obtain bs where failed: "r = Inl (InjectingFailed e)" "ct_state c' = RefreshDefault"
        "ct_resolving c' = Some (rv\<lparr>rv_beans := bs\<rparr>)"
      using injecting(7) by auto
    have "in_destroyers con = []"
      using injecting(3) by (cases rule: refresh_injecting_cases) (auto simp: Inl split: sum.splits)
    with failed injecting(5) rv show ?thesis
      by (simp add: refresh_container_def close_container_def close_injecting_def refresh_refused)
  qed
qed

section \<open>The two phases together\<close>


text \<open>
  Property C5: a refresh of the container returns, an error or success, for a configuration
  that keeps the contract of storages, has leaves of bounded length and no root leaf: with
  suitable fuels for references and binding, whatever beans, conditions, modules and roots there
  are, cyclic dependencies included. The fuel of the wiring is the number of definitions and one.
\<close>

theorem container_returns:
  assumes "bindable p" and "\<forall>xs. mset (ie_range (ce_inj env) xs) = mset xs"
  shows "\<exists>f h. \<forall>g roots c. refresh_container
    (env\<lparr>ce_inj := (ce_inj env)\<lparr>ie_resolve_fuel := f, ie_bind_fuel := h\<rparr>\<rparr>) g p roots c \<noteq> None"
proof -
  from conf_fuel_exists [OF assms(1), of "ce_inj env"] obtain f h where
    conf: "conf_returns ((ce_inj env)\<lparr>ie_resolve_fuel := f, ie_bind_fuel := h\<rparr>) p" by blast
  let ?env = "env\<lparr>ce_inj := (ce_inj env)\<lparr>ie_resolve_fuel := f, ie_bind_fuel := h\<rparr>\<rparr>"
  have inject: "inject_resolved ?env g p roots c rv \<noteq> None" for g roots c rv
  proof -
    have "refresh_injecting (ce_inj ?env) (Suc (length (rv_beans rv @ roots)))
        [length (rv_beans rv)..<length (rv_beans rv @ roots)] (active_positions (rv_beans rv)) (rv_beans rv @ roots)
        (ce_values ?env (rv_beans rv @ roots)) (new_dync p (ce_cells ?env)) \<noteq> None"
      by (rule refresh_ends) (use assms(2) conf in \<open>auto simp: active_positions_set new_dync_def\<close>)
    then show ?thesis unfolding inject_resolved_def Let_def by (simp only: option.map_disc_iff not_False_eq_True)
  qed
  have "refresh_container ?env g p roots c \<noteq> None" for g roots c
  proof (cases "ct_resolving c")
    case (Some rv0)
    obtain q rv where run: "refresh (ce_go ?env) g p rv0 = Some (q, rv)"
      using refresh_total [of "ce_go ?env" g p rv0] by auto
    show ?thesis
    proof (cases q)
      case (Inl e)
      with Some run show ?thesis by (cases e) (simp_all add: refresh_container_def Let_def)
    next
      case (Inr u)
      with Some run show ?thesis
        by (simp add: refresh_container_def Let_def inject del: not_None_eq)
    qed
  qed (simp add: refresh_container_def Let_def)
  then show ?thesis by blast
qed

text \<open>A root with a field of a type that two definitions have; the condition of one is not met.\<close>

definition sample_container_env :: "unit container_env" where
  "sample_container_env =
     \<lparr>ce_go = \<lparr>ge_types = sample_types, ge_ptr_to = (\<lambda>t. CHR ''*'' # t), ge_methods = (\<lambda>_. []),
         ge_regexp = (\<lambda>_. None), ge_expr = (\<lambda>_ _. Inr False)\<rparr>,
      ce_inj = sample_inj_env,
      ce_values = (\<lambda>_ b. if b = 2 then RefV ''*A'' 0 else RefV ''*B'' (Suc b)),
      ce_cells = (\<lambda>_. name_cell), ce_testing = False\<rparr>"

definition default_bean :: "rtype \<Rightarrow> string \<Rightarrow> cond list \<Rightarrow> unit ivalue bean" where
  "default_bean t name cs = (sample_bean t name)\<lparr>bd_status := StatusDefault, bd_conditions := cs\<rparr>"

definition sample_registry :: "unit ivalue registry" where
  "sample_registry = \<lparr>gi_modules = [], gi_beans = [default_bean ''*B'' ''b'' []]\<rparr>"

definition sample_container :: "unit container" where
  "sample_container = \<lparr>ct_resolving = Some \<lparr>rv_state = RefreshDefault,
      rv_beans = [default_bean ''*B'' ''c'' [on_property ''missing'']]\<rparr>,
     ct_injecting = None, ct_state = RefreshDefault\<rparr>"

definition sample_roots :: "unit ivalue bean list" where
  "sample_roots = [default_bean ''*A'' ''a'' []]"

definition sample_container_run ::
  "((container_error, unit) result \<times> unit container \<times> unit ivalue registry \<times> unit wiring option) option" where
  "sample_container_run = refresh_container sample_container_env sample_registry
     (properties_storage \<lparr>pr_data = []\<rparr>) sample_roots sample_container"

lemma sample_container_result:
  "map_option (\<lambda>(r, c, g, w). (r, close_container c, length (gi_beans g), map_option wi_deps w)) sample_container_run =
   Some (Inr (), [(''Close'', RefV ''*A'' 0), (''Close'', RefV ''*B'' 1)], 0, Some [(2, [0]), (0, [])])"
  by code_simp

lemma sample_container_ran:
  obtains c' g' s where "refresh_container sample_container_env sample_registry
      (properties_storage \<lparr>pr_data = []\<rparr>) sample_roots sample_container = Some (Inr (), c', g', Some s)"
    and "close_container c' = [(''Close'', RefV ''*A'' 0), (''Close'', RefV ''*B'' 1)]"
    and "wi_deps s = [(2, [0]), (0, [])]"
proof -
  obtain r c' g' w where run: "sample_container_run = Some (r, c', g', w)"
    and "(r, close_container c', length (gi_beans g'), map_option wi_deps w) =
      (Inr (), [(''Close'', RefV ''*A'' 0), (''Close'', RefV ''*B'' 1)], 0, Some [(2, [0]), (0, [])])"
    using sample_container_result by (auto simp del: not_None_eq)
  then show thesis using that [of c' g' "the w"] unfolding sample_container_run_def by auto
qed

theorem container_refreshed_once_witness:
  "\<exists>c' g' w e c''. refresh_container sample_container_env sample_registry (properties_storage \<lparr>pr_data = []\<rparr>)
      sample_roots sample_container = Some (Inr (), c', g', w) \<and>
    (\<forall>pv. provide_container sample_container_env pv c' = Inl NilDereference) \<and>
    refresh_container sample_container_env sample_registry (properties_storage \<lparr>pr_data = []\<rparr>) [] c' =
      Some (Inl e, c'', sample_registry, None) \<and>
    close_container c'' = [(''Close'', RefV ''*A'' 0), (''Close'', RefV ''*B'' 1)]"
proof -
  obtain c' g' s where run: "refresh_container sample_container_env sample_registry
      (properties_storage \<lparr>pr_data = []\<rparr>) sample_roots sample_container = Some (Inr (), c', g', Some s)"
    and close: "close_container c' = [(''Close'', RefV ''*A'' 0), (''Close'', RefV ''*B'' 1)]"
    by (rule sample_container_ran)
  from container_refreshed_once [OF run, of sample_container_env sample_registry
      "properties_storage \<lparr>pr_data = []\<rparr>" "[]"] close run
  show ?thesis by auto
qed


theorem container_returns_witness:
  "\<exists>f h. refresh_container
    (sample_container_env\<lparr>ce_inj := (ce_inj sample_container_env)\<lparr>ie_resolve_fuel := f, ie_bind_fuel := h\<rparr>\<rparr>)
    sample_registry (properties_storage \<lparr>pr_data = []\<rparr>) sample_roots sample_container \<noteq> None"
  using container_returns [of "properties_storage \<lparr>pr_data = []\<rparr>" sample_container_env]
  by (simp add: bindable_properties sample_container_env_def sample_inj_env_def del: not_None_eq) blast

end
