(* ===== verification/GsSources.thy ===== *)
theory GsSources
  imports FlatStore
begin

text \<open>
  \<open>spring/gs/internal/gs_conf\<close>: the configuration sources \<open>dotenv.go\<close>, \<open>env.go\<close> and \<open>cmd.go\<close>.
  The scanner of a \<open>.env\<close> file is a function of the line number and the bytes that
  remain; strings are lists of bytes. The process environment is an association list,
  the file system a function that reads a file.
\<close>

section \<open>Scanning\<close>

definition newline :: char where
  "newline = CHR 0x0A"

definition blank :: "char \<Rightarrow> bool" where
  "blank c \<longleftrightarrow> c = CHR '' '' \<or> c = CHR 0x09"

definition quote_char :: char where
  "quote_char = CHR 0x22"

definition single_quote :: char where
  "single_quote = CHR 0x27"

definition backslash :: char where
  "backslash = CHR 0x5C"

datatype dotenv_error =
    MissingEquals nat string
  | EmptyName nat
  | InvalidName nat string
  | UnterminatedSingle nat
  | UnterminatedDouble nat
  | UnexpectedContent nat

text \<open>At the end of the input \<open>peek\<close> reads a zero byte.\<close>

definition peek :: "string \<Rightarrow> char" where
  "peek s = (case s of [] \<Rightarrow> CHR 0x00 | c # _ \<Rightarrow> c)"

definition next_line :: "char \<Rightarrow> nat \<Rightarrow> nat" where
  "next_line c l = (if c = newline then l + 1 else l)"

definition is_name_start :: "char \<Rightarrow> bool" where
  "is_name_start b \<longleftrightarrow> b = CHR ''_'' \<or>
     (let n = of_char b :: nat in (97 \<le> n \<and> n \<le> 122) \<or> (65 \<le> n \<and> n \<le> 90))"

definition is_name_char :: "char \<Rightarrow> bool" where
  "is_name_char b \<longleftrightarrow> is_name_start b \<or> is_digit b"

definition is_valid_env_name :: "string \<Rightarrow> bool" where
  "is_valid_env_name s = (case s of [] \<Rightarrow> False | c # r \<Rightarrow> is_name_start c \<and> list_all is_name_char r)"

function skip_ignored :: "nat \<Rightarrow> string \<Rightarrow> nat \<times> string" where
  "skip_ignored l [] = (l, [])"
| "skip_ignored l (c # s) =
     (if blank c \<or> c = CHR 0x0D \<or> c = newline then skip_ignored (next_line c l) s
      else if c = CHR ''#'' then skip_ignored l (dropWhile (\<lambda>b. b \<noteq> newline) (c # s))
      else (l, c # s))"
  by pat_completeness auto

termination
  by (relation "measure (length \<circ> snd)") (auto simp: newline_def intro: le_imp_less_Suc length_dropWhile_le)

definition after_export :: "string \<Rightarrow> string" where
  "after_export s =
     (case cut_prefix s ''export'' of
        Some (c # r) \<Rightarrow> if blank c then dropWhile blank (c # r) else s
      | _ \<Rightarrow> s)"

definition key_end :: "char \<Rightarrow> bool" where
  "key_end b \<longleftrightarrow> b = CHR ''='' \<or> b = newline \<or> b = CHR ''#''"

definition read_key :: "nat \<Rightarrow> string \<Rightarrow> (dotenv_error, string \<times> string) result" where
  "read_key l s0 =
     (let s = after_export s0;
          rest = dropWhile (\<lambda>b. \<not> key_end b) s;
          key = trim_right_where blank (takeWhile (\<lambda>b. \<not> key_end b) s)
      in if peek rest \<noteq> CHR ''='' then Inl (MissingEquals l key)
         else if key = [] then Inl (EmptyName l)
         else if \<not> is_valid_env_name key then Inl (InvalidName l key)
         else Inr (key, tl rest))"

text \<open>An undefined variable expands to nothing; a reference without a valid name stays.\<close>

definition expand_var :: "(string \<Rightarrow> string option) \<Rightarrow> string \<Rightarrow> string \<times> string" where
  "expand_var lookup s =
     (let value = (\<lambda>name. case lookup name of None \<Rightarrow> [] | Some v \<Rightarrow> v)
      in case s of
           [] \<Rightarrow> (''$'', [])
         | c # r \<Rightarrow>
             if c = CHR ''{'' then
               (let name = takeWhile (\<lambda>b. b \<noteq> CHR ''}'' \<and> b \<noteq> newline) r
                in case dropWhile (\<lambda>b. b \<noteq> CHR ''}'' \<and> b \<noteq> newline) r of
                     [] \<Rightarrow> (''${'' @ name, [])
                   | d # t \<Rightarrow>
                       if d = newline then (''${'' @ name, d # t)
                       else if \<not> is_valid_env_name name then (''${'' @ name @ ''}'', t)
                       else (value name, t))
             else if is_name_start c then (value (takeWhile is_name_char s), dropWhile is_name_char s)
             else (''$'', s))"

lemma dropWhile_tl_length: "dropWhile P r = d # t \<Longrightarrow> length t < length r"
  by (metis Suc_le_eq length_Cons length_dropWhile_le)

lemma expand_var_length: "length (snd (expand_var lookup s)) \<le> length s"
proof (cases s)
  case (Cons c r)
  show ?thesis
  proof (cases "c = CHR ''{''")
    case True
    show ?thesis
    proof (cases "dropWhile (\<lambda>b. b \<noteq> CHR ''}'' \<and> b \<noteq> newline) r")
      case Nil
      with Cons True show ?thesis by (simp add: expand_var_def Let_def del: dropWhile_eq_Nil_conv)
    next
      case d: (Cons d t)
      from dropWhile_tl_length [OF d] Cons True d show ?thesis by (simp add: expand_var_def Let_def)
    qed
  next
    case False
    have "length (dropWhile is_name_char (c # r)) \<le> length (c # r)" by (rule length_dropWhile_le)
    with Cons False show ?thesis by (simp add: expand_var_def)
  qed
qed (simp add: expand_var_def)

function unquoted_body :: "(string \<Rightarrow> string option) \<Rightarrow> string \<Rightarrow> string \<times> string" where
  "unquoted_body lookup [] = ([], [])"
| "unquoted_body lookup (c # r) =
     (if c = newline then ([], c # r)
      else if c = CHR ''$'' then
        (let e = expand_var lookup r; k = unquoted_body lookup (snd e) in (fst e @ fst k, snd k))
      else (let k = unquoted_body lookup r in (c # fst k, snd k)))"
  by pat_completeness auto

termination
  by (relation "measure (length \<circ> snd)") (auto simp: expand_var_length le_imp_less_Suc)

definition read_unquoted :: "(string \<Rightarrow> string option) \<Rightarrow> string \<Rightarrow> string \<times> string" where
  "read_unquoted lookup s =
     (let k = unquoted_body lookup s in (trim_right_where (\<lambda>c. blank c \<or> c = CHR 0x0D) (fst k), snd k))"

fun single_body :: "nat \<Rightarrow> string \<Rightarrow> (dotenv_error, string \<times> nat \<times> string) result" where
  "single_body l [] = Inl (UnterminatedSingle l)"
| "single_body l (c # r) =
     (if c = single_quote then Inr ([], l, r)
      else rbind (single_body (next_line c l) r) (\<lambda>(u, l, r). Inr (c # u, l, r)))"

definition write_escape :: "char \<Rightarrow> string" where
  "write_escape e =
     (if e = CHR ''n'' then [newline] else if e = CHR ''r'' then [CHR 0x0D] else if e = CHR ''t'' then [CHR 0x09]
      else if e = quote_char then [quote_char] else if e = backslash then [backslash]
      else if e = CHR ''$'' then ''$'' else if e = newline then [] else [backslash, e])"


function double_body ::
  "(string \<Rightarrow> string option) \<Rightarrow> nat \<Rightarrow> string \<Rightarrow> (dotenv_error, string \<times> nat \<times> string) result" where
  "double_body lookup l [] = Inl (UnterminatedDouble l)"
| "double_body lookup l (c # r) =
     (if c = quote_char then Inr ([], l, r)
      else if c = backslash then
        (case r of
           [] \<Rightarrow> Inl (UnterminatedDouble l)
         | e # r' \<Rightarrow> rbind (double_body lookup (next_line e l) r') (\<lambda>(u, l, r). Inr (write_escape e @ u, l, r)))
      else if c = CHR ''$'' then
        (let e = expand_var lookup r
         in rbind (double_body lookup l (snd e)) (\<lambda>(u, l, r). Inr (fst e @ u, l, r)))
      else rbind (double_body lookup (next_line c l) r) (\<lambda>(u, l, r). Inr (c # u, l, r)))"
  by pat_completeness auto

termination
  by (relation "measure (length \<circ> snd \<circ> snd)") (auto simp: expand_var_length le_imp_less_Suc)

definition expect_line_end :: "nat \<Rightarrow> string \<Rightarrow> (dotenv_error, string) result" where
  "expect_line_end l s0 =
     (let s = dropWhile blank s0; b = peek s
      in if b = CHR 0x00 \<or> b = newline \<or> b = CHR 0x0D then Inr s
         else if b = CHR ''#'' then Inr (dropWhile (\<lambda>b. b \<noteq> newline) s)
         else Inl (UnexpectedContent l))"

definition closed_value ::
  "(dotenv_error, string \<times> nat \<times> string) result \<Rightarrow> (dotenv_error, string \<times> nat \<times> string) result" where
  "closed_value r = rbind r (\<lambda>(v, l, s). rbind (expect_line_end l s) (\<lambda>s. Inr (v, l, s)))"

definition read_value ::
  "(string \<Rightarrow> string option) \<Rightarrow> nat \<Rightarrow> string \<Rightarrow> (dotenv_error, string \<times> nat \<times> string) result" where
  "read_value lookup l s0 =
     (case dropWhile blank s0 of
        [] \<Rightarrow> Inr ([], l, [])
      | c # r \<Rightarrow>
          if c = quote_char then closed_value (double_body lookup l r)
          else if c = single_quote then closed_value (single_body l r)
          else (let k = read_unquoted lookup (c # r) in Inr (fst k, l, snd k)))"

text \<open>A name means the latest pair of the file, else the process environment.\<close>

definition lookup_pairs :: "(string \<Rightarrow> string option) \<Rightarrow> (string \<times> string) list \<Rightarrow> string \<Rightarrow> string option" where
  "lookup_pairs getenv pairs name =
     (case map_of (rev pairs) name of Some v \<Rightarrow> Some v | None \<Rightarrow> getenv name)"

lemma after_export_length: "length (after_export s) \<le> length s"
  using length_dropWhile_le
  by (fastforce simp: after_export_def cut_prefix_Some_iff split: option.split list.split intro: le_SucI)

lemma read_key_length: "read_key l s = Inr (key, s') \<Longrightarrow> length s' < length s"
proof -
  assume r: "read_key l s = Inr (key, s')"
  let ?rest = "dropWhile (\<lambda>b. \<not> key_end b) (after_export s)"
  from r have "peek ?rest = CHR ''=''" and s': "s' = tl ?rest"
    by (auto simp: read_key_def Let_def split: if_splits)
  then have "?rest \<noteq> []" by (auto simp: peek_def simp del: dropWhile_eq_Nil_conv)
  with s' have "length s' < length ?rest" by (cases ?rest) auto
  also have "\<dots> \<le> length (after_export s)" by (rule length_dropWhile_le)
  also have "\<dots> \<le> length s" by (rule after_export_length)
  finally show ?thesis .
qed

lemma unquoted_body_length: "length (snd (unquoted_body lookup s)) \<le> length s"
proof (induction lookup s rule: unquoted_body.induct)
  case (2 lookup c r)
  from 2(1) [OF _ _ refl] have "c \<noteq> newline \<Longrightarrow> c = CHR ''$'' \<Longrightarrow>
      length (snd (unquoted_body lookup (snd (expand_var lookup r)))) \<le> length r"
    using expand_var_length order_trans by blast
  with 2(2) show ?case by (auto simp: Let_def)
qed simp

lemma single_body_length: "single_body l s = Inr (v, l', s') \<Longrightarrow> length s' \<le> length s"
  by (induction l s arbitrary: v l' s' rule: single_body.induct)
    (fastforce simp: rbind_Inr_iff split: if_splits prod.splits)+

lemma double_body_length: "double_body lookup l s = Inr (v, l', s') \<Longrightarrow> length s' \<le> length s"
proof (induction lookup l s arbitrary: v l' s' rule: double_body.induct)
  case (2 lookup l c r)
  have e: "length (snd (expand_var lookup r)) \<le> length r" by (rule expand_var_length)
  show ?case
  proof (cases "c = quote_char")
    case False
    note c = False
    show ?thesis
    proof (cases "c = backslash")
      case True
      with c 2(4) 2(1) show ?thesis
        by (fastforce simp: rbind_Inr_iff split: list.splits prod.splits)
    next
      case False
      show ?thesis
      proof (cases "c = CHR ''$''")
        case True
        with c False 2(4) obtain u where "double_body lookup l (snd (expand_var lookup r)) = Inr (u, l', s')"
          by (auto simp: Let_def rbind_Inr_iff)
        with 2(2) [OF c False True refl] e show ?thesis by fastforce
      next
        case f: False
        with c False 2(4) obtain u where "double_body lookup (next_line c l) r = Inr (u, l', s')"
          by (auto simp: rbind_Inr_iff)
        with 2(3) [OF c False f] show ?thesis by fastforce
      qed
    qed
  qed (use 2(4) in auto)
qed simp

lemma expect_line_end_length: "expect_line_end l s = Inr s' \<Longrightarrow> length s' \<le> length s"
proof -
  assume "expect_line_end l s = Inr s'"
  then have "s' = dropWhile blank s \<or> s' = dropWhile (\<lambda>b. b \<noteq> newline) (dropWhile blank s)"
    by (auto simp: expect_line_end_def Let_def split: if_splits)
  moreover have "length (dropWhile blank s) \<le> length s"
    "length (dropWhile (\<lambda>b. b \<noteq> newline) (dropWhile blank s)) \<le> length (dropWhile blank s)"
    by (rule length_dropWhile_le)+
  ultimately show ?thesis by auto
qed

lemma closed_value_length:
  "closed_value r = Inr (v, l', s') \<Longrightarrow> (\<And>u l s. r = Inr (u, l, s) \<Longrightarrow> length s \<le> n) \<Longrightarrow> length s' \<le> n"
  using expect_line_end_length by (fastforce simp: closed_value_def rbind_Inr_iff intro: order_trans)

lemma read_value_length: "read_value lookup l s = Inr (v, l', s') \<Longrightarrow> length s' \<le> length s"
proof -
  assume r: "read_value lookup l s = Inr (v, l', s')"
  have d: "length (dropWhile blank s) \<le> length s" by (rule length_dropWhile_le)
  show ?thesis
  proof (cases "dropWhile blank s")
    case (Cons c t)
    have "length s' \<le> Suc (length t)"
    proof (cases "c = quote_char \<or> c = single_quote")
      case True
      with r Cons have "length s' \<le> length t"
        by (auto simp: read_value_def split: if_splits
            elim!: closed_value_length dest: double_body_length single_body_length)
      then show ?thesis by simp
    next
      case False
      with r Cons unquoted_body_length [of lookup "c # t"] show ?thesis
        by (auto simp: read_value_def read_unquoted_def Let_def)
    qed
    with d Cons show ?thesis by simp
  qed (use r in \<open>simp add: read_value_def del: dropWhile_eq_Nil_conv\<close>)
qed

lemma skip_ignored_length: "length (snd (skip_ignored l s)) \<le> length s"
proof (induction l s rule: skip_ignored.induct)
  case (2 l c s)
  have "length (dropWhile (\<lambda>b. b \<noteq> newline) s) \<le> length s" by (rule length_dropWhile_le)
  with 2 show ?case by (auto simp: newline_def)
qed simp

function parse_pairs ::
  "(string \<Rightarrow> string option) \<Rightarrow> (string \<times> string) list \<Rightarrow> nat \<Rightarrow> string \<Rightarrow>
     (dotenv_error, (string \<times> string) list) result" where
  "parse_pairs getenv pairs l0 s0 =
     (let l = fst (skip_ignored l0 s0); s = snd (skip_ignored l0 s0)
      in if s = [] then Inr pairs
         else (case read_key l s of
             Inl e \<Rightarrow> Inl e
           | Inr (key, s1) \<Rightarrow>
               (case read_value (lookup_pairs getenv pairs) l s1 of
                  Inl e \<Rightarrow> Inl e
                | Inr (value, l2, s2) \<Rightarrow> parse_pairs getenv (pairs @ [(key, value)]) l2 s2)))"
  by pat_completeness auto

termination
proof (relation "measure (\<lambda>(getenv, pairs, l, s). length s)")
  fix getenv :: "string \<Rightarrow> string option" and pairs :: "(string \<times> string) list" and l0 l s0 s kv key s1 vls val ls l2 s2
  assume "s = snd (skip_ignored l0 s0)" "read_key l s = Inr kv" "(key, s1) = kv"
    "read_value (lookup_pairs getenv pairs) l s1 = Inr vls" "(val, ls) = vls" "(l2, s2) = ls"
  then show "((getenv, pairs @ [(key, val)], l2, s2), getenv, pairs, l0, s0) \<in> measure (\<lambda>(getenv, pairs, l, s). length s)"
    using skip_ignored_length [of l0 s0] read_key_length [of l s key s1]
      read_value_length [of "lookup_pairs getenv pairs" l s1 val l2 s2] by auto
qed simp

declare parse_pairs.simps [simp del]

definition bom :: string where
  "bom = [CHR 0xEF, CHR 0xBB, CHR 0xBF]"

definition parse_dotenv ::
  "(string \<Rightarrow> string option) \<Rightarrow> string \<Rightarrow> (dotenv_error, (string \<times> string) list) result" where
  "parse_dotenv getenv data =
     parse_pairs getenv [] 1 (case cut_prefix data bom of Some r \<Rightarrow> r | None \<Rightarrow> data)"

section \<open>The process environment\<close>

datatype load_error = ReadFailed string | ParseFailed dotenv_error

text \<open>\<open>os.Setenv\<close> rejects a key that is empty or holds \<open>=\<close>, and zero bytes; the error is ignored.\<close>

definition set_env :: "string \<Rightarrow> string \<Rightarrow> (string, string) gomap \<Rightarrow> (string, string) gomap" where
  "set_env k v env =
     (if k = [] \<or> CHR ''='' \<in> set k \<or> CHR 0x00 \<in> set k \<or> CHR 0x00 \<in> set v then env else AList.update k v env)"

definition apply_values :: "(string, string) gomap \<Rightarrow> (string, string) gomap \<Rightarrow> (string, string) gomap" where
  "apply_values vals env =
     fold (\<lambda>(k, v) env. if map_of env k \<noteq> None then env else set_env k v env) vals env"

definition env_file :: "(string, string) gomap \<Rightarrow> string" where
  "env_file env =
     (let f = trim_space (case map_of env ''GS_ENV_FILE'' of None \<Rightarrow> [] | Some f \<Rightarrow> f)
      in if f = [] then ''.env'' else f)"

text \<open>\<open>read_file\<close> gives an error, no file (\<open>None\<close>) or the bytes of the file.\<close>

definition load_dotenv ::
  "(string \<Rightarrow> (string, string option) result) \<Rightarrow> (string, string) gomap \<Rightarrow> (load_error, (string, string) gomap) result" where
  "load_dotenv read_file env =
     (case read_file (env_file env) of
        Inl e \<Rightarrow> Inl (ReadFailed e)
      | Inr None \<Rightarrow> Inr env
      | Inr (Some data) \<Rightarrow>
          rbind (map_err ParseFailed (parse_dotenv (map_of env) data))
            (\<lambda>pairs. Inr (apply_values (put_all pairs []) env)))"

section \<open>Environment variables as properties\<close>

definition split_env :: "string \<Rightarrow> string \<times> string" where
  "split_env e = (case cut_char e CHR ''='' of None \<Rightarrow> (e, []) | Some (k, v) \<Rightarrow> (k, v))"

definition env_key :: "string \<Rightarrow> string" where
  "env_key k =
     (case cut_prefix k ''GS_'' of
        Some s \<Rightarrow> to_lower (replace_char CHR ''_'' CHR ''.'' s)
      | None \<Rightarrow> k)"

definition extract_environments :: "string list \<Rightarrow> properties" where
  "extract_environments environ =
     fold (\<lambda>e p. let (k, v) = split_env e in if k = [] then p else pr_set (env_key k) v p)
       environ (new_properties None)"

section \<open>Command-line options\<close>

datatype cmd_error = OptionNeedsArgument string | OptionEmptyKey string

definition cmd_option :: "(string, string) gomap \<Rightarrow> string" where
  "cmd_option env =
     (let s = trim_space (case map_of env ''GS_ARGS_PREFIX'' of None \<Rightarrow> [] | Some s \<Rightarrow> s)
      in if s \<noteq> [] then s else ''-D'')"

definition add_option :: "string \<Rightarrow> string \<Rightarrow> properties \<Rightarrow> (cmd_error, properties) result" where
  "add_option option str0 p =
     (let str = trim_space str0
      in if str = [] then Inl (OptionNeedsArgument option)
         else
           (let (k, v) = (case cut_char str CHR ''='' of None \<Rightarrow> (str, ''true'') | Some (k, v) \<Rightarrow> (k, v))
            in if trim_space k = [] then Inl (OptionEmptyKey option) else Inr (pr_set k v p)))"

fun cmd_loop :: "string \<Rightarrow> string list \<Rightarrow> properties \<Rightarrow> (cmd_error, properties) result" where
  "cmd_loop option [] p = Inr p"
| "cmd_loop option [a] p =
     (if a = option then Inl (OptionNeedsArgument option)
      else case cut_prefix a option of Some s \<Rightarrow> add_option option s p | None \<Rightarrow> Inr p)"
| "cmd_loop option (a # b # args) p =
     (if a = option then rbind (add_option option b p) (cmd_loop option args)
      else case cut_prefix a option of
             Some s \<Rightarrow> rbind (add_option option s p) (cmd_loop option (b # args))
           | None \<Rightarrow> cmd_loop option (b # args) p)"

definition extract_cmd_args :: "(string, string) gomap \<Rightarrow> string list \<Rightarrow> (cmd_error, properties) result" where
  "extract_cmd_args env os_args =
     (case os_args of
        [] \<Rightarrow> Inr (new_properties None)
      | _ # args \<Rightarrow> cmd_loop (cmd_option env) args (new_properties None))"

section \<open>Printing and parsing a file\<close>

definition escape_char :: "char \<Rightarrow> string" where
  "escape_char c = (if c \<in> {quote_char, backslash, CHR ''$''} then [backslash, c] else [c])"

definition render_pair :: "string \<times> string \<Rightarrow> string" where
  "render_pair kv = fst kv @ CHR ''='' # quote_char # concat (map escape_char (snd kv)) @ [quote_char, newline]"

lemma name_char_plain:
  "is_name_char c \<Longrightarrow> \<not> blank c \<and> \<not> key_end c \<and> c \<noteq> newline \<and> c \<noteq> CHR 0x0D \<and> c \<noteq> CHR ''#'' \<and> c \<noteq> CHR 0x00 \<and> c \<noteq> CHR ''=''
     \<and> c \<noteq> CHR 0xEF"
  by (auto simp: is_name_char_def is_name_start_def is_digit_def blank_def key_end_def newline_def Let_def)

lemma valid_name_chars: "is_valid_env_name k \<Longrightarrow> c \<in> set k \<Longrightarrow> is_name_char c"
  by (auto simp: is_valid_env_name_def is_name_char_def list_all_iff split: list.splits)

lemma valid_name_not_Nil: "is_valid_env_name k \<Longrightarrow> k \<noteq> []"
  by (auto simp: is_valid_env_name_def)

lemma read_key_valid: "is_valid_env_name k \<Longrightarrow> read_key l (k @ CHR ''='' # r) = Inr (k, r)"
proof -
  assume k: "is_valid_env_name k"
  have plain: "\<not> key_end c" "\<not> blank c" if "c \<in> set k" for c
    using valid_name_chars [OF k that] name_char_plain by auto
  have "after_export (k @ CHR ''='' # r) = k @ CHR ''='' # r"
  proof (cases "cut_prefix (k @ CHR ''='' # r) ''export''")
    case (Some t)
    then have eq: "k @ CHR ''='' # r = ''export'' @ t" by (simp only: cut_prefix_Some_iff)
    have "\<not> blank (hd t)" if "t \<noteq> []"
    proof (cases "length k \<le> 6")
      case True
      have "hd t \<in> set k \<or> hd t = CHR ''='' \<or> length k < 6"
      proof (cases "length k = 6")
        case True
        have "t = drop (length ''export'') (k @ CHR ''='' # r)"
          using eq [symmetric] unfolding append_eq_conv_conj by blast
        with True have "t = CHR ''='' # r" by simp
        then show ?thesis by simp
      qed (use \<open>length k \<le> 6\<close> in simp)
      moreover have "\<not> length k < 6"
      proof
        assume "length k < 6"
        then have "CHR ''='' \<in> set (take 6 (k @ CHR ''='' # r))" by (cases "6 - length k") auto
        also have "take 6 (k @ CHR ''='' # r) = take 6 (''export'' @ t)" by (simp only: eq)
        finally show False by simp
      qed
      ultimately show ?thesis using plain(2) by (auto simp: blank_def)
    next
      case False
      then have "6 < length k" by simp
      then have "k ! 6 = (k @ CHR ''='' # r) ! 6" by (simp add: nth_append)
      also have "\<dots> = hd t" using eq that by (simp add: nth_append hd_conv_nth)
      finally have "hd t \<in> set k" using \<open>6 < length k\<close> nth_mem by metis
      with plain(2) show ?thesis by simp
    qed
    with Some show ?thesis by (auto simp: after_export_def split: list.split)
  qed (simp add: after_export_def)
  moreover have "takeWhile (\<lambda>b. \<not> key_end b) (k @ CHR ''='' # r) = k"
    "dropWhile (\<lambda>b. \<not> key_end b) (k @ CHR ''='' # r) = CHR ''='' # r"
    using plain(1) by (simp_all add: takeWhile_append2 dropWhile_append2 key_end_def)
  moreover have "trim_right_where blank k = k"
    by (rule trim_right_where_id) (use plain(2) in auto)
  ultimately show ?thesis using k valid_name_not_Nil [OF k] by (simp add: read_key_def Let_def peek_def)
qed

lemma double_body_escaped:
  "double_body lookup l (concat (map escape_char v) @ quote_char # r) = Inr (v, l + count_list v newline, r)"
proof (induction v arbitrary: l)
  case (Cons c v)
  show ?case
    using Cons by (auto simp: escape_char_def next_line_def write_escape_def newline_def quote_char_def backslash_def)
qed (simp add: quote_char_def)

lemma parse_pairs_newline: "parse_pairs getenv acc l (newline # s) = parse_pairs getenv acc (l + 1) s"
  by (subst (1 2) parse_pairs.simps) (simp add: next_line_def)

lemma parse_pairs_rendered:
  "list_all (\<lambda>kv. is_valid_env_name (fst kv)) pairs \<Longrightarrow>
     parse_pairs getenv acc l (concat (map render_pair pairs)) = Inr (acc @ pairs)"
proof (induction pairs arbitrary: acc l)
  case Nil
  then show ?case by (subst parse_pairs.simps) simp
next
  case (Cons kv pairs)
  obtain k v where kv: "kv = (k, v)" by (cases kv)
  with Cons.prems have k: "is_valid_env_name k" by simp
  let ?rest = "newline # concat (map render_pair pairs)"
  let ?s = "k @ CHR ''='' # quote_char # concat (map escape_char v) @ quote_char # ?rest"
  have quote: "\<not> blank quote_char" by (simp add: blank_def quote_char_def)
  have line_end: "expect_line_end l' ?rest = Inr ?rest" for l'
    by (simp add: expect_line_end_def peek_def Let_def blank_def newline_def)
  have "skip_ignored l ?s = (l, ?s)"
  proof (cases k)
    case (Cons c k')
    with k have "is_name_char c" using valid_name_chars by simp
    from name_char_plain [OF this] Cons show ?thesis by simp
  qed (use valid_name_not_Nil [OF k] in simp)
  moreover have "?s \<noteq> []" by simp
  moreover have "read_value (lookup_pairs getenv acc) l (quote_char # concat (map escape_char v) @ quote_char # ?rest) =
      Inr (v, l + count_list v newline, ?rest)"
    by (simp add: read_value_def closed_value_def double_body_escaped line_end quote)
  ultimately have "parse_pairs getenv acc l ?s = parse_pairs getenv (acc @ [(k, v)]) (l + count_list v newline) ?rest"
    by (subst parse_pairs.simps) (simp add: read_key_valid [OF k])
  also have "\<dots> = Inr ((acc @ [(k, v)]) @ pairs)"
    unfolding parse_pairs_newline by (rule Cons.IH) (use Cons.prems in simp)
  finally show ?case by (simp add: kv render_pair_def [of "(k, v)"])
qed

section \<open>What the sources give\<close>

lemma map_of_apply_values:
  "gomap_wf vals \<Longrightarrow> map_of (apply_values vals env) k =
     (case map_of env k of
        Some v \<Rightarrow> Some v
      | None \<Rightarrow> (case map_of vals k of
                  Some v \<Rightarrow> map_of (set_env k v []) k
                | None \<Rightarrow> None))"
proof (induction vals arbitrary: env)
  case (Cons kv vals)
  obtain a v where kv: "kv = (a, v)" by (cases kv)
  with Cons.prems have wf: "gomap_wf vals" and new: "map_of vals a = None"
    by (auto simp: gomap_wf_def map_of_eq_None_iff)
  let ?env = "if map_of env a \<noteq> None then env else set_env a v env"
  have "apply_values (kv # vals) env = apply_values vals ?env" by (simp add: apply_values_def kv)
  with Cons.IH [OF wf, of ?env] new kv show ?case
    by (auto simp: set_env_def split: option.splits)
qed (simp add: apply_values_def split: option.split)

definition env_strings :: "(string, string) gomap \<Rightarrow> string list" where
  "env_strings env = map (\<lambda>(k, v). k @ CHR ''='' # v) env"

lemma split_env_string: "CHR ''='' \<notin> set k \<Longrightarrow> split_env (k @ CHR ''='' # v) = (k, v)"
proof -
  assume "CHR ''='' \<notin> set k"
  then have "cut_char (k @ CHR ''='' # v) CHR ''='' = Some (k, v)" by (simp add: cut_char_Some_iff)
  then show ?thesis by (simp add: split_env_def)
qed

lemma extract_environments_fold:
  "(\<And>kv. kv \<in> set env \<Longrightarrow> CHR ''='' \<notin> set (fst kv) \<and> fst kv \<noteq> []) \<Longrightarrow>
     map_of (pr_data (fold (\<lambda>e p. let (k, v) = split_env e in if k = [] then p else pr_set (env_key k) v p)
       (env_strings env) p)) key =
     (case map_of (rev (map (\<lambda>(k, v). (env_key k, v)) env)) key of
        Some v \<Rightarrow> Some v | None \<Rightarrow> map_of (pr_data p) key)"
proof (induction env arbitrary: p)
  case (Cons kv env)
  obtain k v where kv: "kv = (k, v)" by (cases kv)
  with Cons.prems [of kv] have "split_env (k @ CHR ''='' # v) = (k, v)" "k \<noteq> []" by (auto simp: split_env_string)
  with Cons.IH [of "pr_set (env_key k) v p"] Cons.prems kv show ?case
    by (auto simp: env_strings_def pr_set_def map_add_def split: option.splits)
qed (simp add: env_strings_def)

text \<open>Property C35: printing and reading a \<open>.env\<close> file. A list of pairs with valid names,
  written one per line in double quotes with quotes, backslashes and dollars escaped, is read
  back exactly, whatever bytes the values hold, line breaks included, and whatever the
  process environment says.\<close>

theorem dotenv_roundtrip:
  assumes "list_all (\<lambda>kv. is_valid_env_name (fst kv)) pairs"
  shows "parse_dotenv getenv (concat (map render_pair pairs)) = Inr pairs"
proof -
  have "cut_prefix (concat (map render_pair pairs)) bom = None"
  proof (cases pairs)
    case (Cons kv ps)
    with assms have k: "is_valid_env_name (fst kv)" by simp
    then obtain c k' where "fst kv = c # k'" using valid_name_not_Nil by (cases "fst kv") auto
    with valid_name_chars [OF k, of c] name_char_plain [of c] Cons show ?thesis
      by (simp add: render_pair_def bom_def)
  qed (simp add: bom_def)
  with parse_pairs_rendered [OF assms, of getenv "[]" 1] show ?thesis by (simp add: parse_dotenv_def)
qed

lemma dotenv_roundtrip_witness:
  "parse_dotenv (\<lambda>_. None) (concat (map render_pair [(''A'', ''x$y''), (''B'', [quote_char, newline])])) =
     Inr [(''A'', ''x$y''), (''B'', [quote_char, newline])]"
  by (rule dotenv_roundtrip) (code_simp)

text \<open>From a \<open>.env\<close> file to the configuration. Loading a file never changes a
  variable the process has; of several pairs with one name the last one counts. A variable
  then becomes a property: one whose name starts with \<open>GS_\<close> under the rest of its name in
  lower case with dots for underscores, any other under its own name.\<close>

theorem dotenv_reaches_properties:
  assumes "parse_dotenv (map_of env) data = Inr pairs" and "read_file (env_file env) = Inr (Some data)"
    and "map_of (rev pairs) k = Some v" and "is_valid_env_name k" and "CHR 0x00 \<notin> set v"
  shows "\<exists>env'. load_dotenv read_file env = Inr env' \<and>
    (\<forall>x u. map_of env x = Some u \<longrightarrow> map_of env' x = Some u) \<and>
    (map_of env k = None \<longrightarrow> map_of env' k = Some v \<and>
      ((\<forall>kv \<in> set env'. fst kv \<noteq> [] \<and> CHR ''='' \<notin> set (fst kv) \<and> (env_key (fst kv) = env_key k \<longrightarrow> kv = (k, v))) \<longrightarrow>
        pr_get (extract_environments (env_strings env')) (env_key k) = Some v))"
proof -
  let ?env = "apply_values (put_all pairs []) env"
  have load: "load_dotenv read_file env = Inr ?env" using assms(1,2) by (simp add: load_dotenv_def)
  have lookup: "map_of ?env x = (case map_of env x of Some v \<Rightarrow> Some v
      | None \<Rightarrow> (case map_of (rev pairs) x of Some v \<Rightarrow> map_of (set_env x v []) x | None \<Rightarrow> None))" for x
    by (subst map_of_apply_values) (simp_all add: map_of_put_all cong: option.case_cong split: option.split)
  have "CHR ''='' \<notin> set k" "CHR 0x00 \<notin> set k"
    using valid_name_chars [OF assms(4)] name_char_plain by blast+
  with lookup [of k] assms(3,5) valid_name_not_Nil [OF assms(4)] have
    val: "map_of env k = None \<Longrightarrow> map_of ?env k = Some v" by (simp add: set_env_def)
  have "pr_get (extract_environments (env_strings ?env)) (env_key k) = Some v"
    if none: "map_of env k = None"
      and uniq: "\<forall>kv \<in> set ?env. fst kv \<noteq> [] \<and> CHR ''='' \<notin> set (fst kv) \<and> (env_key (fst kv) = env_key k \<longrightarrow> kv = (k, v))"
  proof -
    let ?keys = "rev (map (\<lambda>(k, v). (env_key k, v)) ?env)"
    from val [OF none] have "(k, v) \<in> set ?env" by (rule map_of_SomeD)
    then have "(env_key k, v) \<in> set ?keys" by force
    then obtain w where w: "map_of ?keys (env_key k) = Some w"
      by (meson not_None_eq option.exhaust weak_map_of_SomeI)
    from map_of_SomeD [OF w] uniq have "w = v" by auto
    with w uniq extract_environments_fold [of ?env "new_properties None" "env_key k"] show ?thesis
      by (simp add: extract_environments_def pr_get_def)
  qed
  with load lookup val show ?thesis by (intro exI [of _ ?env]) simp
qed

definition sample_read :: "string \<Rightarrow> (string, string option) result" where
  "sample_read f = (if f = ''.env'' then Inr (Some ''export GS_DB_HOST=a'') else Inr None)"

lemma dotenv_reaches_properties_witness:
  "\<exists>env'. load_dotenv sample_read [(''HOME'', ''/'')] = Inr env' \<and>
     map_of env' ''HOME'' = Some ''/'' \<and> map_of env' ''GS_DB_HOST'' = Some ''a'' \<and> env_key ''GS_DB_HOST'' = ''db.host''"
proof -
  have p: "parse_dotenv (map_of [(''HOME'', ''/'')]) ''export GS_DB_HOST=a'' = Inr [(''GS_DB_HOST'', ''a'')]" by code_simp
  have r: "sample_read (env_file [(''HOME'', ''/'')]) = Inr (Some ''export GS_DB_HOST=a'')" by code_simp
  have "is_valid_env_name ''GS_DB_HOST''" "env_key ''GS_DB_HOST'' = ''db.host''" by code_simp+
  with dotenv_reaches_properties [where env = "[(''HOME'', ''/'')]" and read_file = sample_read
      and k = "''GS_DB_HOST''" and v = "''a''", OF p r]
  show ?thesis by auto
qed

text \<open>Command-line options. With a prefix, the options \<open>key=value\<close> given behind it
  or as the next argument, in any mixture, set the properties one after the other, later ones
  over earlier ones; every other argument is skipped. A prefix at the end of the line is an
  error.\<close>

theorem cmd_options:
  assumes "opt \<noteq> []"
    and "\<forall>(sep, k, v) \<in> set opts. trim_space (k @ CHR ''='' # v) = k @ CHR ''='' # v \<and>
      CHR ''='' \<notin> set k \<and> trim_space k \<noteq> []"
    and "\<forall>a \<in> set others. cut_prefix a opt = None"
  shows "cmd_loop opt (others @ concat (map (\<lambda>(sep, k, v).
             if sep then [opt, k @ CHR ''='' # v] else [opt @ k @ CHR ''='' # v]) opts)) p =
           Inr (fold (\<lambda>(sep, k, v). pr_set k v) opts p) \<and>
         cmd_loop opt (others @ [opt]) p = Inl (OptionNeedsArgument opt)"
proof -
  have cons: "cmd_loop opt (a # args) p =
      (if a = opt then (case args of [] \<Rightarrow> Inl (OptionNeedsArgument opt)
                        | b # args \<Rightarrow> rbind (add_option opt b p) (cmd_loop opt args))
       else case cut_prefix a opt of
              Some s \<Rightarrow> rbind (add_option opt s p) (cmd_loop opt args)
            | None \<Rightarrow> cmd_loop opt args p)" for a args p
    by (cases args) (auto split: option.split simp: add_option_def Let_def)
  have skip: "cmd_loop opt (others @ args) p = cmd_loop opt args p" for args
    using assms(3)
  proof (induction others)
    case (Cons a others)
    then have "cut_prefix a opt = None" "a \<noteq> opt" by (force simp: cut_prefix_None_iff)+
    with Cons show ?case by (simp add: cons)
  qed simp
  have add: "add_option opt (k @ CHR ''='' # v) p = Inr (pr_set k v p)" if "(sep, k, v) \<in> set opts" for sep k v p
  proof -
    from assms(2) that have ok: "trim_space (k @ CHR ''='' # v) = k @ CHR ''='' # v"
      "CHR ''='' \<notin> set k" "trim_space k \<noteq> []" by auto
    then have "cut_char (k @ CHR ''='' # v) CHR ''='' = Some (k, v)" by (simp add: cut_char_Some_iff)
    with ok show ?thesis by (simp add: add_option_def)
  qed
  have "cmd_loop opt (concat (map (\<lambda>(sep, k, v). if sep then [opt, k @ CHR ''='' # v] else [opt @ k @ CHR ''='' # v]) os)) p =
      Inr (fold (\<lambda>(sep, k, v). pr_set k v) os p)" if "set os \<subseteq> set opts" for os p
    using that
  proof (induction os arbitrary: p)
    case (Cons o1 os)
    obtain sep k v where "o1 = (sep, k, v)" by (cases o1)
    with Cons add [of sep k v p] show ?case by (simp add: cons)
  qed simp
  with skip show ?thesis by (simp add: cons)
qed

lemma cmd_options_witness:
  "cmd_loop ''-D'' [''run'', ''-Da=1'', ''-D'', ''b=2''] (new_properties None) =
     Inr (fold (\<lambda>(sep, k, v). pr_set k v) [(False, ''a'', ''1''), (True, ''b'', ''2'')] (new_properties None))"
proof -
  have sp: "trim_space ''a=1'' = ''a=1''" "trim_space ''b=2'' = ''b=2''" "trim_space ''a'' = ''a''" "trim_space ''b'' = ''b''"
    by code_simp+
  have "\<forall>(sep, k, v) \<in> set [(False, ''a'', ''1''), (True, ''b'', ''2'')].
      trim_space (k @ CHR ''='' # v) = k @ CHR ''='' # v \<and> CHR ''='' \<notin> set k \<and> trim_space k \<noteq> []"
    using sp by auto
  moreover have "\<forall>a \<in> set [''run'']. cut_prefix a ''-D'' = None" by simp
  ultimately show ?thesis
    using cmd_options [of "''-D''" "[(False, ''a'', ''1''), (True, ''b'', ''2'')]" "[''run'']" "new_properties None"]
    by simp
qed

end
