(* ===== verification/GsAppConf.thy ===== *)
theory GsAppConf
  imports ConfBind GsSources FlatLayers
begin

text \<open>
  \<open>spring/gs/internal/gs_conf/conf.go\<close>: the configuration of an application, put together from
  the command line, the environment, profile files, application files and defaults. It composes
  the sources of \<open>GsSources\<close>, the layers of \<open>FlatLayers\<close> and the references of \<open>ConfBind\<close>.
  \<open>conf.Load\<close>, which reads and parses a file or asks a provider, is an argument; so are the
  process environment (an association list that the .env file may extend) and the arguments of the
  process. Log output is left out.
\<close>

section \<open>Paths\<close>

text \<open>\<open>filepath.Clean\<close> and \<open>filepath.Join\<close> on Unix; the components collected so far are held backwards.\<close>

definition clean_step :: "bool \<Rightarrow> string \<Rightarrow> string list \<Rightarrow> string list" where
  "clean_step rooted c out =
     (if c = [] \<or> c = ''.'' then out
      else if c = ''..'' then
        (case out of
           [] \<Rightarrow> if rooted then [] else [''..'']
         | x # xs \<Rightarrow> if x = ''..'' then ''..'' # out else xs)
      else c # out)"

fun join_slash :: "string list \<Rightarrow> string" where
  "join_slash [] = []"
| "join_slash [c] = c"
| "join_slash (c # cs) = c @ ''/'' @ join_slash cs"

definition clean_path :: "string \<Rightarrow> string" where
  "clean_path p =
     (let rooted = has_prefix p ''/'';
          r = (if rooted then ''/'' else []) @
              join_slash (rev (fold (clean_step rooted) (split_char p (CHR ''/'')) []))
      in if r = [] then ''.'' else r)"

definition join_path2 :: "string \<Rightarrow> string \<Rightarrow> string" where
  "join_path2 dir file = (if dir = [] then clean_path file else clean_path (dir @ ''/'' @ file))"

section \<open>Lists of names\<close>

text \<open>Trimmed, without empty items and repetitions.\<close>

definition dedupe_step :: "string \<Rightarrow> string list \<Rightarrow> string list" where
  "dedupe_step s0 result =
     (let s = trim_space s0 in if s = [] \<or> s \<in> set result then result else result @ [s])"

definition dedupe :: "string list \<Rightarrow> string list" where
  "dedupe arr = fold dedupe_step arr []"

section \<open>Files\<close>

datatype file_error = FileNotExist | FileBroken string

datatype app_conf_error =
    DotenvFailed load_error
  | CmdFailed cmd_error
  | ConfDirFailed bind_error
  | BaseFilesFailed app_conf_error
  | ProfilesFailed bind_error
  | ProfileFilesFailed "string list" app_conf_error
  | PathFailed string bind_error
  | FileFailed string file_error
  | ImportsFailed string app_conf_error
  | ImportsBindFailed bind_error
  | ImportPathFailed string bind_error
  | ImportFileFailed string file_error
  | AddPanicked go_panic

text \<open>What the refresh takes from outside: \<open>fuel\<close> bounds nested references and binding.\<close>

record 'f app_world =
  aw_bind :: "'f bind_env"
  aw_fuel :: nat
  aw_args :: "string list"
  aw_read_file :: "string \<Rightarrow> (string, string option) result"
  aw_load :: "string \<Rightarrow> (file_error, properties) result"

definition extensions :: "string list" where
  "extensions = [''.properties'', ''.yaml'', ''.yml'', ''.toml'', ''.tml'', ''.json'']"

text \<open>No profiles are the nil slice: the base files.\<close>

definition candidates :: "string \<Rightarrow> string list option \<Rightarrow> string list" where
  "candidates dir profiles =
     (case profiles of
        None \<Rightarrow> map (\<lambda>ext. join_path2 dir (''app'' @ ext)) extensions
      | Some ps \<Rightarrow> concat (map (\<lambda>s. map (\<lambda>ext. join_path2 dir (''app-'' @ s @ ext)) extensions) ps))"

definition file_layer :: "string list option \<Rightarrow> int" where
  "file_layer profiles = int (case profiles of None \<Rightarrow> StorageAppFile | Some ps \<Rightarrow> StorageProfileFile)"

definition put_source ::
  "string list option \<Rightarrow> properties \<Rightarrow> string \<Rightarrow> layered \<Rightarrow> (app_conf_error, layered) result" where
  "put_source profiles p name l = map_err AddPanicked (add_storage (file_layer profiles) p name l)"

definition resolve_in :: "'f app_world \<Rightarrow> layered \<Rightarrow> string \<Rightarrow> (bind_error, string) result option" where
  "resolve_in w l s = resolve_conf (aw_fuel w) (Some (layered_storage l)) s"

text \<open>The struct \<open>loadFileImports\<close> binds, and the texts in its field.\<close>

definition imports_type :: gotype where
  "imports_type = TStruct []
     [Field ''Imports'' True False (Some ''${spring.config.import:=}'') None (TSlice (TScalar ''string'' KString))]"

definition imports_of :: "'f govalue \<Rightarrow> string list" where
  "imports_of v =
     (case v of
        VStruct [VSlice (Some xs)] \<Rightarrow> map (\<lambda>x. case x of VString s \<Rightarrow> s | _ \<Rightarrow> []) xs
      | _ \<Rightarrow> [])"

definition bind_imports :: "'f app_world \<Rightarrow> properties \<Rightarrow> (app_conf_error, string list) result option" where
  "bind_imports w p =
     map_option (\<lambda>r. map_err ImportsBindFailed (rbind r (\<lambda>v. Inr (imports_of v))))
       (bind_conf (aw_bind w) (aw_fuel w) (Some (properties_storage p))
          (Some ([], imports_type, VStruct [VSlice None])) None)"

fun import_loop ::
  "'f app_world \<Rightarrow> string list option \<Rightarrow> string list \<Rightarrow> layered \<Rightarrow> (app_conf_error, layered) result option" where
  "import_loop w profiles [] l = Some (Inr l)"
| "import_loop w profiles (source # sources) l =
     fbind (map_option (map_err (ImportPathFailed source)) (resolve_in w l source)) (\<lambda>str.
       case aw_load w str of
         Inl e \<Rightarrow> Some (Inl (ImportFileFailed str e))
       | Inr c \<Rightarrow> fbind (Some (put_source profiles c str l)) (import_loop w profiles sources))"

definition load_file_imports ::
  "'f app_world \<Rightarrow> string list option \<Rightarrow> properties \<Rightarrow> layered \<Rightarrow> (app_conf_error, layered) result option" where
  "load_file_imports w profiles p l =
     fbind (bind_imports w p) (\<lambda>imports. import_loop w profiles (dedupe imports) l)"

fun file_loop ::
  "'f app_world \<Rightarrow> string list option \<Rightarrow> string list \<Rightarrow> layered \<Rightarrow> (app_conf_error, layered) result option" where
  "file_loop w profiles [] l = Some (Inr l)"
| "file_loop w profiles (s # files) l =
     fbind (map_option (map_err (PathFailed s)) (resolve_in w l s)) (\<lambda>filename.
       case aw_load w filename of
         Inl FileNotExist \<Rightarrow> file_loop w profiles files l
       | Inl e \<Rightarrow> Some (Inl (FileFailed filename e))
       | Inr p \<Rightarrow>
           fbind (Some (put_source profiles p filename l)) (\<lambda>l1.
           fbind (map_option (map_err (ImportsFailed filename)) (load_file_imports w profiles p l1))
             (file_loop w profiles files)))"

definition load_files ::
  "'f app_world \<Rightarrow> layered \<Rightarrow> string \<Rightarrow> string list option \<Rightarrow> (app_conf_error, layered) result option" where
  "load_files w l dir profiles = file_loop w profiles (candidates dir profiles) l"

section \<open>AppConfig\<close>

record app_config =
  ac_properties :: properties
  ac_layered :: "layered option"

definition new_app_config :: app_config where
  "new_app_config = \<lparr>ac_properties = new_properties None, ac_layered = None\<rparr>"

text \<open>The sources that are there before any file is read.\<close>

definition base_layers :: "properties \<Rightarrow> properties \<Rightarrow> properties \<Rightarrow> (app_conf_error, layered) result" where
  "base_layers cmd env defaults =
     map_err AddPanicked
       (rbind (add_storage (int StorageCommandLine) cmd ''cmd'' new_layered) (\<lambda>l.
        rbind (add_storage (int StorageEnvironment) env ''env'' l) (\<lambda>l.
        add_storage (int StorageDefault) defaults [] l)))"

text \<open>The part of \<open>Refresh\<close> after the environment has been read.\<close>

definition merge_sources ::
  "'f app_world \<Rightarrow> properties \<Rightarrow> properties \<Rightarrow> properties \<Rightarrow> (app_conf_error, layered) result option" where
  "merge_sources w cmd env defaults =
     fbind (Some (base_layers cmd env defaults)) (\<lambda>l0.
     fbind (map_option (map_err ConfDirFailed) (resolve_in w l0 ''${spring.app.config.dir:=./conf}'')) (\<lambda>dir.
     fbind (map_option (map_err BaseFilesFailed) (load_files w l0 dir None)) (\<lambda>l1.
     fbind (map_option (map_err ProfilesFailed) (resolve_in w l1 ''${spring.profiles.active:=}'')) (\<lambda>str.
       let profiles = dedupe (split_char str (CHR '','')) in
       if profiles \<noteq> []
       then map_option (map_err (ProfileFilesFailed profiles)) (load_files w l1 dir (Some profiles))
       else Some (Inr l1)))))"

definition refresh_config ::
  "'f app_world \<Rightarrow> app_config \<Rightarrow> (string, string) gomap \<Rightarrow>
   ((app_conf_error, layered) result \<times> app_config \<times> (string, string) gomap) option" where
  "refresh_config w c penv =
     (case load_dotenv (aw_read_file w) penv of
        Inl e \<Rightarrow> Some (Inl (DotenvFailed e), c, penv)
      | Inr penv' \<Rightarrow>
          (case extract_cmd_args penv' (aw_args w) of
             Inl e \<Rightarrow> Some (Inl (CmdFailed e), c, penv')
           | Inr cmd \<Rightarrow>
               map_option (\<lambda>r. case r of
                   Inl e \<Rightarrow> (Inl e, c, penv')
                 | Inr l \<Rightarrow> (Inr l, c\<lparr>ac_layered := Some l\<rparr>, penv'))
                 (merge_sources w cmd (extract_environments (env_strings penv')) (ac_properties c))))"

section \<open>What the loops add\<close>

text \<open>Sources put into a layer one after the other: the last is in front.\<close>

definition pushed :: "nat \<Rightarrow> config_source list \<Rightarrow> layered \<Rightarrow> layered" where
  "pushed i srcs l = l\<lparr>layers := (layers l)[i := rev srcs @ layers l ! i]\<rparr>"

lemma pushed_Nil: "pushed i [] l = l"
  by (simp add: pushed_def)

lemma pushed_pushed:
  "i < length (layers l) \<Longrightarrow> pushed i ys (pushed i xs l) = pushed i (xs @ ys) l"
  by (simp add: pushed_def)

lemma layered_wf_pushed: "layered_wf l \<Longrightarrow> layered_wf (pushed i srcs l)"
  by (simp add: layered_wf_def pushed_def)

definition layer_index :: "string list option \<Rightarrow> nat" where
  "layer_index profiles = (case profiles of None \<Rightarrow> StorageAppFile | Some ps \<Rightarrow> StorageProfileFile)"

lemma put_source_pushed:
  assumes "layered_wf l"
  shows "put_source profiles p name l =
    Inr (pushed (layer_index profiles) [\<lparr>cs_storage = p, cs_name = name\<rparr>] l)"
  using assms
  by (simp add: put_source_def add_storage_def file_layer_def layer_index_def pushed_def layered_wf_def
      StorageMax_def StorageAppFile_def StorageProfileFile_def Let_def split: option.split)

lemma layer_index_less: "layered_wf l \<Longrightarrow> layer_index profiles < length (layers l)"
  by (simp add: layered_wf_def layer_index_def StorageMax_def StorageAppFile_def StorageProfileFile_def
      split: option.split)

definition loaded :: "'f app_world \<Rightarrow> config_source list \<Rightarrow> bool" where
  "loaded w srcs \<longleftrightarrow> (\<forall>s \<in> set srcs. aw_load w (cs_name s) = Inr (cs_storage s))"

lemma import_loop_pushed:
  assumes "import_loop w profiles sources l = Some (Inr l')" and "layered_wf l"
  shows "\<exists>srcs. l' = pushed (layer_index profiles) srcs l \<and> loaded w srcs \<and> length srcs = length sources"
  using assms
proof (induction sources arbitrary: l)
  case Nil
  then show ?case by (intro exI [of _ "[]"]) (simp add: pushed_Nil loaded_def)
next
  case (Cons source sources)
  obtain str c where load: "aw_load w str = Inr c"
    and go: "import_loop w profiles sources (pushed (layer_index profiles) [\<lparr>cs_storage = c, cs_name = str\<rparr>] l)
      = Some (Inr l')"
  proof -
    obtain str where "(case aw_load w str of Inl e \<Rightarrow> Some (Inl (ImportFileFailed str e))
        | Inr c \<Rightarrow> fbind (Some (put_source profiles c str l)) (import_loop w profiles sources)) = Some (Inr l')"
      using Cons.prems(1) by (auto simp: fbind_Inr_iff)
    then show thesis
      using that [of str] Cons.prems(2) by (cases "aw_load w str") (auto simp: put_source_pushed)
  qed
  from Cons.IH [OF go layered_wf_pushed [OF Cons.prems(2)]] obtain srcs where
    "l' = pushed (layer_index profiles) srcs (pushed (layer_index profiles) [\<lparr>cs_storage = c, cs_name = str\<rparr>] l)"
    "loaded w srcs" "length srcs = length sources" by blast
  then show ?case
    using load layer_index_less [OF Cons.prems(2)]
    by (intro exI [of _ "\<lparr>cs_storage = c, cs_name = str\<rparr> # srcs"]) (simp add: pushed_pushed loaded_def)
qed

lemma file_loop_pushed:
  assumes "file_loop w profiles files l = Some (Inr l')" and "layered_wf l"
  shows "\<exists>srcs. l' = pushed (layer_index profiles) srcs l \<and> loaded w srcs"
  using assms
proof (induction files arbitrary: l)
  case Nil
  then show ?case by (intro exI [of _ "[]"]) (simp add: pushed_Nil loaded_def)
next
  case (Cons s files)
  obtain filename where "resolve_in w l s = Some (Inr filename)"
    and rest: "(case aw_load w filename of
        Inl FileNotExist \<Rightarrow> file_loop w profiles files l
      | Inl e \<Rightarrow> Some (Inl (FileFailed filename e))
      | Inr p \<Rightarrow> fbind (Some (put_source profiles p filename l)) (\<lambda>l1.
          fbind (map_option (map_err (ImportsFailed filename)) (load_file_imports w profiles p l1))
            (file_loop w profiles files))) = Some (Inr l')"
    using Cons.prems(1) by (auto simp: fbind_Inr_iff)
  show ?case
  proof (cases "aw_load w filename")
    case (Inl e)
    then show ?thesis using rest Cons.IH Cons.prems(2) by (cases e) auto
  next
    case (Inr p)
    let ?i = "layer_index profiles" and ?src = "\<lparr>cs_storage = p, cs_name = filename\<rparr>"
    let ?l1 = "pushed ?i [?src] l"
    have wf1: "layered_wf ?l1" by (rule layered_wf_pushed [OF Cons.prems(2)])
    obtain l2 where "load_file_imports w profiles p ?l1 = Some (Inr l2)"
      and go: "file_loop w profiles files l2 = Some (Inr l')"
      using rest Inr by (auto simp: fbind_Inr_iff put_source_pushed Cons.prems(2))
    then obtain names where "import_loop w profiles (dedupe names) ?l1 = Some (Inr l2)"
      by (auto simp: load_file_imports_def fbind_Inr_iff)
    from import_loop_pushed [OF this wf1] obtain xs where l2: "l2 = pushed ?i xs ?l1" and xs: "loaded w xs"
      by blast
    from Cons.IH [OF go] layered_wf_pushed [OF wf1] obtain ys where
      "l' = pushed ?i ys l2" and ys: "loaded w ys" unfolding l2 by blast
    then have "l' = pushed ?i (?src # xs @ ys) l"
      using layer_index_less [OF Cons.prems(2)] layer_index_less [OF wf1]
      by (simp add: l2 pushed_pushed)
    then show ?thesis using Inr xs ys by (intro exI [of _ "?src # xs @ ys"]) (auto simp: loaded_def)
  qed
qed

lemma base_layers_eq:
  "base_layers cmd env defaults = Inr \<lparr>layers =
     [[\<lparr>cs_storage = cmd, cs_name = ''cmd''\<rparr>], [\<lparr>cs_storage = env, cs_name = ''env''\<rparr>], [], [],
      [\<lparr>cs_storage = defaults, cs_name = []\<rparr>]]\<rparr>"
  by (simp add: base_layers_def add_storage_def new_layered_def StorageMax_def StorageCommandLine_def
      StorageEnvironment_def StorageDefault_def Let_def numeral_eq_Suc)

lemma merge_sources_layers:
  assumes "merge_sources w cmd env defaults = Some (Inr l)"
  shows "\<exists>apps profs. loaded w (apps @ profs) \<and> layers l =
     [[\<lparr>cs_storage = cmd, cs_name = ''cmd''\<rparr>], [\<lparr>cs_storage = env, cs_name = ''env''\<rparr>], rev profs, rev apps,
      [\<lparr>cs_storage = defaults, cs_name = []\<rparr>]]"
proof -
  let ?l0 = "\<lparr>layers = [[\<lparr>cs_storage = cmd, cs_name = ''cmd''\<rparr>], [\<lparr>cs_storage = env, cs_name = ''env''\<rparr>],
    [], [], [\<lparr>cs_storage = defaults, cs_name = []\<rparr>]]\<rparr>"
  have wf: "layered_wf ?l0" by (simp add: layered_wf_def StorageMax_def)
  obtain dir l1 str where base: "load_files w ?l0 dir None = Some (Inr l1)"
    and rest: "(let profiles = dedupe (split_char str (CHR '','')) in
       if profiles \<noteq> []
       then map_option (map_err (ProfileFilesFailed profiles)) (load_files w l1 dir (Some profiles))
       else Some (Inr l1)) = Some (Inr l)"
    using assms by (auto simp: merge_sources_def fbind_Inr_iff base_layers_eq)
  from file_loop_pushed [OF base [unfolded load_files_def] wf] obtain apps where
    l1: "l1 = pushed StorageAppFile apps ?l0" and apps: "loaded w apps"
    by (auto simp: layer_index_def)
  have "\<exists>profs. l = pushed StorageProfileFile profs l1 \<and> loaded w profs"
  proof (cases "dedupe (split_char str (CHR '','')) = []")
    case True
    then have "l = l1" using rest by (simp add: Let_def)
    then show ?thesis by (intro exI [of _ "[]"]) (simp add: pushed_Nil loaded_def)
  next
    case False
    then obtain ps where "file_loop w (Some ps) (candidates dir (Some ps)) l1 = Some (Inr l)"
      using rest by (auto simp: Let_def load_files_def)
    from file_loop_pushed [OF this] layered_wf_pushed [OF wf] show ?thesis
      by (auto simp: l1 layer_index_def)
  qed
  then obtain profs where "l = pushed StorageProfileFile profs l1" and "loaded w profs" by blast
  then show ?thesis
    using apps
    by (intro exI [of _ apps] exI [of _ profs])
      (simp add: l1 pushed_def loaded_def StorageAppFile_def StorageProfileFile_def numeral_eq_Suc ball_Un)
qed

text \<open>A base file that activates a profile and imports another file.\<close>

definition sample_load :: "string \<Rightarrow> (file_error, properties) result" where
  "sample_load name =
     (if name = ''conf/app.yaml''
      then Inr \<lparr>pr_data = [(''spring.profiles.active'', ''dev''), (''a'', ''base''), (''b'', ''base''),
                 (''spring.config.import'', ''more.yaml'')]\<rparr>
      else if name = ''more.yaml'' then Inr \<lparr>pr_data = [(''b'', ''imported''), (''c'', ''imported'')]\<rparr>
      else if name = ''conf/app-dev.json'' then Inr \<lparr>pr_data = [(''a'', ''dev'')]\<rparr>
      else Inl FileNotExist)"

definition sample_world :: "unit app_world" where
  "sample_world = \<lparr>aw_bind = sample_env, aw_fuel = 20, aw_args = [''app'', ''-D'', ''c=cmd''],
     aw_read_file = (\<lambda>_. Inr None), aw_load = sample_load\<rparr>"

definition sample_layered :: "layered option" where
  "sample_layered = (case refresh_config sample_world new_app_config [] of
     Some (Inr l, c, penv) \<Rightarrow> Some l | _ \<Rightarrow> None)"

lemma refresh_config_failed:
  assumes "refresh_config w c penv = Some (Inl e, c', penv')"
  shows "c' = c"
proof (cases "load_dotenv (aw_read_file w) penv")
  case (Inr env)
  then show ?thesis
  proof (cases "extract_cmd_args env (aw_args w)")
    case (Inr cmd)
    then obtain m where "(case m of Inl e \<Rightarrow> (Inl e, c, env) | Inr l \<Rightarrow> (Inr l, c\<lparr>ac_layered := Some l\<rparr>, env))
        = (Inl e, c', penv')"
      using assms \<open>load_dotenv (aw_read_file w) penv = Inr env\<close> by (auto simp: refresh_config_def)
    then show ?thesis by (cases m) auto
  qed (use assms in \<open>simp add: refresh_config_def\<close>)
qed (use assms in \<open>simp add: refresh_config_def\<close>)

lemma refresh_config_published:
  assumes "refresh_config w c penv = Some (Inr l, c', penv')"
  obtains cmd where "load_dotenv (aw_read_file w) penv = Inr penv'"
    and "extract_cmd_args penv' (aw_args w) = Inr cmd"
    and "merge_sources w cmd (extract_environments (env_strings penv')) (ac_properties c) = Some (Inr l)"
    and "c' = c\<lparr>ac_layered := Some l\<rparr>"
proof (cases "load_dotenv (aw_read_file w) penv")
  case (Inr env)
  then show thesis
  proof (cases "extract_cmd_args env (aw_args w)")
    case (Inr cmd)
    then obtain m where "merge_sources w cmd (extract_environments (env_strings env)) (ac_properties c) = Some m"
      and "(case m of Inl e \<Rightarrow> (Inl e, c, env) | Inr l \<Rightarrow> (Inr l, c\<lparr>ac_layered := Some l\<rparr>, env))
        = (Inr l, c', penv')"
      using assms \<open>load_dotenv (aw_read_file w) penv = Inr env\<close> by (auto simp: refresh_config_def)
    then show thesis using that Inr \<open>load_dotenv (aw_read_file w) penv = Inr env\<close> by (cases m) auto
  qed (use assms in \<open>simp add: refresh_config_def\<close>)
qed (use assms in \<open>simp add: refresh_config_def\<close>)

lemma refresh_config_reads:
  assumes "refresh_config w c penv = Some (Inr l, c', penv')"
  shows "c' = c\<lparr>ac_layered := Some l\<rparr>"
    and "\<exists>cmd apps profs. load_dotenv (aw_read_file w) penv = Inr penv' \<and>
      extract_cmd_args penv' (aw_args w) = Inr cmd \<and> loaded w (apps @ profs) \<and>
      (\<forall>key. ls_value l key = first_some (\<lambda>p. ps_value p key)
         (cmd # extract_environments (env_strings penv') # map cs_storage (rev profs @ rev apps) @
          [ac_properties c]))"
proof -
  from refresh_config_published [OF assms] obtain cmd where
    pre: "load_dotenv (aw_read_file w) penv = Inr penv'" "extract_cmd_args penv' (aw_args w) = Inr cmd"
    and merged: "merge_sources w cmd (extract_environments (env_strings penv')) (ac_properties c) = Some (Inr l)"
    and c': "c' = c\<lparr>ac_layered := Some l\<rparr>" .
  show "c' = c\<lparr>ac_layered := Some l\<rparr>" by (rule c')
  from merge_sources_layers [OF merged] obtain apps profs where "loaded w (apps @ profs)"
    and l: "layers l = [[\<lparr>cs_storage = cmd, cs_name = ''cmd''\<rparr>],
      [\<lparr>cs_storage = extract_environments (env_strings penv'), cs_name = ''env''\<rparr>], rev profs, rev apps,
      [\<lparr>cs_storage = ac_properties c, cs_name = []\<rparr>]]" by blast
  have "ls_value l key = first_some (\<lambda>p. ps_value p key)
      (cmd # extract_environments (env_strings penv') # map cs_storage (rev profs @ rev apps) @ [ac_properties c])"
    for key by (simp add: ls_value_eq flat_sources_def l)
  then show "\<exists>cmd apps profs. load_dotenv (aw_read_file w) penv = Inr penv' \<and>
      extract_cmd_args penv' (aw_args w) = Inr cmd \<and> loaded w (apps @ profs) \<and>
      (\<forall>key. ls_value l key = first_some (\<lambda>p. ps_value p key)
         (cmd # extract_environments (env_strings penv') # map cs_storage (rev profs @ rev apps) @
          [ac_properties c]))"
    using pre \<open>loaded w (apps @ profs)\<close> by blast
qed


lemma sample_layered_values:
  "map_option (\<lambda>l. map (ls_value l) [''a'', ''b'', ''c'']) sample_layered =
   Some [Some ''dev'', Some ''imported'', Some ''cmd'']"
  by code_simp


end
