(* ===== verification/GsAppRefresh.thy ===== *)
theory GsAppRefresh
  imports GsContainer GsAppConf
begin

text \<open>
  \<open>spring/gs/internal/gs_app/app.go\<close>: the application as the composition of its configuration
  (\<open>GsAppConf\<close>) and its container (\<open>GsContainer\<close>): the first part of \<open>Start\<close>, up to the runners
  (\<open>GsApp\<close> has the rest), and \<open>RefreshProperties\<close>, with which the configuration of a running
  application is read again. Refreshing the loggers is an argument.
\<close>

record 'f app =
  ap_container :: "'f container"
  ap_conf :: app_config
  ap_env :: "(string, string) gomap"
  ap_started :: bool

definition new_app :: "(string, string) gomap \<Rightarrow> 'f app" where
  "new_app penv = \<lparr>ap_container = new_container, ap_conf = new_app_config, ap_env = penv, ap_started = False\<rparr>"

datatype app_error =
    NoRunningApp
  | AppNotStarted
  | AppPanicked go_panic
  | AppConfFailed app_conf_error
  | AppLogFailed string
  | AppContainerFailed container_error
  | AppRefreshFailed dync_error

definition app_property :: "string \<Rightarrow> string \<Rightarrow> 'f app \<Rightarrow> 'f app" where
  "app_property key val app =
     app\<lparr>ap_conf := (ap_conf app)\<lparr>ac_properties := pr_set key val (ac_properties (ap_conf app))\<rparr>\<rparr>"

definition app_provide ::
  "'f container_env \<Rightarrow> 'f ivalue provision \<Rightarrow> 'f app \<Rightarrow> (go_panic, 'f app) result" where
  "app_provide env pv app =
     rbind (provide_container env pv (ap_container app)) (\<lambda>c. Inr (app\<lparr>ap_container := c\<rparr>))"

definition init_log :: "(storage \<Rightarrow> string option) \<Rightarrow> storage \<Rightarrow> string option" where
  "init_log refresh_log p =
     (if \<not> st_exists p ''logging'' then None else refresh_log (prefixed_storage p ''logging.''))"

text \<open>\<open>Start\<close> up to the runners; the outcome of wiring is passed on as \<open>refresh_container\<close> does.\<close>

definition start_app ::
  "'f container_env \<Rightarrow> 'f app_world \<Rightarrow> (storage \<Rightarrow> string option) \<Rightarrow> 'f ivalue provision \<Rightarrow> 'f ivalue bean \<Rightarrow>
   'f ivalue registry \<Rightarrow> 'f app \<Rightarrow>
   ((app_error, unit) result \<times> 'f app \<times> 'f ivalue registry \<times> 'f wiring option) option" where
  "start_app env w refresh_log provider root g app =
     (case app_provide env provider app of
        Inl e \<Rightarrow> Some (Inl (AppPanicked e), app, g, None)
      | Inr app \<Rightarrow>
          (case refresh_config w (ap_conf app) (ap_env app) of
             None \<Rightarrow> None
           | Some (r, conf, penv) \<Rightarrow>
               let app = app\<lparr>ap_conf := conf, ap_env := penv\<rparr>
               in case r of
                    Inl e \<Rightarrow> Some (Inl (AppConfFailed e), app, g, None)
                  | Inr l \<Rightarrow>
                      (case init_log refresh_log (layered_storage l) of
                         Some e \<Rightarrow> Some (Inl (AppLogFailed e), app, g, None)
                       | None \<Rightarrow>
                           map_option (\<lambda>(r, c, g, s).
                             let app = app\<lparr>ap_container := c\<rparr>
                             in case r of
                                  Inl e \<Rightarrow> (Inl (AppContainerFailed e), app, g, s)
                                | Inr _ \<Rightarrow> (Inr (), app\<lparr>ap_started := True\<rparr>, g, s))
                             (refresh_container env g (layered_storage l) [root] (ap_container app)))))"

text \<open>\<open>RefreshProperties\<close>: the outcome of the listeners on success.\<close>

definition refresh_app ::
  "'f app_world \<Rightarrow> 'f app \<Rightarrow> ((app_error, (go_panic, 'f event list) result) result \<times> 'f app) option" where
  "refresh_app w app =
     (if \<not> ap_started app then Some (Inl AppNotStarted, app)
      else case refresh_config w (ap_conf app) (ap_env app) of
             None \<Rightarrow> None
           | Some (r, conf, penv) \<Rightarrow>
               let app = app\<lparr>ap_conf := conf, ap_env := penv\<rparr>
               in case r of
                    Inl e \<Rightarrow> Some (Inl (AppConfFailed e), app)
                  | Inr l \<Rightarrow>
                      (case ct_injecting (ap_container app) of
                         None \<Rightarrow> Some (Inl (AppPanicked NilDereference), app)
                       | Some con \<Rightarrow>
                           map_option (\<lambda>(r, con).
                             (map_err AppRefreshFailed r,
                              app\<lparr>ap_container := (ap_container app)\<lparr>ct_injecting := Some con\<rparr>\<rparr>))
                             (refresh_properties (aw_bind w) (aw_fuel w) (Some (layered_storage l)) con)))"

text \<open>The package-level facade, over the application that was started last.\<close>

definition refresh_current ::
  "'f app_world \<Rightarrow> 'f app option \<Rightarrow>
   ((app_error, (go_panic, 'f event list) result) result \<times> 'f app option) option" where
  "refresh_current w cur =
     (case cur of
        None \<Rightarrow> Some (Inl NoRunningApp, None)
      | Some app \<Rightarrow> map_option (\<lambda>(r, app). (r, Some app)) (refresh_app w app))"

definition app_started :: "'f app option \<Rightarrow> bool" where
  "app_started cur = (case cur of None \<Rightarrow> False | Some app \<Rightarrow> ap_started app)"

section \<open>What a refresh does to a running application\<close>

lemma refresh_app_cases:
  assumes "refresh_app w app = Some (r, app')" and "ap_started app" and "ct_injecting (ap_container app) = Some con"
    and "in_props con = Some d"
  obtains (unread) e where "r = Inl (AppConfFailed e)" "ap_container app' = ap_container app" "ap_conf app' = ap_conf app"
  | (read) l conf penv q d' where "refresh_config w (ap_conf app) (ap_env app) = Some (Inr l, conf, penv)"
      "refresh_dync (aw_bind w) (aw_fuel w) (Some (layered_storage l)) d = Some (q, d')" "r = map_err AppRefreshFailed q"
      "app' = app\<lparr>ap_conf := conf, ap_env := penv,
         ap_container := (ap_container app)\<lparr>ct_injecting := Some (con\<lparr>in_props := Some d'\<rparr>)\<rparr>\<rparr>"
proof -
  obtain q conf penv where run: "refresh_config w (ap_conf app) (ap_env app) = Some (q, conf, penv)"
    using assms(1,2) by (auto simp: refresh_app_def split: option.splits)
  show thesis
  proof (cases q)
    case (Inl e)
    with run assms(1,2) refresh_config_failed [OF run [unfolded Inl]] show thesis
      by (intro unread [of e]) (auto simp: refresh_app_def Let_def)
  next
    case (Inr l)
    with run assms obtain z where
      z: "refresh_dync (aw_bind w) (aw_fuel w) (Some (layered_storage l)) d = Some z"
      "r = map_err AppRefreshFailed (fst z)"
      "app' = app\<lparr>ap_conf := conf, ap_env := penv,
         ap_container := (ap_container app)\<lparr>ct_injecting := Some (con\<lparr>in_props := Some (snd z)\<rparr>)\<rparr>\<rparr>"
      by (auto simp: refresh_app_def refresh_properties_def Let_def)
    with run Inr show thesis by (intro read [of l conf penv "fst z" "snd z"]) simp_all
  qed
qed

text \<open>
  Property C8: refreshing the properties of a running application is all or nothing for its
  beans, and follows the sources. If reading the configuration or validating a dynamic value fails,
  the container is as it was; the published configuration is the new one as soon as it could
  be read, even when its values are then rejected. Otherwise every registered dynamic value is
  the one its parameters give under a configuration whose leaves come from the command line, the
  environment, the profile files, the application files and the defaults, in this order.
\<close>

theorem app_refresh_follows:
  assumes "refresh_app w app = Some (r, app')" and "ap_started app" and "ct_injecting (ap_container app) = Some con"
    and "in_props con = Some d" and "in_sync (aw_bind w) d"
  shows "(isl r \<longrightarrow> ap_container app' = ap_container app) \<and>
    (\<forall>e. r = Inl (AppRefreshFailed e) \<longrightarrow>
      (\<exists>l conf penv. refresh_config w (ap_conf app) (ap_env app) = Some (Inr l, conf, penv) \<and>
         ac_layered (ap_conf app') = Some l)) \<and>
    (\<not> isl r \<longrightarrow> (\<exists>l d' cmd apps profs. ac_layered (ap_conf app') = Some l \<and>
      (\<exists>con'. ct_injecting (ap_container app') = Some con' \<and> in_props con' = Some d') \<and>
      dy_prop d' = layered_storage l \<and> dy_objects d' = dy_objects d \<and> in_sync (aw_bind w) d' \<and>
      extract_cmd_args (ap_env app') (aw_args w) = Inr cmd \<and> loaded w (apps @ profs) \<and>
      (\<forall>key. st_value (dy_prop d') key = first_some (\<lambda>p. ps_value p key)
         (cmd # extract_environments (env_strings (ap_env app')) # map cs_storage (rev profs @ rev apps) @
          [ac_properties (ap_conf app)]))))"
  using assms(1-4)
proof (cases rule: refresh_app_cases)
  case (unread e)
  then show ?thesis by simp
next
  case (read l conf penv q d')
  note reads = refresh_config_reads [OF read(1)]
  have published: "ac_layered (ap_conf app') = Some l" "ap_env app' = penv" using reads(1) read(4) by simp_all
  show ?thesis
    using read(2)
  proof (cases rule: refresh_dync_cases)
    case (failed errs vals)
    with read(3,4) assms(3,4) published read(1) show ?thesis by simp
  next
    case (applied vals olds cells)
    have "in_sync (aw_bind w) d'" by (rule in_sync_refresh [OF assms(5) read(2)])
    moreover have "dy_prop d' = layered_storage l" "dy_objects d' = dy_objects d" using applied(4) by simp_all
    ultimately show ?thesis
      using reads(2) read(3,4) applied(3) published by (simp add: layered_storage_def)
  qed
qed

text \<open>A running application with one dynamic value, and a new value on its command line.\<close>

definition running_world :: "unit app_world" where
  "running_world = sample_world\<lparr>aw_args := [''app'', ''-D'', ''name=b'']\<rparr>"

definition running_app :: "unit app" where
  "running_app =
     \<lparr>ap_container = \<lparr>ct_resolving = None,
        ct_injecting = Some \<lparr>in_props = Some bound_dync, in_destroyers = []\<rparr>, ct_state = Refreshed\<rparr>,
      ap_conf = new_app_config, ap_env = [], ap_started = True\<rparr>"

definition current_value :: "unit app \<Rightarrow> unit govalue option" where
  "current_value app = (case ct_injecting (ap_container app) of None \<Rightarrow> None
     | Some con \<Rightarrow> map_option (\<lambda>d. cell_value sample_env (dy_cells d 0)) (in_props con))"

lemma running_refresh:
  "map_option (\<lambda>(r, app). (isl r, current_value app)) (refresh_app running_world running_app) =
   Some (False, Some (VString ''b''))"
  by code_simp

theorem app_refresh_follows_witness:
  "\<exists>r app' con d' cmd apps profs. refresh_app running_world running_app = Some (r, app') \<and> \<not> isl r \<and>
     current_value app' = Some (VString ''b'') \<and> ct_injecting (ap_container app') = Some con \<and>
     in_props con = Some d' \<and> in_sync sample_env d' \<and> loaded running_world (apps @ profs) \<and>
     st_value (dy_prop d') ''name'' = first_some (\<lambda>p. ps_value p ''name'')
       (cmd # extract_environments (env_strings (ap_env app')) # map cs_storage (rev profs @ rev apps) @
        [ac_properties new_app_config])"
proof -
  obtain r app' where run: "refresh_app running_world running_app = Some (r, app')" "\<not> isl r"
    "current_value app' = Some (VString ''b'')"
    using running_refresh by auto
  have sync: "in_sync (aw_bind running_world) bound_dync"
    using name_binds by (auto simp: in_sync_def bound_dync_def on_valid_def name_cell_def running_world_def sample_world_def)
  have env_eq: "aw_bind running_world = sample_env" by (simp add: running_world_def sample_world_def)
  have conf: "ap_conf running_app = new_app_config" by (simp add: running_app_def)
  have "ap_started running_app" "ct_injecting (ap_container running_app) = Some \<lparr>in_props = Some bound_dync, in_destroyers = []\<rparr>"
    "in_props \<lparr>in_props = Some bound_dync, in_destroyers = []\<rparr> = Some bound_dync"
    by (simp_all add: running_app_def)
  from app_refresh_follows [OF run(1) this sync] run(2) obtain con d' cmd apps profs where
    "ct_injecting (ap_container app') = Some con" "in_props con = Some d'" "in_sync (aw_bind running_world) d'"
    "loaded running_world (apps @ profs)"
    and vals: "\<forall>key. st_value (dy_prop d') key = first_some (\<lambda>p. ps_value p key)
       (cmd # extract_environments (env_strings (ap_env app')) # map cs_storage (rev profs @ rev apps) @
        [ac_properties new_app_config])"
    unfolding conf by blast
  with run spec [OF vals, of "''name''"] show ?thesis
    by (intro exI [of _ r] exI [of _ app'] exI [of _ con] exI [of _ d'] exI [of _ cmd] exI [of _ apps] exI [of _ profs])
      (simp add: env_eq)
qed

end
