(* ===== verification/GsApp.thy ===== *)
theory GsApp
  imports GoPrelude
begin

text \<open>
  \<open>spring/gs/internal/gs_app/app.go\<close>, \<open>signal.go\<close> and the \<open>Run\<close> of \<open>spring/gs/app.go\<close>: the life
  cycle of an application, from the refresh of its container to the end of the process. The
  main goroutine, one goroutine per server and one per call of \<open>Stop\<close> interleave; a step of the
  relation is one operation on shared state or one return of a user function.
\<close>

section \<open>The readiness signal\<close>

text \<open>\<open>ReadySignalImpl\<close>: the count of its wait group, the closed channel and the flag.\<close>

record ready_signal =
  rs_wg :: nat
  rs_closed :: bool
  rs_flag :: bool

definition new_ready_signal :: ready_signal where
  "new_ready_signal = \<lparr>rs_wg = 0, rs_closed = False, rs_flag = False\<rparr>"

definition signal_add :: "ready_signal \<Rightarrow> ready_signal" where
  "signal_add c = c\<lparr>rs_wg := rs_wg c + 1\<rparr>"

text \<open>\<open>sync.Once\<close> around \<open>wg.Done\<close>: the handle of one server is the flag of its \<open>Once\<close>.\<close>

definition once_done :: "bool \<Rightarrow> ready_signal \<Rightarrow> bool \<times> ready_signal" where
  "once_done once c = (if once then (True, c) else (True, c\<lparr>rs_wg := rs_wg c - 1\<rparr>))"

section \<open>The application\<close>

text \<open>
  The main goroutine: \<open>Start\<close> (runners, servers, the wait for readiness), \<open>WaitForShutdown\<close>, and
  the deferred \<open>teardown\<close> of \<open>Run\<close>.
\<close>

datatype main_pc =
    MBoot | MRunner nat | MSpawn nat | MWaitReady | MCloseSignal | MCheck
  | MStarted | MPreStop nat | MStop nat | MStopWait | MServersWait | MProviders | MClose
  | MDetach | MTeardown | MExit

text \<open>
  The goroutine of a server: in \<open>Run\<close>, then, after an error or a panic, the two halves of
  \<open>Intercept\<close> and \<open>ShutDown\<close>, and the deferred \<open>wg.Done\<close>.
\<close>

datatype server_pc = SIdle | SRun | SFlag | SDone | SShutDown | SLeave | SExit

datatype stop_pc = PIdle | PRunning | PReturned

record server =
  sv_pc :: server_pc
  sv_once :: bool
  sv_stop :: stop_pc

record life =
  li_pc :: main_pc
  li_servers :: "server list"
  li_signal :: ready_signal
  li_cancelled :: bool
  li_wg :: nat
  li_stop_wg :: nat
  li_started :: bool
  li_providers :: bool
  li_closed :: bool

text \<open>Right before \<open>Start\<close>, with the servers that the container is going to inject.\<close>

definition new_server :: server where
  "new_server = \<lparr>sv_pc = SIdle, sv_once = False, sv_stop = PIdle\<rparr>"

definition new_life :: "nat \<Rightarrow> life" where
  "new_life n =
     \<lparr>li_pc = MBoot, li_servers = replicate n new_server, li_signal = new_ready_signal, li_cancelled = False,
      li_wg = 0, li_stop_wg = 0, li_started = False, li_providers = True, li_closed = False\<rparr>"

definition put_server :: "nat \<Rightarrow> server \<Rightarrow> life \<Rightarrow> life" where
  "put_server i v s = s\<lparr>li_servers := (li_servers s)[i := v]\<rparr>"

abbreviation go_to :: "main_pc \<Rightarrow> life \<Rightarrow> life" where
  "go_to pc s \<equiv> s\<lparr>li_pc := pc\<rparr>"

section \<open>Steps\<close>

text \<open>
  Steps of the main goroutine, \<open>None\<close> where it blocks. \<open>ok\<close> is the outcome of the refresh of
  the container and of a runner. \<open>m\<close> is the number of runners. First \<open>Start\<close>.
\<close>

definition start_step :: "nat \<Rightarrow> bool \<Rightarrow> life \<Rightarrow> life option" where
  "start_step m ok s =
     (case li_pc s of
        MBoot \<Rightarrow> Some (if ok then go_to (MRunner 0) (s\<lparr>li_started := True\<rparr>) else go_to MTeardown s)
      | MRunner i \<Rightarrow>
          Some (if i < m then (if ok then go_to (MRunner (i + 1)) s else go_to MTeardown s)
                else if li_servers s = [] then go_to MStarted s else go_to (MSpawn 0) s)
      | MSpawn i \<Rightarrow>
          Some (if i < length (li_servers s)
                then go_to (MSpawn (i + 1)) (put_server i ((li_servers s ! i)\<lparr>sv_pc := SRun\<rparr>)
                       (s\<lparr>li_wg := li_wg s + 1, li_signal := signal_add (li_signal s)\<rparr>))
                else go_to MWaitReady s)
      | MWaitReady \<Rightarrow> if rs_wg (li_signal s) = 0 then Some (go_to MCloseSignal s) else None
      | MCloseSignal \<Rightarrow> Some (go_to MCheck (s\<lparr>li_signal := (li_signal s)\<lparr>rs_closed := True\<rparr>\<rparr>))
      | MCheck \<Rightarrow> Some (go_to (if rs_flag (li_signal s) then MTeardown else MStarted) s)
      | _ \<Rightarrow> None)"

text \<open>\<open>WaitForShutdown\<close>.\<close>

definition shutdown_step :: "life \<Rightarrow> life option" where
  "shutdown_step s =
     (case li_pc s of
        MStarted \<Rightarrow> if li_cancelled s then Some (go_to (MPreStop 0) s) else None
      | MPreStop i \<Rightarrow> Some (go_to (if i < length (li_servers s) then MPreStop (i + 1) else MStop 0) s)
      | MStop i \<Rightarrow>
          Some (if i < length (li_servers s)
                then go_to (MStop (i + 1)) (put_server i ((li_servers s ! i)\<lparr>sv_stop := PRunning\<rparr>)
                       (s\<lparr>li_stop_wg := li_stop_wg s + 1\<rparr>))
                else go_to MStopWait s)
      | MStopWait \<Rightarrow> if li_stop_wg s = 0 then Some (go_to MServersWait s) else None
      | MServersWait \<Rightarrow> if li_wg s = 0 then Some (go_to MProviders s) else None
      | MProviders \<Rightarrow> Some (go_to MClose (s\<lparr>li_providers := False\<rparr>))
      | MClose \<Rightarrow> Some (go_to MDetach (s\<lparr>li_closed := True\<rparr>))
      | MDetach \<Rightarrow> Some (go_to MTeardown s)
      | _ \<Rightarrow> None)"

text \<open>\<open>teardown\<close>, after which the process ends; stoppers and loggers are left out.\<close>

definition teardown :: "life \<Rightarrow> life" where
  "teardown s = go_to MExit (s\<lparr>li_providers := False\<rparr>)"

text \<open>\<open>Run\<close>: a start that fails returns, with the deferred teardown; otherwise the shutdown follows.\<close>

definition main_step :: "nat \<Rightarrow> bool \<Rightarrow> life \<Rightarrow> life option" where
  "main_step m ok s =
     (case li_pc s of
        MTeardown \<Rightarrow> Some (teardown s)
      | MExit \<Rightarrow> None
      | MBoot \<Rightarrow> start_step m ok s | MRunner i \<Rightarrow> start_step m ok s | MSpawn i \<Rightarrow> start_step m ok s
      | MWaitReady \<Rightarrow> start_step m ok s | MCloseSignal \<Rightarrow> start_step m ok s | MCheck \<Rightarrow> start_step m ok s
      | _ \<Rightarrow> shutdown_step s)"

lemmas main_step_simps = main_step_def start_step_def shutdown_step_def teardown_def

text \<open>What a server does: report readiness, return from \<open>Run\<close>, go on behind it.\<close>

datatype server_act = Trigger | ReturnNil | Fail | Continue

definition server_step :: "nat \<Rightarrow> server_act \<Rightarrow> life \<Rightarrow> life option" where
  "server_step i a s =
     (if i \<ge> length (li_servers s) then None
      else
        let v = li_servers s ! i
        in case (sv_pc v, a) of
             (SRun, Trigger) \<Rightarrow>
               (let (o1, c) = once_done (sv_once v) (li_signal s)
                in Some (put_server i (v\<lparr>sv_once := o1\<rparr>) (s\<lparr>li_signal := c\<rparr>)))
           | (SRun, ReturnNil) \<Rightarrow> Some (put_server i (v\<lparr>sv_pc := SLeave\<rparr>) s)
           | (SRun, Fail) \<Rightarrow> Some (put_server i (v\<lparr>sv_pc := SFlag\<rparr>) s)
           | (SFlag, Continue) \<Rightarrow>
               Some (put_server i (v\<lparr>sv_pc := SDone\<rparr>) (s\<lparr>li_signal := (li_signal s)\<lparr>rs_flag := True\<rparr>\<rparr>))
           | (SDone, Continue) \<Rightarrow>
               (let (o1, c) = once_done (sv_once v) (li_signal s)
                in Some (put_server i (v\<lparr>sv_pc := SShutDown, sv_once := o1\<rparr>) (s\<lparr>li_signal := c\<rparr>)))
           | (SShutDown, Continue) \<Rightarrow> Some (put_server i (v\<lparr>sv_pc := SLeave\<rparr>) (s\<lparr>li_cancelled := True\<rparr>))
           | (SLeave, Continue) \<Rightarrow> Some (put_server i (v\<lparr>sv_pc := SExit\<rparr>) (s\<lparr>li_wg := li_wg s - 1\<rparr>))
           | _ \<Rightarrow> None)"

definition stop_return :: "nat \<Rightarrow> life \<Rightarrow> life option" where
  "stop_return i s =
     (if i < length (li_servers s) \<and> sv_stop (li_servers s ! i) = PRunning
      then Some (put_server i ((li_servers s ! i)\<lparr>sv_stop := PReturned\<rparr>) (s\<lparr>li_stop_wg := li_stop_wg s - 1\<rparr>))
      else None)"

definition shut_down :: "life \<Rightarrow> life" where
  "shut_down s = s\<lparr>li_cancelled := True\<rparr>"

datatype life_event = Main bool | Server nat server_act | StopReturns nat | ShutDown

text \<open>When the main goroutine has exited, so have all others.\<close>

definition next_life :: "nat \<Rightarrow> life_event \<Rightarrow> life \<Rightarrow> life option" where
  "next_life m e s =
     (if li_pc s = MExit then None
      else case e of
             Main ok \<Rightarrow> main_step m ok s
           | Server i a \<Rightarrow> server_step i a s
           | StopReturns i \<Rightarrow> stop_return i s
           | ShutDown \<Rightarrow> Some (shut_down s))"

fun run_life :: "nat \<Rightarrow> life_event list \<Rightarrow> life \<Rightarrow> life option" where
  "run_life m [] s = Some s"
| "run_life m (e # es) s = (case next_life m e s of None \<Rightarrow> None | Some t \<Rightarrow> run_life m es t)"

inductive life_steps :: "nat \<Rightarrow> life \<Rightarrow> life \<Rightarrow> bool" for m where
  here: "life_steps m s s"
| more: "life_steps m s t \<Longrightarrow> next_life m e t = Some u \<Longrightarrow> life_steps m s u"

section \<open>The invariant\<close>

definition tally :: "('a \<Rightarrow> bool) \<Rightarrow> 'a list \<Rightarrow> nat" where
  "tally P xs = length (filter P xs)"

lemma tally_update:
  assumes "i < length xs"
  shows "tally P (xs[i := v]) + (if P (xs ! i) then 1 else 0) = tally P xs + (if P v then 1 else 0)"
  unfolding tally_def upd_conv_take_nth_drop [OF assms]
  by (subst (3) id_take_nth_drop [OF assms]) simp

lemma tally_put:
  assumes "i < length xs"
  shows "tally P (xs[i := v]) = (if P v then 1 else 0) + tally P xs - (if P (xs ! i) then 1 else 0)"
  using tally_update [OF assms, of P v] by (auto split: if_splits)

lemma tally_pos: "i < length xs \<Longrightarrow> P (xs ! i) \<Longrightarrow> 0 < tally P xs"
  by (auto simp: tally_def filter_empty_conv intro: nth_mem)

lemma tally_zero: "tally P xs = 0 \<longleftrightarrow> (\<forall>i < length xs. \<not> P (xs ! i))"
  by (auto simp: tally_def filter_empty_conv all_set_conv_all_nth)

lemma tally_replicate: "\<not> P x \<Longrightarrow> tally P (replicate n x) = 0"
  by (simp add: tally_def)

definition unready :: "server \<Rightarrow> bool" where
  "unready v \<longleftrightarrow> sv_pc v \<noteq> SIdle \<and> \<not> sv_once v"

definition serving :: "server \<Rightarrow> bool" where
  "serving v \<longleftrightarrow> sv_pc v \<noteq> SIdle \<and> sv_pc v \<noteq> SExit"

definition stopping :: "server \<Rightarrow> bool" where
  "stopping v \<longleftrightarrow> sv_stop v = PRunning"

text \<open>What is known of server \<open>i\<close> at each point of the main goroutine.\<close>

fun server_at :: "main_pc \<Rightarrow> nat \<Rightarrow> server \<Rightarrow> bool" where
  "server_at MBoot i v \<longleftrightarrow> sv_pc v = SIdle \<and> sv_stop v = PIdle"
| "server_at (MRunner k) i v \<longleftrightarrow> sv_pc v = SIdle \<and> sv_stop v = PIdle"
| "server_at (MSpawn k) i v \<longleftrightarrow> (i < k \<longleftrightarrow> sv_pc v \<noteq> SIdle) \<and> sv_stop v = PIdle"
| "server_at MWaitReady i v \<longleftrightarrow> sv_pc v \<noteq> SIdle \<and> sv_stop v = PIdle"
| "server_at (MStop k) i v \<longleftrightarrow> sv_pc v \<noteq> SIdle \<and> sv_once v \<and> (i < k \<longleftrightarrow> sv_stop v \<noteq> PIdle)"
| "server_at MStopWait i v \<longleftrightarrow> sv_pc v \<noteq> SIdle \<and> sv_once v \<and> sv_stop v \<noteq> PIdle"
| "server_at MServersWait i v \<longleftrightarrow> sv_pc v \<noteq> SIdle \<and> sv_once v \<and> sv_stop v = PReturned"
| "server_at MProviders i v \<longleftrightarrow> sv_pc v = SExit \<and> sv_once v \<and> sv_stop v = PReturned"
| "server_at MClose i v \<longleftrightarrow> sv_pc v = SExit \<and> sv_once v \<and> sv_stop v = PReturned"
| "server_at MDetach i v \<longleftrightarrow> sv_pc v = SExit \<and> sv_once v \<and> sv_stop v = PReturned"
| "server_at MTeardown i v \<longleftrightarrow> True"
| "server_at MExit i v \<longleftrightarrow> True"
| "server_at pc i v \<longleftrightarrow> sv_pc v \<noteq> SIdle \<and> sv_once v \<and> sv_stop v = PIdle"

definition ended :: "main_pc \<Rightarrow> bool" where
  "ended pc \<longleftrightarrow> pc = MTeardown \<or> pc = MExit"

definition server_ok :: "life \<Rightarrow> nat \<Rightarrow> server \<Rightarrow> bool" where
  "server_ok s i v \<longleftrightarrow> server_at (li_pc s) i v \<and> (sv_once v \<longrightarrow> sv_pc v \<noteq> SIdle) \<and>
     (rs_closed (li_signal s) \<longrightarrow> sv_once v) \<and>
     (ended (li_pc s) \<longrightarrow> \<not> unready v \<and>
        (if li_closed s then sv_pc v = SExit \<and> sv_stop v = PReturned else sv_stop v = PIdle))"

definition closing :: "main_pc \<Rightarrow> bool" where
  "closing pc \<longleftrightarrow> pc \<in> {MStopWait, MServersWait, MProviders, MClose, MDetach} \<or> (\<exists>k. pc = MPreStop k \<or> pc = MStop k)"

definition life_ok :: "life \<Rightarrow> bool" where
  "life_ok s \<longleftrightarrow> rs_wg (li_signal s) = tally unready (li_servers s) \<and> li_wg s = tally serving (li_servers s) \<and>
     li_stop_wg s = tally stopping (li_servers s) \<and>
     (\<forall>i < length (li_servers s). server_ok s i (li_servers s ! i)) \<and>
     (closing (li_pc s) \<or> li_closed s \<longrightarrow> li_cancelled s) \<and>
     (li_closed s \<longrightarrow> li_pc s = MDetach \<or> ended (li_pc s)) \<and> (li_pc s = MDetach \<longrightarrow> li_closed s) \<and>
     (rs_closed (li_signal s) \<longrightarrow> li_pc s \<noteq> MBoot \<and> (\<forall>k. li_pc s \<noteq> MRunner k \<and> li_pc s \<noteq> MSpawn k) \<and> li_pc s \<noteq> MWaitReady)"

lemma life_ok_new: "life_ok (new_life n)"
  by (simp add: life_ok_def new_life_def new_server_def new_ready_signal_def tally_replicate unready_def serving_def
      stopping_def server_ok_def closing_def ended_def)

text \<open>A step of a server or of a \<open>Stop\<close> call keeps what the main goroutine knows.\<close>

lemma life_ok_put:
  assumes ok: "life_ok s" and i: "i < length (li_servers s)"
    and srv: "li_servers t = (li_servers s)[i := v]" and pc: "li_pc t = li_pc s" and closed: "li_closed t = li_closed s"
    and sig: "rs_closed (li_signal t) = rs_closed (li_signal s)" and canc: "li_cancelled s \<longrightarrow> li_cancelled t"
    and counts: "rs_wg (li_signal t) = tally unready (li_servers t)" "li_wg t = tally serving (li_servers t)"
      "li_stop_wg t = tally stopping (li_servers t)"
    and v: "server_ok s i (li_servers s ! i) \<Longrightarrow> server_ok s i v"
  shows "life_ok t"
proof -
  have same: "server_ok t j u = server_ok s j u" for j u by (simp add: server_ok_def pc closed sig)
  have "server_ok t j (li_servers t ! j)" if "j < length (li_servers t)" for j
    using ok that v i by (cases "j = i") (simp_all add: srv same life_ok_def)
  with ok counts canc show ?thesis by (auto simp: life_ok_def pc closed sig)
qed

lemma server_at_mono:
  assumes "server_at pc i v" and "sv_pc w = SIdle \<longleftrightarrow> sv_pc v = SIdle" and "sv_pc v = SExit \<longrightarrow> sv_pc w = SExit"
    and "sv_once v \<longrightarrow> sv_once w" and "sv_stop w = sv_stop v"
  shows "server_at pc i w"
  using assms by (cases pc) auto

lemma server_ok_mono:
  assumes "server_ok s i v" and "sv_pc w \<noteq> SIdle" and "sv_pc v \<noteq> SIdle" and "sv_pc v \<noteq> SExit"
    and "sv_once v \<longrightarrow> sv_once w" and "sv_stop w = sv_stop v"
  shows "server_ok s i w"
  using assms server_at_mono [of "li_pc s" i v w] by (auto simp: server_ok_def unready_def split: if_splits)

lemmas server_counts = unready_def serving_def stopping_def

lemma server_step_cases:
  assumes "server_step i a s = Some t"
  obtains v o1 c where "i < length (li_servers s)" "v = li_servers s ! i" "sv_pc v = SRun"
      "once_done (sv_once v) (li_signal s) = (o1, c)"
      "t = put_server i (v\<lparr>sv_once := o1\<rparr>) (s\<lparr>li_signal := c\<rparr>)"
  | v o1 c where "i < length (li_servers s)" "v = li_servers s ! i" "sv_pc v = SDone"
      "once_done (sv_once v) (li_signal s) = (o1, c)"
      "t = put_server i (v\<lparr>sv_pc := SShutDown, sv_once := o1\<rparr>) (s\<lparr>li_signal := c\<rparr>)"
  | v pc where "i < length (li_servers s)" "v = li_servers s ! i" "sv_pc v = SRun" "pc = SLeave \<or> pc = SFlag"
      "t = put_server i (v\<lparr>sv_pc := pc\<rparr>) s"
  | v where "i < length (li_servers s)" "v = li_servers s ! i" "sv_pc v = SFlag"
      "t = put_server i (v\<lparr>sv_pc := SDone\<rparr>) (s\<lparr>li_signal := (li_signal s)\<lparr>rs_flag := True\<rparr>\<rparr>)"
  | v where "i < length (li_servers s)" "v = li_servers s ! i" "sv_pc v = SShutDown"
      "t = put_server i (v\<lparr>sv_pc := SLeave\<rparr>) (s\<lparr>li_cancelled := True\<rparr>)"
  | v where "i < length (li_servers s)" "v = li_servers s ! i" "sv_pc v = SLeave"
      "t = put_server i (v\<lparr>sv_pc := SExit\<rparr>) (s\<lparr>li_wg := li_wg s - 1\<rparr>)"
proof -
  let ?v = "li_servers s ! i"
  have i: "i < length (li_servers s)" using assms by (auto simp: server_step_def split: if_splits)
  consider "sv_pc ?v = SRun" "a = Trigger" | "sv_pc ?v = SRun" "a = ReturnNil" | "sv_pc ?v = SRun" "a = Fail"
    | "sv_pc ?v = SFlag" "a = Continue" | "sv_pc ?v = SDone" "a = Continue" | "sv_pc ?v = SShutDown" "a = Continue"
    | "sv_pc ?v = SLeave" "a = Continue"
    using assms i by (cases "sv_pc ?v"; cases a) (simp_all add: server_step_def Let_def)
  moreover obtain o1 c where once: "once_done (sv_once ?v) (li_signal s) = (o1, c)" by fastforce
  ultimately show thesis
  proof cases
    case 1
    with assms i once show thesis by (intro that(1) [OF i refl _ once]) (simp_all add: server_step_def)
  next
    case 5
    with assms i once show thesis by (intro that(2) [OF i refl _ once]) (simp_all add: server_step_def)
  next
    case 2
    with assms i show thesis by (intro that(3) [OF i refl, where pc = SLeave]) (simp_all add: server_step_def)
  next
    case 3
    with assms i show thesis by (intro that(3) [OF i refl, where pc = SFlag]) (simp_all add: server_step_def)
  next
    case 4
    with assms i show thesis by (intro that(4) [OF i refl]) (simp_all add: server_step_def)
  next
    case 6
    with assms i show thesis by (intro that(5) [OF i refl]) (simp_all add: server_step_def)
  next
    case 7
    with assms i show thesis by (intro that(6) [OF i refl]) (simp_all add: server_step_def)
  qed
qed

lemma server_step_ok:
  assumes "life_ok s" and "server_step i a s = Some t"
  shows "life_ok t"
proof -
  have counts: "rs_wg (li_signal s) = tally unready (li_servers s)" "li_wg s = tally serving (li_servers s)"
    "li_stop_wg s = tally stopping (li_servers s)"
    using assms(1) by (simp_all add: life_ok_def)
  from assms(2) show ?thesis
  proof (cases rule: server_step_cases)
    case (1 v o1 c)
    have "o1" "rs_closed c = rs_closed (li_signal s)" "rs_wg c = rs_wg (li_signal s) - (if sv_once v then 0 else 1)"
      using 1(4) by (auto simp: once_done_def split: if_splits)
    with 1 show ?thesis
      by (intro life_ok_put [OF assms(1) 1(1), where v = "v\<lparr>sv_once := o1\<rparr>"])
        (auto simp: put_server_def counts tally_put server_counts elim!: server_ok_mono)
  next
    case (2 v o1 c)
    have "o1" "rs_closed c = rs_closed (li_signal s)" "rs_wg c = rs_wg (li_signal s) - (if sv_once v then 0 else 1)"
      using 2(4) by (auto simp: once_done_def split: if_splits)
    with 2 show ?thesis
      by (intro life_ok_put [OF assms(1) 2(1), where v = "v\<lparr>sv_pc := SShutDown, sv_once := o1\<rparr>"])
        (auto simp: put_server_def counts tally_put server_counts elim!: server_ok_mono)
  next
    case (3 v pc)
    then show ?thesis
      by (intro life_ok_put [OF assms(1) 3(1), where v = "v\<lparr>sv_pc := pc\<rparr>"])
        (auto simp: put_server_def counts tally_put server_counts elim!: server_ok_mono)
  next
    case (4 v)
    then show ?thesis
      by (intro life_ok_put [OF assms(1) 4(1), where v = "v\<lparr>sv_pc := SDone\<rparr>"])
        (auto simp: put_server_def counts tally_put server_counts elim!: server_ok_mono)
  next
    case (5 v)
    then show ?thesis
      by (intro life_ok_put [OF assms(1) 5(1), where v = "v\<lparr>sv_pc := SLeave\<rparr>"])
        (auto simp: put_server_def counts tally_put server_counts elim!: server_ok_mono)
  next
    case (6 v)
    then show ?thesis
      by (intro life_ok_put [OF assms(1) 6(1), where v = "v\<lparr>sv_pc := SExit\<rparr>"])
        (auto simp: put_server_def counts tally_put server_counts elim!: server_ok_mono)
  qed
qed

lemma stop_return_ok:
  assumes "life_ok s" and "stop_return i s = Some t"
  shows "life_ok t"
proof -
  have i: "i < length (li_servers s)" and run: "sv_stop (li_servers s ! i) = PRunning"
    and t: "t = put_server i ((li_servers s ! i)\<lparr>sv_stop := PReturned\<rparr>) (s\<lparr>li_stop_wg := li_stop_wg s - 1\<rparr>)"
    using assms(2) by (auto simp: stop_return_def split: if_splits)
  let ?v = "li_servers s ! i" and ?w = "(li_servers s ! i)\<lparr>sv_stop := PReturned\<rparr>"
  have "server_ok s i ?w" if "server_ok s i ?v"
    using that run by (cases "li_pc s") (auto simp: server_ok_def ended_def unready_def split: if_splits)
  moreover have "rs_wg (li_signal s) = tally unready (li_servers s)" "li_wg s = tally serving (li_servers s)"
    "li_stop_wg s = tally stopping (li_servers s)"
    using assms(1) by (simp_all add: life_ok_def)
  ultimately show ?thesis
    using i run by (intro life_ok_put [OF assms(1) i, where v = ?w])
      (auto simp: t put_server_def tally_put server_counts)
qed

text \<open>What the invariant says, by the point of the main goroutine.\<close>

lemma life_okI:
  assumes "rs_wg (li_signal t) = tally unready (li_servers t)" "li_wg t = tally serving (li_servers t)"
    "li_stop_wg t = tally stopping (li_servers t)"
    and "\<And>i. i < length (li_servers t) \<Longrightarrow> server_ok t i (li_servers t ! i)"
    and "closing (li_pc t) \<or> li_closed t \<Longrightarrow> li_cancelled t"
    and "li_closed t \<Longrightarrow> li_pc t = MDetach \<or> ended (li_pc t)" "li_pc t = MDetach \<Longrightarrow> li_closed t"
    and "rs_closed (li_signal t) \<Longrightarrow>
      li_pc t \<noteq> MBoot \<and> (\<forall>k. li_pc t \<noteq> MRunner k \<and> li_pc t \<noteq> MSpawn k) \<and> li_pc t \<noteq> MWaitReady"
  shows "life_ok t"
  using assms by (simp add: life_ok_def)

lemma life_okD:
  assumes "life_ok s"
  shows "rs_wg (li_signal s) = tally unready (li_servers s)" "li_wg s = tally serving (li_servers s)"
    "li_stop_wg s = tally stopping (li_servers s)"
    "\<And>i. i < length (li_servers s) \<Longrightarrow> server_ok s i (li_servers s ! i)"
    "closing (li_pc s) \<Longrightarrow> li_cancelled s" "li_closed s \<Longrightarrow> li_cancelled s"
    "li_closed s \<Longrightarrow> li_pc s = MDetach \<or> ended (li_pc s)" "li_pc s = MDetach \<Longrightarrow> li_closed s"
    "rs_closed (li_signal s) \<Longrightarrow>
      li_pc s \<noteq> MBoot \<and> (\<forall>k. li_pc s \<noteq> MRunner k \<and> li_pc s \<noteq> MSpawn k) \<and> li_pc s \<noteq> MWaitReady"
  using assms by (simp_all add: life_ok_def)

lemma spawn_ok:
  assumes ok: "life_ok s" and pc: "li_pc s = MSpawn k" and k: "k < length (li_servers s)"
  shows "life_ok (go_to (MSpawn (k + 1)) (put_server k ((li_servers s ! k)\<lparr>sv_pc := SRun\<rparr>)
           (s\<lparr>li_wg := li_wg s + 1, li_signal := signal_add (li_signal s)\<rparr>)))"
proof -
  note inv = life_okD [OF ok]
  have idle: "sv_pc (li_servers s ! k) = SIdle" "\<not> sv_once (li_servers s ! k)" "sv_stop (li_servers s ! k) = PIdle"
    using inv(4) [OF k] by (auto simp: server_ok_def pc)
  show ?thesis
  proof (rule life_okI, goal_cases)
    case (4 i)
    then show ?case using inv(4) [of i] inv(9) pc
      by (cases "i = k") (auto simp: server_ok_def put_server_def ended_def signal_add_def idle less_Suc_eq)
  qed (use inv k pc idle in \<open>auto simp: put_server_def signal_add_def tally_put server_counts closing_def ended_def\<close>)
qed

lemma stop_ok:
  assumes ok: "life_ok s" and pc: "li_pc s = MStop k" and k: "k < length (li_servers s)"
  shows "life_ok (go_to (MStop (k + 1)) (put_server k ((li_servers s ! k)\<lparr>sv_stop := PRunning\<rparr>)
           (s\<lparr>li_stop_wg := li_stop_wg s + 1\<rparr>)))"
proof -
  note inv = life_okD [OF ok]
  have idle: "sv_stop (li_servers s ! k) = PIdle" using inv(4) [OF k] by (simp add: server_ok_def pc)
  show ?thesis
  proof (rule life_okI, goal_cases)
    case (4 i)
    then show ?case using inv(4) [of i] inv(9) pc
      by (cases "i = k") (auto simp: server_ok_def put_server_def ended_def idle less_Suc_eq)
  qed (use inv k pc idle in \<open>auto simp: put_server_def tally_put server_counts closing_def ended_def\<close>)
qed

text \<open>The other steps of the main goroutine do not touch the servers.\<close>

lemma main_move_ok:
  assumes ok: "life_ok s" and same: "li_servers t = li_servers s" "rs_wg (li_signal t) = rs_wg (li_signal s)"
      "li_wg t = li_wg s" "li_stop_wg t = li_stop_wg s" "li_cancelled t = li_cancelled s"
    and srv: "\<And>i. i < length (li_servers s) \<Longrightarrow> server_ok s i (li_servers s ! i) \<Longrightarrow> server_ok t i (li_servers s ! i)"
    and "closing (li_pc t) \<or> li_closed t \<Longrightarrow> li_cancelled t"
    and "li_closed t \<Longrightarrow> li_pc t = MDetach \<or> ended (li_pc t)" "li_pc t = MDetach \<Longrightarrow> li_closed t"
    and "rs_closed (li_signal t) \<Longrightarrow>
      li_pc t \<noteq> MBoot \<and> (\<forall>k. li_pc t \<noteq> MRunner k \<and> li_pc t \<noteq> MSpawn k) \<and> li_pc t \<noteq> MWaitReady"
  shows "life_ok t"
  using assms life_okD [OF ok] by (intro life_okI) simp_all

lemmas point_simps = server_ok_def server_counts closing_def ended_def

lemma main_step_ok:
  assumes ok: "life_ok s" and run: "main_step m b s = Some t"
  shows "life_ok t"
proof -
  note inv = life_okD [OF ok] and move = main_move_ok [OF ok, of t]
  have ready: "sv_once (li_servers s ! i)"
    if "li_pc s = MWaitReady" "rs_wg (li_signal s) = 0" "i < length (li_servers s)" for i
    using inv(1) inv(4) [OF that(3)] that by (auto simp: tally_zero point_simps)
  have stopped: "sv_stop (li_servers s ! i) = PReturned"
    if "li_pc s = MStopWait" "li_stop_wg s = 0" "i < length (li_servers s)" for i
    using inv(3) inv(4) [OF that(3)] that by (cases "sv_stop (li_servers s ! i)") (auto simp: tally_zero point_simps)
  have exited: "sv_pc (li_servers s ! i) = SExit"
    if "li_pc s = MServersWait" "li_wg s = 0" "i < length (li_servers s)" for i
    using inv(2) inv(4) [OF that(3)] that by (auto simp: tally_zero point_simps)
  show ?thesis
  proof (cases "li_pc s")
    case (MSpawn k)
    then show ?thesis
    proof (cases "k < length (li_servers s)")
      case True
      with run MSpawn spawn_ok [OF ok MSpawn True] show ?thesis by (simp add: main_step_simps)
    next
      case False
      with run MSpawn inv show ?thesis by (intro move) (auto simp: main_step_simps point_simps)
    qed
  next
    case (MStop k)
    then show ?thesis
    proof (cases "k < length (li_servers s)")
      case True
      with run MStop stop_ok [OF ok MStop True] show ?thesis by (simp add: main_step_simps)
    next
      case False
      with run MStop inv show ?thesis by (intro move) (auto simp: main_step_simps point_simps)
    qed
  next
    case MWaitReady
    with run inv ready show ?thesis by (intro move) (auto simp: main_step_simps point_simps split: if_splits)
  next
    case MStopWait
    with run inv stopped show ?thesis by (intro move) (auto simp: main_step_simps point_simps split: if_splits)
  next
    case MServersWait
    with run inv exited show ?thesis by (intro move) (auto simp: main_step_simps point_simps split: if_splits)
  next
    case MBoot
    with run inv show ?thesis by (intro move) (auto simp: main_step_simps point_simps split: if_splits)
  next
    case MRunner
    with run inv show ?thesis by (intro move) (auto simp: main_step_simps point_simps split: if_splits)
  next
    case MPreStop
    with run inv show ?thesis by (intro move) (auto simp: main_step_simps point_simps split: if_splits)
  next
    case MCloseSignal
    with run inv show ?thesis by (intro move) (auto simp: main_step_simps point_simps split: if_splits)
  next
    case MCheck
    with run inv show ?thesis by (intro move) (auto simp: main_step_simps point_simps split: if_splits)
  next
    case MStarted
    with run inv show ?thesis by (intro move) (auto simp: main_step_simps point_simps split: if_splits)
  next
    case MProviders
    with run inv show ?thesis by (intro move) (auto simp: main_step_simps point_simps split: if_splits)
  next
    case MClose
    with run inv show ?thesis by (intro move) (auto simp: main_step_simps point_simps split: if_splits)
  next
    case MDetach
    with run inv show ?thesis by (intro move) (auto simp: main_step_simps point_simps split: if_splits)
  next
    case MTeardown
    with run inv show ?thesis by (intro move) (auto simp: main_step_simps point_simps split: if_splits)
  qed (use run in \<open>simp add: main_step_simps\<close>)
qed

lemma shut_down_ok: "life_ok s \<Longrightarrow> life_ok (shut_down s)"
  by (simp add: life_ok_def shut_down_def server_ok_def)

lemma next_lifeD:
  assumes "next_life m e s = Some t"
  obtains ok where "e = Main ok" "main_step m ok s = Some t"
  | i a where "e = Server i a" "server_step i a s = Some t"
  | i where "e = StopReturns i" "stop_return i s = Some t"
  | "e = ShutDown" "t = shut_down s"
  using assms by (cases e) (simp_all add: next_life_def split: if_splits)

lemma next_life_ok:
  assumes "life_ok s" and "next_life m e s = Some t"
  shows "life_ok t"
  using assms(2)
proof (cases rule: next_lifeD)
  case (1 ok)
  then show ?thesis by (intro main_step_ok [OF assms(1)])
next
  case (2 i a)
  then show ?thesis by (intro server_step_ok [OF assms(1)])
next
  case (3 i)
  then show ?thesis by (intro stop_return_ok [OF assms(1)])
qed (use shut_down_ok [OF assms(1)] in simp)

lemma main_step_servers:
  assumes "main_step m ok s = Some t"
  shows "li_servers t = li_servers s \<or>
    (\<exists>k v. li_pc s = MSpawn k \<and> k < length (li_servers s) \<and> li_servers t = (li_servers s)[k := v]) \<or>
    (\<exists>k v. li_pc s = MStop k \<and> k < length (li_servers s) \<and> li_servers t = (li_servers s)[k := v])"
  using assms by (cases "li_pc s") (auto simp: main_step_simps put_server_def split: if_splits)

lemma next_life_servers:
  assumes "next_life m e s = Some t"
  shows "length (li_servers t) = length (li_servers s)"
  using assms
proof (cases rule: next_lifeD)
  case (1 ok)
  then show ?thesis using main_step_servers [of m ok s t] by auto
next
  case (2 i a)
  from 2(2) show ?thesis by (cases rule: server_step_cases) (simp_all add: put_server_def)
next
  case (3 i)
  then show ?thesis by (auto simp: stop_return_def put_server_def split: if_splits)
qed (simp add: shut_down_def)

lemma life_steps_ok:
  assumes "life_steps m s t" and "life_ok s"
  shows "life_ok t \<and> length (li_servers t) = length (li_servers s)"
  using assms by induction (auto dest: next_life_ok next_life_servers)

lemma life_reachable:
  assumes "life_steps m (new_life n) s"
  shows "life_ok s" and "length (li_servers s) = n"
  using life_steps_ok [OF assms life_ok_new] by (simp_all add: new_life_def)

lemma all_servers: "(\<forall>v \<in> set (li_servers s). P v) \<longleftrightarrow> (\<forall>i < length (li_servers s). P (li_servers s ! i))"
  by (rule all_set_conv_all_nth)

lemma run_life_steps: "life_steps m r s \<Longrightarrow> run_life m es s = Some t \<Longrightarrow> life_steps m r t"
  by (induction es arbitrary: s) (auto split: option.splits intro: life_steps.more)

section \<open>Properties\<close>

text \<open>
  Property C7: the order of the life cycle. The readiness channel is closed only after every
  server has been started and has reported readiness or failed. The container is closed only
  after the shutdown was requested, every server has left \<open>Run\<close> and every call of \<open>Stop\<close> has
  returned, so that no bean is destroyed under a running server. If the process ends without
  closing the container, because \<open>Start\<close> failed, no server was asked to stop.
\<close>

theorem life_cycle_order:
  assumes "life_steps m (new_life n) s"
  shows "length (li_servers s) = n \<and>
    (rs_closed (li_signal s) \<longrightarrow> (\<forall>v \<in> set (li_servers s). sv_pc v \<noteq> SIdle \<and> sv_once v)) \<and>
    (li_closed s \<longrightarrow> li_cancelled s \<and> (\<forall>v \<in> set (li_servers s). sv_pc v = SExit \<and> sv_stop v = PReturned)) \<and>
    (li_pc s = MExit \<and> \<not> li_closed s \<longrightarrow> (\<forall>v \<in> set (li_servers s). sv_stop v = PIdle))"
proof -
  note inv = life_okD [OF life_reachable(1) [OF assms]]
  have "sv_pc (li_servers s ! i) = SExit \<and> sv_stop (li_servers s ! i) = PReturned"
    if "li_closed s" "i < length (li_servers s)" for i
    using inv(4) [OF that(2)] inv(7) [OF that(1)] that(1) by (auto simp: server_ok_def ended_def)
  moreover have "sv_stop (li_servers s ! i) = PIdle"
    if "li_pc s = MExit" "\<not> li_closed s" "i < length (li_servers s)" for i
    using inv(4) [OF that(3)] that by (simp add: server_ok_def ended_def)
  ultimately show ?thesis
    using inv(4,6) life_reachable(2) [OF assms] by (auto simp: all_servers server_ok_def)
qed


text \<open>A server that has left \<open>Run\<close> without having reported readiness stays that way.\<close>

definition silent :: "nat \<Rightarrow> life \<Rightarrow> bool" where
  "silent i s \<longleftrightarrow> life_ok s \<and> i < length (li_servers s) \<and> \<not> sv_once (li_servers s ! i) \<and>
     (sv_pc (li_servers s ! i) = SLeave \<or> sv_pc (li_servers s ! i) = SExit)"

lemma silent_point:
  assumes "silent i s"
  shows "(\<exists>k. li_pc s = MSpawn k \<and> i < k) \<or> li_pc s = MWaitReady"
proof -
  have "server_ok s i (li_servers s ! i)" using assms by (simp add: silent_def life_okD)
  with assms show ?thesis by (cases "li_pc s") (auto simp: silent_def server_ok_def ended_def unready_def)
qed

lemma silent_step:
  assumes "silent i s" and "next_life m e s = Some t"
  shows "silent i t"
proof -
  have t: "life_ok t" "i < length (li_servers t)"
    using assms next_life_ok next_life_servers by (auto simp: silent_def)
  have s: "\<not> sv_once (li_servers s ! i)" "sv_pc (li_servers s ! i) = SLeave \<or> sv_pc (li_servers s ! i) = SExit"
    using assms(1) by (auto simp: silent_def)
  have "\<not> sv_once (li_servers t ! i) \<and> (sv_pc (li_servers t ! i) = SLeave \<or> sv_pc (li_servers t ! i) = SExit)"
    using assms(2)
  proof (cases rule: next_lifeD)
    case (1 ok)
    from main_step_servers [OF 1(2)] silent_point [OF assms(1)] s show ?thesis
      by (elim disjE exE conjE) (simp_all add: nth_list_update)
  next
    case (2 j a)
    from 2(2) s show ?thesis
      by (cases rule: server_step_cases; cases "j = i") (auto simp: put_server_def)
  next
    case (3 j)
    then show ?thesis using s by (cases "j = i") (auto simp: stop_return_def put_server_def split: if_splits)
  qed (use s in \<open>simp add: shut_down_def\<close>)
  with t show ?thesis by (simp add: silent_def)
qed

text \<open>
  Property C37: a server that ends without an error and without having reported readiness blocks
  \<open>Start\<close> for ever. Its return does not tally as readiness, nor as a failure: from then on the main
  goroutine is starting servers or waiting for readiness, whatever happens, a request to
  shut down included.
\<close>

theorem silent_server_blocks_start:
  assumes "life_steps m (new_life n) s" and "i < n" and "\<not> sv_once (li_servers s ! i)"
    and "sv_pc (li_servers s ! i) = SLeave" and "life_steps m s t"
  shows "(\<exists>k. li_pc t = MSpawn k) \<or> li_pc t = MWaitReady"
proof -
  have "silent i s" using assms(2-4) life_reachable [OF assms(1)] by (simp add: silent_def)
  with assms(5) have "silent i t" by induction (auto dest: silent_step)
  then show ?thesis using silent_point by blast
qed

definition silent_run :: "life_event list" where
  "silent_run = [Main True, Main True, Main True, Server 0 ReturnNil]"

theorem silent_server_blocks_start_witness:
  "\<exists>s t. run_life 0 silent_run (new_life 1) = Some s \<and>
     run_life 0 [Server 0 Continue, Main True, ShutDown] s = Some t \<and> li_cancelled t \<and>
     ((\<exists>k. li_pc t = MSpawn k) \<or> li_pc t = MWaitReady)"
proof -
  have "map_option (\<lambda>s. (sv_once (li_servers s ! 0), sv_pc (li_servers s ! 0))) (run_life 0 silent_run (new_life 1)) =
      Some (False, SLeave)" by code_simp
  then obtain s where s: "run_life 0 silent_run (new_life 1) = Some s" "\<not> sv_once (li_servers s ! 0)"
    "sv_pc (li_servers s ! 0) = SLeave" by auto
  have "map_option (\<lambda>t. li_cancelled t) (run_life 0 (silent_run @ [Server 0 Continue, Main True, ShutDown]) (new_life 1)) =
      Some True" by code_simp
  moreover have "run_life m (xs @ ys) r = (case run_life m xs r of None \<Rightarrow> None | Some u \<Rightarrow> run_life m ys u)"
    for m xs ys r by (induction xs arbitrary: r) (auto split: option.split)
  ultimately obtain t where t: "run_life 0 [Server 0 Continue, Main True, ShutDown] s = Some t" "li_cancelled t"
    using s(1) by (auto simp del: run_life.simps)
  have "life_steps 0 (new_life 1) s" "life_steps 0 s t"
    using run_life_steps [OF life_steps.here] s(1) t(1) by blast+
  from silent_server_blocks_start [OF this(1) zero_less_one s(2,3) this(2)] s(1) t show ?thesis by blast
qed

definition full_run :: "life_event list" where
  "full_run = [Main True, Main True, Main True, Main True, Server 0 Trigger, Main True, Main True, Main True, ShutDown,
     Main True, Main True, Main True, Main True, Main True, Server 0 ReturnNil, Server 0 Continue, StopReturns 0,
     Main True, Main True, Main True, Main True]"

lemma run_life_reaches:
  assumes "map_option f (run_life m es (new_life n)) = Some x"
  obtains s where "life_steps m (new_life n) s" and "f s = x"
  using assms run_life_steps [OF life_steps.here, of m es "new_life n"] by (cases "run_life m es (new_life n)") auto

theorem life_cycle_order_witness:
  "\<exists>s. life_steps 0 (new_life 1) s \<and> li_closed s \<and> rs_closed (li_signal s) \<and> li_cancelled s \<and>
     sv_pc (li_servers s ! 0) = SExit \<and> sv_stop (li_servers s ! 0) = PReturned"
proof -
  have "map_option (\<lambda>s. (li_closed s, rs_closed (li_signal s))) (run_life 0 full_run (new_life 1)) = Some (True, True)"
    by code_simp
  then obtain s where s: "life_steps 0 (new_life 1) s" "li_closed s" "rs_closed (li_signal s)"
    by (elim run_life_reaches) simp
  from life_cycle_order [OF s(1)] s(2) have "li_cancelled s" "\<forall>v \<in> set (li_servers s). sv_pc v = SExit \<and> sv_stop v = PReturned"
    "li_servers s ! 0 \<in> set (li_servers s)" by (auto intro: nth_mem)
  with s show ?thesis by blast
qed



end
