(* ===== verification/FlatValues.thy ===== *)
theory FlatValues
  imports FlatPath
begin

text \<open>
  \<open>stdlib/flatten/flat.go\<close>: nested data as a flat map from keys to texts. A value is what
  \<open>reflect\<close> sees of it: nil, a map, a slice, an array, a pointer or interface, or a
  primitive. Formatting of floating-point numbers is a parameter. The entries of a Go map
  come in the order of the list.
\<close>

section \<open>The code\<close>

datatype 'f prim =
    PBool bool
  | PInt int
  | PUint nat
  | PFloat nat 'f
  | PString string
  | POther string

datatype 'f any =
    ANil
  | AMap "('f prim \<times> 'f any) list option"
  | ASlice "'f any list option"
  | AArray "'f any list"
  | APtr "'f any option"
  | APrim "'f prim"

fun prim_string :: "(nat \<Rightarrow> 'f \<Rightarrow> string) \<Rightarrow> 'f prim \<Rightarrow> string" where
  "prim_string ff (PBool b) = (if b then ''true'' else ''false'')"
| "prim_string ff (PInt i) = show_int i"
| "prim_string ff (PUint n) = show_nat n"
| "prim_string ff (PFloat bits x) = ff bits x"
| "prim_string ff (PString s) = s"
| "prim_string ff (POther s) = s"

fun flatten_value ::
    "(nat \<Rightarrow> 'f \<Rightarrow> string) \<Rightarrow> string \<Rightarrow> 'f any \<Rightarrow> (string, string) gomap \<Rightarrow> (string, string) gomap"
  and flatten_entries ::
    "(nat \<Rightarrow> 'f \<Rightarrow> string) \<Rightarrow> string \<Rightarrow> ('f prim \<times> 'f any) list \<Rightarrow> (string, string) gomap \<Rightarrow> (string, string) gomap"
  and flatten_items ::
    "(nat \<Rightarrow> 'f \<Rightarrow> string) \<Rightarrow> string \<Rightarrow> nat \<Rightarrow> 'f any list \<Rightarrow> (string, string) gomap \<Rightarrow> (string, string) gomap"
  where
  "flatten_value ff key ANil result = AList.update key ''<nil>'' result"
| "flatten_value ff key (AMap None) result = AList.update key ''<nil>'' result"
| "flatten_value ff key (AMap (Some kvs)) result =
     (if kvs = [] then AList.update key ''{}'' result else flatten_entries ff key kvs result)"
| "flatten_value ff key (ASlice None) result = AList.update key ''<nil>'' result"
| "flatten_value ff key (ASlice (Some vs)) result =
     (if vs = [] then AList.update key ''[]'' result else flatten_items ff key 0 vs result)"
| "flatten_value ff key (AArray vs) result =
     (if vs = [] then AList.update key ''[]'' result else flatten_items ff key 0 vs result)"
| "flatten_value ff key (APtr None) result = AList.update key ''<nil>'' result"
| "flatten_value ff key (APtr (Some v)) result = flatten_value ff key v result"
| "flatten_value ff key (APrim p) result = AList.update key (prim_string ff p) result"
| "flatten_entries ff key [] result = result"
| "flatten_entries ff key ((k, v) # kvs) result =
     flatten_entries ff key kvs (flatten_value ff (key @ ''.'' @ prim_string ff k) v result)"
| "flatten_items ff key i [] result = result"
| "flatten_items ff key i (v # vs) result =
     flatten_items ff key (Suc i) vs (flatten_value ff (key @ ''['' @ show_nat i @ '']'') v result)"

definition flatten :: "(nat \<Rightarrow> 'f \<Rightarrow> string) \<Rightarrow> (string \<times> 'f any) list \<Rightarrow> (string, string) gomap" where
  "flatten ff m = fold (\<lambda>(key, v). flatten_value ff key v) m []"

section \<open>The leaves of a value\<close>

fun leaves :: "(nat \<Rightarrow> 'f \<Rightarrow> string) \<Rightarrow> 'f any \<Rightarrow> (path_seg list \<times> string) list"
  and entry_leaves :: "(nat \<Rightarrow> 'f \<Rightarrow> string) \<Rightarrow> ('f prim \<times> 'f any) list \<Rightarrow> (path_seg list \<times> string) list"
  and item_leaves :: "(nat \<Rightarrow> 'f \<Rightarrow> string) \<Rightarrow> nat \<Rightarrow> 'f any list \<Rightarrow> (path_seg list \<times> string) list"
  where
  "leaves ff ANil = [([], ''<nil>'')]"
| "leaves ff (AMap None) = [([], ''<nil>'')]"
| "leaves ff (AMap (Some kvs)) = (if kvs = [] then [([], ''{}'')] else entry_leaves ff kvs)"
| "leaves ff (ASlice None) = [([], ''<nil>'')]"
| "leaves ff (ASlice (Some vs)) = (if vs = [] then [([], ''[]'')] else item_leaves ff 0 vs)"
| "leaves ff (AArray vs) = (if vs = [] then [([], ''[]'')] else item_leaves ff 0 vs)"
| "leaves ff (APtr None) = [([], ''<nil>'')]"
| "leaves ff (APtr (Some v)) = leaves ff v"
| "leaves ff (APrim p) = [([], prim_string ff p)]"
| "entry_leaves ff [] = []"
| "entry_leaves ff ((k, v) # kvs) =
     map (\<lambda>l. (key_seg (prim_string ff k) # fst l, snd l)) (leaves ff v) @ entry_leaves ff kvs"
| "item_leaves ff i [] = []"
| "item_leaves ff i (v # vs) =
     map (\<lambda>l. (index_seg (show_nat i) # fst l, snd l)) (leaves ff v) @ item_leaves ff (Suc i) vs"

definition top_leaves :: "(nat \<Rightarrow> 'f \<Rightarrow> string) \<Rightarrow> (string \<times> 'f any) list \<Rightarrow> (path_seg list \<times> string) list" where
  "top_leaves ff m = concat (map (\<lambda>kv. map (\<lambda>l. (key_seg (fst kv) # fst l, snd l)) (leaves ff (snd kv))) m)"

text \<open>Maps whose keys print as distinct plain texts, and slices of a length Go can have.\<close>

fun plain_keys :: "(nat \<Rightarrow> 'f \<Rightarrow> string) \<Rightarrow> 'f any \<Rightarrow> bool" where
  "plain_keys ff (AMap (Some kvs)) \<longleftrightarrow>
     distinct (map (\<lambda>kv. prim_string ff (fst kv)) kvs) \<and>
     (\<forall>kv \<in> set kvs. prim_string ff (fst kv) \<noteq> [] \<and> plain (prim_string ff (fst kv)) \<and> plain_keys ff (snd kv))"
| "plain_keys ff (ASlice (Some vs)) \<longleftrightarrow> length vs < 2 ^ 63 \<and> (\<forall>v \<in> set vs. plain_keys ff v)"
| "plain_keys ff (AArray vs) \<longleftrightarrow> length vs < 2 ^ 63 \<and> (\<forall>v \<in> set vs. plain_keys ff v)"
| "plain_keys ff (APtr (Some v)) = plain_keys ff v"
| "plain_keys ff _ = True"

definition plain_map :: "(nat \<Rightarrow> 'f \<Rightarrow> string) \<Rightarrow> (string \<times> 'f any) list \<Rightarrow> bool" where
  "plain_map ff m \<longleftrightarrow> distinct (map fst m) \<and> (\<forall>kv \<in> set m. fst kv \<noteq> [] \<and> plain (fst kv) \<and> plain_keys ff (snd kv))"

lemma join_from_pos: "0 < i \<Longrightarrow> join_from i ps = join_from 1 ps"
proof (induction ps arbitrary: i)
  case (Cons p ps)
  then have "join_from (Suc i) ps = join_from (Suc (Suc 0)) ps" by (metis zero_less_Suc)
  with Cons.prems show ?case by (cases p rule: seg_cases) (simp_all add: key_seg_def index_seg_def)
qed simp

lemma join_from_key: "join_from 1 (key_seg s # ps) = ''.'' @ s @ join_from 1 ps"
  using join_from_pos [of "Suc 1" ps] by (simp add: key_seg_def)

lemma join_from_index: "join_from 1 (index_seg s # ps) = ''['' @ s @ '']'' @ join_from 1 ps"
  using join_from_pos [of "Suc 1" ps] by (simp add: index_seg_def)

lemma join_path_key: "join_path (key_seg s # ps) = s @ join_from 1 ps"
  using join_from_pos [of "Suc 0" ps] by (simp add: join_path_def key_seg_def)

definition write_leaves :: "string \<Rightarrow> (path_seg list \<times> string) list \<Rightarrow> (string, string) gomap \<Rightarrow> (string, string) gomap" where
  "write_leaves key ls result = put_all (map (\<lambda>l. (key @ join_from 1 (fst l), snd l)) ls) result"

lemma put_all_append: "put_all (xs @ ys) m = put_all ys (put_all xs m)"
  by (simp add: put_all_def)

lemma write_leaves_simps:
  "write_leaves key [] result = result"
  "write_leaves key (xs @ ys) result = write_leaves key ys (write_leaves key xs result)"
  "write_leaves key [([], t)] result = AList.update key t result"
  "write_leaves key (map (\<lambda>l. (key_seg s # fst l, snd l)) ls) result = write_leaves (key @ ''.'' @ s) ls result"
  "write_leaves key (map (\<lambda>l. (index_seg s # fst l, snd l)) ls) result = write_leaves (key @ ''['' @ s @ '']'') ls result"
  by (simp_all add: write_leaves_def put_all_append o_def join_from_key [simplified] join_from_index [simplified])

lemma flatten_value_leaves:
  "flatten_value ff key v result = write_leaves key (leaves ff v) result"
  "flatten_entries ff key kvs result = write_leaves key (entry_leaves ff kvs) result"
  "flatten_items ff key i vs result = write_leaves key (item_leaves ff i vs) result"
  by (induction ff key v result and ff key kvs result and ff key i vs result
      rule: flatten_value_flatten_entries_flatten_items.induct)
    (simp_all add: write_leaves_simps)

lemma flatten_leaves: "flatten ff m = put_all (map (\<lambda>l. (join_path (fst l), snd l)) (top_leaves ff m)) []"
proof -
  have "fold (\<lambda>(key, v). flatten_value ff key v) m r =
      put_all (map (\<lambda>l. (join_path (fst l), snd l)) (top_leaves ff m)) r" for r
  proof (induction m arbitrary: r)
    case (Cons kv m)
    then show ?case
      by (cases kv) (simp add: top_leaves_def put_all_append flatten_value_leaves write_leaves_def o_def
          join_path_key [simplified])
  qed (simp add: top_leaves_def)
  then show ?thesis by (simp add: flatten_def)
qed


lemma fst_prefixed: "map fst (map (\<lambda>l. (p # fst l, snd l)) ls) = map ((#) p) (map fst ls)"
  by simp

lemma list_all_prefixed:
  "seg_ok p \<Longrightarrow> list_all (\<lambda>l. list_all seg_ok (fst l)) ls \<Longrightarrow>
     list_all (\<lambda>l. list_all seg_ok (fst l)) (map (\<lambda>l. (p # fst l, snd l)) ls)"
  by (simp add: list_all_iff)

text \<open>Leaves have well-formed, pairwise different paths.\<close>

lemma leaves_ok:
  "plain_keys ff v \<Longrightarrow> list_all (\<lambda>l. list_all seg_ok (fst l)) (leaves ff v) \<and> distinct (map fst (leaves ff v))"
  "distinct (map (\<lambda>kv. prim_string ff (fst kv)) kvs) \<Longrightarrow>
     (\<forall>kv \<in> set kvs. prim_string ff (fst kv) \<noteq> [] \<and> plain (prim_string ff (fst kv)) \<and> plain_keys ff (snd kv)) \<Longrightarrow>
     list_all (\<lambda>l. list_all seg_ok (fst l)) (entry_leaves ff kvs) \<and> distinct (map fst (entry_leaves ff kvs)) \<and>
     (\<forall>ps \<in> fst ` set (entry_leaves ff kvs). \<exists>kv \<in> set kvs. \<exists>qs. ps = key_seg (prim_string ff (fst kv)) # qs)"
  "i + length vs < 2 ^ 63 \<Longrightarrow> (\<forall>v \<in> set vs. plain_keys ff v) \<Longrightarrow>
     list_all (\<lambda>l. list_all seg_ok (fst l)) (item_leaves ff i vs) \<and> distinct (map fst (item_leaves ff i vs)) \<and>
     (\<forall>ps \<in> fst ` set (item_leaves ff i vs). \<exists>j qs. i \<le> j \<and> ps = index_seg (show_nat j) # qs)"
proof (induction ff v and ff kvs and ff i vs rule: leaves_entry_leaves_item_leaves.induct)
  case (11 ff k v kvs)
  let ?k = "prim_string ff k"
  from 11(3,4) have IH: "list_all (\<lambda>l. list_all seg_ok (fst l)) (leaves ff v)" "distinct (map fst (leaves ff v))"
    using 11(1) by auto
  from 11(3,4) have IH2: "list_all (\<lambda>l. list_all seg_ok (fst l)) (entry_leaves ff kvs)"
    "distinct (map fst (entry_leaves ff kvs))"
    "\<forall>ps \<in> fst ` set (entry_leaves ff kvs). \<exists>kv \<in> set kvs. \<exists>qs. ps = key_seg (prim_string ff (fst kv)) # qs"
    using 11(2) by auto
  have "distinct (map ((#) (key_seg ?k)) (map fst (leaves ff v)))"
    using IH(2) by (simp add: distinct_map inj_on_def del: map_map)
  moreover have "key_seg ?k # qs \<notin> fst ` set (entry_leaves ff kvs)" for qs
  proof
    assume "key_seg ?k # qs \<in> fst ` set (entry_leaves ff kvs)"
    with IH2(3) obtain kv where "kv \<in> set kvs" "?k = prim_string ff (fst kv)" by (auto simp: key_seg_def)
    with 11(3) show False by (auto simp: image_iff)
  qed
  moreover have "list_all (\<lambda>l. list_all seg_ok (fst l)) (map (\<lambda>l. (key_seg ?k # fst l, snd l)) (leaves ff v))"
    by (rule list_all_prefixed [OF _ IH(1)]) (use 11(4) in simp)
  ultimately show ?case using IH2
    by (simp only: leaves.simps entry_leaves.simps map_append fst_prefixed distinct_append list_all_append set_append
        image_Un ball_Un) force
next
  case (13 ff i v vs)
  from 13(3,4) have IH: "list_all (\<lambda>l. list_all seg_ok (fst l)) (leaves ff v)" "distinct (map fst (leaves ff v))"
    using 13(1) by auto
  from 13(3,4) have IH2: "list_all (\<lambda>l. list_all seg_ok (fst l)) (item_leaves ff (Suc i) vs)"
    "distinct (map fst (item_leaves ff (Suc i) vs))"
    "\<forall>ps \<in> fst ` set (item_leaves ff (Suc i) vs). \<exists>j qs. Suc i \<le> j \<and> ps = index_seg (show_nat j) # qs"
    using 13(2) by auto
  have "parse_uint64 (show_nat i) \<noteq> None" using 13(3) by (simp add: parse_uint64_show_nat)
  then have "list_all (\<lambda>l. list_all seg_ok (fst l)) (map (\<lambda>l. (index_seg (show_nat i) # fst l, snd l)) (leaves ff v))"
    by (intro list_all_prefixed [OF _ IH(1)]) simp
  moreover have "distinct (map ((#) (index_seg (show_nat i))) (map fst (leaves ff v)))"
    using IH(2) by (simp add: distinct_map inj_on_def del: map_map)
  moreover have "index_seg (show_nat i) # qs \<notin> fst ` set (item_leaves ff (Suc i) vs)" for qs
  proof
    assume "index_seg (show_nat i) # qs \<in> fst ` set (item_leaves ff (Suc i) vs)"
    with IH2(3) obtain j where "Suc i \<le> j" "show_nat i = show_nat j" by (auto simp: index_seg_def)
    then show False by simp
  qed
  ultimately show ?case using IH2
    by (simp only: leaves.simps item_leaves.simps map_append fst_prefixed distinct_append list_all_append set_append
        image_Un ball_Un) (force dest: Suc_leD)
qed (auto split: if_splits)

lemma top_leaves_entries: "top_leaves ff m = entry_leaves ff (map (\<lambda>kv. (PString (fst kv), snd kv)) m)"
  by (induction m) (auto simp: top_leaves_def)

lemma top_leaves_ok:
  assumes "plain_map ff m"
  shows "list_all wf_path (map fst (top_leaves ff m))" and "distinct (map fst (top_leaves ff m))"
proof -
  let ?kvs = "map (\<lambda>kv. (PString (fst kv), snd kv)) m"
  have "distinct (map (\<lambda>kv. prim_string ff (fst kv)) ?kvs)"
    "\<forall>kv \<in> set ?kvs. prim_string ff (fst kv) \<noteq> [] \<and> plain (prim_string ff (fst kv)) \<and> plain_keys ff (snd kv)"
    using assms by (auto simp: plain_map_def o_def)
  from leaves_ok(2) [OF this] have *: "list_all (\<lambda>l. list_all seg_ok (fst l)) (top_leaves ff m)"
    "distinct (map fst (top_leaves ff m))" "\<forall>ps \<in> fst ` set (top_leaves ff m). ps \<noteq> []"
    unfolding top_leaves_entries by auto
  then show "distinct (map fst (top_leaves ff m))" by simp
  from *(1,3) show "list_all wf_path (map fst (top_leaves ff m))" by (auto simp: list_all_iff wf_path_def)
qed

lemma join_path_inj: "wf_path ps \<Longrightarrow> wf_path qs \<Longrightarrow> join_path ps = join_path qs \<Longrightarrow> ps = qs"
  by (metis Inr_inject split_path_complete)

text \<open>Property C31: flattening loses nothing but the shape. For nested data whose map keys print as
  distinct plain texts, the flat map holds exactly one entry for every leaf: its key is the
  path to the leaf, which splitting the key gives back, and its value the printed leaf, with
  texts of their own for nil and for empty maps and slices.\<close>

theorem flatten_exact:
  assumes "plain_map ff m"
  shows "map_of (flatten ff m) key = Some t \<longleftrightarrow>
    (\<exists>ps. (ps, t) \<in> set (top_leaves ff m) \<and> split_path key = Inr ps)"
proof -
  let ?ls = "map (\<lambda>l. (join_path (fst l), snd l)) (top_leaves ff m)"
  have wf: "\<forall>l \<in> set (top_leaves ff m). wf_path (fst l)"
    using top_leaves_ok(1) [OF assms] by (simp add: list_all_iff)
  then have "inj_on join_path (fst ` set (top_leaves ff m))"
    by (auto simp: inj_on_def intro: join_path_inj)
  with top_leaves_ok(2) [OF assms] have "distinct (map join_path (map fst (top_leaves ff m)))"
    by (simp add: distinct_map del: map_map)
  then have "gomap_wf ?ls" by (simp add: gomap_wf_def o_def)
  then have "map_of (flatten ff m) key = Some t \<longleftrightarrow> (key, t) \<in> set ?ls"
    by (simp add: flatten_leaves map_of_put_all_wf map_of_in_set)
  also have "\<dots> \<longleftrightarrow> (\<exists>ps. (ps, t) \<in> set (top_leaves ff m) \<and> key = join_path ps)" by force
  also have "\<dots> \<longleftrightarrow> (\<exists>ps. (ps, t) \<in> set (top_leaves ff m) \<and> split_path key = Inr ps)"
    using wf by (auto simp: split_path_complete dest: split_path_sound)
  finally show ?thesis .
qed

definition sample_hosts :: "unit any" where
  "sample_hosts = ASlice (Some [APrim (PString ''a''), APrim (PInt 2)])"

definition sample_db :: "unit any" where
  "sample_db = AMap (Some [(PString ''hosts'', sample_hosts), (PString ''opts'', AMap (Some []))])"

definition sample_data :: "(string \<times> unit any) list" where
  "sample_data = [(''db'', sample_db), (''tmp'', APtr None)]"

lemma flatten_exact_witness:
  "map_of (flatten (\<lambda>_ _. []) sample_data) ''db.hosts[1]'' = Some ''2'' \<and>
   split_path ''db.hosts[1]'' = Inr [key_seg ''db'', key_seg ''hosts'', index_seg ''1'']"
proof -
  have "plain_keys (\<lambda>_ _. []) sample_hosts" by (simp add: sample_hosts_def)
  then have "plain_keys (\<lambda>_ _. []) sample_db" by (simp add: sample_db_def special_def)
  then have "plain_map (\<lambda>_ _. []) sample_data" by (simp add: plain_map_def sample_data_def special_def)
  from flatten_exact [OF this, of "''db.hosts[1]''" "''2''"]
  have "map_of (flatten (\<lambda>_ _. []) sample_data) ''db.hosts[1]'' = Some ''2'' \<longleftrightarrow>
    (\<exists>ps. (ps, ''2'') \<in> set (top_leaves (\<lambda>_ _. []) sample_data) \<and> split_path ''db.hosts[1]'' = Inr ps)" .
  moreover have "split_path (join_path [key_seg ''db'', key_seg ''hosts'', index_seg ''1'']) =
      Inr [key_seg ''db'', key_seg ''hosts'', index_seg ''1'']"
    by (rule split_path_complete)
      (simp add: wf_path_def special_def parse_uint64_def digits_val_def digit_val_def is_digit_def)
  then have "split_path ''db.hosts[1]'' = Inr [key_seg ''db'', key_seg ''hosts'', index_seg ''1'']"
    by (simp add: join_path_def key_seg_def index_seg_def)
  moreover have "([key_seg ''db'', key_seg ''hosts'', index_seg ''1''], ''2'') \<in> set (top_leaves (\<lambda>_ _. []) sample_data)"
    by code_simp
  ultimately show ?thesis by auto
qed

end
