(* ===== verification/CloudLock.thy ===== *)
theory CloudLock
  imports GoPrelude
begin

text \<open>
  The lock package of \<^verbatim>\<open>src/cloud/lock\<close>: acquisition options
  (\<^verbatim>\<open>lock.go\<close>), the in-process provider \<open>MemoryLocker\<close>
  (\<^verbatim>\<open>memory.go\<close>) and leader election on top of any locker
  (\<^verbatim>\<open>election.go\<close>).

  The provider shares \<open>memoryHold\<close> objects between its map, its renew loops and
  the handles it gives out, so the holds live in a store (a list that only
  grows) and everything else refers to them by index. Critical sections under
  the mutex are single steps; \<open>Unlock\<close> is two steps, because the holder's
  \<open>Lost\<close> channel is closed after the mutex is released. Times and durations are
  integers (nanoseconds); a closed channel is the flag \<open>True\<close>.
\<close>

section \<open>Options\<close>

record options =
  opt_ttl :: int
  opt_renew :: int
  opt_retry :: int
  opt_token :: string

type_synonym lock_option = "options \<Rightarrow> options"

definition with_ttl :: "int \<Rightarrow> lock_option" where
  "with_ttl d o' = o'\<lparr>opt_ttl := d\<rparr>"

definition with_renew_interval :: "int \<Rightarrow> lock_option" where
  "with_renew_interval d o' = o'\<lparr>opt_renew := d\<rparr>"

definition with_retry_interval :: "int \<Rightarrow> lock_option" where
  "with_retry_interval d o' = o'\<lparr>opt_retry := d\<rparr>"

definition with_token :: "string \<Rightarrow> lock_option" where
  "with_token t o' = o'\<lparr>opt_token := t\<rparr>"

definition millisecond :: int where "millisecond = 1000000"

definition second :: int where "second = 1000 * millisecond"

text \<open>\<open>rnd\<close> is the random token \<open>randutil.Hex(16)\<close> would give.\<close>

definition normalize :: "string \<Rightarrow> options \<Rightarrow> options" where
  "normalize rnd o0 =
     (let o1 = (if opt_ttl o0 \<le> 0 then o0\<lparr>opt_ttl := 30 * second\<rparr> else o0);
          o2 = (if opt_renew o1 = 0 then o1\<lparr>opt_renew := opt_ttl o1 div 3\<rparr> else o1);
          o3 = (if opt_retry o2 \<le> 0 then o2\<lparr>opt_retry := 100 * millisecond\<rparr> else o2);
          o4 = (if opt_token o3 = [] then o3\<lparr>opt_token := rnd\<rparr> else o3)
      in o4)"

record default_options =
  def_ttl :: int
  def_renew :: int
  def_retry :: int

definition zero_defaults :: default_options where
  "zero_defaults = \<lparr>def_ttl = 0, def_renew = 0, def_retry = 0\<rparr>"

definition zero_options :: options where
  "zero_options = \<lparr>opt_ttl = 0, opt_renew = 0, opt_retry = 0, opt_token = []\<rparr>"

definition resolve_options :: "string \<Rightarrow> default_options \<Rightarrow> lock_option list \<Rightarrow> options" where
  "resolve_options rnd d opts =
     (let o0 = fold (\<lambda>fn o'. fn o') opts zero_options;
          o1 = (if opt_ttl o0 = 0 \<and> 0 < def_ttl d then o0\<lparr>opt_ttl := def_ttl d\<rparr> else o0);
          o2 = (if opt_renew o1 = 0 \<and> def_renew d \<noteq> 0 then o1\<lparr>opt_renew := def_renew d\<rparr> else o1);
          o3 = (if opt_retry o2 = 0 \<and> 0 < def_retry d then o2\<lparr>opt_retry := def_retry d\<rparr> else o2)
      in normalize rnd o3)"

text \<open>
  What every acquisition works with. A lease of one or two nanoseconds is the
  case in which the default renew interval rounds to zero, that is to no renewal.
\<close>

lemma resolved_ttl_pos [simp]: "0 < opt_ttl (resolve_options rnd d opts)"
  by (simp add: resolve_options_def normalize_def Let_def second_def millisecond_def)

lemma resolved_retry_pos [simp]: "0 < opt_retry (resolve_options rnd d opts)"
  by (simp add: resolve_options_def normalize_def Let_def second_def millisecond_def)

lemma resolved_renew_zero:
  "opt_renew (resolve_options rnd d opts) = 0 \<Longrightarrow> opt_ttl (resolve_options rnd d opts) < 3"
  by (auto simp: resolve_options_def normalize_def Let_def second_def millisecond_def split: if_splits)

lemma resolved_token:
  "rnd \<noteq> [] \<Longrightarrow> opt_token (resolve_options rnd d opts) \<noteq> []"
  by (simp add: resolve_options_def normalize_def Let_def)

section \<open>The in-process provider\<close>

record mem_hold =
  hold_token :: string
  expire_at :: int
  hold_ttl :: int
  renew_every :: int
  lost_closed :: bool
  renew_closed :: bool

text \<open>The state of a \<open>sync.Once\<close> around a call that returns an error.\<close>

datatype lock_error = ErrNotHeld | ErrNotBuilt

datatype once = Unused | Inside "lock_error option" | Spent

record mem_handle =
  handle_key :: string
  handle_hold :: nat
  handle_once :: once

record mem_locker =
  locks :: "(string \<rightharpoonup> nat) option"
  stop_chan :: "bool option"
  holds :: "mem_hold list"
  handles :: "mem_handle list"
  loops :: "(string \<times> nat) set"

definition new_memory_locker :: mem_locker where
  "new_memory_locker =
     \<lparr>locks = Some (\<lambda>_. None), stop_chan = Some False, holds = [], handles = [], loops = {}\<rparr>"

text \<open>A nil map has no entry, and deleting from it does nothing.\<close>

definition current :: "mem_locker \<Rightarrow> string \<rightharpoonup> nat" where
  "current m k = (case locks m of None \<Rightarrow> None | Some f \<Rightarrow> f k)"

definition set_current :: "string \<Rightarrow> nat option \<Rightarrow> mem_locker \<Rightarrow> mem_locker" where
  "set_current k v m = m\<lparr>locks := map_option (\<lambda>f. f(k := v)) (locks m)\<rparr>"

definition update_hold :: "nat \<Rightarrow> (mem_hold \<Rightarrow> mem_hold) \<Rightarrow> mem_locker \<Rightarrow> mem_locker" where
  "update_hold h f m = m\<lparr>holds := (holds m)[h := f (holds m ! h)]\<rparr>"

definition mark_lost :: "nat \<Rightarrow> mem_locker \<Rightarrow> mem_locker" where
  "mark_lost h m = update_hold h (\<lambda>x. x\<lparr>lost_closed := True\<rparr>) m"

definition stop_renew_loop :: "nat \<Rightarrow> mem_locker \<Rightarrow> mem_locker" where
  "stop_renew_loop h m = update_hold h (\<lambda>x. x\<lparr>renew_closed := True\<rparr>) m"

definition drop_locked :: "string \<Rightarrow> nat \<Rightarrow> mem_locker \<Rightarrow> mem_locker" where
  "drop_locked k h m = mark_lost h (stop_renew_loop h (set_current k None m))"

definition new_hold :: "options \<Rightarrow> int \<Rightarrow> mem_hold" where
  "new_hold o' now =
     \<lparr>hold_token = opt_token o', expire_at = now + opt_ttl o', hold_ttl = opt_ttl o',
      renew_every = opt_renew o', lost_closed = False, renew_closed = False\<rparr>"

text \<open>
  The end of \<open>TryAcquire\<close>: a new generation of the key's lease, its handle, and
  its renew loop when the pace is positive.
\<close>

definition grant :: "options \<Rightarrow> string \<Rightarrow> int \<Rightarrow> mem_locker \<Rightarrow> nat \<times> mem_locker" where
  "grant o' k now m =
     (let h = length (holds m);
          hd' = new_hold o' now;
          m1 = set_current k (Some h) (m\<lparr>holds := holds m @ [hd']\<rparr>);
          m2 = (if 0 < renew_every hd' then m1\<lparr>loops := insert (k, h) (loops m1)\<rparr> else m1)
      in (length (handles m2),
          m2\<lparr>handles := handles m2 @ [\<lparr>handle_key = k, handle_hold = h, handle_once = Unused\<rparr>]\<rparr>))"

text \<open>
  \<open>TryAcquire\<close> reads the clock twice: \<open>t1\<close> for the test of the old lease and \<open>t2\<close>
  for the deadline of the new one. It yields the handle, if it got the lock.
\<close>

definition try_acquire ::
  "string \<Rightarrow> int \<Rightarrow> int \<Rightarrow> string \<Rightarrow> lock_option list \<Rightarrow> mem_locker \<Rightarrow>
   (lock_error, nat option) result \<times> mem_locker" where
  "try_acquire rnd t1 t2 k opts m =
     (let o' = resolve_options rnd zero_defaults opts in
      if locks m = None then (Inl ErrNotBuilt, m)
      else case current m k of
        Some h \<Rightarrow>
          if t1 < expire_at (holds m ! h) then (Inr None, m)
          else (case grant o' k t2 (drop_locked k h m) of (i, m') \<Rightarrow> (Inr (Some i), m'))
      | None \<Rightarrow> (case grant o' k t2 m of (i, m') \<Rightarrow> (Inr (Some i), m')))"

definition close_locker :: "mem_locker \<Rightarrow> lock_error option \<times> mem_locker" where
  "close_locker m =
     (if stop_chan m = None then (Some ErrNotBuilt, m)
      else (None, m\<lparr>stop_chan := Some True\<rparr>))"

text \<open>One firing of the ticker in \<open>renewLoop\<close>; the loop ends when the key has another generation.\<close>

definition renew_tick :: "int \<Rightarrow> string \<Rightarrow> nat \<Rightarrow> mem_locker \<Rightarrow> mem_locker" where
  "renew_tick now k h m =
     (if current m k \<noteq> Some h then m\<lparr>loops := loops m - {(k, h)}\<rparr>
      else update_hold h (\<lambda>x. x\<lparr>expire_at := now + hold_ttl x\<rparr>) m)"

text \<open>The loop may leave once its hold's channel or the locker's is closed.\<close>

definition loop_stopped :: "mem_locker \<Rightarrow> nat \<Rightarrow> bool" where
  "loop_stopped m h \<longleftrightarrow> renew_closed (holds m ! h) \<or> stop_chan m = Some True"

definition unlock_key :: "string \<Rightarrow> string \<Rightarrow> mem_locker \<Rightarrow> lock_error option \<times> mem_locker" where
  "unlock_key k token m =
     (case current m k of
        None \<Rightarrow> (None, m)
      | Some h \<Rightarrow>
          if hold_token (holds m ! h) \<noteq> token then (Some ErrNotHeld, m)
          else (None, stop_renew_loop h (set_current k None m)))"

definition set_once :: "nat \<Rightarrow> once \<Rightarrow> mem_locker \<Rightarrow> mem_locker" where
  "set_once i x m = m\<lparr>handles := (handles m)[i := (handles m ! i)\<lparr>handle_once := x\<rparr>]\<rparr>"

text \<open>The two halves of \<open>memoryLock.Unlock\<close>: inside the locker's mutex, and after it.\<close>

definition unlock_begin :: "nat \<Rightarrow> mem_locker \<Rightarrow> mem_locker" where
  "unlock_begin i m =
     (let l = handles m ! i in
      case handle_once l of
        Unused \<Rightarrow>
          (case unlock_key (handle_key l) (hold_token (holds m ! handle_hold l)) m of
             (err, m') \<Rightarrow> set_once i (Inside err) m')
      | _ \<Rightarrow> m)"

definition unlock_end :: "nat \<Rightarrow> mem_locker \<Rightarrow> lock_error option \<times> mem_locker" where
  "unlock_end i m =
     (let l = handles m ! i in
      case handle_once l of
        Inside err \<Rightarrow> (err, set_once i Spent (mark_lost (handle_hold l) m))
      | _ \<Rightarrow> (None, m))"

definition unlock_handle :: "nat \<Rightarrow> mem_locker \<Rightarrow> lock_error option \<times> mem_locker" where
  "unlock_handle i m = unlock_end i (unlock_begin i m)"

text \<open>
  \<open>Acquire\<close> polls. One round of the list is what one iteration meets: the random
  token and the clock for its attempt, whether the sleep ended before the
  context, and what others did to the locker meanwhile. No round left means
  that the call is still waiting.
\<close>

datatype acquire_error = AttemptError lock_error | ContextDone

record poll_round =
  round_token :: string
  round_t1 :: int
  round_t2 :: int
  round_slept :: bool
  round_others :: "mem_locker \<Rightarrow> mem_locker"

fun acquire ::
  "poll_round list \<Rightarrow> string \<Rightarrow> lock_option list \<Rightarrow> mem_locker \<Rightarrow>
   ((acquire_error, nat) result \<times> mem_locker) option" where
  "acquire [] k opts m = None"
| "acquire (r # rs) k opts m =
     (case try_acquire (round_token r) (round_t1 r) (round_t2 r) k opts m of
        (Inl e, m') \<Rightarrow> Some (Inl (AttemptError e), m')
      | (Inr (Some i), m') \<Rightarrow> Some (Inr i, m')
      | (Inr None, m') \<Rightarrow>
          if round_slept r then acquire rs k opts (round_others r m')
          else Some (Inl ContextDone, m'))"

section \<open>The provider as a state machine\<close>

text \<open>
  The system is the locker and the clock. Any goroutine may take the next step;
  \<open>Renew\<close> may fire in a loop whose channel is already closed, since \<open>select\<close>
  picks any ready case.
\<close>

datatype lock_event =
    Pass int
  | TryAcquire string "lock_option list" string int
  | Renew string nat
  | LoopExit string nat
  | UnlockBegin nat
  | UnlockEnd nat
  | CloseLocker

type_synonym lock_sys = "mem_locker \<times> int"

inductive lock_step :: "lock_sys \<Rightarrow> lock_event \<Rightarrow> lock_sys \<Rightarrow> bool" where
  Pass: "0 \<le> d \<Longrightarrow> lock_step (m, now) (Pass d) (m, now + d)"
| TryAcquire: "0 \<le> d \<Longrightarrow>
    lock_step (m, now) (TryAcquire k opts rnd d)
      (snd (try_acquire rnd now (now + d) k opts m), now + d)"
| Renew: "(k, h) \<in> loops m \<Longrightarrow> lock_step (m, now) (Renew k h) (renew_tick now k h m, now)"
| LoopExit: "(k, h) \<in> loops m \<Longrightarrow> loop_stopped m h \<Longrightarrow>
    lock_step (m, now) (LoopExit k h) (m\<lparr>loops := loops m - {(k, h)}\<rparr>, now)"
| UnlockBegin: "i < length (handles m) \<Longrightarrow> handle_once (handles m ! i) = Unused \<Longrightarrow>
    lock_step (m, now) (UnlockBegin i) (unlock_begin i m, now)"
| UnlockEnd: "i < length (handles m) \<Longrightarrow> handle_once (handles m ! i) = Inside err \<Longrightarrow>
    lock_step (m, now) (UnlockEnd i) (snd (unlock_end i m), now)"
| CloseLocker: "lock_step (m, now) CloseLocker (snd (close_locker m), now)"

inductive_cases lock_stepE: "lock_step s e s'"

text \<open>The states a run reaches whose steps all meet a condition.\<close>

inductive lock_reach :: "(lock_sys \<Rightarrow> lock_event \<Rightarrow> bool) \<Rightarrow> lock_sys \<Rightarrow> bool" for ok where
  start: "lock_reach ok (new_memory_locker, now)"
| step: "lock_reach ok s \<Longrightarrow> ok s e \<Longrightarrow> lock_step s e s' \<Longrightarrow> lock_reach ok s'"

text \<open>A token that no earlier handle of the key carries; random tokens are such.\<close>

definition fresh_token :: "mem_locker \<Rightarrow> string \<Rightarrow> string \<Rightarrow> bool" where
  "fresh_token m k t \<longleftrightarrow>
     (\<forall>l \<in> set (handles m). handle_key l = k \<longrightarrow> hold_token (holds m ! handle_hold l) \<noteq> t)"

fun fresh_tokens :: "lock_sys \<Rightarrow> lock_event \<Rightarrow> bool" where
  "fresh_tokens (m, now) (TryAcquire k opts rnd d) =
     fresh_token m k (opt_token (resolve_options rnd zero_defaults opts))"
| "fresh_tokens _ _ = True"

text \<open>A handle its owner may rely on: not given back and not reported lost.\<close>

definition held :: "mem_locker \<Rightarrow> nat \<Rightarrow> bool" where
  "held m i \<longleftrightarrow> i < length (handles m) \<and> handle_once (handles m ! i) = Unused \<and>
     \<not> lost_closed (holds m ! handle_hold (handles m ! i))"

section \<open>What each operation does to the map, the holds and the handles\<close>

named_theorems lock_simps \<open>projections of the locker operations\<close>

lemma set_current_simps [lock_simps]:
  "holds (set_current k v m) = holds m"
  "handles (set_current k v m) = handles m"
  "loops (set_current k v m) = loops m"
  "stop_chan (set_current k v m) = stop_chan m"
  "(locks (set_current k v m) = None) = (locks m = None)"
  by (simp_all add: set_current_def)

lemma current_set_current [lock_simps]:
  "current (set_current k v m) k' = (if locks m = None then None else if k' = k then v else current m k')"
  by (auto simp: current_def set_current_def split: option.split)

lemma update_hold_simps [lock_simps]:
  "locks (update_hold h f m) = locks m"
  "current (update_hold h f m) = current m"
  "handles (update_hold h f m) = handles m"
  "loops (update_hold h f m) = loops m"
  "stop_chan (update_hold h f m) = stop_chan m"
  "length (holds (update_hold h f m)) = length (holds m)"
  by (simp_all add: update_hold_def current_def fun_eq_iff)

lemma holds_update_hold [lock_simps]:
  "g < length (holds m) \<Longrightarrow>
   holds (update_hold h f m) ! g = (if g = h then f (holds m ! g) else holds m ! g)"
  by (auto simp: update_hold_def)

lemma set_once_simps [lock_simps]:
  "locks (set_once i x m) = locks m"
  "current (set_once i x m) = current m"
  "holds (set_once i x m) = holds m"
  "loops (set_once i x m) = loops m"
  "stop_chan (set_once i x m) = stop_chan m"
  "length (handles (set_once i x m)) = length (handles m)"
  by (simp_all add: set_once_def current_def fun_eq_iff)

lemma handles_set_once [lock_simps]:
  "j < length (handles m) \<Longrightarrow>
   handles (set_once i x m) ! j =
     (if j = i then (handles m ! j)\<lparr>handle_once := x\<rparr> else handles m ! j)"
  by (auto simp: set_once_def)


section \<open>The invariant of the provider\<close>

text \<open>
  Holds and handles come in pairs; the hold in the map for a key is a
  generation of that key, neither lost nor given back; deadlines lie at most
  one lease ahead.
\<close>

definition locker_ok :: "mem_locker \<Rightarrow> int \<Rightarrow> bool" where
  "locker_ok m now \<longleftrightarrow>
     locks m \<noteq> None \<and> stop_chan m \<noteq> None \<and> length (handles m) = length (holds m) \<and>
     (\<forall>i < length (holds m). handle_hold (handles m ! i) = i \<and>
        0 < hold_ttl (holds m ! i) \<and>
        expire_at (holds m ! i) \<le> now + hold_ttl (holds m ! i)) \<and>
     (\<forall>k h. current m k = Some h \<longrightarrow> h < length (holds m) \<and> handle_key (handles m ! h) = k \<and>
        handle_once (handles m ! h) = Unused \<and>
        \<not> lost_closed (holds m ! h) \<and> \<not> renew_closed (holds m ! h)) \<and>
     (\<forall>(k, h) \<in> loops m. h < length (holds m) \<and> handle_key (handles m ! h) = k)"

lemma locker_okD:
  assumes "locker_ok m now"
  shows "locks m \<noteq> None" "stop_chan m \<noteq> None" "length (handles m) = length (holds m)"
    "i < length (holds m) \<Longrightarrow> handle_hold (handles m ! i) = i"
    "i < length (holds m) \<Longrightarrow> 0 < hold_ttl (holds m ! i)"
    "i < length (holds m) \<Longrightarrow> expire_at (holds m ! i) \<le> now + hold_ttl (holds m ! i)"
    "(k, h) \<in> loops m \<Longrightarrow> h < length (holds m)"
    "(k, h) \<in> loops m \<Longrightarrow> handle_key (handles m ! h) = k"
  using assms by (auto simp: locker_ok_def)

lemma locker_ok_current:
  assumes "locker_ok m now" and "current m k = Some h"
  shows "h < length (holds m)" "handle_key (handles m ! h) = k"
    "handle_once (handles m ! h) = Unused" "\<not> lost_closed (holds m ! h)"
    "\<not> renew_closed (holds m ! h)"
  using assms by (auto simp: locker_ok_def)

lemma locker_ok_later: "locker_ok m now \<Longrightarrow> now \<le> now' \<Longrightarrow> locker_ok m now'"
  unfolding locker_ok_def by fastforce

lemma locker_ok_new: "locker_ok new_memory_locker now"
  by (simp add: locker_ok_def new_memory_locker_def current_def)

lemma locker_ok_drop:
  assumes ok: "locker_ok m now" and cur: "current m k = Some h"
  shows "locker_ok (drop_locked k h m) now" "current (drop_locked k h m) k = None"
    "current (drop_locked k h m) = (current m)(k := None)"
proof -
  have other: "h' \<noteq> h" if "current m k' = Some h'" "k' \<noteq> k" for k' h'
    using locker_ok_current(2) [OF ok cur] locker_ok_current(2) [OF ok that(1)] that(2) by auto
  show "locker_ok (drop_locked k h m) now"
    using ok other unfolding locker_ok_def
    by (auto simp: drop_locked_def mark_lost_def stop_renew_loop_def lock_simps)
  show "current (drop_locked k h m) = (current m)(k := None)"
    using locker_okD(1) [OF ok]
    by (auto simp: fun_eq_iff drop_locked_def mark_lost_def stop_renew_loop_def lock_simps)
  then show "current (drop_locked k h m) k = None" by simp
qed

text \<open>\<open>grant\<close> spelled out: what is new, and what stays.\<close>

lemma grant_effect:
  assumes ok: "locker_ok m now" and g: "grant o' k t m = (i, m')"
  shows "i = length (handles m)" "current m' = (current m)(k \<mapsto> i)"
    "holds m' = holds m @ [new_hold o' t]"
    "handles m' = handles m @ [\<lparr>handle_key = k, handle_hold = i, handle_once = Unused\<rparr>]"
    "loops m' = (if 0 < opt_renew o' then insert (k, i) (loops m) else loops m)"
    "locks m' \<noteq> None" "stop_chan m' = stop_chan m"
  using g locker_okD(1,3) [OF ok]
  by (auto simp: grant_def Let_def set_current_def current_def new_hold_def split: if_splits)

lemma locker_ok_grant:
  assumes ok: "locker_ok m now" and g: "grant o' k t m = (i, m')"
    and t: "now \<le> t" and ttl: "0 < opt_ttl o'"
  shows "locker_ok m' t"
proof -
  note e = grant_effect [OF ok g] and ok' = locker_ok_later [OF ok t]
  have len: "length (handles m) = length (holds m)" by (rule locker_okD [OF ok])
  have loop: "h < length (holds m) \<and> handle_key (handles m ! h) = k'" if "(k', h) \<in> loops m" for k' h
    using locker_okD(7,8) [OF ok that] by simp
  have cur: "h < length (holds m) \<and> handle_key (handles m ! h) = k' \<and>
      handle_once (handles m ! h) = Unused \<and> \<not> lost_closed (holds m ! h) \<and> \<not> renew_closed (holds m ! h)"
    if "current m k' = Some h" for k' h
    using locker_ok_current [OF ok that] by simp
  have old: "handle_hold (handles m ! j) = j \<and> 0 < hold_ttl (holds m ! j) \<and>
      expire_at (holds m ! j) \<le> t + hold_ttl (holds m ! j)" if "j < length (holds m)" for j
    using locker_okD(4,5,6) [OF ok' that] by simp
  show ?thesis
    unfolding locker_ok_def e(3,4,5,2)
  proof (intro conjI allI impI ballI)
    show "locks m' \<noteq> None" by (rule e)
    show "stop_chan m' \<noteq> None" using e(7) locker_okD(2) [OF ok] by simp
  qed (use len loop cur old ttl e(1) in
      \<open>fastforce simp: nth_append new_hold_def less_Suc_eq split: if_splits\<close>)+
qed

lemma try_acquire_cases:
  assumes ok: "locker_ok m now" and a: "try_acquire rnd t1 t2 k opts m = (r, m')"
  obtains (busy) h where "current m k = Some h" "t1 < expire_at (holds m ! h)" "r = Inr None" "m' = m"
    | (reclaimed) h i where "current m k = Some h" "expire_at (holds m ! h) \<le> t1" "r = Inr (Some i)"
        "grant (resolve_options rnd zero_defaults opts) k t2 (drop_locked k h m) = (i, m')"
    | (free) i where "current m k = None" "r = Inr (Some i)"
        "grant (resolve_options rnd zero_defaults opts) k t2 m = (i, m')"
  using a locker_okD(1) [OF ok]
  by (auto simp: try_acquire_def Let_def split: option.splits if_splits prod.splits)

lemma locker_ok_try_acquire:
  assumes ok: "locker_ok m now" and t: "now \<le> t2"
    and a: "try_acquire rnd t1 t2 k opts m = (r, m')"
  shows "locker_ok m' t2"
  using ok a
proof (cases rule: try_acquire_cases)
  case busy
  then show ?thesis using locker_ok_later [OF ok t] by simp
next
  case (reclaimed h i)
  then show ?thesis by (blast intro: locker_ok_grant [OF locker_ok_drop(1) _ t resolved_ttl_pos] ok)
next
  case (free i)
  then show ?thesis by (blast intro: locker_ok_grant [OF ok _ t resolved_ttl_pos])
qed


text \<open>The other steps: renewing, giving back and closing.\<close>

lemma renew_tick_simps [lock_simps]:
  "locks (renew_tick now k h m) = locks m"
  "current (renew_tick now k h m) = current m"
  "handles (renew_tick now k h m) = handles m"
  "stop_chan (renew_tick now k h m) = stop_chan m"
  "length (holds (renew_tick now k h m)) = length (holds m)"
  by (simp_all add: renew_tick_def lock_simps) (simp_all add: current_def fun_eq_iff)

lemma holds_renew_tick [lock_simps]:
  "g < length (holds m) \<Longrightarrow>
   holds (renew_tick now k h m) ! g =
     (if g = h \<and> current m k = Some h
      then (holds m ! g)\<lparr>expire_at := now + hold_ttl (holds m ! g)\<rparr> else holds m ! g)"
  by (auto simp: renew_tick_def lock_simps)

lemma loops_renew_tick: "loops (renew_tick now k h m) \<subseteq> loops m"
  by (auto simp: renew_tick_def lock_simps)

lemma locker_ok_renew_tick:
  assumes ok: "locker_ok m now"
  shows "locker_ok (renew_tick now k h m) now"
  using ok unfolding locker_ok_def by (auto simp: lock_simps dest!: subsetD [OF loops_renew_tick])

lemma locker_ok_loop_exit:
  "locker_ok m now \<Longrightarrow> locker_ok (m\<lparr>loops := loops m - A\<rparr>) now"
  unfolding locker_ok_def by (auto simp: current_def)

lemma locker_ok_close: "locker_ok m now \<Longrightarrow> locker_ok (snd (close_locker m)) now"
  unfolding locker_ok_def by (auto simp: close_locker_def current_def)

text \<open>The key's hold is taken out of the map exactly when it carries the handle's token.\<close>

definition unlocks :: "mem_locker \<Rightarrow> nat \<Rightarrow> nat \<Rightarrow> bool" where
  "unlocks m i h \<longleftrightarrow> current m (handle_key (handles m ! i)) = Some h \<and>
     hold_token (holds m ! h) = hold_token (holds m ! handle_hold (handles m ! i))"

lemma unlock_begin_cases:
  assumes "handle_once (handles m ! i) = Unused"
  obtains (released) h where "unlocks m i h"
      "unlock_begin i m = set_once i (Inside None)
         (stop_renew_loop h (set_current (handle_key (handles m ! i)) None m))"
    | (kept) err where "\<nexists>h. unlocks m i h" "unlock_begin i m = set_once i (Inside err) m"
proof (cases "current m (handle_key (handles m ! i))")
  case None
  then show thesis
    using assms by (intro kept [of None]) (simp_all add: unlock_begin_def unlock_key_def unlocks_def)
next
  case (Some h)
  then show thesis
  proof (cases "unlocks m i h")
    case True
    then show thesis
      using assms by (intro released [of h]) (simp_all add: unlock_begin_def unlock_key_def unlocks_def)
  next
    case False
    then show thesis
      using Some assms
      by (intro kept [of "Some ErrNotHeld"]) (simp_all add: unlock_begin_def unlock_key_def unlocks_def)
  qed
qed

lemma locker_ok_unlock_begin:
  assumes ok: "locker_ok m now" and i: "i < length (handles m)"
    and unused: "handle_once (handles m ! i) = Unused"
  shows "locker_ok (unlock_begin i m) now"
  using unused
proof (cases rule: unlock_begin_cases)
  case (released h)
  note cur = released(1) [unfolded unlocks_def, THEN conjunct1]
  have other: "h' \<noteq> h" if "current m k' = Some h'" "k' \<noteq> handle_key (handles m ! i)" for k' h'
    using locker_ok_current(2) [OF ok cur] locker_ok_current(2) [OF ok that(1)] that(2) by auto
  have own: "h' = i \<Longrightarrow> k' = handle_key (handles m ! i)" if "current m k' = Some h'" for k' h'
    using locker_ok_current(2) [OF ok that] by auto
  have i': "i < length (holds m)" using i locker_okD(3) [OF ok] by simp
  show ?thesis
    using ok i i' other own unfolding locker_ok_def released(2)
    by (auto simp: lock_simps stop_renew_loop_def)
next
  case (kept err)
  have ne: "h \<noteq> i" if "current m k = Some h" for k h
    using kept(1) that locker_okD(4) [OF ok] locker_ok_current(1,2) [OF ok that]
    unfolding unlocks_def by auto
  have i': "i < length (holds m)" using i locker_okD(3) [OF ok] by simp
  show ?thesis
    using ok i i' ne unfolding locker_ok_def kept(2) by (auto simp: lock_simps)
qed

lemma unlock_end_eq:
  assumes "handle_once (handles m ! i) = Inside err"
  shows "unlock_end i m = (err, set_once i Spent (mark_lost (handle_hold (handles m ! i)) m))"
  using assms by (simp add: unlock_end_def)

lemma locker_ok_unlock_end:
  assumes ok: "locker_ok m now" and i: "i < length (handles m)"
    and inside: "handle_once (handles m ! i) = Inside err"
  shows "locker_ok (snd (unlock_end i m)) now"
proof -
  have i': "i < length (holds m)" using i locker_okD(3) [OF ok] by simp
  have hold: "handle_hold (handles m ! i) = i" by (rule locker_okD(4) [OF ok i'])
  have ne: "h \<noteq> i" if "current m k = Some h" for k h
    using inside locker_ok_current(3) [OF ok that] by auto
  show ?thesis
    unfolding unlock_end_eq [OF inside] snd_conv hold
    using ok i i' ne unfolding locker_ok_def by (auto simp: lock_simps mark_lost_def)
qed

lemma lock_step_ok:
  assumes "lock_step s e s'" and "locker_ok (fst s) (snd s)"
  shows "locker_ok (fst s') (snd s')"
  using assms
proof (induction rule: lock_step.induct)
  case (TryAcquire d m now k opts rnd)
  have ok: "locker_ok m now" using TryAcquire.prems by simp
  obtain r m' where a: "try_acquire rnd now (now + d) k opts m = (r, m')" by force
  show ?case using locker_ok_try_acquire [OF ok _ a] TryAcquire.hyps by (simp add: a)
qed (simp_all add: locker_ok_later locker_ok_renew_tick locker_ok_loop_exit locker_ok_close
    locker_ok_unlock_begin locker_ok_unlock_end)

lemma lock_reach_ok: "lock_reach P s \<Longrightarrow> locker_ok (fst s) (snd s)"
  by (induction rule: lock_reach.induct) (simp add: locker_ok_new, blast intro: lock_step_ok)


section \<open>Runs with fresh tokens\<close>

text \<open>
  When no token is used twice for a key, handing back never touches another
  generation, and whoever may rely on the lock is the one in the map.
\<close>

definition tokens_ok :: "mem_locker \<Rightarrow> bool" where
  "tokens_ok m \<longleftrightarrow>
     (\<forall>i < length (handles m). \<forall>j < length (handles m).
        handle_key (handles m ! i) = handle_key (handles m ! j) \<longrightarrow>
        hold_token (holds m ! i) = hold_token (holds m ! j) \<longrightarrow> i = j) \<and>
     (\<forall>i. held m i \<longrightarrow> current m (handle_key (handles m ! i)) = Some i)"

lemma tokens_ok_new: "tokens_ok new_memory_locker"
  by (simp add: tokens_ok_def held_def new_memory_locker_def)

lemma tokens_okD:
  assumes "tokens_ok m"
  shows "i < length (handles m) \<Longrightarrow> j < length (handles m) \<Longrightarrow>
      handle_key (handles m ! i) = handle_key (handles m ! j) \<Longrightarrow>
      hold_token (holds m ! i) = hold_token (holds m ! j) \<Longrightarrow> i = j"
    "held m i \<Longrightarrow> current m (handle_key (handles m ! i)) = Some i"
  using assms unfolding tokens_ok_def by blast+

lemma tokens_ok_transfer:
  assumes tok: "tokens_ok m" and len: "length (handles m') = length (handles m)"
    and same: "\<And>j. j < length (handles m) \<Longrightarrow>
      handle_key (handles m' ! j) = handle_key (handles m ! j) \<and>
      hold_token (holds m' ! j) = hold_token (holds m ! j)"
    and held: "\<And>j. held m' j \<Longrightarrow> held m j \<and>
      current m' (handle_key (handles m ! j)) = current m (handle_key (handles m ! j))"
  shows "tokens_ok m'"
  unfolding tokens_ok_def
proof (intro conjI allI impI)
  fix a b
  assume "a < length (handles m')" "b < length (handles m')"
    and "handle_key (handles m' ! a) = handle_key (handles m' ! b)"
    and "hold_token (holds m' ! a) = hold_token (holds m' ! b)"
  then show "a = b" using tokens_okD(1) [OF tok, of a b] same [of a] same [of b] len by simp
next
  fix j assume j: "held m' j"
  then have "j < length (handles m)" using len by (simp add: held_def)
  then show "current m' (handle_key (handles m' ! j)) = Some j"
    using held [OF j] same [of j] tokens_okD(2) [OF tok, of j] by simp
qed

lemma unlocks_own:
  assumes ok: "locker_ok m now" and tok: "tokens_ok m" and i: "i < length (handles m)"
    and u: "unlocks m i h"
  shows "h = i"
proof -
  have cur: "current m (handle_key (handles m ! i)) = Some h"
    and t: "hold_token (holds m ! h) = hold_token (holds m ! handle_hold (handles m ! i))"
    using u by (simp_all add: unlocks_def)
  have "i < length (holds m)" using i locker_okD(3) [OF ok] by simp
  then have "handle_hold (handles m ! i) = i" by (rule locker_okD(4) [OF ok])
  moreover have "h < length (handles m)"
    using locker_ok_current(1) [OF ok cur] locker_okD(3) [OF ok] by simp
  ultimately show ?thesis
    using tokens_okD(1) [OF tok _ i locker_ok_current(2) [OF ok cur]] t by simp
qed

lemma tokens_ok_drop:
  assumes ok: "locker_ok m now" and tok: "tokens_ok m" and cur: "current m k = Some h"
  shows "tokens_ok (drop_locked k h m)"
proof -
  note h = locker_ok_current(1,2) [OF ok cur]
  have len: "length (handles m) = length (holds m)" by (rule locker_okD [OF ok])
  have hold: "handle_hold (handles m ! j) = j" if "j < length (holds m)" for j
    by (rule locker_okD(4) [OF ok that])
  have held: "held m j \<and> j \<noteq> h" if "held (drop_locked k h m) j" for j
    using that hold [of j] len
    by (auto simp: held_def drop_locked_def mark_lost_def stop_renew_loop_def lock_simps split: if_splits)
  have key: "handle_key (handles m ! j) \<noteq> k" if "held (drop_locked k h m) j" for j
    using tokens_okD(2) [OF tok, of j] held [OF that] cur by auto
  show ?thesis
  proof (rule tokens_ok_transfer [OF tok])
    fix j assume j: "held (drop_locked k h m) j"
    show "held m j \<and> current (drop_locked k h m) (handle_key (handles m ! j)) =
        current m (handle_key (handles m ! j))"
      using held [OF j] key [OF j] by (simp add: locker_ok_drop(3) [OF ok cur])
  qed (use len in \<open>simp_all add: drop_locked_def mark_lost_def stop_renew_loop_def lock_simps\<close>)
qed

lemma tokens_ok_grant:
  assumes ok: "locker_ok m now" and tok: "tokens_ok m" and cur: "current m k = None"
    and g: "grant o' k t m = (i, m')" and fresh: "fresh_token m k (opt_token o')"
  shows "tokens_ok m'"
proof -
  note e = grant_effect [OF ok g]
  have len: "length (handles m) = length (holds m)" by (rule locker_okD [OF ok])
  have tokens: "hold_token (holds m ! j) \<noteq> opt_token o'"
    if "j < length (handles m)" "handle_key (handles m ! j) = k" for j
    using fresh that locker_okD(4) [OF ok, of j] len nth_mem [OF that(1)]
    unfolding fresh_token_def by auto
  have old: "held m j" if "held m' j" "j \<noteq> i" for j
    using that e(1) len locker_okD(4) [OF ok, of j] by (auto simp: held_def e(3,4) nth_append)
  show ?thesis
    unfolding tokens_ok_def
  proof (intro conjI allI impI)
    fix j assume j: "held m' j"
    show "current m' (handle_key (handles m' ! j)) = Some j"
    proof (cases "j = i")
      case True
      then show ?thesis using e(1) by (simp add: e(2,4) nth_append)
    next
      case False
      then have "handle_key (handles m' ! j) = handle_key (handles m ! j)"
        using old [OF j] e(1) by (auto simp: held_def e(4) nth_append)
      then show ?thesis
        using tokens_okD(2) [OF tok old [OF j False]] cur by (auto simp: e(2))
    qed
  next
    fix a b
    assume "a < length (handles m')" "b < length (handles m')"
      and "handle_key (handles m' ! a) = handle_key (handles m' ! b)"
      and "hold_token (holds m' ! a) = hold_token (holds m' ! b)"
    then show "a = b"
      using tokens_okD(1) [OF tok, of a b] tokens [of a] tokens [of b] len
      by (auto simp: e(3,4) nth_append new_hold_def less_Suc_eq split: if_splits)
  qed
qed

lemma fresh_token_drop:
  assumes "locker_ok m now" and "current m k = Some h"
  shows "fresh_token (drop_locked k h m) k' t = fresh_token m k' t"
proof -
  have "hold_token (holds (drop_locked k h m) ! handle_hold l) = hold_token (holds m ! handle_hold l)"
    if l: "l \<in> set (handles m)" for l
  proof -
    obtain j where "j < length (handles m)" "l = handles m ! j" using l by (metis in_set_conv_nth)
    then have "handle_hold l < length (holds m)"
      using locker_okD(3) [OF assms(1)] locker_okD(4) [OF assms(1), of j] by simp
    then show ?thesis
      by (simp add: drop_locked_def mark_lost_def stop_renew_loop_def lock_simps)
  qed
  then show ?thesis
    by (auto simp: fresh_token_def drop_locked_def mark_lost_def stop_renew_loop_def lock_simps)
qed


lemma tokens_ok_try_acquire:
  assumes ok: "locker_ok m now" and tok: "tokens_ok m"
    and a: "try_acquire rnd t1 t2 k opts m = (r, m')"
    and fresh: "fresh_token m k (opt_token (resolve_options rnd zero_defaults opts))"
  shows "tokens_ok m'"
  using ok a
proof (cases rule: try_acquire_cases)
  case busy
  then show ?thesis using tok by simp
next
  case (reclaimed h i)
  note d = locker_ok_drop [OF ok reclaimed(1)]
  show ?thesis
    by (rule tokens_ok_grant [OF d(1) tokens_ok_drop [OF ok tok reclaimed(1)] d(2) reclaimed(4)])
      (simp add: fresh_token_drop [OF ok reclaimed(1)] fresh)
next
  case (free i)
  then show ?thesis by (blast intro: tokens_ok_grant [OF ok tok] fresh)
qed

lemma tokens_ok_renew_tick:
  assumes ok: "locker_ok m now" and tok: "tokens_ok m"
  shows "tokens_ok (renew_tick now k h m)"
proof (rule tokens_ok_transfer [OF tok])
  fix j assume "held (renew_tick now k h m) j"
  then show "held m j \<and> current (renew_tick now k h m) (handle_key (handles m ! j)) =
      current m (handle_key (handles m ! j))"
    using locker_okD(3,4) [OF ok] by (auto simp: held_def lock_simps split: if_splits)
qed (use locker_okD(3) [OF ok] in \<open>simp_all add: lock_simps\<close>)

lemma unlock_begin_fresh:
  assumes ok: "locker_ok m now" and tok: "tokens_ok m" and i: "i < length (handles m)"
    and unused: "handle_once (handles m ! i) = Unused"
  obtains (released) "current m (handle_key (handles m ! i)) = Some i"
      "unlock_begin i m = set_once i (Inside None)
         (stop_renew_loop i (set_current (handle_key (handles m ! i)) None m))"
    | (kept) err where "current m (handle_key (handles m ! i)) \<noteq> Some i"
      "unlock_begin i m = set_once i (Inside err) m"
  using unused
proof (cases rule: unlock_begin_cases)
  case (released h)
  then show thesis
    using unlocks_own [OF ok tok i released(1)] that(1) by (simp add: unlocks_def)
next
  case (kept err)
  moreover have "handle_hold (handles m ! i) = i"
    using locker_okD(3) [OF ok] locker_okD(4) [OF ok] i by simp
  ultimately show thesis using that(2) by (auto simp: unlocks_def)
qed

lemma tokens_ok_unlock_begin:
  assumes ok: "locker_ok m now" and tok: "tokens_ok m" and i: "i < length (handles m)"
    and unused: "handle_once (handles m ! i) = Unused"
  shows "tokens_ok (unlock_begin i m)"
  using ok tok i unused
proof (cases rule: unlock_begin_fresh)
  case released
  have len: "length (handles m) = length (holds m)" by (rule locker_okD [OF ok])
  have held: "held m j \<and> j \<noteq> i" if "held (unlock_begin i m) j" for j
    using that locker_okD(4) [OF ok, of j] len
    by (auto simp: held_def released(2) lock_simps stop_renew_loop_def split: if_splits)
  have key: "handle_key (handles m ! j) \<noteq> handle_key (handles m ! i)"
    if "held (unlock_begin i m) j" for j
    using tokens_okD(2) [OF tok, of j] held [OF that] released(1) by auto
  show ?thesis
  proof (rule tokens_ok_transfer [OF tok])
    fix j assume j: "held (unlock_begin i m) j"
    show "held m j \<and> current (unlock_begin i m) (handle_key (handles m ! j)) =
        current m (handle_key (handles m ! j))"
      using held [OF j] key [OF j] locker_okD(1) [OF ok]
      by (auto simp: released(2) lock_simps stop_renew_loop_def)
  qed (use len in \<open>simp_all add: released(2) lock_simps stop_renew_loop_def\<close>)
next
  case (kept err)
  show ?thesis
  proof (rule tokens_ok_transfer [OF tok])
    fix j assume "held (unlock_begin i m) j"
    then show "held m j \<and> current (unlock_begin i m) (handle_key (handles m ! j)) =
        current m (handle_key (handles m ! j))"
      by (auto simp: held_def kept(2) lock_simps split: if_splits)
  qed (simp_all add: kept(2) lock_simps)
qed

lemma tokens_ok_unlock_end:
  assumes ok: "locker_ok m now" and tok: "tokens_ok m" and i: "i < length (handles m)"
    and inside: "handle_once (handles m ! i) = Inside err"
  shows "tokens_ok (snd (unlock_end i m))"
proof -
  have len: "length (handles m) = length (holds m)" by (rule locker_okD [OF ok])
  have held: "held m j \<and> j \<noteq> i" if "held (snd (unlock_end i m)) j" for j
    using that locker_okD(4) [OF ok, of j] len i
    by (auto simp: held_def unlock_end_eq [OF inside] lock_simps mark_lost_def split: if_splits)
  show ?thesis
  proof (rule tokens_ok_transfer [OF tok])
    fix j assume "held (snd (unlock_end i m)) j"
    then show "held m j \<and> current (snd (unlock_end i m)) (handle_key (handles m ! j)) =
        current m (handle_key (handles m ! j))"
      using held [of j] by (simp add: unlock_end_eq [OF inside] lock_simps mark_lost_def)
  qed (use len in \<open>simp_all add: unlock_end_eq [OF inside] lock_simps mark_lost_def\<close>)
qed


lemma close_locker_simps [lock_simps]:
  "locks (snd (close_locker m)) = locks m"
  "current (snd (close_locker m)) = current m"
  "holds (snd (close_locker m)) = holds m"
  "handles (snd (close_locker m)) = handles m"
  "loops (snd (close_locker m)) = loops m"
  by (simp_all add: close_locker_def current_def fun_eq_iff)

lemma loops_update_simps [lock_simps]:
  "locks (m\<lparr>loops := A\<rparr>) = locks m"
  "current (m\<lparr>loops := A\<rparr>) = current m"
  by (simp_all add: current_def fun_eq_iff)

lemma lock_step_tokens:
  assumes "lock_step s e s'" and "locker_ok (fst s) (snd s)" and "tokens_ok (fst s)"
    and "fresh_tokens s e"
  shows "tokens_ok (fst s')"
  using assms
proof (induction rule: lock_step.induct)
  case (TryAcquire d m now k opts rnd)
  obtain r m' where a: "try_acquire rnd now (now + d) k opts m = (r, m')" by force
  show ?case using tokens_ok_try_acquire [OF _ _ a] TryAcquire.prems by (simp add: a)
next
  case (LoopExit k h m now)
  then show ?case by (auto simp: tokens_ok_def held_def lock_simps)
next
  case (CloseLocker m now)
  then show ?case by (auto simp: tokens_ok_def held_def lock_simps)
qed (simp_all add: tokens_ok_renew_tick tokens_ok_unlock_begin tokens_ok_unlock_end)

lemma lock_reach_tokens: "lock_reach fresh_tokens s \<Longrightarrow> tokens_ok (fst s)"
proof (induction rule: lock_reach.induct)
  case (step s e s')
  then show ?case by (blast intro: lock_step_tokens lock_reach_ok)
qed (simp add: tokens_ok_new)

section \<open>The abstract lease\<close>

text \<open>
  What a locker promises, without holds, channels and loops: a key has at most
  one owner, with a deadline; it is granted only when there is no owner or the
  deadline has passed, the owner's lease can be extended, and only the owner
  gives the key back.
\<close>

record lease =
  owner :: "string \<rightharpoonup> nat \<times> int"
  issued :: nat
  clock :: int

datatype lease_event = Idle int | Granted string nat int | Extended string nat | Released string nat

inductive lease_step :: "lease \<Rightarrow> lease_event \<Rightarrow> lease \<Rightarrow> bool" where
  Idle: "0 \<le> d \<Longrightarrow> lease_step s (Idle d) (s\<lparr>clock := clock s + d\<rparr>)"
| Granted: "0 \<le> d \<Longrightarrow> (\<And>j dl. owner s k = Some (j, dl) \<Longrightarrow> dl \<le> clock s) \<Longrightarrow>
    clock s + d < deadline \<Longrightarrow>
    lease_step s (Granted k (issued s) d)
      (s\<lparr>owner := (owner s)(k \<mapsto> (issued s, deadline)), issued := issued s + 1,
         clock := clock s + d\<rparr>)"
| Extended: "owner s k = Some (i, dl) \<Longrightarrow> dl \<le> dl' \<Longrightarrow>
    lease_step s (Extended k i) (s\<lparr>owner := (owner s)(k \<mapsto> (i, dl'))\<rparr>)"
| Released: "owner s k = Some (i, dl) \<Longrightarrow>
    lease_step s (Released k i) (s\<lparr>owner := (owner s)(k := None)\<rparr>)"

definition free_lease :: "int \<Rightarrow> lease" where
  "free_lease now = \<lparr>owner = (\<lambda>_. None), issued = 0, clock = now\<rparr>"

text \<open>How the provider's state and steps read as the lease's.\<close>

definition lease_of :: "lock_sys \<Rightarrow> lease" where
  "lease_of s = (case s of (m, now) \<Rightarrow>
     \<lparr>owner = (\<lambda>k. map_option (\<lambda>h. (h, expire_at (holds m ! h))) (current m k)),
      issued = length (handles m), clock = now\<rparr>)"

fun lease_view :: "lock_sys \<Rightarrow> lock_event \<Rightarrow> lease_event" where
  "lease_view (m, now) (Pass d) = Idle d"
| "lease_view (m, now) (TryAcquire k opts rnd d) =
     (case fst (try_acquire rnd now (now + d) k opts m) of
        Inr (Some i) \<Rightarrow> Granted k i d
      | _ \<Rightarrow> Idle d)"
| "lease_view (m, now) (Renew k h) = (if current m k = Some h then Extended k h else Idle 0)"
| "lease_view (m, now) (LoopExit k h) = Idle 0"
| "lease_view (m, now) (UnlockBegin i) =
     (if current m (handle_key (handles m ! i)) = Some i
      then Released (handle_key (handles m ! i)) i else Idle 0)"
| "lease_view (m, now) (UnlockEnd i) = Idle 0"
| "lease_view (m, now) CloseLocker = Idle 0"

lemma lease_of_simps [lock_simps]:
  "owner (lease_of (m, now)) k = map_option (\<lambda>h. (h, expire_at (holds m ! h))) (current m k)"
  "issued (lease_of (m, now)) = length (handles m)"
  "clock (lease_of (m, now)) = now"
  by (simp_all add: lease_of_def)

lemma lease_eqI: "owner a = owner b \<Longrightarrow> issued a = issued b \<Longrightarrow> clock a = clock b \<Longrightarrow> a = (b :: lease)"
  by simp

text \<open>A step that leaves the map, the deadlines of the current holds and the handles alone.\<close>

lemma lease_idle:
  assumes "current m' = current m" and "length (handles m') = length (handles m)" and "0 \<le> d"
    and "\<And>k h. current m k = Some h \<Longrightarrow> expire_at (holds m' ! h) = expire_at (holds m ! h)"
  shows "lease_step (lease_of (m, now)) (Idle d) (lease_of (m', now + d))"
proof -
  have "lease_of (m', now + d) = (lease_of (m, now))\<lparr>clock := clock (lease_of (m, now)) + d\<rparr>"
  proof (intro lease_eqI ext)
    fix k show "owner (lease_of (m', now + d)) k =
        owner ((lease_of (m, now))\<lparr>clock := clock (lease_of (m, now)) + d\<rparr>) k"
      using assms(1,4) by (cases "current m k") (simp_all add: lock_simps)
  qed (use assms(2) in \<open>simp_all add: lock_simps\<close>)
  then show ?thesis using lease_step.Idle [OF assms(3)] by metis
qed

lemma lease_idle_now:
  assumes "current m' = current m" and "length (handles m') = length (handles m)"
    and "\<And>k h. current m k = Some h \<Longrightarrow> expire_at (holds m' ! h) = expire_at (holds m ! h)"
  shows "lease_step (lease_of (m, now)) (Idle 0) (lease_of (m', now))"
  using lease_idle [of m' m 0 now] assms by simp

lemma lease_granted:
  assumes ok: "locker_ok m0 now" and cur: "current m0 = (current m)(k := None)"
    and "length (handles m0) = length (handles m)"
    and same: "\<And>h. h < length (holds m0) \<Longrightarrow> expire_at (holds m0 ! h) = expire_at (holds m ! h)"
    and g: "grant o' k (now + d) m0 = (i, m')" and "0 \<le> d" and "0 < opt_ttl o'"
    and free: "\<And>h. current m k = Some h \<Longrightarrow> expire_at (holds m ! h) \<le> now"
  shows "lease_step (lease_of (m, now)) (Granted k i d) (lease_of (m', now + d))"
proof -
  note e = grant_effect [OF ok g]
  have len: "length (handles m0) = length (holds m0)" by (rule locker_okD [OF ok])
  have i: "i = issued (lease_of (m, now))" using e(1) assms(3) by (simp add: lock_simps)
  have old: "expire_at (holds m' ! h) = expire_at (holds m ! h)"
    if "current m k' = Some h" "k' \<noteq> k" for k' h
  proof -
    have "current m0 k' = Some h" using that cur by simp
    then have "h < length (holds m0)" by (rule locker_ok_current(1) [OF ok])
    then show ?thesis using same by (simp add: e(3) nth_append)
  qed
  have "owner (lease_of (m', now + d)) = (owner (lease_of (m, now)))(k \<mapsto> (i, now + d + opt_ttl o'))"
  proof
    fix k'
    show "owner (lease_of (m', now + d)) k' =
        ((owner (lease_of (m, now)))(k \<mapsto> (i, now + d + opt_ttl o'))) k'"
      using old [of k'] e(1) len
      by (cases "current m k'") (auto simp: lock_simps e(2) cur e(3) nth_append new_hold_def)
  qed
  then have eq: "lease_of (m', now + d) =
      (lease_of (m, now))\<lparr>owner := (owner (lease_of (m, now)))(k \<mapsto> (i, now + d + opt_ttl o')),
        issued := issued (lease_of (m, now)) + 1, clock := clock (lease_of (m, now)) + d\<rparr>"
    using assms(3) by (intro lease_eqI) (simp_all add: lock_simps e(4))
  show ?thesis
    unfolding eq i
    by (rule lease_step.Granted) (use assms(6,7) free in \<open>auto simp: lock_simps\<close>)
qed


lemma lease_try_acquire:
  assumes ok: "locker_ok m now" and "0 \<le> d"
  shows "lease_step (lease_of (m, now)) (lease_view (m, now) (TryAcquire k opts rnd d))
    (lease_of (snd (try_acquire rnd now (now + d) k opts m), now + d))"
proof -
  obtain r m' where a: "try_acquire rnd now (now + d) k opts m = (r, m')" by force
  from ok a show ?thesis
  proof (cases rule: try_acquire_cases)
    case busy
    then show ?thesis using lease_idle [of m m d now] assms(2) by (simp add: a)
  next
    case (reclaimed h i)
    note d = locker_ok_drop [OF ok reclaimed(1)]
    show ?thesis
      using lease_granted [OF d(1,3) _ _ reclaimed(4) assms(2) resolved_ttl_pos] reclaimed
      by (simp add: a drop_locked_def mark_lost_def stop_renew_loop_def lock_simps)
  next
    case (free i)
    have "current m = (current m)(k := None)" using free(1) by (simp add: fun_eq_iff)
    then show ?thesis
      using lease_granted [OF ok _ refl refl free(3) assms(2) resolved_ttl_pos] free(1,2)
      by (simp add: a)
  qed
qed

lemma lease_renew:
  assumes ok: "locker_ok m now"
  shows "lease_step (lease_of (m, now)) (lease_view (m, now) (Renew k h))
    (lease_of (renew_tick now k h m, now))"
proof (cases "current m k = Some h")
  case True
  note h = locker_ok_current(1,2) [OF ok True]
  have other: "h' \<noteq> h" if "current m k' = Some h'" "k' \<noteq> k" for k' h'
    using locker_ok_current(2) [OF ok that(1)] h that(2) by auto
  have "owner (lease_of (renew_tick now k h m, now)) =
      (owner (lease_of (m, now)))(k \<mapsto> (h, now + hold_ttl (holds m ! h)))"
  proof
    fix k'
    show "owner (lease_of (renew_tick now k h m, now)) k' =
        ((owner (lease_of (m, now)))(k \<mapsto> (h, now + hold_ttl (holds m ! h)))) k'"
      using True h other [of k'] locker_ok_current(1) [OF ok, of k']
      by (cases "current m k'") (auto simp: lock_simps)
  qed
  then have "lease_of (renew_tick now k h m, now) =
      (lease_of (m, now))\<lparr>owner := (owner (lease_of (m, now)))(k \<mapsto> (h, now + hold_ttl (holds m ! h)))\<rparr>"
    by (intro lease_eqI) (simp_all add: lock_simps)
  moreover have "expire_at (holds m ! h) \<le> now + hold_ttl (holds m ! h)"
    by (rule locker_okD(6) [OF ok h(1)])
  ultimately show ?thesis
    using True by (auto simp: lock_simps intro!: lease_step.Extended)
next
  case False
  then show ?thesis
    using lease_idle_now [of "renew_tick now k h m" m now] locker_ok_current(1) [OF ok]
    by (simp add: lock_simps)
qed

lemma lease_unlock_begin:
  assumes ok: "locker_ok m now" and tok: "tokens_ok m" and i: "i < length (handles m)"
    and unused: "handle_once (handles m ! i) = Unused"
  shows "lease_step (lease_of (m, now)) (lease_view (m, now) (UnlockBegin i))
    (lease_of (unlock_begin i m, now))"
  using ok tok i unused
proof (cases rule: unlock_begin_fresh)
  case released
  let ?k = "handle_key (handles m ! i)"
  have "owner (lease_of (unlock_begin i m, now)) = (owner (lease_of (m, now)))(?k := None)"
  proof
    fix k'
    show "owner (lease_of (unlock_begin i m, now)) k' = ((owner (lease_of (m, now)))(?k := None)) k'"
      using released locker_okD(1) [OF ok] locker_ok_current(1) [OF ok, of k']
      by (cases "current m k'") (auto simp: lock_simps stop_renew_loop_def)
  qed
  then have "lease_of (unlock_begin i m, now) =
      (lease_of (m, now))\<lparr>owner := (owner (lease_of (m, now)))(?k := None)\<rparr>"
    by (intro lease_eqI) (simp_all add: released(2) lock_simps stop_renew_loop_def)
  then show ?thesis
    using released(1) by (auto simp: lock_simps intro!: lease_step.Released)
next
  case (kept err)
  then show ?thesis
    using lease_idle_now [of "unlock_begin i m" m now] by (simp add: lock_simps)
qed

lemma lease_unlock_end:
  assumes ok: "locker_ok m now" and i: "i < length (handles m)"
    and inside: "handle_once (handles m ! i) = Inside err"
  shows "lease_step (lease_of (m, now)) (Idle 0) (lease_of (snd (unlock_end i m), now))"
  using lease_idle_now [of "snd (unlock_end i m)" m now] locker_ok_current(1) [OF ok]
  by (simp add: unlock_end_eq [OF inside] lock_simps mark_lost_def)

lemma lock_step_refines:
  assumes "lock_step s e s'" and "locker_ok (fst s) (snd s)" and "tokens_ok (fst s)"
  shows "lease_step (lease_of s) (lease_view s e) (lease_of s')"
  using assms
proof (induction rule: lock_step.induct)
  case (Pass d m now)
  then show ?case using lease_idle [of m m d now] by simp
next
  case (TryAcquire d m now k opts rnd)
  then show ?case using lease_try_acquire by simp
next
  case (Renew k h m now)
  then show ?case using lease_renew by simp
next
  case (LoopExit k h m now)
  then show ?case using lease_idle_now [of "m\<lparr>loops := loops m - {(k, h)}\<rparr>" m now]
    by (simp add: lock_simps)
next
  case (UnlockBegin i m now)
  then show ?case using lease_unlock_begin by simp
next
  case (UnlockEnd i m err now)
  then show ?case using lease_unlock_end by simp
next
  case (CloseLocker m now)
  then show ?case using lease_idle_now [of "snd (close_locker m)" m now] by (simp add: lock_simps)
qed


text \<open>A sample run: a lease of ten nanoseconds that is not renewed and is reclaimed at time 20.\<close>

definition sample_opts :: "lock_option list" where
  "sample_opts = [with_ttl 10, with_renew_interval (- 1)]"

definition sample_first :: mem_locker where
  "sample_first = snd (try_acquire ''t1'' 0 0 ''job'' sample_opts new_memory_locker)"

definition sample_second :: mem_locker where
  "sample_second = snd (try_acquire ''t2'' 20 20 ''job'' sample_opts sample_first)"

lemma sample_first_reached: "lock_reach fresh_tokens (sample_first, 0)"
  using lock_reach.step [OF lock_reach.start [of fresh_tokens 0] _
      lock_step.TryAcquire [of 0 new_memory_locker 0 "''job''" sample_opts "''t1''"]]
  by (simp add: sample_first_def fresh_token_def new_memory_locker_def)

lemma sample_second_reached: "lock_reach fresh_tokens (sample_second, 20)"
proof -
  have "lock_reach fresh_tokens (sample_first, 0 + 20)"
    by (rule lock_reach.step [OF sample_first_reached _ lock_step.Pass]) simp_all
  moreover have "fresh_tokens (sample_first, 20) (TryAcquire ''job'' sample_opts ''t2'' 0)"
    by code_simp
  ultimately show ?thesis
    using lock_reach.step [OF _ _ lock_step.TryAcquire [of 0 sample_first 20 "''job''" sample_opts "''t2''"]]
    by (simp add: sample_second_def)
qed

text \<open>
  Property C10: in runs where no token is used twice for a key, the provider
  implements the abstract lease. Every step it takes, be it of a caller, a renew
  loop or the clock, is the lease step its view names: an idle one, a grant
  to the new handle of a key without owner or past its deadline, an extension
  of the owner's lease, or a release by the owner itself.
\<close>

theorem locker_refines_lease:
  assumes "lock_reach fresh_tokens s" and "lock_step s e s'"
  shows "lease_step (lease_of s) (lease_view s e) (lease_of s')"
  using lock_step_refines [OF assms(2) lock_reach_ok [OF assms(1)] lock_reach_tokens [OF assms(1)]] .

theorem locker_refines_lease_witness:
  "lease_view (sample_second, 20) (UnlockBegin 1) = Released ''job'' 1 \<and>
   lease_step (lease_of (sample_second, 20)) (Released ''job'' 1)
     (lease_of (unlock_begin 1 sample_second, 20))"
proof -
  have view: "lease_view (sample_second, 20) (UnlockBegin 1) = Released ''job'' 1"
    by code_simp
  have "1 < length (handles sample_second)" and "handle_once (handles sample_second ! 1) = Unused"
    by code_simp+
  then have "lock_step (sample_second, 20) (UnlockBegin 1) (unlock_begin 1 sample_second, 20)"
    by (rule lock_step.UnlockBegin)
  from locker_refines_lease [OF sample_second_reached this] view show ?thesis by simp
qed

text \<open>
  Property C13: in such runs two handles of a key are never both to be relied
  on: if neither has been given back and neither \<open>Lost\<close> channel is closed, they
  are the same handle, and its hold is the one in the map.
\<close>

theorem at_most_one_holder:
  assumes "lock_reach fresh_tokens (m, now)" and "held m i" and "held m j"
    and "handle_key (handles m ! i) = handle_key (handles m ! j)"
  shows "i = j \<and> current m (handle_key (handles m ! i)) = Some i"
proof -
  have tok: "tokens_ok m" using lock_reach_tokens [OF assms(1)] by simp
  have "current m (handle_key (handles m ! i)) = Some i"
    and "current m (handle_key (handles m ! j)) = Some j"
    using assms(2,3) by (simp_all add: tokens_okD(2) [OF tok])
  then show ?thesis unfolding assms(4) by simp
qed

theorem at_most_one_holder_witness:
  "held sample_second 1 \<and> \<not> held sample_second 0 \<and> current sample_second ''job'' = Some 1"
proof -
  have held: "held sample_second 1" "\<not> held sample_second 0"
    and key: "handle_key (handles sample_second ! 1) = ''job''"
    by code_simp+
  from at_most_one_holder [OF sample_second_reached held(1) held(1) refl] held key
  show ?thesis by simp
qed

text \<open>Two acquisitions under one token, the second after the first lease has run out.\<close>

definition reused_second :: mem_locker where
  "reused_second = snd (try_acquire [] 20 20 ''job'' (with_token ''me'' # sample_opts)
     (snd (try_acquire [] 0 0 ''job'' (with_token ''me'' # sample_opts) new_memory_locker)))"

definition reused_third :: mem_locker where
  "reused_third = snd (try_acquire ''t3'' 20 20 ''job'' sample_opts (snd (unlock_handle 0 reused_second)))"

text \<open>
  A token used twice breaks this. \<open>Unlock\<close> compares tokens, not generations, so
  the late \<open>Unlock\<close> of an expired handle takes the next holder's lease out of the
  map without closing its \<open>Lost\<close> channel, and a third caller gets the key.
\<close>

theorem reused_token_two_holders:
  "lock_reach (\<lambda>_ _. True) (reused_third, 20) \<and>
   held reused_third 1 \<and> held reused_third 2 \<and>
   handle_key (handles reused_third ! 1) = ''job'' \<and> handle_key (handles reused_third ! 2) = ''job'' \<and>
   20 < expire_at (holds reused_third ! 1)"
proof (intro conjI)
  let ?r = "lock_reach (\<lambda>_ _. True)"
  have try_again: "?r (snd (try_acquire rnd now now k opts m), now)" if "?r (m, now)" for rnd now k opts m
    using lock_reach.step [OF that _ lock_step.TryAcquire [of 0 m now k opts rnd]] by simp
  have later: "?r (m, now + 20)" if "?r (m, now)" for m now
    using lock_reach.step [OF that _ lock_step.Pass [of 20 m now]] by simp
  have "?r (snd (try_acquire [] 0 0 ''job'' (with_token ''me'' # sample_opts) new_memory_locker), 0 + 20)"
    by (intro later try_again lock_reach.start)
  from try_again [OF this] have second: "?r (reused_second, 20)"
    unfolding reused_second_def by simp
  have begin0: "0 < length (handles reused_second)" "handle_once (handles reused_second ! 0) = Unused"
    by code_simp+
  have first: "?r (unlock_begin 0 reused_second, 20)"
    using lock_reach.step [OF second _ lock_step.UnlockBegin [OF begin0]] by simp
  have end0: "0 < length (handles (unlock_begin 0 reused_second))"
    "handle_once (handles (unlock_begin 0 reused_second) ! 0) = Inside None"
    by code_simp+
  have "?r (snd (unlock_end 0 (unlock_begin 0 reused_second)), 20)"
    using lock_reach.step [OF first _ lock_step.UnlockEnd [OF end0]] by simp
  from try_again [OF this] show "?r (reused_third, 20)"
    unfolding reused_third_def unlock_handle_def .
qed code_simp+

text \<open>A lease that merely runs out is not reported: \<open>Lost\<close> closes with the next attempt on the key.\<close>

lemma expiry_not_signalled:
  "lock_reach fresh_tokens (sample_first, 20) \<and> expire_at (holds sample_first ! 0) < 20 \<and>
   held sample_first 0"
proof (intro conjI)
  show "lock_reach fresh_tokens (sample_first, 20)"
    using lock_reach.step [OF sample_first_reached _ lock_step.Pass [of 20 sample_first 0]] by simp
qed code_simp+


section \<open>Leases that are alive\<close>

text \<open>
  Before its deadline a lease ends only by its own handle's \<open>Unlock\<close>: no step of
  another goroutine takes it away or closes its \<open>Lost\<close> channel.
\<close>

lemma held_try_acquire:
  assumes ok: "locker_ok m now" and tok: "tokens_ok m" and h: "held m i"
    and live: "t1 < expire_at (holds m ! i)"
    and a: "try_acquire rnd t1 t2 k opts m = (r, m')"
  shows "held m' i \<and> expire_at (holds m' ! i) = expire_at (holds m ! i)"
proof -
  have i: "i < length (handles m)" "i < length (holds m)" "handle_hold (handles m ! i) = i"
    using h locker_okD(3,4) [OF ok] by (auto simp: held_def)
  have grant: "held m2 i \<and> expire_at (holds m2 ! i) = expire_at (holds m ! i)"
    if "locker_ok m1 now" "held m1 i" "expire_at (holds m1 ! i) = expire_at (holds m ! i)"
      "grant o' k t2 m1 = (j, m2)" for m1 m2 o' j
  proof -
    have "i < length (handles m1)" "i < length (holds m1)" "handle_hold (handles m1 ! i) = i"
      using that(2) locker_okD(3,4) [OF that(1)] by (auto simp: held_def)
    then show ?thesis
      using that(2,3) grant_effect(3,4) [OF that(1,4)] by (simp add: held_def nth_append)
  qed
  from ok a show ?thesis
  proof (cases rule: try_acquire_cases)
    case (reclaimed h' j)
    have "h' \<noteq> i" using reclaimed(2) live by auto
    then have "held (drop_locked k h' m) i \<and> expire_at (holds (drop_locked k h' m) ! i) = expire_at (holds m ! i)"
      using h i by (simp add: held_def drop_locked_def mark_lost_def stop_renew_loop_def lock_simps)
    then show ?thesis
      using grant [OF locker_ok_drop(1) [OF ok reclaimed(1)] _ _ reclaimed(4)] by simp
  next
    case busy
    then show ?thesis using h by simp
  next
    case (free j)
    show ?thesis by (rule grant [OF ok h refl free(3)])
  qed
qed

lemma live_lease_step:
  assumes "lock_step s e s'" and "locker_ok (fst s) (snd s)" and "tokens_ok (fst s)"
    and "held (fst s) i" and "snd s < expire_at (holds (fst s) ! i)" and "e \<noteq> UnlockBegin i"
  shows "held (fst s') i \<and> expire_at (holds (fst s) ! i) \<le> expire_at (holds (fst s') ! i)"
  using assms
proof (induction rule: lock_step.induct)
  case (TryAcquire d m now k opts rnd)
  obtain r m' where a: "try_acquire rnd now (now + d) k opts m = (r, m')" by force
  then show ?case using held_try_acquire [OF _ _ _ _ a, of now i] TryAcquire.prems by simp
next
  case (Renew k h m now)
  then have "i < length (holds m)" and "expire_at (holds m ! i) \<le> now + hold_ttl (holds m ! i)"
    and "handle_hold (handles m ! i) = i"
    using locker_okD(3,4,6) [of m now] by (auto simp: held_def)
  then show ?case using Renew.prems by (auto simp: held_def lock_simps)
next
  case (UnlockBegin j m now)
  have ok: "locker_ok m now" and tok: "tokens_ok m" using UnlockBegin.prems by simp_all
  have i: "i < length (holds m)" "handle_hold (handles m ! i) = i" "i < length (handles m)"
    using UnlockBegin.prems locker_okD(3,4) [OF ok] by (auto simp: held_def)
  from ok tok UnlockBegin.hyps show ?case
    by (cases rule: unlock_begin_fresh)
      (use UnlockBegin.prems i in \<open>auto simp: held_def lock_simps stop_renew_loop_def\<close>)
next
  case (UnlockEnd j m err now)
  have ok: "locker_ok m now" using UnlockEnd.prems by simp
  have i: "i < length (holds m)" "handle_hold (handles m ! i) = i" "i < length (handles m)"
    "j < length (holds m)" "handle_hold (handles m ! j) = j" "i \<noteq> j"
    using UnlockEnd.prems UnlockEnd.hyps locker_okD(3,4) [OF ok] by (auto simp: held_def)
  then show ?case
    using UnlockEnd.prems
    by (auto simp: held_def unlock_end_eq [OF UnlockEnd.hyps(2)] lock_simps mark_lost_def)
qed (auto simp: held_def lock_simps)

text \<open>
  In runs with fresh tokens a live lease is never taken away: as
  long as its deadline lies ahead, every step but the handle's own \<open>Unlock\<close>
  leaves the handle reliable and the deadline where it is or later.
\<close>

theorem live_lease_kept:
  assumes "lock_reach fresh_tokens s" and "lock_step s e s'" and "held (fst s) i"
    and "snd s < expire_at (holds (fst s) ! i)" and "e \<noteq> UnlockBegin i"
  shows "held (fst s') i \<and> expire_at (holds (fst s) ! i) \<le> expire_at (holds (fst s') ! i)"
  by (rule live_lease_step [OF assms(2) lock_reach_ok [OF assms(1)] lock_reach_tokens [OF assms(1)]
        assms(3,4,5)])

theorem live_lease_kept_witness:
  "held (snd (try_acquire ''t3'' 20 20 ''job'' [] sample_second)) 1"
proof -
  have "lock_step (sample_second, 20) (TryAcquire ''job'' [] ''t3'' 0)
      (snd (try_acquire ''t3'' 20 20 ''job'' [] sample_second), 20)"
    using lock_step.TryAcquire [of 0 sample_second 20 "''job''" "[]" "''t3''"] by simp
  moreover have "held (fst (sample_second, 20 :: int)) 1"
    and "snd (sample_second, 20) < expire_at (holds (fst (sample_second, 20 :: int)) ! 1)"
    by code_simp+
  ultimately have "held (fst (snd (try_acquire ''t3'' 20 20 ''job'' [] sample_second), 20 :: int)) 1"
    using live_lease_kept [OF sample_second_reached] by blast
  then show ?thesis by simp
qed


end
