(* ===== verification/CloudElection.thy ===== *)
theory CloudElection
  imports CloudLock
begin

text \<open>
  Leader election on top of any locker (\<^verbatim>\<open>src/cloud/lock/election.go\<close>). The
  locker is an argument of the model; the locale \<open>exclusive_locker\<close> states what
  the election relies on, and is interpreted on the in-process provider of
  \<open>CloudLock\<close>. Any number of instances run \<open>Election.Run\<close> with the same key;
  their steps interleave with each other and with everything else that
  happens to the locker.
\<close>

section \<open>The interface of a locker\<close>

text \<open>
  What a client sees of a locker: a granted attempt, the two halves of
  \<open>Unlock\<close>, whether \<open>Lost\<close> is closed, and the steps of everybody else, who have
  no access to the client's handles.
\<close>

record 's locker_api =
  api_grant :: "lock_option list \<Rightarrow> string \<Rightarrow> 's \<Rightarrow> 's \<Rightarrow> nat \<Rightarrow> bool"
  api_unlock_begin :: "nat \<Rightarrow> 's \<Rightarrow> 's \<Rightarrow> bool"
  api_unlock_end :: "nat \<Rightarrow> 's \<Rightarrow> 's \<Rightarrow> bool"
  api_lost :: "'s \<Rightarrow> nat \<Rightarrow> bool"
  api_others :: "nat set \<Rightarrow> 's \<Rightarrow> 's \<Rightarrow> bool"

section \<open>Election.Run\<close>

record election_config =
  cfg_locker_set :: bool
  cfg_key :: string
  cfg_ttl :: int
  cfg_renew :: int
  cfg_retry :: int
  cfg_on_started :: bool
  cfg_on_stopped :: bool

datatype election_error = NeedsLocker | NeedsKey

text \<open>Where \<open>Run\<close> and \<open>serveTerm\<close> stand; the handle is the lock of the term.\<close>

datatype phase =
    Checking
  | Acquiring
  | BackingOff
  | Won nat
  | Leading nat
  | Resigning nat bool
  | Releasing nat
  | Unlocking nat
  | TermOver
  | Returned

datatype callback = OnStartedLeading | OnStoppedLeading

record election =
  phase :: phase
  leader :: bool
  ctx_done :: bool
  working :: bool
  term_cancelled :: bool
  calls :: "callback list"

definition new_election :: "election_config \<Rightarrow> (election_error, election) result" where
  "new_election cfg =
     (if \<not> cfg_locker_set cfg then Inl NeedsLocker
      else if cfg_key cfg = [] then Inl NeedsKey
      else Inr \<lparr>phase = Checking, leader = False, ctx_done = False, working = False,
                term_cancelled = False, calls = []\<rparr>)"

definition run_options :: "election_config \<Rightarrow> lock_option list" where
  "run_options cfg =
     (if 0 < cfg_ttl cfg then [with_ttl (cfg_ttl cfg)] else []) @
     (if cfg_renew cfg \<noteq> 0 then [with_renew_interval (cfg_renew cfg)] else []) @
     (if 0 < cfg_retry cfg then [with_retry_interval (cfg_retry cfg)] else [])"

definition retry_interval :: "election_config \<Rightarrow> int" where
  "retry_interval cfg = (if 0 < cfg_retry cfg then cfg_retry cfg else 100 * millisecond)"

text \<open>What \<open>serveTerm\<close> does around its select.\<close>

definition start_term :: "election_config \<Rightarrow> nat \<Rightarrow> election \<Rightarrow> election" where
  "start_term cfg h e =
     e\<lparr>phase := Leading h, leader := True, term_cancelled := False, working := cfg_on_started cfg,
       calls := calls e @ (if cfg_on_started cfg then [OnStartedLeading] else [])\<rparr>"

definition resign :: "nat \<Rightarrow> bool \<Rightarrow> election \<Rightarrow> election" where
  "resign h was_lost e = e\<lparr>phase := Resigning h was_lost, leader := False, term_cancelled := True\<rparr>"

definition stop_term :: "election_config \<Rightarrow> nat \<Rightarrow> election \<Rightarrow> election" where
  "stop_term cfg h e =
     e\<lparr>phase := Releasing h,
       calls := calls e @ (if cfg_on_stopped cfg then [OnStoppedLeading] else [])\<rparr>"

text \<open>The handles the instances own.\<close>

fun phase_handle :: "phase \<Rightarrow> nat option" where
  "phase_handle (Won h) = Some h"
| "phase_handle (Leading h) = Some h"
| "phase_handle (Resigning h l) = Some h"
| "phase_handle (Releasing h) = Some h"
| "phase_handle (Unlocking h) = Some h"
| "phase_handle _ = None"

definition owned :: "(nat \<Rightarrow> election) \<Rightarrow> nat set" where
  "owned es = {h. \<exists>n. phase_handle (phase (es n)) = Some h}"

inductive elect_step ::
  "'s locker_api \<Rightarrow> election_config \<Rightarrow> 's \<times> (nat \<Rightarrow> election) \<Rightarrow> 's \<times> (nat \<Rightarrow> election) \<Rightarrow> bool"
  for api cfg where
  others: "api_others api (owned es) s s' \<Longrightarrow> elect_step api cfg (s, es) (s', es)"
| cancel: "elect_step api cfg (s, es) (s, es(n := (es n)\<lparr>ctx_done := True\<rparr>))"
| check_done: "phase (es n) \<in> {Checking, TermOver} \<Longrightarrow> ctx_done (es n) \<Longrightarrow>
    elect_step api cfg (s, es) (s, es(n := (es n)\<lparr>phase := Returned\<rparr>))"
| check_on: "phase (es n) = Checking \<Longrightarrow> \<not> ctx_done (es n) \<Longrightarrow>
    elect_step api cfg (s, es) (s, es(n := (es n)\<lparr>phase := Acquiring\<rparr>))"
| next_campaign: "phase (es n) = TermOver \<Longrightarrow> \<not> ctx_done (es n) \<Longrightarrow>
    elect_step api cfg (s, es) (s, es(n := (es n)\<lparr>phase := Checking\<rparr>))"
| acquire_failed: "phase (es n) = Acquiring \<Longrightarrow>
    elect_step api cfg (s, es)
      (s, es(n := (es n)\<lparr>phase := (if ctx_done (es n) then Returned else BackingOff)\<rparr>))"
| backed_off: "phase (es n) = BackingOff \<Longrightarrow>
    elect_step api cfg (s, es)
      (s, es(n := (es n)\<lparr>phase := (if ctx_done (es n) then Returned else Checking)\<rparr>))"
| slept: "phase (es n) = BackingOff \<Longrightarrow>
    elect_step api cfg (s, es) (s, es(n := (es n)\<lparr>phase := Checking\<rparr>))"
| acquired: "phase (es n) = Acquiring \<Longrightarrow>
    api_grant api (run_options cfg) (cfg_key cfg) s s' h \<Longrightarrow>
    elect_step api cfg (s, es) (s', es(n := (es n)\<lparr>phase := Won h\<rparr>))"
| lead: "phase (es n) = Won h \<Longrightarrow>
    elect_step api cfg (s, es) (s, es(n := start_term cfg h (es n)))"
| work_returns: "working (es n) \<Longrightarrow>
    elect_step api cfg (s, es) (s, es(n := (es n)\<lparr>working := False\<rparr>))"
| shutdown: "phase (es n) = Leading h \<Longrightarrow> ctx_done (es n) \<Longrightarrow>
    elect_step api cfg (s, es) (s, es(n := resign h False (es n)))"
| lost: "phase (es n) = Leading h \<Longrightarrow> api_lost api s h \<Longrightarrow>
    elect_step api cfg (s, es) (s, es(n := resign h True (es n)))"
| stopped: "phase (es n) = Resigning h l \<Longrightarrow> \<not> working (es n) \<Longrightarrow>
    elect_step api cfg (s, es) (s, es(n := stop_term cfg h (es n)))"
| unlock: "phase (es n) = Releasing h \<Longrightarrow> api_unlock_begin api h s s' \<Longrightarrow>
    elect_step api cfg (s, es) (s', es(n := (es n)\<lparr>phase := Unlocking h\<rparr>))"
| unlocked: "phase (es n) = Unlocking h \<Longrightarrow> api_unlock_end api h s s' \<Longrightarrow>
    elect_step api cfg (s, es) (s', es(n := (es n)\<lparr>phase := TermOver\<rparr>))"

inductive elect_reach ::
  "'s locker_api \<Rightarrow> election_config \<Rightarrow> 's \<times> (nat \<Rightarrow> election) \<Rightarrow> 's \<times> (nat \<Rightarrow> election) \<Rightarrow> bool"
  for api cfg start where
  start: "elect_reach api cfg start start"
| step: "elect_reach api cfg start x \<Longrightarrow> elect_step api cfg x y \<Longrightarrow> elect_reach api cfg start y"

section \<open>What an election needs of a locker\<close>

text \<open>
  \<open>inv\<close> is an invariant of the locker, \<open>valid s h\<close> says that a handle exists,
  \<open>key_of\<close> is its key and \<open>used\<close> whether its \<open>Unlock\<close> has begun. The laws: a
  grant gives a new handle of the key, nobody else touches the client's
  handles, and two handles of a key that are neither given back nor reported
  lost are the same.
\<close>

locale exclusive_locker =
  fixes api :: "'s locker_api"
    and inv :: "'s \<Rightarrow> bool"
    and valid :: "'s \<Rightarrow> nat \<Rightarrow> bool"
    and key_of :: "'s \<Rightarrow> nat \<Rightarrow> string"
    and used :: "'s \<Rightarrow> nat \<Rightarrow> bool"
  assumes grant: "inv s \<Longrightarrow> api_grant api opts k s s' h \<Longrightarrow>
      inv s' \<and> \<not> valid s h \<and> valid s' h \<and> key_of s' h = k \<and> \<not> used s' h \<and>
      (\<forall>g. valid s g \<longrightarrow> valid s' g \<and> key_of s' g = key_of s g \<and> used s' g = used s g)"
    and others_keep: "inv s \<Longrightarrow> api_others api H s s' \<Longrightarrow>
      inv s' \<and> (\<forall>g \<in> H. valid s g \<longrightarrow> valid s' g \<and> key_of s' g = key_of s g \<and> used s' g = used s g)"
    and unlock_begin: "inv s \<Longrightarrow> valid s h \<Longrightarrow> api_unlock_begin api h s s' \<Longrightarrow>
      inv s' \<and> (\<forall>g. valid s g \<longrightarrow> valid s' g \<and> key_of s' g = key_of s g \<and>
        (g \<noteq> h \<longrightarrow> used s' g = used s g))"
    and unlock_end: "inv s \<Longrightarrow> valid s h \<Longrightarrow> api_unlock_end api h s s' \<Longrightarrow>
      inv s' \<and> (\<forall>g. valid s g \<longrightarrow> valid s' g \<and> key_of s' g = key_of s g \<and>
        (g \<noteq> h \<longrightarrow> used s' g = used s g))"
    and exclusive: "inv s \<Longrightarrow> valid s h \<Longrightarrow> valid s g \<Longrightarrow> key_of s h = key_of s g \<Longrightarrow>
      \<not> used s h \<Longrightarrow> \<not> used s g \<Longrightarrow> \<not> api_lost api s h \<Longrightarrow> \<not> api_lost api s g \<Longrightarrow> h = g"

text \<open>The handle of a phase in which the lock has not been given back yet.\<close>

fun term_handle :: "phase \<Rightarrow> nat option" where
  "term_handle (Won h) = Some h"
| "term_handle (Leading h) = Some h"
| "term_handle (Resigning h l) = Some h"
| "term_handle (Releasing h) = Some h"
| "term_handle _ = None"

lemma term_handle_phase_handle: "term_handle p = Some h \<Longrightarrow> phase_handle p = Some h"
  by (cases p) simp_all

text \<open>An instance on its own: who leads, and whose work may still run.\<close>

definition election_ok :: "election \<Rightarrow> bool" where
  "election_ok e \<longleftrightarrow>
     (leader e \<longleftrightarrow> (\<exists>h. phase e = Leading h)) \<and>
     (working e \<longrightarrow> (\<exists>h. phase e = Leading h \<or> (\<exists>l. phase e = Resigning h l))) \<and>
     (\<forall>h l. phase e = Resigning h l \<longrightarrow> term_cancelled e)"

text \<open>Instances and locker together: the handles of the instances are theirs alone.\<close>

definition elections_ok ::
  "('s \<Rightarrow> nat \<Rightarrow> bool) \<Rightarrow> ('s \<Rightarrow> nat \<Rightarrow> string) \<Rightarrow> ('s \<Rightarrow> nat \<Rightarrow> bool) \<Rightarrow> string \<Rightarrow>
   's \<times> (nat \<Rightarrow> election) \<Rightarrow> bool" where
  "elections_ok valid key_of used k x \<longleftrightarrow> (case x of (s, es) \<Rightarrow>
     (\<forall>n. election_ok (es n)) \<and>
     (\<forall>n h. phase_handle (phase (es n)) = Some h \<longrightarrow> valid s h \<and> key_of s h = k) \<and>
     (\<forall>n h. term_handle (phase (es n)) = Some h \<longrightarrow> \<not> used s h) \<and>
     (\<forall>n n' h. phase_handle (phase (es n)) = Some h \<longrightarrow> phase_handle (phase (es n')) = Some h \<longrightarrow> n = n'))"

lemma elections_okD:
  assumes "elections_ok valid key_of used k (s, es)"
  shows "election_ok (es n)"
    "phase_handle (phase (es n)) = Some h \<Longrightarrow> valid s h"
    "phase_handle (phase (es n)) = Some h \<Longrightarrow> key_of s h = k"
    "term_handle (phase (es n)) = Some h \<Longrightarrow> \<not> used s h"
    "phase_handle (phase (es n)) = Some h \<Longrightarrow> phase_handle (phase (es n')) = Some h \<Longrightarrow> n = n'"
  using assms unfolding elections_ok_def by blast+

text \<open>An instance moves on without a new handle, and the locker keeps what the instances own.\<close>

lemma elections_ok_move:
  assumes ok: "elections_ok valid key_of used k (s, es)" and e: "election_ok e"
    and phase: "phase_handle (phase e) = None \<or> phase_handle (phase e) = phase_handle (phase (es n))"
    and unused: "term_handle (phase e) = None \<or> term_handle (phase e) = term_handle (phase (es n))"
    and keep: "\<And>m h. phase_handle (phase (es m)) = Some h \<Longrightarrow> valid s' h \<and> key_of s' h = k"
    and used: "\<And>m h. term_handle (phase ((es(n := e)) m)) = Some h \<Longrightarrow> used s' h = used s h"
  shows "elections_ok valid key_of used k (s', es(n := e))"
  unfolding elections_ok_def prod.case
proof (intro conjI allI impI)
  fix m show "election_ok ((es(n := e)) m)" using e elections_okD(1) [OF ok] by simp
next
  fix m h assume h: "phase_handle (phase ((es(n := e)) m)) = Some h"
  then have "phase_handle (phase (es m)) = Some h" using phase by (auto split: if_splits)
  then show "valid s' h" "key_of s' h = k" using keep by blast+
next
  fix m h assume h: "term_handle (phase ((es(n := e)) m)) = Some h"
  then have "term_handle (phase (es m)) = Some h" using unused by (auto split: if_splits)
  then show "\<not> used s' h" using used [OF h] elections_okD(4) [OF ok] by simp
next
  fix m m' h
  assume "phase_handle (phase ((es(n := e)) m)) = Some h"
    and "phase_handle (phase ((es(n := e)) m')) = Some h"
  then have "phase_handle (phase (es m)) = Some h" and "phase_handle (phase (es m')) = Some h"
    using phase by (auto split: if_splits)
  then show "m = m'" by (rule elections_okD(5) [OF ok])
qed

lemma elections_ok_local:
  assumes "elections_ok valid key_of used k (s, es)" and "election_ok e"
    and "phase_handle (phase e) = None \<or> phase_handle (phase e) = phase_handle (phase (es n))"
    and "term_handle (phase e) = None \<or> term_handle (phase e) = term_handle (phase (es n))"
  shows "elections_ok valid key_of used k (s, es(n := e))"
  using elections_ok_move [OF assms] elections_okD(2,3) [OF assms(1)] by simp


text \<open>Moving between phases without a lock.\<close>

lemma elections_ok_idle:
  assumes ok: "elections_ok valid key_of used k (s, es)"
    and "phase_handle (phase (es n)) = None" and p: "phase_handle p = None"
  shows "elections_ok valid key_of used k (s, es(n := (es n)\<lparr>phase := p\<rparr>))"
proof (rule elections_ok_local [OF ok])
  have "\<not> leader (es n)" "\<not> working (es n)"
    using elections_okD(1) [OF ok, of n] assms(2) by (auto simp: election_ok_def)
  then show "election_ok ((es n)\<lparr>phase := p\<rparr>)"
    using p by (cases p) (auto simp: election_ok_def)
  show "term_handle (phase ((es n)\<lparr>phase := p\<rparr>)) = None \<or>
      term_handle (phase ((es n)\<lparr>phase := p\<rparr>)) = term_handle (phase (es n))"
    using p by (cases p) auto
qed (use p in simp)

context exclusive_locker
begin

abbreviation elections :: "string \<Rightarrow> 's \<times> (nat \<Rightarrow> election) \<Rightarrow> bool" where
  "elections k x \<equiv> inv (fst x) \<and> elections_ok valid key_of used k x"

lemma elections_unlocking:
  assumes ok: "elections_ok valid key_of used k (s, es)"
    and h: "phase_handle (phase (es n)) = Some h"
    and p: "phase_handle p = None \<or> phase_handle p = Some h" "term_handle p = None"
      "\<And>l. p \<noteq> Resigning h l"
    and e: "phase (es n) = Releasing h \<or> phase (es n) = Unlocking h"
    and keep: "\<forall>g. valid s g \<longrightarrow> valid s' g \<and> key_of s' g = key_of s g \<and> (g \<noteq> h \<longrightarrow> used s' g = used s g)"
  shows "elections_ok valid key_of used k (s', es(n := (es n)\<lparr>phase := p\<rparr>))"
proof (rule elections_ok_move [OF ok])
  show "election_ok ((es n)\<lparr>phase := p\<rparr>)"
    using elections_okD(1) [OF ok, of n] e p(2) unfolding election_ok_def by (cases p) auto
next
  fix m h' assume "phase_handle (phase (es m)) = Some h'"
  then show "valid s' h' \<and> key_of s' h' = k" using elections_okD(2,3) [OF ok] keep by blast
next
  fix m h' assume t: "term_handle (phase ((es(n := (es n)\<lparr>phase := p\<rparr>)) m)) = Some h'"
  then have m: "m \<noteq> n" and t': "phase_handle (phase (es m)) = Some h'"
    using p(2) by (auto split: if_splits intro: term_handle_phase_handle)
  have "h' \<noteq> h" using elections_okD(5) [OF ok t'] h m by blast
  then show "used s' h' = used s h'" using keep elections_okD(2) [OF ok t'] by blast
qed (use h p in auto)

lemma elections_acquired:
  assumes ok: "elections_ok valid key_of used k (s, es)" and p: "phase (es n) = Acquiring"
    and new: "\<not> valid s h" "valid s' h" "key_of s' h = k" "\<not> used s' h"
    and keep: "\<forall>g. valid s g \<longrightarrow> valid s' g \<and> key_of s' g = key_of s g \<and> used s' g = used s g"
  shows "elections_ok valid key_of used k (s', es(n := (es n)\<lparr>phase := Won h\<rparr>))"
proof -
  have old: "valid s g \<and> valid s' g \<and> key_of s' g = k" if "phase_handle (phase (es m)) = Some g" for m g
    using elections_okD(2,3) [OF ok that] keep by simp
  have unused: "\<not> used s' g" if "term_handle (phase (es m)) = Some g" for m g
    using elections_okD(4) [OF ok that] old [OF term_handle_phase_handle [OF that]] keep by blast
  let ?es = "es(n := (es n)\<lparr>phase := Won h\<rparr>)"
  have won: "election_ok ((es n)\<lparr>phase := Won h\<rparr>)"
    using elections_okD(1) [OF ok, of n] p by (auto simp: election_ok_def)
  have handle: "(m = n \<and> g = h) \<or> (m \<noteq> n \<and> phase_handle (phase (es m)) = Some g)"
    if "phase_handle (phase (?es m)) = Some g" for m g
    using that by (auto split: if_splits)
  have other: "phase_handle (phase (es m)) \<noteq> Some h" for m
    using elections_okD(2) [OF ok, of m h] new(1) by blast
  show ?thesis
    unfolding elections_ok_def prod.case
  proof (intro conjI allI impI)
    fix m show "election_ok (?es m)" using won elections_okD(1) [OF ok] by simp
  next
    fix m g assume "phase_handle (phase (?es m)) = Some g"
    then show "valid s' g" "key_of s' g = k" using handle old new(2,3) by blast+
  next
    fix m g assume "term_handle (phase (?es m)) = Some g"
    then have "(m = n \<and> g = h) \<or> term_handle (phase (es m)) = Some g" by (auto split: if_splits)
    then show "\<not> used s' g" using unused new(4) by blast
  next
    fix m m' g
    assume "phase_handle (phase (?es m)) = Some g" and "phase_handle (phase (?es m')) = Some g"
    from handle [OF this(1)] handle [OF this(2)] show "m = m'"
      using other elections_okD(5) [OF ok] by blast
  qed
qed

lemma elect_step_keeps:
  assumes "elect_step api cfg x y" and "elections (cfg_key cfg) x"
  shows "elections (cfg_key cfg) y"
  using assms
proof (induction rule: elect_step.induct)
  case (others es s s')
  then have k: "\<forall>g \<in> owned es. valid s g \<longrightarrow> valid s' g \<and> key_of s' g = key_of s g \<and> used s' g = used s g"
    and "inv s'" and ok: "elections_ok valid key_of used (cfg_key cfg) (s, es)"
    using others_keep by auto
  have own: "valid s' h \<and> key_of s' h = cfg_key cfg \<and> used s' h = used s h"
    if "phase_handle (phase (es m)) = Some h" for m h
    using that k elections_okD(2,3) [OF ok that] by (auto simp: owned_def)
  have "elections_ok valid key_of used (cfg_key cfg) (s', es(0 := es 0))"
    by (rule elections_ok_move [OF ok elections_okD(1) [OF ok]])
      (use own in \<open>auto intro: term_handle_phase_handle split: if_splits\<close>)
  then show ?case using \<open>inv s'\<close> by simp
next
  case (acquired es n s s' h)
  then have ok: "elections_ok valid key_of used (cfg_key cfg) (s, es)" and "inv s" by simp_all
  from grant [OF \<open>inv s\<close> acquired.hyps(2)] show ?case
    using elections_acquired [where n = n and s' = s' and h = h, OF ok acquired.hyps(1)] by simp
next
  case (unlock es n h s s')
  then have ok: "elections_ok valid key_of used (cfg_key cfg) (s, es)" and "inv s" by simp_all
  have h: "phase_handle (phase (es n)) = Some h" using unlock.hyps by simp
  note k = unlock_begin [OF \<open>inv s\<close> elections_okD(2) [OF ok h] unlock.hyps(2)]
  show ?case using k elections_unlocking [OF ok h, of "Unlocking h" s'] unlock.hyps by simp
next
  case (unlocked es n h s s')
  then have ok: "elections_ok valid key_of used (cfg_key cfg) (s, es)" and "inv s" by simp_all
  have h: "phase_handle (phase (es n)) = Some h" using unlocked.hyps by simp
  note k = unlock_end [OF \<open>inv s\<close> elections_okD(2) [OF ok h] unlocked.hyps(2)]
  show ?case using k elections_unlocking [OF ok h, of TermOver s'] unlocked.hyps by simp
next
  case (lead es n h s)
  then show ?case
    using elections_okD(1) [of valid key_of used "cfg_key cfg" s es n]
    by (auto intro!: elections_ok_local simp: start_term_def election_ok_def)
next
  case (shutdown es n h s)
  then show ?case
    using elections_okD(1) [of valid key_of used "cfg_key cfg" s es n]
    by (auto intro!: elections_ok_local simp: resign_def election_ok_def)
next
  case (lost es n h s)
  then show ?case
    using elections_okD(1) [of valid key_of used "cfg_key cfg" s es n]
    by (auto intro!: elections_ok_local simp: resign_def election_ok_def)
next
  case (stopped es n h l s)
  then show ?case
    using elections_okD(1) [of valid key_of used "cfg_key cfg" s es n]
    by (auto intro!: elections_ok_local simp: stop_term_def election_ok_def)
next
  case (cancel s es n)
  then show ?case
    using elections_okD(1) [of valid key_of used "cfg_key cfg" s es n]
    by (auto intro!: elections_ok_local simp: election_ok_def)
next
  case (work_returns es n s)
  then show ?case
    using elections_okD(1) [of valid key_of used "cfg_key cfg" s es n]
    by (auto intro!: elections_ok_local simp: election_ok_def)
qed (auto intro!: elections_ok_idle)

lemma elect_reach_keeps:
  assumes "elect_reach api cfg start x" and "elections (cfg_key cfg) start"
  shows "elections (cfg_key cfg) x"
  using assms
proof (induction rule: elect_reach.induct)
  case (step x y)
  then show ?case using elect_step_keeps by simp
qed

text \<open>Whoever leads, or whose work still runs, has a handle that was not given back.\<close>

lemma elections_active:
  assumes "elections_ok valid key_of used k (s, es)" and "leader (es n) \<or> working (es n)"
  shows "\<exists>h. term_handle (phase (es n)) = Some h"
  using elections_okD(1) [OF assms(1), of n] assms(2) by (auto simp: election_ok_def)

lemma one_leader:
  assumes "elections k (s, es)" and "n \<noteq> n'"
    and "leader (es n) \<or> working (es n)" and "leader (es n') \<or> working (es n')"
  shows "\<exists>m h. m \<in> {n, n'} \<and> term_handle (phase (es m)) = Some h \<and> api_lost api s h"
proof (rule ccontr)
  assume none: "\<not> ?thesis"
  have inv: "inv s" and ok: "elections_ok valid key_of used k (s, es)" using assms(1) by simp_all
  obtain h g where h: "term_handle (phase (es n)) = Some h" and g: "term_handle (phase (es n')) = Some g"
    using elections_active [OF ok] assms(3,4) by metis
  note ph = term_handle_phase_handle [OF h] and pg = term_handle_phase_handle [OF g]
  have "\<not> api_lost api s h" "\<not> api_lost api s g" using none h g by blast+
  then have "h = g"
    using exclusive [OF inv elections_okD(2) [OF ok ph] elections_okD(2) [OF ok pg] _
        elections_okD(4) [OF ok h] elections_okD(4) [OF ok g]]
      elections_okD(3) [OF ok ph] elections_okD(3) [OF ok pg] by simp
  then show False using elections_okD(5) [OF ok ph] pg assms(2) by simp
qed

end


section \<open>The in-process provider as the election's locker\<close>

text \<open>Runs with fresh tokens, as the random ones of \<open>Election.Run\<close> are.\<close>

definition memory_api :: "lock_sys locker_api" where
  "memory_api =
     \<lparr>api_grant = (\<lambda>opts k s s' h. \<exists>rnd d. lock_step s (TryAcquire k opts rnd d) s' \<and>
        fresh_tokens s (TryAcquire k opts rnd d) \<and>
        fst (try_acquire rnd (snd s) (snd s + d) k opts (fst s)) = Inr (Some h)),
      api_unlock_begin = (\<lambda>i s s'. lock_step s (UnlockBegin i) s'),
      api_unlock_end = (\<lambda>i s s'. lock_step s (UnlockEnd i) s'),
      api_lost = (\<lambda>s i. lost_closed (holds (fst s) ! handle_hold (handles (fst s) ! i))),
      api_others = (\<lambda>H s s'. \<exists>e. lock_step s e s' \<and> fresh_tokens s e \<and>
        (\<forall>i \<in> H. e \<noteq> UnlockBegin i \<and> e \<noteq> UnlockEnd i))\<rparr>"

definition memory_inv :: "lock_sys \<Rightarrow> bool" where
  "memory_inv s \<longleftrightarrow> locker_ok (fst s) (snd s) \<and> tokens_ok (fst s)"

definition memory_valid :: "lock_sys \<Rightarrow> nat \<Rightarrow> bool" where
  "memory_valid s i \<longleftrightarrow> i < length (handles (fst s))"

definition memory_key :: "lock_sys \<Rightarrow> nat \<Rightarrow> string" where
  "memory_key s i = handle_key (handles (fst s) ! i)"

definition memory_used :: "lock_sys \<Rightarrow> nat \<Rightarrow> bool" where
  "memory_used s i \<longleftrightarrow> handle_once (handles (fst s) ! i) \<noteq> Unused"

lemma memory_inv_step: "memory_inv s \<Longrightarrow> lock_step s e s' \<Longrightarrow> fresh_tokens s e \<Longrightarrow> memory_inv s'"
  by (auto simp: memory_inv_def intro: lock_step_ok lock_step_tokens)

lemma try_acquire_handles:
  assumes ok: "locker_ok m now" and a: "try_acquire rnd t1 t2 k opts m = (r, m')"
  obtains (busy) "r = Inr None" "handles m' = handles m"
    | (won) "r = Inr (Some (length (handles m)))"
      "handles m' = handles m @ [\<lparr>handle_key = k, handle_hold = length (handles m), handle_once = Unused\<rparr>]"
  using ok a
proof (cases rule: try_acquire_cases)
  case (reclaimed h i)
  note g = grant_effect(1,4) [OF locker_ok_drop(1) [OF ok reclaimed(1)] reclaimed(4)]
  then show thesis
    using reclaimed(3) that(2) by (simp add: drop_locked_def mark_lost_def stop_renew_loop_def lock_simps)
next
  case (free i)
  then show thesis using grant_effect(1,4) [OF ok free(3)] that(2) by simp
qed (use that(1) in simp)

text \<open>Handles stay, keep their keys, and only their own \<open>Unlock\<close> marks them used.\<close>

lemma unlock_begin_handles [lock_simps]:
  "length (handles (unlock_begin i m)) = length (handles m)"
  "j < length (handles m) \<Longrightarrow> handle_key (handles (unlock_begin i m) ! j) = handle_key (handles m ! j)"
  "j < length (handles m) \<Longrightarrow> j \<noteq> i \<Longrightarrow> handles (unlock_begin i m) ! j = handles m ! j"
  by (auto simp: unlock_begin_def unlock_key_def Let_def lock_simps stop_renew_loop_def
      split: once.split option.split)

lemma unlock_end_handles [lock_simps]:
  "length (handles (snd (unlock_end i m))) = length (handles m)"
  "j < length (handles m) \<Longrightarrow> handle_key (handles (snd (unlock_end i m)) ! j) = handle_key (handles m ! j)"
  "j < length (handles m) \<Longrightarrow> j \<noteq> i \<Longrightarrow> handles (snd (unlock_end i m)) ! j = handles m ! j"
  by (auto simp: unlock_end_def Let_def lock_simps mark_lost_def split: once.split)

lemma memory_step_handles:
  assumes "lock_step s e s'" and "memory_inv s" and "memory_valid s g"
  shows "memory_valid s' g \<and> memory_key s' g = memory_key s g \<and>
    (e \<noteq> UnlockBegin g \<and> e \<noteq> UnlockEnd g \<longrightarrow> memory_used s' g = memory_used s g)"
  using assms
proof (induction rule: lock_step.induct)
  case (TryAcquire d m now k opts rnd)
  obtain r m' where a: "try_acquire rnd now (now + d) k opts m = (r, m')" by force
  have "locker_ok m now" using TryAcquire.prems by (simp add: memory_inv_def)
  from this a show ?case
    by (cases rule: try_acquire_handles)
      (use TryAcquire.prems in \<open>auto simp: a memory_valid_def memory_key_def memory_used_def nth_append\<close>)
qed (auto simp: memory_valid_def memory_key_def memory_used_def lock_simps)

interpretation mem: exclusive_locker memory_api memory_inv memory_valid memory_key memory_used
proof unfold_locales
  fix s opts k s' h
  assume inv: "memory_inv s" and "api_grant memory_api opts k s s' h"
  then obtain rnd d where st: "lock_step s (TryAcquire k opts rnd d) s'"
    and fresh: "fresh_tokens s (TryAcquire k opts rnd d)"
    and got: "fst (try_acquire rnd (snd s) (snd s + d) k opts (fst s)) = Inr (Some h)"
    by (auto simp: memory_api_def)
  obtain r m' where a: "try_acquire rnd (snd s) (snd s + d) k opts (fst s) = (r, m')" by force
  have s': "s' = (m', snd s + d)" using st a by (auto elim: lock_stepE)
  have new: "\<not> memory_valid s h \<and> memory_valid s' h \<and> memory_key s' h = k \<and> \<not> memory_used s' h"
    using inv [unfolded memory_inv_def, THEN conjunct1] a
    by (cases rule: try_acquire_handles)
      (use got a in \<open>auto simp: s' memory_valid_def memory_key_def memory_used_def\<close>)
  show "memory_inv s' \<and> \<not> memory_valid s h \<and> memory_valid s' h \<and> memory_key s' h = k \<and>
      \<not> memory_used s' h \<and>
      (\<forall>g. memory_valid s g \<longrightarrow> memory_valid s' g \<and> memory_key s' g = memory_key s g \<and>
        memory_used s' g = memory_used s g)"
    using memory_inv_step [OF inv st fresh] new memory_step_handles [OF st inv] by auto
next
  fix s H s'
  assume inv: "memory_inv s" and "api_others memory_api H s s'"
  then obtain e where st: "lock_step s e s'" and "fresh_tokens s e"
    and "\<forall>i \<in> H. e \<noteq> UnlockBegin i \<and> e \<noteq> UnlockEnd i" by (auto simp: memory_api_def)
  then show "memory_inv s' \<and> (\<forall>g \<in> H. memory_valid s g \<longrightarrow>
      memory_valid s' g \<and> memory_key s' g = memory_key s g \<and> memory_used s' g = memory_used s g)"
    using memory_inv_step [OF inv st] memory_step_handles [OF st inv] by simp
next
  fix s h s'
  assume inv: "memory_inv s" and "api_unlock_begin memory_api h s s'"
  then have st: "lock_step s (UnlockBegin h) s'" by (simp add: memory_api_def)
  have "fresh_tokens s (UnlockBegin h)" by (cases s) simp
  then show "memory_inv s' \<and> (\<forall>g. memory_valid s g \<longrightarrow> memory_valid s' g \<and>
      memory_key s' g = memory_key s g \<and> (g \<noteq> h \<longrightarrow> memory_used s' g = memory_used s g))"
    using memory_inv_step [OF inv st] memory_step_handles [OF st inv] by auto
next
  fix s h s'
  assume inv: "memory_inv s" and "api_unlock_end memory_api h s s'"
  then have st: "lock_step s (UnlockEnd h) s'" by (simp add: memory_api_def)
  have "fresh_tokens s (UnlockEnd h)" by (cases s) simp
  then show "memory_inv s' \<and> (\<forall>g. memory_valid s g \<longrightarrow> memory_valid s' g \<and>
      memory_key s' g = memory_key s g \<and> (g \<noteq> h \<longrightarrow> memory_used s' g = memory_used s g))"
    using memory_inv_step [OF inv st] memory_step_handles [OF st inv] by auto
next
  fix s h g
  assume inv: "memory_inv s" and "memory_valid s h" "memory_valid s g"
    and key: "memory_key s h = memory_key s g" and "\<not> memory_used s h" "\<not> memory_used s g"
    and "\<not> api_lost memory_api s h" "\<not> api_lost memory_api s g"
  then have "held (fst s) h" and "held (fst s) g"
    by (simp_all add: held_def memory_valid_def memory_used_def memory_api_def)
  then have "current (fst s) (memory_key s h) = Some h" "current (fst s) (memory_key s g) = Some g"
    using tokens_okD(2) [of "fst s"] inv by (simp_all add: memory_key_def memory_inv_def)
  then show "h = g" unfolding key by simp
qed


section \<open>Terms and callbacks\<close>

definition term_calls :: "election_config \<Rightarrow> callback list" where
  "term_calls cfg = (if cfg_on_started cfg then [OnStartedLeading] else []) @
     (if cfg_on_stopped cfg then [OnStoppedLeading] else [])"

fun in_term :: "phase \<Rightarrow> bool" where
  "in_term (Leading h) = True"
| "in_term (Resigning h l) = True"
| "in_term _ = False"

text \<open>Whole terms, and the start of the one that is on.\<close>

definition calls_ok :: "election_config \<Rightarrow> election \<Rightarrow> bool" where
  "calls_ok cfg e \<longleftrightarrow> (\<exists>terms. calls e = concat (replicate terms (term_calls cfg)) @
     (if in_term (phase e) \<and> cfg_on_started cfg then [OnStartedLeading] else []))"

lemma concat_replicate_Suc: "concat (replicate (Suc n) xs) = concat (replicate n xs) @ xs"
  by (induction n) simp_all

lemma calls_ok_updates:
  "calls_ok cfg (e\<lparr>ctx_done := b\<rparr>) = calls_ok cfg e"
  "calls_ok cfg (e\<lparr>working := b\<rparr>) = calls_ok cfg e"
  "in_term p = in_term (phase e) \<Longrightarrow> calls_ok cfg (e\<lparr>phase := p\<rparr>) = calls_ok cfg e"
  "in_term (phase e) \<Longrightarrow> calls_ok cfg (resign h l e) = calls_ok cfg e"
  by (simp_all add: calls_ok_def resign_def)

lemma calls_ok_start: "calls_ok cfg e \<Longrightarrow> \<not> in_term (phase e) \<Longrightarrow> calls_ok cfg (start_term cfg h e)"
  by (auto simp: calls_ok_def start_term_def)

lemma calls_ok_stop:
  assumes "calls_ok cfg e" and "in_term (phase e)"
  shows "calls_ok cfg (stop_term cfg h e)"
proof -
  obtain n where "calls e = concat (replicate n (term_calls cfg)) @
      (if cfg_on_started cfg then [OnStartedLeading] else [])"
    using assms by (auto simp: calls_ok_def)
  then have "calls (stop_term cfg h e) = concat (replicate (Suc n) (term_calls cfg))"
    unfolding concat_replicate_Suc by (simp add: stop_term_def term_calls_def)
  then show ?thesis unfolding calls_ok_def by (intro exI [of _ "Suc n"]) (simp add: stop_term_def)
qed

lemma elect_step_calls:
  assumes "elect_step api cfg x y" and "\<And>n. calls_ok cfg (snd x n)"
  shows "calls_ok cfg (snd y n)"
  using assms
proof (induction rule: elect_step.induct)
  case (lead es m h s)
  then show ?case using calls_ok_start [of cfg "es m" h] by simp
next
  case (stopped es m h l s)
  then show ?case using calls_ok_stop [of cfg "es m" h] by simp
qed (auto simp: calls_ok_updates)

text \<open>
  Property C12: instances of an election over one in-process locker exclude each
  other up to the closing of \<open>Lost\<close>: if two of them are leader, or still run
  the work of a term, the lock of one of them has been reported lost. Each
  calls its callbacks in whole terms, start before stop, and one that has
  returned neither leads nor works.
\<close>

theorem one_leader_at_a_time:
  assumes e0: "new_election cfg = Inr e0"
    and run: "elect_reach memory_api cfg ((new_memory_locker, t0), \<lambda>_. e0) ((m, t), es)"
  shows "(\<forall>i j. i \<noteq> j \<and> (leader (es i) \<or> working (es i)) \<and> (leader (es j) \<or> working (es j)) \<longrightarrow>
      (\<exists>n h. n \<in> {i, j} \<and> term_handle (phase (es n)) = Some h \<and> lost_closed (holds m ! h))) \<and>
    (\<forall>n. calls_ok cfg (es n)) \<and>
    (\<forall>n. phase (es n) = Returned \<longrightarrow> \<not> leader (es n) \<and> \<not> working (es n))"
proof -
  have "election_ok e0" "phase e0 = Checking" "calls e0 = []"
    using e0 by (auto simp: new_election_def election_ok_def split: if_splits)
  then have "elections_ok memory_valid memory_key memory_used (cfg_key cfg) ((new_memory_locker, t0), \<lambda>_. e0)"
    by (simp add: elections_ok_def)
  moreover have "memory_inv (new_memory_locker, t0)"
    by (simp add: memory_inv_def locker_ok_new tokens_ok_new)
  ultimately have inv: "mem.elections (cfg_key cfg) ((m, t), es)"
    using mem.elect_reach_keeps [OF run] by simp
  then have ok: "election_ok (es n)" for n by (rule conjE) (rule elections_okD)
  have hold: "handle_hold (handles m ! h) = h" if "term_handle (phase (es n)) = Some h" for n h
  proof -
    have "memory_valid (m, t) h"
      using elections_okD(2) [where n = n, OF inv [THEN conjunct2] term_handle_phase_handle]
        that by simp
    then show ?thesis
      using inv locker_okD(3,4) [of m t] by (simp add: memory_inv_def memory_valid_def)
  qed
  have "calls_ok cfg (snd x n)"
    if "elect_reach memory_api cfg ((new_memory_locker, t0), \<lambda>_. e0) x" for x n
    using that
  proof (induction arbitrary: n rule: elect_reach.induct)
    case start
    then show ?case
      using \<open>phase e0 = Checking\<close> \<open>calls e0 = []\<close> by (auto simp: calls_ok_def intro: exI [of _ 0])
  qed (blast intro: elect_step_calls)
  from this [OF run] have calls: "calls_ok cfg (es n)" for n by simp
  have excl: "\<exists>n h. n \<in> {i, j} \<and> term_handle (phase (es n)) = Some h \<and> lost_closed (holds m ! h)"
    if "i \<noteq> j" "leader (es i) \<or> working (es i)" "leader (es j) \<or> working (es j)" for i j
  proof -
    note two = that
    obtain n h where "n \<in> {i, j}" "term_handle (phase (es n)) = Some h" "api_lost memory_api (m, t) h"
      using mem.one_leader [OF inv two] by blast
    then show ?thesis using hold [of n h] by (auto simp: memory_api_def)
  qed
  have "\<not> leader (es n) \<and> \<not> working (es n)" if "phase (es n) = Returned" for n
    using ok [of n] that by (simp add: election_ok_def)
  then show ?thesis using calls excl by blast
qed

text \<open>
  Two instances with leases of ten nanoseconds that are not renewed: the second
  takes over at time 20 while the first has not yet seen its channel close.
\<close>

definition sample_config :: election_config where
  "sample_config =
     \<lparr>cfg_locker_set = True, cfg_key = ''job'', cfg_ttl = 10, cfg_renew = - 1, cfg_retry = 0,
      cfg_on_started = True, cfg_on_stopped = True\<rparr>"

definition sample_candidate :: election where
  "sample_candidate = \<lparr>phase = Checking, leader = False, ctx_done = False, working = False,
     term_cancelled = False, calls = []\<rparr>"

definition sample_leader :: "nat \<Rightarrow> election" where
  "sample_leader h = start_term sample_config h sample_candidate"

lemma sample_takes_over:
  assumes "elect_reach memory_api sample_config x0 (s, es)" and n: "es n = sample_candidate"
    and g: "api_grant memory_api (run_options sample_config) ''job'' s s' h"
  shows "elect_reach memory_api sample_config x0 (s', es(n := sample_leader h))"
proof -
  let ?go = "elect_reach memory_api sample_config x0"
  let ?at = "\<lambda>p. es(n := (es n)\<lparr>phase := p\<rparr>)"
  have "?go (s, ?at Acquiring)"
    by (rule elect_reach.step [OF assms(1) elect_step.check_on]) (simp_all add: n sample_candidate_def)
  moreover have "elect_step memory_api sample_config (s, ?at Acquiring) (s', ?at (Won h))"
    using elect_step.acquired [where es = "?at Acquiring" and n = n and s = s and s' = s' and h = h
        and api = memory_api and cfg = sample_config] g by (simp add: sample_config_def)
  ultimately have "?go (s', ?at (Won h))" by (rule elect_reach.step)
  moreover have "elect_step memory_api sample_config (s', ?at (Won h)) (s', es(n := sample_leader h))"
    using elect_step.lead [where es = "?at (Won h)" and n = n and h = h
        and api = memory_api and cfg = sample_config and s = s']
    by (simp add: sample_leader_def start_term_def n)
  ultimately show ?thesis by (rule elect_reach.step)
qed

lemma sample_grants:
  "api_grant memory_api (run_options sample_config) ''job'' (new_memory_locker, 0) (sample_first, 0) 0"
  "api_grant memory_api (run_options sample_config) ''job'' (sample_first, 20) (sample_second, 20) 1"
proof -
  have opts: "run_options sample_config = sample_opts"
    by (simp add: run_options_def sample_config_def sample_opts_def)
  have "lock_step (new_memory_locker, 0) (TryAcquire ''job'' sample_opts ''t1'' 0) (sample_first, 0)"
    using lock_step.TryAcquire [of 0 new_memory_locker 0 "''job''" sample_opts "''t1''"]
    by (simp add: sample_first_def)
  moreover have "fst (try_acquire ''t1'' 0 0 ''job'' sample_opts new_memory_locker) = Inr (Some 0)"
    and "fresh_tokens (new_memory_locker, 0) (TryAcquire ''job'' sample_opts ''t1'' 0)"
    by code_simp+
  ultimately show "api_grant memory_api (run_options sample_config) ''job'' (new_memory_locker, 0) (sample_first, 0) 0"
    unfolding opts by (auto simp: memory_api_def intro!: exI [of _ "''t1''"] exI [of _ "0 :: int"])
  have "lock_step (sample_first, 20) (TryAcquire ''job'' sample_opts ''t2'' 0) (sample_second, 20)"
    using lock_step.TryAcquire [of 0 sample_first 20 "''job''" sample_opts "''t2''"]
    by (simp add: sample_second_def)
  moreover have "fst (try_acquire ''t2'' 20 20 ''job'' sample_opts sample_first) = Inr (Some 1)"
    and "fresh_tokens (sample_first, 20) (TryAcquire ''job'' sample_opts ''t2'' 0)"
    by code_simp+
  ultimately show "api_grant memory_api (run_options sample_config) ''job'' (sample_first, 20) (sample_second, 20) 1"
    unfolding opts by (auto simp: memory_api_def intro!: exI [of _ "''t2''"] exI [of _ "0 :: int"])
qed

theorem one_leader_at_a_time_witness:
  "\<exists>n h. n \<in> {0, 1 :: nat} \<and> term_handle (phase (sample_leader n)) = Some h \<and>
     lost_closed (holds sample_second ! h)"
proof -
  let ?x0 = "((new_memory_locker, 0), \<lambda>_ :: nat. sample_candidate)"
  let ?go = "elect_reach memory_api sample_config ?x0"
  let ?es1 = "(\<lambda>_. sample_candidate)(0 := sample_leader 0)"
  let ?es2 = "?es1(1 := sample_leader 1)"
  have e0: "new_election sample_config = Inr sample_candidate"
    by (simp add: new_election_def sample_config_def sample_candidate_def)
  have "?go ((sample_first, 0), ?es1)"
    by (rule sample_takes_over [OF elect_reach.start _ sample_grants(1)]) simp
  moreover have "api_others memory_api (owned ?es1) (sample_first, 0) (sample_first, 20)"
    using lock_step.Pass [of 20 sample_first 0] by (auto simp: memory_api_def intro!: exI [of _ "Pass 20"])
  ultimately have "?go ((sample_first, 20), ?es1)"
    by (blast intro: elect_reach.step elect_step.others)
  then have run: "?go ((sample_second, 20), ?es2)"
    by (rule sample_takes_over [OF _ _ sample_grants(2)]) simp
  have "leader (?es2 0)" "leader (?es2 1)"
    by (simp_all add: sample_leader_def start_term_def)
  then obtain n h where "n \<in> {0, 1 :: nat}" "term_handle (phase (?es2 n)) = Some h"
    "lost_closed (holds sample_second ! h)"
    using one_leader_at_a_time [OF e0 run] by (metis zero_neq_one)
  then show ?thesis by (intro exI [of _ n] exI [of _ h]) auto
qed


end
