(* ===== verification/CloudSaga.thy ===== *)
theory CloudSaga
  imports GoPrelude
begin

text \<open>
  The saga coordinator of \<^verbatim>\<open>src/cloud/experimental/transaction\<close>: steps with
  compensations (\<^verbatim>\<open>transaction.go\<close>), the saga log and its in-memory store
  (\<^verbatim>\<open>store.go\<close>), execution, backward recovery (\<^verbatim>\<open>coordinator.go\<close>) and the
  step registry (\<^verbatim>\<open>global.go\<close>).

  Step functions act on a world of any type. The store is an argument; the
  locale \<open>reliable_store\<close> says what recovery relies on and is interpreted on
  \<open>MemoryStore\<close>. A process may crash before any effect, which is a call of a step
  function or of the store: programs run with a budget of effects and yield
  no value when it is used up. The retries of a step under a policy are those of
  the resilience executor, an argument of the model. \<open>UpdatedAt\<close> of a snapshot, which
  nothing reads, log output and metrics are left out.
\<close>

section \<open>Programs that may crash\<close>

text \<open>No budget means that the process does not crash.\<close>

type_synonym ('a, 'x) crashy = "'x \<times> nat option \<Rightarrow> 'a option \<times> ('x \<times> nat option)"

definition creturn :: "'a \<Rightarrow> ('a, 'x) crashy" where
  "creturn a = (\<lambda>s. (Some a, s))"

definition cbind :: "('a, 'x) crashy \<Rightarrow> ('a \<Rightarrow> ('b, 'x) crashy) \<Rightarrow> ('b, 'x) crashy" where
  "cbind p f = (\<lambda>s. case p s of (None, s') \<Rightarrow> (None, s') | (Some a, s') \<Rightarrow> f a s')"

definition ceffect :: "('x \<Rightarrow> 'a \<times> 'x) \<Rightarrow> ('a, 'x) crashy" where
  "ceffect f = (\<lambda>(x, b). if b = Some 0 then (None, (x, b))
     else (case f x of (a, x') \<Rightarrow> (Some a, (x', map_option (\<lambda>n. n - 1) b))))"

section \<open>Steps, sagas and results\<close>

text \<open>What a call of a step function does: a result (possibly nil), an error (possibly nil), a new world.\<close>

type_synonym ('w, 'v) attempt = "'w \<Rightarrow> ('v option \<times> string option) \<times> 'w"

record ('w, 'v, 'p) step =
  step_name :: string
  action :: "('w, 'v) attempt"
  compensate_fn :: "('v option \<Rightarrow> 'w \<Rightarrow> string option \<times> 'w) option"
  retry :: 'p

record ('w, 'v, 'p) saga =
  saga_id :: string
  saga_method :: string
  steps :: "('w, 'v, 'p) step list"

datatype status = StatusRunning | StatusCommitted | StatusCompensated | StatusCompensationFailed

datatype saga_phase = PhaseAction | PhaseCompensate

datatype step_err = Failed string | IrreversibleStep string

record step_error =
  err_step :: string
  err_phase :: saga_phase
  err_cause :: step_err

record 'v saga_result =
  res_status :: status
  res_results :: "string \<rightharpoonup> 'v option"
  res_errors :: "step_error list"

section \<open>The saga log\<close>

record 'v snapshot =
  sn_id :: string
  sn_method :: string
  sn_status :: status
  sn_completed :: "string list"
  sn_in_progress :: string
  sn_results :: "string \<rightharpoonup> 'v option"

datatype store_error = ErrSnapshotNotFound | StoreError string

record ('s, 'v) store_api =
  st_save :: "string \<Rightarrow> 'v snapshot \<Rightarrow> 's \<Rightarrow> store_error option \<times> 's"
  st_load :: "string \<Rightarrow> 's \<Rightarrow> (store_error, 'v snapshot) result \<times> 's"
  st_delete :: "string \<Rightarrow> 's \<Rightarrow> store_error option \<times> 's"

text \<open>\<open>MemoryStore\<close>: its map is nil until the first save; nil has no entry.\<close>

type_synonym 'v memory_store = "(string \<rightharpoonup> 'v snapshot) option"

definition ms_lookup :: "'v memory_store \<Rightarrow> string \<rightharpoonup> 'v snapshot" where
  "ms_lookup m sid = (case m of None \<Rightarrow> None | Some f \<Rightarrow> f sid)"

definition ms_save :: "string \<Rightarrow> 'v snapshot \<Rightarrow> 'v memory_store \<Rightarrow> store_error option \<times> 'v memory_store" where
  "ms_save sid snap m =
     (let f = (case m of None \<Rightarrow> (\<lambda>_. None) | Some f \<Rightarrow> f) in (None, Some (f(sid \<mapsto> snap))))"

definition ms_load :: "string \<Rightarrow> 'v memory_store \<Rightarrow> (store_error, 'v snapshot) result \<times> 'v memory_store" where
  "ms_load sid m =
     (case ms_lookup m sid of None \<Rightarrow> (Inl ErrSnapshotNotFound, m) | Some snap \<Rightarrow> (Inr snap, m))"

definition ms_delete :: "string \<Rightarrow> 'v memory_store \<Rightarrow> store_error option \<times> 'v memory_store" where
  "ms_delete sid m = (None, map_option (\<lambda>f. f(sid := None)) m)"

text \<open>\<open>Pending\<close> ranges over the map in any order, here that of the given list of ids.\<close>

definition ms_pending :: "string list \<Rightarrow> 'v memory_store \<Rightarrow> 'v snapshot list" where
  "ms_pending ids m =
     filter (\<lambda>snap. sn_status snap = StatusRunning) (List.map_filter (ms_lookup m) ids)"

definition memory_store :: "('v memory_store, 'v) store_api" where
  "memory_store = \<lparr>st_save = ms_save, st_load = ms_load, st_delete = ms_delete\<rparr>"

section \<open>The coordinator\<close>

text \<open>
  \<open>calls\<close> is a history variable: every call of a step function with its argument
  and outcome. An observer is told the same calls in the same order.
\<close>

datatype 'v call =
    ActionCall string "'v option" "string option"
  | CompensateCall string "'v option" "string option"

record ('w, 's, 'v) saga_state =
  world :: 'w
  log_store :: 's
  calls :: "'v call list"

text \<open>
  \<open>is_zero\<close> is the test of a policy for the zero value, \<open>policy_exec\<close> the run of a
  function under the resilience executor for a policy and a resource name.
\<close>

record ('w, 's, 'v, 'p) coordinator =
  co_store :: "('s, 'v) store_api option"
  is_zero :: "'p \<Rightarrow> bool"
  policy_exec :: "'p \<Rightarrow> string \<Rightarrow> ('w, 'v) attempt \<Rightarrow> ('w, 'v) attempt"

type_synonym ('w, 'v, 'p) completed = "(('w, 'v, 'p) step \<times> 'v option) list"

definition run_with_policy ::
  "('w, 's, 'v, 'p) coordinator \<Rightarrow> 'p \<Rightarrow> string \<Rightarrow> ('w, 'v) attempt \<Rightarrow> ('w, 'v) attempt" where
  "run_with_policy c p resource fn = (if is_zero c p then fn else policy_exec c p resource fn)"

definition run_phase ::
  "('w, 's, 'v, 'p) coordinator \<Rightarrow> ('w, 'v, 'p) step \<Rightarrow> ('v option \<Rightarrow> string option \<Rightarrow> 'v call) \<Rightarrow>
   ('w, 'v) attempt \<Rightarrow> ('v option \<times> string option, ('w, 's, 'v) saga_state) crashy" where
  "run_phase c st call fn = ceffect (\<lambda>x.
     case run_with_policy c (retry st) (step_name st) fn (world x) of
       ((result, err), w') \<Rightarrow> ((result, err), x\<lparr>world := w', calls := calls x @ [call result err]\<rparr>))"

definition make_snapshot ::
  "('w, 'v, 'p) saga \<Rightarrow> status \<Rightarrow> ('w, 'v, 'p) completed \<Rightarrow> string \<Rightarrow> 'v snapshot" where
  "make_snapshot s status completed in_progress =
     \<lparr>sn_id = saga_id s, sn_method = saga_method s, sn_status = status,
      sn_completed = map (\<lambda>cs. step_name (fst cs)) completed, sn_in_progress = in_progress,
      sn_results = fold (\<lambda>cs m. m(step_name (fst cs) \<mapsto> snd cs)) completed (\<lambda>_. None)\<rparr>"

text \<open>Errors of the store are dropped.\<close>

definition persist_running ::
  "('w, 's, 'v, 'p) coordinator \<Rightarrow> ('w, 'v, 'p) saga \<Rightarrow> ('w, 'v, 'p) completed \<Rightarrow> string \<Rightarrow>
   (unit, ('w, 's, 'v) saga_state) crashy" where
  "persist_running c s completed in_progress =
     (case co_store c of
        None \<Rightarrow> creturn ()
      | Some api \<Rightarrow> ceffect (\<lambda>x.
          ((), x\<lparr>log_store := snd (st_save api (saga_id s)
                   (make_snapshot s StatusRunning completed in_progress) (log_store x))\<rparr>)))"

definition finish ::
  "('w, 's, 'v, 'p) coordinator \<Rightarrow> ('w, 'v, 'p) saga \<Rightarrow> 'v saga_result \<Rightarrow> ('w, 'v, 'p) completed \<Rightarrow>
   (unit, ('w, 's, 'v) saga_state) crashy" where
  "finish c s res completed =
     (case co_store c of
        None \<Rightarrow> creturn ()
      | Some api \<Rightarrow>
          if res_status res = StatusCommitted
          then ceffect (\<lambda>x. ((), x\<lparr>log_store := snd (st_delete api (saga_id s) (log_store x))\<rparr>))
          else ceffect (\<lambda>x. ((), x\<lparr>log_store := snd (st_save api (saga_id s)
                 (make_snapshot s (res_status res) completed []) (log_store x))\<rparr>)))"

definition add_failure :: "string \<Rightarrow> step_err \<Rightarrow> 'v saga_result \<Rightarrow> 'v saga_result" where
  "add_failure name e res =
     res\<lparr>res_status := StatusCompensationFailed,
         res_errors := res_errors res @ [\<lparr>err_step = name, err_phase = PhaseCompensate, err_cause = e\<rparr>]\<rparr>"

fun compensate_loop ::
  "('w, 's, 'v, 'p) coordinator \<Rightarrow> ('w, 'v, 'p) completed \<Rightarrow> 'v saga_result \<Rightarrow>
   ('v saga_result, ('w, 's, 'v) saga_state) crashy" where
  "compensate_loop c [] res = creturn res"
| "compensate_loop c ((st, result) # cs) res =
     (case compensate_fn st of
        None \<Rightarrow> compensate_loop c cs (add_failure (step_name st) (IrreversibleStep (step_name st)) res)
      | Some f \<Rightarrow>
          cbind (run_phase c st (\<lambda>_ err. CompensateCall (step_name st) result err)
                   (\<lambda>w. case f result w of (err, w') \<Rightarrow> ((None, err), w')))
            (\<lambda>(_, err). compensate_loop c cs
               (case err of None \<Rightarrow> res | Some e \<Rightarrow> add_failure (step_name st) (Failed e) res)))"

definition compensate_ordered ::
  "('w, 's, 'v, 'p) coordinator \<Rightarrow> ('w, 'v, 'p) completed \<Rightarrow> 'v saga_result \<Rightarrow>
   ('v saga_result, ('w, 's, 'v) saga_state) crashy" where
  "compensate_ordered c ordered res = compensate_loop c ordered (res\<lparr>res_status := StatusCompensated\<rparr>)"

definition compensate ::
  "('w, 's, 'v, 'p) coordinator \<Rightarrow> ('w, 'v, 'p) completed \<Rightarrow> 'v saga_result \<Rightarrow>
   ('v saga_result, ('w, 's, 'v) saga_state) crashy" where
  "compensate c completed res = compensate_ordered c (rev completed) res"

text \<open>The loop of \<open>Execute\<close> over the steps that are left.\<close>

fun execute_loop ::
  "('w, 's, 'v, 'p) coordinator \<Rightarrow> ('w, 'v, 'p) saga \<Rightarrow> ('w, 'v, 'p) step list \<Rightarrow>
   ('w, 'v, 'p) completed \<Rightarrow> 'v saga_result \<Rightarrow>
   ('v saga_result \<times> string option, ('w, 's, 'v) saga_state) crashy" where
  "execute_loop c s [] completed res =
     cbind (finish c s res completed) (\<lambda>_. creturn (res, None))"
| "execute_loop c s (st # sts) completed res =
     cbind (persist_running c s completed (step_name st)) (\<lambda>_.
     cbind (run_phase c st (ActionCall (step_name st)) (action st)) (\<lambda>(result, err).
       case err of
         Some e \<Rightarrow>
           (let res1 = res\<lparr>res_errors := res_errors res @
                  [\<lparr>err_step = step_name st, err_phase = PhaseAction, err_cause = Failed e\<rparr>]\<rparr>;
                res2 = (if result \<noteq> None
                  then res1\<lparr>res_results := (res_results res1)(step_name st \<mapsto> result)\<rparr> else res1)
            in cbind (compensate c completed res2) (\<lambda>res3.
               cbind (finish c s res3 completed) (\<lambda>_. creturn (res3, Some e))))
       | None \<Rightarrow>
           (let completed' = completed @ [(st, result)]
            in cbind (persist_running c s completed' []) (\<lambda>_.
               execute_loop c s sts completed'
                 (res\<lparr>res_results := (res_results res)(step_name st \<mapsto> result)\<rparr>)))))"

definition execute ::
  "('w, 's, 'v, 'p) coordinator \<Rightarrow> ('w, 'v, 'p) saga \<Rightarrow>
   ('v saga_result \<times> string option, ('w, 's, 'v) saga_state) crashy" where
  "execute c s = execute_loop c s (steps s) []
     \<lparr>res_status = StatusCommitted, res_results = (\<lambda>_. None), res_errors = []\<rparr>"

section \<open>Recovery\<close>

datatype recover_error = RecoverNeedsStore | LoadFailed store_error

text \<open>The zero result of an error return.\<close>

definition zero_result :: "status \<Rightarrow> 'v saga_result" where
  "zero_result st = \<lparr>res_status = st, res_results = (\<lambda>_. None), res_errors = []\<rparr>"

definition by_name :: "('w, 'v, 'p) step list \<Rightarrow> string \<rightharpoonup> ('w, 'v, 'p) step" where
  "by_name sts = fold (\<lambda>st m. m(step_name st \<mapsto> st)) sts (\<lambda>_. None)"

definition logged_steps ::
  "('w, 'v, 'p) step list \<Rightarrow> 'v snapshot \<Rightarrow> string list \<Rightarrow> ('w, 'v, 'p) completed" where
  "logged_steps sts snap names = List.map_filter (\<lambda>name.
     map_option (\<lambda>st. (st, case sn_results snap name of None \<Rightarrow> None | Some v \<Rightarrow> v))
       (by_name sts name)) names"

definition to_compensate ::
  "('w, 'v, 'p) step list \<Rightarrow> 'v snapshot \<Rightarrow> ('w, 'v, 'p) completed" where
  "to_compensate sts snap =
     (if sn_in_progress snap \<noteq> []
      then (case by_name sts (sn_in_progress snap) of None \<Rightarrow> [] | Some st \<Rightarrow> [(st, None)])
      else []) @
     logged_steps sts snap (rev (sn_completed snap))"

definition recover ::
  "('w, 's, 'v, 'p) coordinator \<Rightarrow> ('w, 'v, 'p) saga \<Rightarrow>
   ('v saga_result \<times> recover_error option, ('w, 's, 'v) saga_state) crashy" where
  "recover c s =
     (case co_store c of
        None \<Rightarrow> creturn (zero_result StatusRunning, Some RecoverNeedsStore)
      | Some api \<Rightarrow>
          cbind (ceffect (\<lambda>x. case st_load api (saga_id s) (log_store x) of
                   (r, s') \<Rightarrow> (r, x\<lparr>log_store := s'\<rparr>)))
            (\<lambda>r. case r of
               Inl ErrSnapshotNotFound \<Rightarrow> creturn (zero_result StatusCommitted, None)
             | Inl e \<Rightarrow> creturn (zero_result StatusRunning, Some (LoadFailed e))
             | Inr snap \<Rightarrow>
                 if sn_status snap \<noteq> StatusRunning then creturn (zero_result (sn_status snap), None)
                 else
                   cbind (compensate_ordered c (to_compensate (steps s) snap)
                       \<lparr>res_status = StatusRunning, res_results = sn_results snap, res_errors = []\<rparr>)
                     (\<lambda>res. cbind (finish c s res (logged_steps (steps s) snap (sn_completed snap)))
                       (\<lambda>_. creturn (res, None)))))"

section \<open>The registry of steps\<close>

type_synonym ('w, 'v, 'p) step_registry = "string \<rightharpoonup> ('w, 'v, 'p) step list"

definition register ::
  "string \<Rightarrow> ('w, 'v, 'p) step list \<Rightarrow> ('w, 'v, 'p) step_registry \<Rightarrow> ('w, 'v, 'p) step_registry" where
  "register method sts r = r(method \<mapsto> sts)"

text \<open>The decorated call; \<open>ctx_id\<close> is the saga id the context carries, if any.\<close>

definition global_transactional ::
  "('w, 's, 'v, 'p) coordinator \<Rightarrow> ('w, 'v, 'p) step_registry \<Rightarrow> string option \<Rightarrow> string \<Rightarrow>
   (string option, ('w, 's, 'v) saga_state) crashy \<Rightarrow> (string option, ('w, 's, 'v) saga_state) crashy" where
  "global_transactional c r ctx_id method proceed =
     (case r method of
        None \<Rightarrow> proceed
      | Some sts \<Rightarrow>
          (let sid = (case ctx_id of None \<Rightarrow> method | Some i \<Rightarrow> i) in
           cbind (execute c \<lparr>saga_id = sid, saga_method = method, steps = sts\<rparr>) (\<lambda>(_, err). creturn err)))"

section \<open>Running without and with crashes\<close>

named_theorems crash_simps \<open>evaluation of programs that may crash\<close>

lemma creturn_run [crash_simps]: "creturn a s = (Some a, s)"
  by (simp add: creturn_def)

lemma ceffect_run [crash_simps]:
  "ceffect f (x, None) = (Some (fst (f x)), (snd (f x), None))"
  "ceffect f (x, Some 0) = (None, (x, Some 0))"
  "ceffect f (x, Some (Suc n)) = (Some (fst (f x)), (snd (f x), Some n))"
  by (simp_all add: ceffect_def split: prod.split)

lemma cbind_run [crash_simps]:
  "p s = (None, s') \<Longrightarrow> cbind p f s = (None, s')"
  "p s = (Some a, s') \<Longrightarrow> cbind p f s = f a s'"
  by (simp_all add: cbind_def)

text \<open>An effect happens, or the process crashes before it.\<close>

lemma ceffect_cases:
  obtains (crash) "ceffect f (x, b) = (None, (x, b))" "b = Some 0"
    | (effect) b' where "ceffect f (x, b) = (Some (fst (f x)), (snd (f x), b'))" "b' = None \<longleftrightarrow> b = None"
proof (cases b)
  case None
  then show thesis using effect [of None] by (simp add: crash_simps)
next
  case (Some n)
  then show thesis using crash effect by (cases n) (simp_all add: crash_simps)
qed

lemma cbind_cases:
  assumes "cbind p f s = (out, s')"
  obtains (crash) "p s = (None, s')" "out = None"
    | (goes) a t where "p s = (Some a, t)" "f a t = (out, s')"
  using assms by (auto simp: cbind_def split: prod.splits option.splits)

section \<open>What rolling back means\<close>

text \<open>
  The calls and the failures of a rollback over the given steps with their
  results: each step that has a compensation is compensated once, in this
  order, with its own result; a step without one is a failure.
\<close>

definition irreversible :: "('w, 'v, 'p) step \<Rightarrow> step_error" where
  "irreversible st = \<lparr>err_step = step_name st, err_phase = PhaseCompensate,
     err_cause = IrreversibleStep (step_name st)\<rparr>"

definition failed_undo :: "('w, 'v, 'p) step \<Rightarrow> string \<Rightarrow> step_error" where
  "failed_undo st e = \<lparr>err_step = step_name st, err_phase = PhaseCompensate, err_cause = Failed e\<rparr>"

inductive rollback :: "('w, 'v, 'p) completed \<Rightarrow> 'v call list \<Rightarrow> step_error list \<Rightarrow> bool" where
  nothing: "rollback [] [] []"
| irreversible: "compensate_fn st = None \<Longrightarrow> rollback cs ks es \<Longrightarrow>
    rollback ((st, r) # cs) ks (irreversible st # es)"
| undone: "compensate_fn st = Some f \<Longrightarrow> rollback cs ks es \<Longrightarrow>
    rollback ((st, r) # cs) (CompensateCall (step_name st) r None # ks) es"
| failed: "compensate_fn st = Some f \<Longrightarrow> rollback cs ks es \<Longrightarrow>
    rollback ((st, r) # cs) (CompensateCall (step_name st) r (Some e) # ks) (failed_undo st e # es)"

text \<open>So a rollback without failures undoes every step.\<close>

lemma rollback_clean:
  "rollback cs ks [] \<Longrightarrow> ks = map (\<lambda>cs. CompensateCall (step_name (fst cs)) (snd cs) None) cs"
  by (induction cs ks "[] :: step_error list" rule: rollback.induct) simp_all

fun is_compensation :: "'v call \<Rightarrow> bool" where
  "is_compensation (CompensateCall n r e) = True"
| "is_compensation (ActionCall n r e) = False"

lemma rollback_calls: "rollback cs ks es \<Longrightarrow> list_all is_compensation ks"
  by (induction rule: rollback.induct) simp_all

definition undo_status :: "step_error list \<Rightarrow> status" where
  "undo_status es = (if es = [] then StatusCompensated else StatusCompensationFailed)"

text \<open>The result after the failures of a rollback have been noted.\<close>

definition note_failures :: "step_error list \<Rightarrow> 'v saga_result \<Rightarrow> 'v saga_result" where
  "note_failures es res = res\<lparr>res_status := (if es = [] then res_status res else StatusCompensationFailed),
     res_errors := res_errors res @ es\<rparr>"

lemma note_failures_simps [crash_simps]:
  "note_failures [] res = res"
  "note_failures es (add_failure (step_name st) (Failed e) res) = note_failures (failed_undo st e # es) res"
  "note_failures es (add_failure (step_name st) (IrreversibleStep (step_name st)) res) =
     note_failures (irreversible st # es) res"
  by (simp_all add: note_failures_def add_failure_def failed_undo_def irreversible_def)

lemma run_phase_effect: "run_phase c st call fn = ceffect (\<lambda>x.
    let r = run_with_policy c (retry st) (step_name st) fn (world x) in
    (fst r, x\<lparr>world := snd r, calls := calls x @ [call (fst (fst r)) (snd (fst r))]\<rparr>))"
  by (simp add: run_phase_def Let_def split_beta)

lemma compensate_loop_runs:
  "\<exists>ks es x'. compensate_loop c cs res (x, None) = (Some (note_failures es res), (x', None)) \<and>
     rollback cs ks es \<and> calls x' = calls x @ ks \<and> log_store x' = log_store x"
proof (induction cs arbitrary: res x)
  case Nil
  show ?case
    by (intro exI [of _ "[]"] exI [of _ x]) (simp add: crash_simps rollback.nothing)
next
  case (Cons sr cs)
  obtain st r where sr: "sr = (st, r)" by force
  show ?case
  proof (cases "compensate_fn st")
    case None
    from Cons.IH [of "add_failure (step_name st) (IrreversibleStep (step_name st)) res" x]
    obtain ks es x' where
      "compensate_loop c (sr # cs) res (x, None) = (Some (note_failures (irreversible st # es) res), (x', None))"
      and "rollback cs ks es" and x': "calls x' = calls x @ ks" "log_store x' = log_store x"
      using None by (auto simp: sr crash_simps)
    then show ?thesis using rollback.irreversible [OF None] x' unfolding sr by blast
  next
    case (Some f)
    define q where "q = run_with_policy c (retry st) (step_name st)
      (\<lambda>w. case f r w of (err, w') \<Rightarrow> ((None, err), w')) (world x)"
    define x1 where "x1 = x\<lparr>world := snd q, calls := calls x @ [CompensateCall (step_name st) r (snd (fst q))]\<rparr>"
    define res1 where "res1 = (case snd (fst q) of None \<Rightarrow> res | Some e \<Rightarrow> add_failure (step_name st) (Failed e) res)"
    have run: "compensate_loop c (sr # cs) res (x, None) = compensate_loop c cs res1 (x1, None)"
      using Some by (simp add: sr run_phase_effect cbind_def crash_simps Let_def q_def x1_def res1_def split_beta)
    from Cons.IH [of res1 x1] obtain ks es x' where
      "compensate_loop c cs res1 (x1, None) = (Some (note_failures es res1), (x', None))"
      and rb: "rollback cs ks es" and x': "calls x' = calls x1 @ ks" "log_store x' = log_store x1" by blast
    then show ?thesis
      using rollback.undone [OF Some rb] rollback.failed [OF Some rb] run
      unfolding sr
      by (cases "snd (fst q)") (fastforce simp: res1_def x1_def crash_simps)+
  qed
qed

lemma compensate_loop_calls:
  assumes "compensate_loop c cs res (x, b) = (out, (x', b'))"
  shows "\<exists>ks. list_all is_compensation ks \<and> calls x' = calls x @ ks \<and> log_store x' = log_store x"
  using assms
proof (induction cs arbitrary: res x b)
  case Nil
  then show ?case by (simp add: crash_simps)
next
  case (Cons sr cs)
  obtain st r where sr: "sr = (st, r)" by force
  show ?case
  proof (cases "compensate_fn st")
    case None
    then show ?thesis using Cons by (simp add: sr)
  next
    case (Some f)
    with Cons.prems show ?thesis
      unfolding sr compensate_loop.simps Some option.case
    proof (cases rule: cbind_cases)
      case crash
      then show ?thesis
        by (auto simp: run_phase_effect ceffect_def Let_def intro!: exI [of _ "[]"] split: if_splits)
    next
      case (goes a t)
      then have t: "calls (fst t) = calls x @ [CompensateCall (step_name st) r (snd a)]"
        "log_store (fst t) = log_store x"
        unfolding run_phase_effect
        by (auto simp: ceffect_def Let_def split: if_splits)
      have "compensate_loop c cs (case snd a of None \<Rightarrow> res | Some e \<Rightarrow> add_failure (step_name st) (Failed e) res)
          (fst t, snd t) = (out, (x', b'))"
        using goes(2) by (simp add: split_beta)
      from Cons.IH [OF this] t show ?thesis by fastforce
    qed
  qed
qed


section \<open>Execution without a crash\<close>

definition failed_action :: "('w, 'v, 'p) step \<Rightarrow> string \<Rightarrow> step_error" where
  "failed_action st e = \<lparr>err_step = step_name st, err_phase = PhaseAction, err_cause = Failed e\<rparr>"

definition act_call :: "('w, 'v, 'p) step \<times> 'v option \<Rightarrow> 'v call" where
  "act_call cs = ActionCall (step_name (fst cs)) (snd cs) None"

text \<open>
  The run of the steps that are left after \<open>d\<close>: the calls, the errors, the error
  returned, the status, and the steps whose action succeeded.
\<close>

inductive saga_outcome ::
  "('w, 'v, 'p) completed \<Rightarrow> ('w, 'v, 'p) step list \<Rightarrow> 'v call list \<Rightarrow> step_error list \<Rightarrow>
   string option \<Rightarrow> status \<Rightarrow> ('w, 'v, 'p) completed \<Rightarrow> bool" where
  committed: "saga_outcome d [] [] [] None StatusCommitted d"
| succeeds: "saga_outcome (d @ [(st, r)]) sts ks es err status d' \<Longrightarrow>
    saga_outcome d (st # sts) (act_call (st, r) # ks) es err status d'"
| fails: "rollback (rev d) ks es \<Longrightarrow>
    saga_outcome d (st # sts) (ActionCall (step_name st) r (Some e) # ks) (failed_action st e # es)
      (Some e) (undo_status es) d"

lemma saga_outcome_form:
  assumes "saga_outcome d sts ks es err status d'"
  shows "(\<exists>new. d' = d @ new \<and> map fst new = sts \<and> ks = map act_call new \<and> es = [] \<and>
      err = None \<and> status = StatusCommitted) \<or>
    (\<exists>new st post r e us fs. d' = d @ new \<and> sts = map fst new @ st # post \<and>
      ks = map act_call new @ ActionCall (step_name st) r (Some e) # us \<and>
      rollback (rev d') us fs \<and> es = failed_action st e # fs \<and> err = Some e \<and> status = undo_status fs)"
  using assms
proof (induction rule: saga_outcome.induct)
  case (succeeds d st r sts ks es err status d')
  from succeeds.IH show ?case
  proof (elim disjE exE conjE)
    fix new assume "d' = (d @ [(st, r)]) @ new" "map fst new = sts" "ks = map act_call new" "es = []"
      "err = None" "status = StatusCommitted"
    then show ?thesis by (intro disjI1 exI [of _ "(st, r) # new"]) simp
  next
    fix new st' post r' e us fs
    assume "d' = (d @ [(st, r)]) @ new" "sts = map fst new @ st' # post"
      "ks = map act_call new @ ActionCall (step_name st') r' (Some e) # us"
      "rollback (rev d') us fs" "es = failed_action st' e # fs" "err = Some e" "status = undo_status fs"
    then show ?thesis
      by (intro disjI2 exI [of _ "(st, r) # new"] exI [of _ st'] exI [of _ post] exI [of _ r']
          exI [of _ e] exI [of _ us] exI [of _ fs]) simp
  qed
next
  case (fails d ks es st sts r e)
  then show ?case
    by (intro disjI2 exI [of _ "[]"] exI [of _ st] exI [of _ sts] exI [of _ r] exI [of _ e]
        exI [of _ ks] exI [of _ es]) simp
qed simp

text \<open>The last write to the log.\<close>

definition final_log ::
  "('w, 's, 'v, 'p) coordinator \<Rightarrow> ('w, 'v, 'p) saga \<Rightarrow> status \<Rightarrow> ('w, 'v, 'p) completed \<Rightarrow> 's \<Rightarrow> bool" where
  "final_log c s status d l \<longleftrightarrow> (\<forall>api. co_store c = Some api \<longrightarrow> (\<exists>l0.
     l = (if status = StatusCommitted then snd (st_delete api (saga_id s) l0)
          else snd (st_save api (saga_id s) (make_snapshot s status d []) l0))))"

lemma finish_runs:
  "\<exists>x'. finish c s res d (x, None) = (Some (), (x', None)) \<and> calls x' = calls x \<and> world x' = world x \<and>
     final_log c s (res_status res) d (log_store x')"
  by (cases "co_store c") (auto simp: finish_def crash_simps final_log_def)

lemma persist_runs:
  "\<exists>x'. persist_running c s d p (x, None) = (Some (), (x', None)) \<and> calls x' = calls x"
  by (cases "co_store c") (simp_all add: persist_running_def crash_simps)

lemma run_phase_runs:
  "\<exists>r e x'. run_phase c st call fn (x, None) = (Some (r, e), (x', None)) \<and>
     calls x' = calls x @ [call r e] \<and> log_store x' = log_store x"
  by (simp add: run_phase_effect crash_simps Let_def) (metis prod.collapse)

lemma execute_loop_runs:
  assumes "res_errors res = []" and "res_status res = StatusCommitted"
  shows "\<exists>res' err x' ks d'. execute_loop c s sts d res (x, None) = (Some (res', err), (x', None)) \<and>
     saga_outcome d sts ks (res_errors res') err (res_status res') d' \<and>
     calls x' = calls x @ ks \<and> final_log c s (res_status res') d' (log_store x')"
  using assms
proof (induction sts arbitrary: d res x)
  case Nil
  obtain x' where "finish c s res d (x, None) = (Some (), (x', None))" "calls x' = calls x"
    "final_log c s (res_status res) d (log_store x')"
    using finish_runs [of c s res d x] by auto
  then show ?case
    using Nil.prems saga_outcome.committed [of d]
    by (intro exI [of _ res] exI [of _ None] exI [of _ x'] exI [of _ "[]"] exI [of _ d])
      (simp add: crash_simps)
next
  case (Cons st sts)
  obtain x1 where x1: "persist_running c s d (step_name st) (x, None) = (Some (), (x1, None))" "calls x1 = calls x"
    using persist_runs [of c s d "step_name st" x] by auto
  obtain r e x2 where x2: "run_phase c st (ActionCall (step_name st)) (action st) (x1, None) = (Some (r, e), (x2, None))"
    "calls x2 = calls x1 @ [ActionCall (step_name st) r e]"
    using run_phase_runs [of c st "ActionCall (step_name st)" "action st" x1] by auto
  show ?case
  proof (cases e)
    case None
    obtain x3 where x3: "persist_running c s (d @ [(st, r)]) [] (x2, None) = (Some (), (x3, None))" "calls x3 = calls x2"
      using persist_runs [of c s "d @ [(st, r)]" "[]" x2] by auto
    let ?res = "res\<lparr>res_results := (res_results res)(step_name st \<mapsto> r)\<rparr>"
    have "res_errors ?res = []" "res_status ?res = StatusCommitted" using Cons.prems by simp_all
    from Cons.IH [OF this, of "d @ [(st, r)]" x3] obtain res' err x' ks d' where
      "execute_loop c s sts (d @ [(st, r)]) ?res (x3, None) = (Some (res', err), (x', None))"
      and o: "saga_outcome (d @ [(st, r)]) sts ks (res_errors res') err (res_status res') d'"
      and "calls x' = calls x3 @ ks" and "final_log c s (res_status res') d' (log_store x')" by blast
    then show ?thesis
      using x1 x2 x3 None saga_outcome.succeeds [OF o]
      by (intro exI [of _ res'] exI [of _ err] exI [of _ x'] exI [of _ "act_call (st, r) # ks"] exI [of _ d'])
        (simp add: crash_simps act_call_def Let_def)
  next
    case (Some err)
    define res1 where "res1 = res\<lparr>res_errors := res_errors res @
        [\<lparr>err_step = step_name st, err_phase = PhaseAction, err_cause = Failed err\<rparr>]\<rparr>"
    define res2 where "res2 = (if r \<noteq> None
        then res1\<lparr>res_results := (res_results res1)(step_name st \<mapsto> r)\<rparr> else res1)"
    have res2: "res_errors res2 = [failed_action st err]"
      using Cons.prems by (simp add: res2_def res1_def failed_action_def)
    obtain ks es x3 where x3: "compensate c d res2 (x2, None) =
          (Some (note_failures es (res2\<lparr>res_status := StatusCompensated\<rparr>)), (x3, None))"
      "rollback (rev d) ks es" "calls x3 = calls x2 @ ks"
      using compensate_loop_runs [of c "rev d" "res2\<lparr>res_status := StatusCompensated\<rparr>" x2]
      unfolding compensate_def compensate_ordered_def by blast
    define res3 where "res3 = note_failures es (res2\<lparr>res_status := StatusCompensated\<rparr>)"
    have res3: "res_errors res3 = failed_action st err # es" "res_status res3 = undo_status es"
      using res2 by (auto simp: res3_def note_failures_def undo_status_def)
    obtain x4 where x4: "finish c s res3 d (x3, None) = (Some (), (x4, None))" "calls x4 = calls x3"
      "final_log c s (res_status res3) d (log_store x4)"
      using finish_runs [of c s res3 d x3] by auto
    have "execute_loop c s (st # sts) d res (x, None) = (Some (res3, Some err), (x4, None))"
      using x1 x2 x3(1) x4(1) Some unfolding res3_def res2_def res1_def
      by (simp add: crash_simps Let_def)
    then show ?thesis
      using saga_outcome.fails [OF x3(2), of st sts r err] res3 x1(2) x2(2) x3(3) x4(2,3) Some
      by (intro exI [of _ res3] exI [of _ "Some err"] exI [of _ x4]
          exI [of _ "ActionCall (step_name st) r (Some err) # ks"] exI [of _ d]) simp
  qed
qed


section \<open>What recovery needs of a store\<close>

text \<open>\<open>log s\<close> is what the store holds; it does what it is told, also if it reports an error.\<close>

locale reliable_store =
  fixes api :: "('s, 'v) store_api"
    and log :: "'s \<Rightarrow> string \<rightharpoonup> 'v snapshot"
  assumes save: "log (snd (st_save api i snap s)) = (log s)(i \<mapsto> snap)"
    and load: "fst (st_load api i s) = (case log s i of None \<Rightarrow> Inl ErrSnapshotNotFound | Some snap \<Rightarrow> Inr snap)"
      "log (snd (st_load api i s)) = log s"
    and delete: "log (snd (st_delete api i s)) = (log s)(i := None)"

interpretation mem: reliable_store memory_store ms_lookup
  by unfold_locales
    (auto simp: memory_store_def ms_save_def ms_load_def ms_delete_def ms_lookup_def fun_eq_iff
      split: option.split)

text \<open>The log of a saga that is under way, and what the calls of a crashed run look like.\<close>

definition running_log ::
  "('w, 'v, 'p) saga \<Rightarrow> ('w, 'v, 'p) completed \<Rightarrow> ('w, 'v, 'p) step option \<Rightarrow> 'v snapshot option" where
  "running_log s d p = (if d = [] \<and> p = None then None
     else Some (make_snapshot s StatusRunning d (case p of None \<Rightarrow> [] | Some st \<Rightarrow> step_name st)))"

definition in_flight_calls :: "('w, 'v, 'p) step option \<Rightarrow> 'v call list \<Rightarrow> bool" where
  "in_flight_calls p ks \<longleftrightarrow> ks = [] \<or>
     (\<exists>st r e us. p = Some st \<and> ks = ActionCall (step_name st) r e # us \<and> list_all is_compensation us)"

text \<open>Where a crash leaves a run that had completed \<open>d\<close> and had the steps \<open>sts\<close> to go.\<close>

definition crashed_at ::
  "('w, 'v, 'p) saga \<Rightarrow> ('w, 'v, 'p) completed \<Rightarrow> ('w, 'v, 'p) step list \<Rightarrow> 'v snapshot option \<Rightarrow>
   'v call list \<Rightarrow> bool" where
  "crashed_at s d sts entry ks \<longleftrightarrow> (\<exists>new p us.
     ks = map act_call new @ us \<and> in_flight_calls p us \<and>
     (case p of None \<Rightarrow> \<exists>post. sts = map fst new @ post
      | Some st \<Rightarrow> \<exists>post. sts = map fst new @ st # post) \<and>
     entry = running_log s (d @ new) p)"

lemma crashed_at_step:
  assumes "crashed_at s (d @ [(st, r)]) sts entry ks"
  shows "crashed_at s d (st # sts) entry (act_call (st, r) # ks)"
proof -
  obtain new p us where "ks = map act_call new @ us" "in_flight_calls p us"
    "case p of None \<Rightarrow> \<exists>post. sts = map fst new @ post | Some st' \<Rightarrow> \<exists>post. sts = map fst new @ st' # post"
    "entry = running_log s ((d @ [(st, r)]) @ new) p"
    using assms unfolding crashed_at_def by blast
  then show ?thesis
    unfolding crashed_at_def
    by (intro exI [of _ "(st, r) # new"] exI [of _ p] exI [of _ us]) (simp split: option.splits)
qed

context reliable_store
begin

lemma persist_effect:
  assumes c: "co_store c = Some api"
    and "persist_running c s d p (x, b) = (out, (x', b'))"
  obtains (crash) "out = None" "x' = x"
    | (saved) "out = Some ()" "calls x' = calls x"
      "log (log_store x') (saga_id s) = Some (make_snapshot s StatusRunning d p)"
  using assms by (auto simp: persist_running_def ceffect_def save split: if_splits)

lemma run_phase_effect_cases:
  assumes "run_phase c st call fn (x, b) = (out, (x', b'))"
  obtains (crash) "out = None" "x' = x"
    | (called) r e where "out = Some (r, e)" "calls x' = calls x @ [call r e]" "log_store x' = log_store x"
  using assms
  by (auto simp: run_phase_effect ceffect_def Let_def split: if_splits) (metis prod.collapse)

lemma finish_effect:
  assumes "finish c s res d (x, b) = (None, (x', b'))"
  shows "x' = x"
  using assms
  by (auto simp: finish_def ceffect_def creturn_def split: if_splits option.splits)

lemma undo_crash:
  assumes "cbind (compensate c d res) (\<lambda>res3. cbind (finish c s res3 d) (\<lambda>_. creturn (res3, e)))
    (x, b) = (None, (x', b'))"
  shows "\<exists>us. list_all is_compensation us \<and> calls x' = calls x @ us \<and> log_store x' = log_store x"
  using assms
proof (cases rule: cbind_cases)
  case crash
  then show ?thesis
    unfolding compensate_def compensate_ordered_def by (blast dest: compensate_loop_calls)
next
  case (goes res3 t)
  obtain y b1 where t: "t = (y, b1)" by force
  have "x' = y"
    using goes(2) unfolding t by (cases rule: cbind_cases) (auto simp: creturn_def dest: finish_effect)
  then show ?thesis
    using goes(1) unfolding t compensate_def compensate_ordered_def by (blast dest: compensate_loop_calls)
qed

lemma execute_loop_crash:
  assumes c: "co_store c = Some api"
    and entry: "log (log_store x) (saga_id s) = running_log s d None"
    and run: "execute_loop c s sts d res (x, b) = (None, (x', b'))"
  shows "\<exists>ks. calls x' = calls x @ ks \<and> crashed_at s d sts (log (log_store x') (saga_id s)) ks"
  using entry run
proof (induction sts arbitrary: d res x b)
  case Nil
  have "x' = x"
    using Nil.prems(2) unfolding execute_loop.simps
    by (cases rule: cbind_cases) (auto simp: creturn_def dest: finish_effect)
  then have "calls x' = calls x @ []" and "crashed_at s d [] (log (log_store x') (saga_id s)) []"
    using Nil.prems(1) unfolding crashed_at_def
    by (auto simp: in_flight_calls_def intro!: exI [of _ "[]"] exI [of _ None])
  then show ?case by blast
next
  case (Cons st sts)
  have stay: "\<exists>ks. calls x = calls x @ ks \<and> crashed_at s d (st # sts) (log (log_store x) (saga_id s)) ks"
    using Cons.prems(1) unfolding crashed_at_def
    by (intro exI [of _ "[]"] conjI exI [of _ None]) (simp_all add: in_flight_calls_def)
  have flight: "crashed_at s d (st # sts) (Some (make_snapshot s StatusRunning d (step_name st))) us"
    if "in_flight_calls (Some st) us" for us
    using that unfolding crashed_at_def
    by (intro exI [of _ "[]"] exI [of _ "Some st"] exI [of _ us]) (simp add: running_log_def)
  from Cons.prems(2) [unfolded execute_loop.simps] show ?case
  proof (cases rule: cbind_cases)
    case crash
    then show ?thesis using persist_effect [OF c crash(1)] stay by blast
  next
    case (goes u t1)
    obtain x1 b1 where t1: "t1 = (x1, b1)" by force
    have x1: "calls x1 = calls x"
      "log (log_store x1) (saga_id s) = Some (make_snapshot s StatusRunning d (step_name st))"
      using persist_effect [OF c goes(1) [unfolded t1]] by blast+
    from goes(2) [unfolded t1] show ?thesis
    proof (cases rule: cbind_cases)
      case crash
      then have "x' = x1" using run_phase_effect_cases [OF crash(1)] by blast
      then show ?thesis using x1 flight [of "[]"] by (auto simp: in_flight_calls_def)
    next
      case (goes q t2)
      obtain x2 b2 r e where t2: "t2 = (x2, b2)" and q: "q = (r, e)" by force
      have x2: "calls x2 = calls x1 @ [ActionCall (step_name st) r e]" "log_store x2 = log_store x1"
        using run_phase_effect_cases [OF goes(1) [unfolded t2]] q by blast+
      have log2: "log (log_store x2) (saga_id s) = Some (make_snapshot s StatusRunning d (step_name st))"
        using x1 x2 by simp
      have after: "in_flight_calls (Some st) (ActionCall (step_name st) r e # us)"
        if "list_all is_compensation us" for us
        using that by (auto simp: in_flight_calls_def)
      show ?thesis
      proof (cases e)
        case None
        from goes(2) have "cbind (persist_running c s (d @ [(st, r)]) [])
            (\<lambda>_. execute_loop c s sts (d @ [(st, r)])
              (res\<lparr>res_results := (res_results res)(step_name st \<mapsto> r)\<rparr>)) (x2, b2) = (None, (x', b'))"
          unfolding t2 q None by (simp add: Let_def)
        then show ?thesis
        proof (cases rule: cbind_cases)
          case crash
          then have "x' = x2" using persist_effect [OF c crash(1)] by blast
          then show ?thesis
            using x1 x2 flight [OF after [of "[]"]] log2
            by (intro exI [of _ "[ActionCall (step_name st) r e]"]) simp
        next
          case (goes v t3)
          obtain x3 b3 where t3: "t3 = (x3, b3)" by force
          have x3: "calls x3 = calls x2"
            "log (log_store x3) (saga_id s) = Some (make_snapshot s StatusRunning (d @ [(st, r)]) [])"
            using persist_effect [OF c goes(1) [unfolded t3]] by blast+
          have "log (log_store x3) (saga_id s) = running_log s (d @ [(st, r)]) None"
            using x3 by (simp add: running_log_def)
          from Cons.IH [OF this goes(2) [unfolded t3]]
          obtain ks where "calls x' = calls x3 @ ks"
            and k: "crashed_at s (d @ [(st, r)]) sts (log (log_store x') (saga_id s)) ks" by blast
          then show ?thesis
            using x1 x2 x3 None crashed_at_step [OF k]
            by (intro exI [of _ "act_call (st, r) # ks"]) (simp add: act_call_def)
        qed
      next
        case (Some err)
        from goes(2) obtain res2 where "cbind (compensate c d res2) (\<lambda>res3.
            cbind (finish c s res3 d) (\<lambda>_. creturn (res3, Some err))) (x2, b2) = (None, (x', b'))"
          unfolding t2 q Some by (auto simp: Let_def)
        then have "\<exists>us. list_all is_compensation us \<and> calls x' = calls x2 @ us \<and> log_store x' = log_store x2"
          by (rule undo_crash)
        then obtain us where "list_all is_compensation us" "calls x' = calls x2 @ us" "log_store x' = log_store x2"
          by blast
        then show ?thesis
          using x1 x2 flight [OF after [of us]] log2
          by (intro exI [of _ "ActionCall (step_name st) r e # us"]) simp
      qed
    qed
  qed
qed

end


section \<open>Reading the log back\<close>

definition names_ok :: "('w, 'v, 'p) step list \<Rightarrow> bool" where
  "names_ok sts \<longleftrightarrow> distinct (map step_name sts) \<and> [] \<notin> set (map step_name sts)"

lemma fold_update_other:
  "k \<notin> f ` set xs \<Longrightarrow> fold (\<lambda>x m. m(f x \<mapsto> g x)) xs m0 k = m0 k"
  by (induction xs arbitrary: m0) auto

lemma fold_update_distinct:
  "distinct (map f xs) \<Longrightarrow> x \<in> set xs \<Longrightarrow> fold (\<lambda>x m. m(f x \<mapsto> g x)) xs m0 (f x) = Some (g x)"
  by (induction xs arbitrary: m0) (auto simp: fold_update_other)

lemma by_name_step:
  "names_ok sts \<Longrightarrow> st \<in> set sts \<Longrightarrow> by_name sts (step_name st) = Some st"
  using fold_update_distinct [of step_name sts st "\<lambda>x. x"] by (simp add: by_name_def names_ok_def)

lemma logged_steps_of:
  assumes "names_ok sts" and "set (map fst d) \<subseteq> set sts" and "distinct (map fst d)"
    and "set cs \<subseteq> set d"
  shows "logged_steps sts (make_snapshot s status d p) (map (\<lambda>cs. step_name (fst cs)) cs) = cs"
  using assms(4)
proof (induction cs)
  case (Cons x cs)
  have inj: "inj_on step_name (set sts)" using assms(1) by (simp add: names_ok_def distinct_map)
  have "distinct (map (\<lambda>cs. step_name (fst cs)) d)"
    using assms(2,3) comp_inj_on [of fst "set d" step_name] inj_on_subset [OF inj]
    by (simp add: distinct_map comp_def)
  then have "sn_results (make_snapshot s status d p) (step_name (fst x)) = Some (snd x)"
    using Cons.prems fold_update_distinct [of "\<lambda>cs. step_name (fst cs)" d x snd]
    by (simp add: make_snapshot_def)
  moreover have "by_name sts (step_name (fst x)) = Some (fst x)"
    using Cons.prems assms(2) by (intro by_name_step [OF assms(1)]) auto
  ultimately show ?case using Cons by (simp add: logged_steps_def map_filter_simps)
qed (simp add: logged_steps_def map_filter_simps)

lemma to_compensate_of:
  assumes "names_ok sts" and "set (map fst d) \<subseteq> set sts" and "distinct (map fst d)"
    and "case p of None \<Rightarrow> True | Some st \<Rightarrow> st \<in> set sts"
  shows "to_compensate sts (make_snapshot s status d (case p of None \<Rightarrow> [] | Some st \<Rightarrow> step_name st)) =
    (case p of None \<Rightarrow> [] | Some st \<Rightarrow> [(st, None)]) @ rev d"
proof -
  have "logged_steps sts (make_snapshot s status d q) (rev (map (\<lambda>cs. step_name (fst cs)) d)) = rev d" for q
    using logged_steps_of [OF assms(1-3), of "rev d"] by (simp add: rev_map)
  moreover have "step_name st \<noteq> []" if "st \<in> set sts" for st
    using that assms(1) by (force simp: names_ok_def)
  ultimately show ?thesis
    using assms(4) by_name_step [OF assms(1)]
    by (cases p) (simp_all add: to_compensate_def make_snapshot_def)
qed

context reliable_store
begin

text \<open>Recovery of a logged saga that was under way: the in-flight step, then the completed ones.\<close>

lemma recover_running:
  assumes c: "co_store c = Some api"
    and snap: "log (log_store x) (saga_id s) =
      Some (make_snapshot s StatusRunning d (case p of None \<Rightarrow> [] | Some st \<Rightarrow> step_name st))"
    and names: "names_ok (steps s)" and d: "set (map fst d) \<subseteq> set (steps s)" "distinct (map fst d)"
    and p: "case p of None \<Rightarrow> True | Some st \<Rightarrow> st \<in> set (steps s)"
  shows "\<exists>ks es res x'. recover c s (x, None) = (Some (res, None), (x', None)) \<and>
     rollback ((case p of None \<Rightarrow> [] | Some st \<Rightarrow> [(st, None)]) @ rev d) ks es \<and>
     calls x' = calls x @ ks \<and> res_status res = undo_status es \<and> res_errors res = es \<and>
     log (log_store x') (saga_id s) = Some (make_snapshot s (undo_status es) d [])"
proof -
  let ?snap = "make_snapshot s StatusRunning d (case p of None \<Rightarrow> [] | Some st \<Rightarrow> step_name st)"
  let ?res0 = "\<lparr>res_status = StatusCompensated, res_results = sn_results ?snap, res_errors = []\<rparr>"
  define x1 where "x1 = x\<lparr>log_store := snd (st_load api (saga_id s) (log_store x))\<rparr>"
  have l: "fst (st_load api (saga_id s) (log_store x)) = Inr ?snap"
    using snap by (simp add: load)
  have running: "sn_status ?snap = StatusRunning" by (simp add: make_snapshot_def)
  have tc: "to_compensate (steps s) ?snap = (case p of None \<Rightarrow> [] | Some st \<Rightarrow> [(st, None)]) @ rev d"
    by (rule to_compensate_of [OF names d p])
  have completed: "logged_steps (steps s) ?snap (sn_completed ?snap) = d"
    using logged_steps_of [OF names d subset_refl] by (simp add: make_snapshot_def)
  obtain ks es x2 where comp: "compensate_loop c ((case p of None \<Rightarrow> [] | Some st \<Rightarrow> [(st, None)]) @ rev d)
        ?res0 (x1, None) = (Some (note_failures es ?res0), (x2, None))"
    and rb: "rollback ((case p of None \<Rightarrow> [] | Some st \<Rightarrow> [(st, None)]) @ rev d) ks es"
    and x2: "calls x2 = calls x1 @ ks" using compensate_loop_runs by blast
  define res where "res = note_failures es ?res0"
  have res: "res_status res = undo_status es" "res_errors res = es"
    by (simp_all add: res_def note_failures_def undo_status_def)
  obtain x3 where fin: "finish c s res d (x2, None) = (Some (), (x3, None))" and x3: "calls x3 = calls x2"
    and last: "final_log c s (res_status res) d (log_store x3)"
    using finish_runs [of c s res d x2] by auto
  have "recover c s (x, None) = (Some (res, None), (x3, None))"
    using l running comp fin c
    by (simp add: recover_def crash_simps tc completed compensate_ordered_def x1_def res_def split_beta)
  moreover have "log (log_store x3) (saga_id s) = Some (make_snapshot s (undo_status es) d [])"
    using last c res by (auto simp: final_log_def save undo_status_def split: if_splits)
  ultimately show ?thesis using rb x2 x3 res by (auto simp: x1_def)
qed

lemma recover_ended:
  assumes c: "co_store c = Some api"
    and "log (log_store x) (saga_id s) = Some snap" and "sn_status snap \<noteq> StatusRunning"
  shows "\<exists>x'. recover c s (x, None) = (Some (zero_result (sn_status snap), None), (x', None)) \<and>
    calls x' = calls x \<and> world x' = world x \<and> log (log_store x') = log (log_store x)"
  using assms load by (simp add: recover_def crash_simps split_beta)

lemma recover_nothing:
  assumes c: "co_store c = Some api" and "log (log_store x) (saga_id s) = None"
  shows "\<exists>x'. recover c s (x, None) = (Some (zero_result StatusCommitted, None), (x', None)) \<and>
    calls x' = calls x \<and> world x' = world x \<and> log (log_store x') = log (log_store x)"
  using assms load by (simp add: recover_def crash_simps split_beta)

lemma recover_after_crash:
  assumes c: "co_store c = Some api" and names: "names_ok (steps s)"
    and none: "log (log_store x) (saga_id s) = None"
    and crash: "execute c s (x, b) = (None, (x1, b'))"
  shows "\<exists>d p us ks es res x2.
    calls x1 = calls x @ map act_call d @ us \<and> in_flight_calls p us \<and>
    (\<exists>post. steps s = map fst d @ (case p of None \<Rightarrow> [] | Some st \<Rightarrow> [st]) @ post) \<and>
    recover c s (x1, None) = (Some (res, None), (x2, None)) \<and> calls x2 = calls x1 @ ks \<and>
    rollback ((case p of None \<Rightarrow> [] | Some st \<Rightarrow> [(st, None)]) @ rev d) ks es \<and> res_errors res = es \<and>
    res_status res = (if d = [] \<and> p = None then StatusCommitted else undo_status es) \<and>
    (\<exists>x3. recover c s (x2, None) = (Some (zero_result (res_status res), None), (x3, None)) \<and>
      calls x3 = calls x2 \<and> world x3 = world x2)"
proof -
  have "log (log_store x) (saga_id s) = running_log s [] None" using none by (simp add: running_log_def)
  from execute_loop_crash [OF c this crash [unfolded execute_def]] obtain ks0
    where ks0: "calls x1 = calls x @ ks0" and "crashed_at s [] (steps s) (log (log_store x1) (saga_id s)) ks0"
    by blast
  then obtain d p us where ks: "ks0 = map act_call d @ us" "in_flight_calls p us"
    and pre: "case p of None \<Rightarrow> \<exists>post. steps s = map fst d @ post
      | Some st \<Rightarrow> \<exists>post. steps s = map fst d @ st # post"
    and entry: "log (log_store x1) (saga_id s) = running_log s d p"
    unfolding crashed_at_def by auto
  have split: "\<exists>post. steps s = map fst d @ (case p of None \<Rightarrow> [] | Some st \<Rightarrow> [st]) @ post"
    using pre by (cases p) auto
  show ?thesis
  proof (cases "d = [] \<and> p = None")
    case True
    then have "log (log_store x1) (saga_id s) = None" using entry by (simp add: running_log_def)
    from recover_nothing [OF c this] obtain x2 where x2:
      "recover c s (x1, None) = (Some (zero_result StatusCommitted, None), (x2, None))" "calls x2 = calls x1"
      "log (log_store x2) (saga_id s) = None"
      using \<open>log (log_store x1) (saga_id s) = None\<close> by auto
    show ?thesis
      using True ks0 ks split x2 recover_nothing [OF c x2(3)] rollback.nothing
      by (intro exI [of _ d] exI [of _ p] exI [of _ us] exI [of _ "[]"] exI [of _ "[]"]
          exI [of _ "zero_result StatusCommitted"] exI [of _ x2]) (auto simp: zero_result_def)
  next
    case False
    then have snap: "log (log_store x1) (saga_id s) =
        Some (make_snapshot s StatusRunning d (case p of None \<Rightarrow> [] | Some st \<Rightarrow> step_name st))"
      using entry by (simp add: running_log_def split: if_splits)
    have "distinct (steps s)" using names by (auto simp: names_ok_def distinct_map)
    obtain rest where rest: "steps s = map fst d @ rest" using split by blast
    have d: "set (map fst d) \<subseteq> set (steps s)" "distinct (map fst d)"
      using \<open>distinct (steps s)\<close> unfolding rest by simp_all
    have p: "case p of None \<Rightarrow> True | Some st \<Rightarrow> st \<in> set (steps s)"
      using split by (cases p) auto
    from recover_running [OF c snap names d p] obtain rs es res x2 where
      r: "recover c s (x1, None) = (Some (res, None), (x2, None))"
        "rollback ((case p of None \<Rightarrow> [] | Some st \<Rightarrow> [(st, None)]) @ rev d) rs es"
        "calls x2 = calls x1 @ rs" "res_status res = undo_status es" "res_errors res = es"
        "log (log_store x2) (saga_id s) = Some (make_snapshot s (undo_status es) d [])" by blast
    have "sn_status (make_snapshot s (undo_status es) d []) = undo_status es"
      and "undo_status es \<noteq> StatusRunning" by (simp_all add: make_snapshot_def undo_status_def)
    then obtain x3 where "recover c s (x2, None) = (Some (zero_result (res_status res), None), (x3, None))"
      "calls x3 = calls x2" "world x3 = world x2"
      using recover_ended [OF c r(6)] r(4) by auto
    then show ?thesis
      using False ks0 ks split r
      by (intro exI [of _ d] exI [of _ p] exI [of _ us] exI [of _ rs] exI [of _ es]
          exI [of _ res] exI [of _ x2]) auto
  qed
qed

end


section \<open>Execution and recovery with the in-memory store\<close>

text \<open>A sample saga whose world is a ledger; the third step fails.\<close>

definition sample_step :: "string \<Rightarrow> nat \<Rightarrow> bool \<Rightarrow> (string list, nat, unit) step" where
  "sample_step name v works =
     \<lparr>step_name = name,
      action = (\<lambda>w. if works then ((Some v, None), name # w) else ((None, Some ''down''), w)),
      compensate_fn = Some (\<lambda>_ w. (None, remove1 name w)),
      retry = ()\<rparr>"

definition sample_saga :: "(string list, nat, unit) saga" where
  "sample_saga = \<lparr>saga_id = ''order-1'', saga_method = ''place'',
     steps = [sample_step ''reserve'' 1 True, sample_step ''charge'' 2 True, sample_step ''ship'' 3 False]\<rparr>"

definition sample_coordinator :: "(string list, nat memory_store, nat, unit) coordinator" where
  "sample_coordinator = \<lparr>co_store = Some memory_store, is_zero = (\<lambda>_. True), policy_exec = (\<lambda>_ _ f. f)\<rparr>"

definition sample_start :: "(string list, nat memory_store, nat) saga_state" where
  "sample_start = \<lparr>world = [], log_store = None, calls = []\<rparr>"

text \<open>
  Property C11: execution that is not interrupted returns. Either all actions
  succeed, in the order of the steps, and the saga is committed without an
  error and leaves no log; or the first failing action's error is returned,
  the steps before it are rolled back in reverse order, each with the result
  its action gave, nothing behind it runs, and the result and the log carry the status
  and every failure.
\<close>

theorem saga_execution:
  fixes c :: "('w, 'v memory_store, 'v, 'p) coordinator"
  shows "\<exists>res err x' d. execute c s (x, None) = (Some (res, err), (x', None)) \<and>
    ((err = None \<and> res_status res = StatusCommitted \<and> res_errors res = [] \<and> map fst d = steps s \<and>
        calls x' = calls x @ map act_call d) \<or>
     (\<exists>st post r e us fs. steps s = map fst d @ st # post \<and>
        calls x' = calls x @ map act_call d @ ActionCall (step_name st) r (Some e) # us \<and>
        rollback (rev d) us fs \<and> err = Some e \<and> res_status res = undo_status fs \<and>
        res_errors res = failed_action st e # fs)) \<and>
    (co_store c = Some memory_store \<longrightarrow> ms_lookup (log_store x') (saga_id s) =
       (if err = None then None else Some (make_snapshot s (res_status res) d [])))"
proof -
  obtain res err x' ks d where run: "execute c s (x, None) = (Some (res, err), (x', None))"
    and o: "saga_outcome [] (steps s) ks (res_errors res) err (res_status res) d"
    and calls: "calls x' = calls x @ ks" and last: "final_log c s (res_status res) d (log_store x')"
    using execute_loop_runs [of "\<lparr>res_status = StatusCommitted, res_results = (\<lambda>_. None), res_errors = []\<rparr>"
        c s "steps s" "[]" x]
    unfolding execute_def by auto
  note form = saga_outcome_form [OF o, unfolded append_Nil]
  have status: "res_status res = StatusCommitted \<longleftrightarrow> err = None"
    using form by (auto simp: undo_status_def split: if_splits)
  have "ms_lookup (log_store x') (saga_id s) =
      (if err = None then None else Some (make_snapshot s (res_status res) d []))"
    if "co_store c = Some memory_store"
    using last that by (auto simp: final_log_def status mem.save mem.delete)
  then show ?thesis
    using form calls run
    by (intro exI [of _ res] exI [of _ err] exI [of _ x'] exI [of _ d]) fastforce
qed

theorem saga_execution_witness:
  "\<exists>res err x' d. execute sample_coordinator sample_saga (sample_start, None) = (Some (res, err), (x', None)) \<and>
     ms_lookup (log_store x') ''order-1'' =
       (if err = None then None else Some (make_snapshot sample_saga (res_status res) d []))"
proof -
  have "co_store sample_coordinator = Some memory_store" and "saga_id sample_saga = ''order-1''"
    by (simp_all add: sample_coordinator_def sample_saga_def)
  then show ?thesis
    using saga_execution [of sample_coordinator sample_saga sample_start] by metis
qed

text \<open>The run itself: two actions, the failing third, two compensations with the results of their actions.\<close>

lemma sample_execution:
  "calls (fst (snd (execute sample_coordinator sample_saga (sample_start, None)))) =
     [ActionCall ''reserve'' (Some 1) None, ActionCall ''charge'' (Some 2) None,
      ActionCall ''ship'' None (Some ''down''),
      CompensateCall ''charge'' (Some 2) None, CompensateCall ''reserve'' (Some 1) None]"
  by code_simp

text \<open>
  Property C9: a saga with distinct non-empty step names and no log recovers
  from a crash before any of its effects. \<open>d\<close> are the steps whose results the
  log knows and \<open>p\<close> is the one in flight; the actions that ran are those of \<open>d\<close>
  and at most that of \<open>p\<close>. \<open>Recover\<close> then rolls back \<open>p\<close>, without a result, and
  \<open>d\<close> in reverse order with the results, reports every failure, and leaves a log
  with which a second \<open>Recover\<close> calls nothing and reports the same status.
\<close>

theorem crash_recovery:
  fixes c :: "('w, 'v memory_store, 'v, 'p) coordinator"
  assumes "co_store c = Some memory_store" and "names_ok (steps s)"
    and "ms_lookup (log_store x) (saga_id s) = None"
    and "execute c s (x, b) = (None, (x1, b'))"
  shows "\<exists>d p us ks es res x2.
    calls x1 = calls x @ map act_call d @ us \<and> in_flight_calls p us \<and>
    (\<exists>post. steps s = map fst d @ (case p of None \<Rightarrow> [] | Some st \<Rightarrow> [st]) @ post) \<and>
    recover c s (x1, None) = (Some (res, None), (x2, None)) \<and> calls x2 = calls x1 @ ks \<and>
    rollback ((case p of None \<Rightarrow> [] | Some st \<Rightarrow> [(st, None)]) @ rev d) ks es \<and> res_errors res = es \<and>
    res_status res = (if d = [] \<and> p = None then StatusCommitted else undo_status es) \<and>
    (\<exists>x3. recover c s (x2, None) = (Some (zero_result (res_status res), None), (x3, None)) \<and>
      calls x3 = calls x2 \<and> world x3 = world x2)"
  by (rule mem.recover_after_crash [OF assms])

text \<open>A crash after the second action ran and before this was logged.\<close>

definition sample_crashed :: "(string list, nat memory_store, nat) saga_state" where
  "sample_crashed = fst (snd (execute sample_coordinator sample_saga (sample_start, Some 5)))"

lemma sample_crash:
  "execute sample_coordinator sample_saga (sample_start, Some 5) = (None, (sample_crashed, Some 0))"
proof (rule prod_eqI)
  show "fst (execute sample_coordinator sample_saga (sample_start, Some 5)) = fst (None, (sample_crashed, Some 0))"
  proof -
    have "Option.is_none (fst (execute sample_coordinator sample_saga (sample_start, Some 5)))"
      by code_simp
    then show ?thesis by (simp add: Option.is_none_def)
  qed
  show "snd (execute sample_coordinator sample_saga (sample_start, Some 5)) = snd (None, (sample_crashed, Some 0))"
    unfolding sample_crashed_def by (rule prod_eqI) (simp, code_simp)
qed

theorem crash_recovery_witness:
  "calls sample_crashed = [ActionCall ''reserve'' (Some 1) None, ActionCall ''charge'' (Some 2) None] \<and>
   (\<exists>res x2 x3. recover sample_coordinator sample_saga (sample_crashed, None) = (Some (res, None), (x2, None)) \<and>
      recover sample_coordinator sample_saga (x2, None) =
        (Some (zero_result (res_status res), None), (x3, None)) \<and> calls x3 = calls x2)"
proof
  show "calls sample_crashed = [ActionCall ''reserve'' (Some 1) None, ActionCall ''charge'' (Some 2) None]"
    by code_simp
  have "co_store sample_coordinator = Some memory_store" by (simp add: sample_coordinator_def)
  moreover have "names_ok (steps sample_saga)"
    by (simp add: names_ok_def sample_saga_def sample_step_def)
  moreover have "ms_lookup (log_store sample_start) (saga_id sample_saga) = None"
    by (simp add: sample_start_def ms_lookup_def)
  ultimately show "\<exists>res x2 x3. recover sample_coordinator sample_saga (sample_crashed, None) =
      (Some (res, None), (x2, None)) \<and>
      recover sample_coordinator sample_saga (x2, None) =
        (Some (zero_result (res_status res), None), (x3, None)) \<and> calls x3 = calls x2"
    using crash_recovery [OF _ _ _ sample_crash] by blast
qed

lemma sample_recovery:
  "calls (fst (snd (recover sample_coordinator sample_saga (sample_crashed, None)))) =
     calls sample_crashed @ [CompensateCall ''charge'' None None, CompensateCall ''reserve'' (Some 1) None]"
  by code_simp

text \<open>
  Recovery skips logged steps whose definition the caller does not
  supply. If it knows none of them it calls nothing, reports that the saga has
  been compensated, and the terminal log it leaves keeps later recoveries from
  acting.
\<close>

theorem unknown_steps_compensated:
  fixes c :: "('w, 'v memory_store, 'v, 'p) coordinator"
  assumes c: "co_store c = Some memory_store"
    and snap: "ms_lookup (log_store x) (saga_id s) = Some snap" "sn_status snap = StatusRunning"
    and unknown: "\<forall>name \<in> insert (sn_in_progress snap) (set (sn_completed snap)).
      name \<notin> step_name ` set (steps s)"
  shows "\<exists>res x'. recover c s (x, None) = (Some (res, None), (x', None)) \<and>
    res_status res = StatusCompensated \<and> res_errors res = [] \<and> calls x' = calls x \<and> world x' = world x \<and>
    ms_lookup (log_store x') (saga_id s) = Some (make_snapshot s StatusCompensated [] [])"
proof -
  have none: "by_name (steps s) name = None" if "name \<in> insert (sn_in_progress snap) (set (sn_completed snap))" for name
    using fold_update_other [of name step_name "steps s" "\<lambda>st. st" "\<lambda>_. None"] unknown that
    by (auto simp: by_name_def)
  then have "logged_steps (steps s) snap names = []" if "set names \<subseteq> set (sn_completed snap)" for names
    using that by (induction names) (simp_all add: logged_steps_def map_filter_simps)
  then have "logged_steps (steps s) snap (sn_completed snap) = []" "to_compensate (steps s) snap = []"
    using none by (simp_all add: to_compensate_def)
  moreover have "fst (st_load memory_store (saga_id s) (log_store x)) = Inr snap"
    using snap(1) by (simp add: mem.load)
  ultimately show ?thesis
    using c snap(2)
    by (simp add: recover_def crash_simps compensate_ordered_def finish_def split_beta mem.save)
qed

theorem unknown_steps_compensated_witness:
  "calls sample_crashed \<noteq> [] \<and>
   (\<exists>res x'. recover sample_coordinator (sample_saga\<lparr>steps := []\<rparr>) (sample_crashed, None) =
        (Some (res, None), (x', None)) \<and>
      res_status res = StatusCompensated \<and> calls x' = calls sample_crashed)"
proof
  show "calls sample_crashed \<noteq> []" by code_simp
  have c: "co_store sample_coordinator = Some memory_store" by (simp add: sample_coordinator_def)
  obtain snap where snap: "ms_lookup (log_store sample_crashed) (saga_id (sample_saga\<lparr>steps := []\<rparr>)) = Some snap"
    "sn_status snap = StatusRunning"
  proof -
    have "ms_lookup (log_store sample_crashed) (saga_id (sample_saga\<lparr>steps := []\<rparr>)) \<noteq> None"
      "sn_status (the (ms_lookup (log_store sample_crashed) (saga_id (sample_saga\<lparr>steps := []\<rparr>)))) = StatusRunning"
      by code_simp+
    then show thesis using that by auto
  qed
  show "\<exists>res x'. recover sample_coordinator (sample_saga\<lparr>steps := []\<rparr>) (sample_crashed, None) =
        (Some (res, None), (x', None)) \<and>
      res_status res = StatusCompensated \<and> calls x' = calls sample_crashed"
    using unknown_steps_compensated [OF c snap] by auto
qed


end
