(* ===== verification/CloudCron.thy ===== *)
theory CloudCron
  imports GoNum "HOL-Library.Word"
begin

text \<open>
  Triggers of the scheduler: cron expressions (\<^verbatim>\<open>src/cloud/scheduling/cron.go\<close>)
  and the fixed-interval triggers (\<^verbatim>\<open>src/cloud/scheduling/trigger.go\<close>).

  A cron field is a 64-bit mask, and the loop that fills it counts in 64-bit
  integers, which wrap. \<open>Next\<close> walks the Gregorian calendar; times are civil
  dates in a location whose offset from UTC does not change, so
  \<open>time.Date\<close>, \<open>AddDate\<close> and \<open>Add\<close> are calendar steps. A loop that is not
  structurally bounded yields an option, \<open>None\<close> for not returning.
\<close>

unbundle bit_operations_syntax

section \<open>Parsing\<close>

datatype cron_error =
    UnknownMacro string
  | FieldCount nat
  | FieldError string string cron_error
  | InvalidStep string
  | InvalidRange string
  | InvalidValue string
  | OutOfRange int int string

text \<open>\<open>strings.Fields\<close>; \<open>acc\<close> holds the field being read, backwards.\<close>

fun fields_from :: "string \<Rightarrow> string \<Rightarrow> string list" where
  "fields_from acc [] = (if acc = [] then [] else [rev acc])"
| "fields_from acc (c # s) =
     (if is_space c then (if acc = [] then fields_from [] s else rev acc # fields_from [] s)
      else fields_from (c # acc) s)"

definition string_fields :: "string \<Rightarrow> string list" where
  "string_fields s = fields_from [] s"

text \<open>The range and the step of one part of a field.\<close>

definition parse_cron_part :: "string \<Rightarrow> int \<Rightarrow> int \<Rightarrow> (cron_error, int \<times> int \<times> int) result" where
  "parse_cron_part part lo0 hi0 =
     rbind (case cut_char part (CHR ''/'') of
              None \<Rightarrow> Inr (part, 1)
            | Some (before, after) \<Rightarrow>
                (case atoi after of
                   Some n \<Rightarrow> if n \<le> 0 then Inl (InvalidStep part) else Inr (before, n)
                 | None \<Rightarrow> Inl (InvalidStep part)))
       (\<lambda>(range_part, step).
     rbind (if range_part = ''*'' then Inr (lo0, hi0)
            else case cut_char range_part (CHR ''-'') of
              Some (before, after) \<Rightarrow>
                (case atoi before of
                   None \<Rightarrow> Inl (InvalidRange part)
                 | Some a \<Rightarrow> (case atoi after of
                     None \<Rightarrow> Inl (InvalidRange part)
                   | Some b \<Rightarrow> Inr (a, b)))
            | None \<Rightarrow>
                (case atoi range_part of
                   None \<Rightarrow> Inl (InvalidValue part)
                 | Some a \<Rightarrow> Inr (a, a)))
       (\<lambda>(lo, hi).
     if lo < lo0 \<or> hi0 < hi \<or> hi < lo then Inl (OutOfRange lo0 hi0 part)
     else Inr (lo, hi, step)))"

text \<open>\<open>1 << uint(v)\<close>: a negative \<open>v\<close> is a huge shift, which gives 0.\<close>

definition shl1 :: "int \<Rightarrow> 64 word" where
  "shl1 v = (if 0 \<le> v \<and> v < 64 then push_bit (nat v) 1 else 0)"

partial_function (option) set_bits_loop :: "int \<Rightarrow> int \<Rightarrow> int \<Rightarrow> 64 word \<Rightarrow> 64 word option" where
  "set_bits_loop v hi step bits =
     (if v \<le> hi then set_bits_loop (int_add v step) hi step (bits OR shl1 v) else Some bits)"

declare set_bits_loop.simps [code]

text \<open>The loop over the parts; \<open>None\<close> if it does not return.\<close>

fun parse_parts ::
  "string list \<Rightarrow> int \<Rightarrow> int \<Rightarrow> 64 word \<Rightarrow> (cron_error, 64 word) result option" where
  "parse_parts [] lo0 hi0 bits = Some (Inr bits)"
| "parse_parts (part # parts) lo0 hi0 bits =
     (case parse_cron_part part lo0 hi0 of
        Inl e \<Rightarrow> Some (Inl e)
      | Inr (lo, hi, step) \<Rightarrow>
          (case set_bits_loop lo hi step bits of
             None \<Rightarrow> None
           | Some bits' \<Rightarrow> parse_parts parts lo0 hi0 bits'))"

definition parse_cron_field ::
  "string \<Rightarrow> int \<Rightarrow> int \<Rightarrow> string \<Rightarrow> (cron_error, 64 word \<times> bool) result option" where
  "parse_cron_field field lo0 hi0 name =
     (let restricted = (field \<noteq> ''*'') in
      map_option (\<lambda>r. case r of
          Inl e \<Rightarrow> Inl (FieldError name field e)
        | Inr bits \<Rightarrow> Inr (bits, restricted))
        (parse_parts (split_char field (CHR '','')) lo0 hi0 0))"

record cron_spec =
  cs_minute :: "64 word"
  cs_hour :: "64 word"
  cs_day_of_month :: "64 word"
  cs_month :: "64 word"
  cs_day_of_week :: "64 word"
  cs_day_of_month_restricted :: bool
  cs_day_of_week_restricted :: bool

definition cron_macros :: "(string \<times> string) list" where
  "cron_macros =
     [(''@yearly'', ''0 0 1 1 *''),
      (''@annually'', ''0 0 1 1 *''),
      (''@monthly'', ''0 0 1 * *''),
      (''@weekly'', ''0 0 * * 0''),
      (''@daily'', ''0 0 * * *''),
      (''@midnight'', ''0 0 * * *''),
      (''@hourly'', ''0 * * * *'')]"

definition normalize_sunday :: "64 word \<Rightarrow> 64 word" where
  "normalize_sunday w = (if w AND shl1 7 \<noteq> 0 then (w AND NOT (shl1 7)) OR 1 else w)"

definition parse_cron :: "string \<Rightarrow> (cron_error, cron_spec) result option" where
  "parse_cron expr0 =
     (let expr1 = trim_space expr0 in
      case (if has_prefix expr1 ''@''
            then (case map_of cron_macros expr1 of
                    Some m \<Rightarrow> Inr m
                  | None \<Rightarrow> Inl (UnknownMacro expr1))
            else Inr expr1) of
        Inl e \<Rightarrow> Some (Inl e)
      | Inr expr \<Rightarrow>
          (case string_fields expr of
             [f0, f1, f2, f3, f4] \<Rightarrow>
               fbind (parse_cron_field f0 0 59 ''minute'') (\<lambda>(mi, _).
               fbind (parse_cron_field f1 0 23 ''hour'') (\<lambda>(h, _).
               fbind (parse_cron_field f2 1 31 ''day-of-month'') (\<lambda>(dm, dmr).
               fbind (parse_cron_field f3 1 12 ''month'') (\<lambda>(mo, _).
               fbind (parse_cron_field f4 0 7 ''day-of-week'') (\<lambda>(dw, dwr).
                 Some (Inr \<lparr>cs_minute = mi, cs_hour = h, cs_day_of_month = dm, cs_month = mo,
                   cs_day_of_week = normalize_sunday dw, cs_day_of_month_restricted = dmr,
                   cs_day_of_week_restricted = dwr\<rparr>))))))
           | fs \<Rightarrow> Some (Inl (FieldCount (length fs)))))"

section \<open>The loop that fills a field\<close>

lemma int_add_over:
  assumes "2 ^ 63 \<le> a + b" and "a + b < 2 ^ 64"
  shows "int_add a b = a + b - 2 ^ 64"
proof -
  have "(a + b + 2 ^ 63) mod 2 ^ 64 = ((a + b + 2 ^ 63 - 2 ^ 64) + 2 ^ 64) mod 2 ^ 64"
    by (simp only: diff_add_cancel)
  also have "\<dots> = (a + b + 2 ^ 63 - 2 ^ 64) mod 2 ^ 64" by (rule mod_add_self2)
  also have "\<dots> = a + b + 2 ^ 63 - 2 ^ 64"
    using assms by (intro mod_pos_pos_trivial) simp_all
  finally show ?thesis by (simp add: int_add_def)
qed

lemma bit_shl1: "bit (shl1 v) n \<longleftrightarrow> v = int n \<and> n < 64"
  by (auto simp: shl1_def bit_exp_iff)

lemma bit_or_shl1: "bit (b OR shl1 v) n \<longleftrightarrow> bit b n \<or> (v = int n \<and> n < 64)"
  by (simp add: bit_or_iff bit_shl1)

lemma set_bits_stop: "hi < v \<Longrightarrow> set_bits_loop v hi step b = Some b"
  by (subst set_bits_loop.simps) simp

lemma set_bits_go:
  "v \<le> hi \<Longrightarrow> set_bits_loop v hi step b = set_bits_loop (int_add v step) hi step (b OR shl1 v)"
  by (subst set_bits_loop.simps) simp

text \<open>Without overflow the loop sets the multiples of the step, counted from the start, up to the end.\<close>

lemma set_bits_exact:
  assumes "0 < step" and "hi + step < 2 ^ 63" and "0 \<le> v" and "hi < 64"
  shows "\<exists>b'. set_bits_loop v hi step b = Some b' \<and>
    (\<forall>n. bit b' n \<longleftrightarrow> bit b n \<or> (\<exists>k :: nat. int n = v + int k * step \<and> int n \<le> hi))"
  using assms(3)
proof (induction "nat (hi + 1 - v)" arbitrary: v b rule: less_induct)
  case less
  show ?case
  proof (cases "v \<le> hi")
    case False
    have none: "\<not> (\<exists>k :: nat. int n = v + int k * step \<and> int n \<le> hi)" for n
    proof
      assume "\<exists>k :: nat. int n = v + int k * step \<and> int n \<le> hi"
      then obtain k :: nat where "v + int k * step \<le> hi" by auto
      moreover have "0 \<le> int k * step" using assms(1) by simp
      ultimately show False using False by simp
    qed
    then show ?thesis using False none set_bits_stop [of hi v step b] by auto
  next
    case True
    have add: "int_add v step = v + step"
      using True assms(1,2) less.prems by (intro int_add_in) simp_all
    have "nat (hi + 1 - (v + step)) < nat (hi + 1 - v)" "0 \<le> v + step"
      using True assms(1) less.prems by simp_all
    from less.hyps [OF this, of "b OR shl1 v"] obtain b' where
      run: "set_bits_loop (v + step) hi step (b OR shl1 v) = Some b'" and
      bits: "\<forall>n. bit b' n \<longleftrightarrow> bit (b OR shl1 v) n \<or>
        (\<exists>k :: nat. int n = v + step + int k * step \<and> int n \<le> hi)" by blast
    have split: "(\<exists>k :: nat. x = v + int k * step) \<longleftrightarrow>
        x = v \<or> (\<exists>k :: nat. x = v + step + int k * step)" for x
    proof
      assume "\<exists>k :: nat. x = v + int k * step"
      then obtain k :: nat where k: "x = v + int k * step" by blast
      show "x = v \<or> (\<exists>k :: nat. x = v + step + int k * step)"
      proof (cases k)
        case (Suc j)
        then have "x = v + step + int j * step" using k by (simp add: algebra_simps)
        then show ?thesis by blast
      qed (use k in simp)
    next
      assume "x = v \<or> (\<exists>k :: nat. x = v + step + int k * step)"
      then show "\<exists>k :: nat. x = v + int k * step"
      proof
        assume "x = v" then show ?thesis by (intro exI [of _ 0]) simp
      next
        assume "\<exists>k :: nat. x = v + step + int k * step"
        then obtain k :: nat where "x = v + step + int k * step" by blast
        then show ?thesis by (intro exI [of _ "Suc k"]) (simp add: algebra_simps)
      qed
    qed
    have "bit b' n \<longleftrightarrow> bit b n \<or> (\<exists>k :: nat. int n = v + int k * step \<and> int n \<le> hi)" for n
      using bits [rule_format, of n] split [of "int n"] True assms(4)
      by (auto simp: bit_or_shl1)
    then show ?thesis using True run by (simp add: set_bits_go add)
  qed
qed

text \<open>Also when the counter overflows, the loop ends: every two rounds bring it closer to 0.\<close>

lemma set_bits_overflow_returns:
  assumes "2 ^ 63 \<le> hi + step" and "step < 2 ^ 63" and "hi < 64" and "0 \<le> hi"
  shows "- 128 \<le> v \<Longrightarrow> v \<le> hi \<Longrightarrow> \<exists>b'. set_bits_loop v hi step b = Some b'"
proof (induction "nat (v + 128)" arbitrary: v b rule: less_induct)
  case less
  show ?case
  proof (cases "v + step < 2 ^ 63")
    case True
    then have "int_add v step = v + step" using less.prems assms by (intro int_add_in) simp_all
    moreover have "hi < v + step" using less.prems assms by simp
    ultimately show ?thesis using less.prems by (simp add: set_bits_go set_bits_stop)
  next
    case False
    then have v: "0 \<le> v" "v < 64" using assms less.prems by simp_all
    have add: "int_add v step = v + step - 2 ^ 64"
      using False v assms by (intro int_add_over) simp_all
    have add2: "int_add (v + step - 2 ^ 64) step = v + 2 * step - 2 ^ 64"
      using False v assms by (subst int_add_in) simp_all
    have down: "nat (v + 2 * step - 2 ^ 64 + 128) < nat (v + 128)" "- 128 \<le> v + 2 * step - 2 ^ 64"
      "v + 2 * step - 2 ^ 64 \<le> hi" and low: "v + step - 2 ^ 64 \<le> hi"
      using v assms less.prems by simp_all
    have "set_bits_loop v hi step b = set_bits_loop (v + 2 * step - 2 ^ 64) hi step
        ((b OR shl1 v) OR shl1 (v + step - 2 ^ 64))"
      by (simp only: set_bits_go [OF less.prems(2)] add set_bits_go [OF low] add2)
    then show ?thesis using less.hyps [OF down] by simp
  qed
qed

lemma set_bits_returns:
  assumes "0 < step" and "step < 2 ^ 63" and "0 \<le> lo" and "lo \<le> hi" and "hi < 64"
  shows "\<exists>b'. set_bits_loop lo hi step b = Some b'"
proof (cases "hi + step < 2 ^ 63")
  case True
  then show ?thesis using set_bits_exact [of step hi lo b] assms by blast
next
  case False
  then show ?thesis using set_bits_overflow_returns [of hi step lo b] assms by simp
qed

section \<open>Fields\<close>

lemma atoi_range: "atoi s = Some n \<Longrightarrow> - (2 ^ 63) \<le> n \<and> n < 2 ^ 63"
  by (auto simp: atoi_def Let_def split: prod.splits if_splits)

lemma parse_cron_part_range:
  assumes "parse_cron_part part lo0 hi0 = Inr (lo, hi, step)"
  shows "lo0 \<le> lo" "lo \<le> hi" "hi \<le> hi0" "0 < step" "step < 2 ^ 63"
proof -
  from assms obtain range_part st where
    1: "(case cut_char part (CHR ''/'') of None \<Rightarrow> Inr (part, 1)
        | Some (before, after) \<Rightarrow> (case atoi after of
            Some n \<Rightarrow> if n \<le> 0 then Inl (InvalidStep part) else Inr (before, n)
          | None \<Rightarrow> Inl (InvalidStep part))) = Inr (range_part, st)"
    and "step = st" "\<not> (lo < lo0 \<or> hi0 < hi \<or> hi < lo)"
    unfolding parse_cron_part_def rbind_Inr_iff by (auto simp: rbind_Inr_iff split: if_splits)
  moreover have "0 < st" "st < 2 ^ 63"
    using 1 by (auto split: option.splits prod.splits if_splits dest: atoi_range)
  ultimately show "lo0 \<le> lo" "lo \<le> hi" "hi \<le> hi0" "0 < step" "step < 2 ^ 63" by simp_all
qed

text \<open>The values a list of parts names.\<close>

definition part_values :: "string \<Rightarrow> int \<Rightarrow> int \<Rightarrow> int set" where
  "part_values part lo0 hi0 = {x. \<exists>lo hi step. parse_cron_part part lo0 hi0 = Inr (lo, hi, step) \<and>
     (\<exists>k :: nat. x = lo + int k * step) \<and> x \<le> hi}"

text \<open>A step that cannot make the counter overflow.\<close>

definition part_small :: "string \<Rightarrow> int \<Rightarrow> int \<Rightarrow> bool" where
  "part_small part lo0 hi0 \<longleftrightarrow> (case parse_cron_part part lo0 hi0 of
     Inl e \<Rightarrow> True | Inr (lo, hi, step) \<Rightarrow> hi + step < 2 ^ 63)"

lemma parse_parts_returns:
  assumes "0 \<le> lo0" and "hi0 < 64"
  shows "\<exists>r. parse_parts parts lo0 hi0 b = Some r"
proof (induction parts arbitrary: b)
  case (Cons part parts)
  show ?case
  proof (cases "parse_cron_part part lo0 hi0")
    case (Inr q)
    obtain lo hi step where q: "q = (lo, hi, step)" by (cases q)
    note r = parse_cron_part_range [OF Inr [unfolded q]]
    obtain b' where "set_bits_loop lo hi step b = Some b'"
      using set_bits_returns [of step lo hi b] r assms by auto
    then show ?thesis using Cons Inr q by simp
  qed simp
qed simp

lemma parse_parts_exact:
  assumes "parse_parts parts lo0 hi0 b = Some (Inr b')" and "0 \<le> lo0" and "hi0 < 64"
    and "list_all (\<lambda>part. part_small part lo0 hi0) parts"
  shows "bit b' n \<longleftrightarrow> bit b n \<or> (\<exists>part \<in> set parts. int n \<in> part_values part lo0 hi0)"
  using assms(1,4)
proof (induction parts arbitrary: b)
  case (Cons part parts)
  then obtain lo hi step b1 where p: "parse_cron_part part lo0 hi0 = Inr (lo, hi, step)"
    and s: "set_bits_loop lo hi step b = Some b1" and rest: "parse_parts parts lo0 hi0 b1 = Some (Inr b')"
    by (auto split: sum.splits option.splits prod.splits)
  note r = parse_cron_part_range [OF p]
  have "hi + step < 2 ^ 63" using Cons.prems(2) p by (simp add: part_small_def)
  then have "bit b1 n \<longleftrightarrow> bit b n \<or> (\<exists>k :: nat. int n = lo + int k * step \<and> int n \<le> hi)"
    using set_bits_exact [of step hi lo b] r assms(2,3) s by auto
  then have "bit b1 n \<longleftrightarrow> bit b n \<or> int n \<in> part_values part lo0 hi0"
    using p by (auto simp: part_values_def)
  then show ?case using Cons.IH [OF rest] Cons.prems(2) by auto
qed simp


lemma parse_parts_error:
  assumes "0 \<le> lo0" and "hi0 < 64"
  shows "(\<exists>e. parse_parts parts lo0 hi0 b = Some (Inl e)) \<longleftrightarrow>
    (\<exists>part \<in> set parts. \<exists>e. parse_cron_part part lo0 hi0 = Inl e)"
proof (induction parts arbitrary: b)
  case (Cons part parts)
  show ?case
  proof (cases "parse_cron_part part lo0 hi0")
    case (Inr q)
    obtain lo hi step where q: "q = (lo, hi, step)" by (cases q)
    note r = parse_cron_part_range [OF Inr [unfolded q]]
    obtain b' where "set_bits_loop lo hi step b = Some b'"
      using set_bits_returns [of step lo hi b] r assms by auto
    then show ?thesis using Cons Inr q by simp
  qed simp
qed simp

text \<open>
  Property C33: parsing a cron field returns for every text. It fails exactly
  when one of the parts does; else the field counts as restricted exactly when it is not
  a bare star, and, when no end plus step reaches \<open>2^63\<close>, its mask has exactly the bits of
  the values that its parts name.
\<close>

theorem cron_field_exact:
  assumes "0 \<le> lo0" and "hi0 < 64"
  shows "\<exists>r. parse_cron_field field lo0 hi0 name = Some r \<and>
    ((\<exists>e. r = Inl e) \<longleftrightarrow>
       (\<exists>part \<in> set (split_char field (CHR '','')). \<exists>e. parse_cron_part part lo0 hi0 = Inl e)) \<and>
    (\<forall>b restricted. r = Inr (b, restricted) \<longrightarrow> restricted = (field \<noteq> ''*'') \<and>
       (list_all (\<lambda>part. part_small part lo0 hi0) (split_char field (CHR '','')) \<longrightarrow>
        (\<forall>n. bit b n \<longleftrightarrow>
           (\<exists>part \<in> set (split_char field (CHR '','')). int n \<in> part_values part lo0 hi0))))"
proof -
  let ?parts = "split_char field (CHR '','')"
  obtain q where q: "parse_parts ?parts lo0 hi0 0 = Some q" using parse_parts_returns [OF assms] by blast
  have err: "(\<exists>e. q = Inl e) \<longleftrightarrow> (\<exists>part \<in> set ?parts. \<exists>e. parse_cron_part part lo0 hi0 = Inl e)"
    using parse_parts_error [OF assms, of ?parts 0] q by simp
  show ?thesis
  proof (cases q)
    case (Inl e)
    then show ?thesis using q err by (simp add: parse_cron_field_def)
  next
    case (Inr b)
    have "bit b n \<longleftrightarrow> (\<exists>part \<in> set ?parts. int n \<in> part_values part lo0 hi0)"
      if "list_all (\<lambda>part. part_small part lo0 hi0) ?parts" for n
      using parse_parts_exact [OF q [unfolded Inr] assms that, of n] by simp
    then show ?thesis using q Inr err by (simp add: parse_cron_field_def)
  qed
qed

theorem cron_field_exact_witness:
  "\<exists>b. parse_cron_field ''1-7/3,20'' 0 59 ''minute'' = Some (Inr (b, True)) \<and>
     bit b 4 \<and> bit b 20 \<and> \<not> bit b 5 \<and> int 4 \<in> part_values ''1-7/3'' 0 59"
proof -
  have parts: "split_char ''1-7/3,20'' (CHR '','') = [''1-7/3'', ''20'']" by code_simp
  have p: "parse_cron_part ''1-7/3'' 0 59 = Inr (1, 7, 3)" "parse_cron_part ''20'' 0 59 = Inr (20, 20, 1)"
    by code_simp+
  obtain r where r: "parse_cron_field ''1-7/3,20'' 0 59 ''minute'' = Some r"
    and err: "(\<exists>e. r = Inl e) \<longleftrightarrow> (\<exists>part \<in> {''1-7/3'', ''20''}. \<exists>e. parse_cron_part part 0 59 = Inl e)"
    and ok: "\<forall>b restricted. r = Inr (b, restricted) \<longrightarrow> restricted \<and>
      (\<forall>n. bit b n \<longleftrightarrow> (\<exists>part \<in> {''1-7/3'', ''20''}. int n \<in> part_values part 0 59))"
    using cron_field_exact [of 0 59 "''1-7/3,20''" "''minute''"]
    by (auto simp: parts p part_small_def)
  obtain b where b: "r = Inr (b, True)" using err ok p by (cases r) auto
  have v: "int n \<in> part_values ''1-7/3'' 0 59 \<longleftrightarrow> (\<exists>k :: nat. int n = 1 + int k * 3) \<and> n \<le> 7"
    "int n \<in> part_values ''20'' 0 59 \<longleftrightarrow> (\<exists>k :: nat. int n = 20 + int k) \<and> n \<le> 20" for n
    by (auto simp: part_values_def p)
  have "(\<exists>k :: nat. int 4 = 1 + int k * 3)" by (intro exI [of _ 1]) simp
  moreover have "(\<exists>k :: nat. int 20 = 20 + int k)" by (intro exI [of _ 0]) simp
  moreover have "\<not> (\<exists>k :: nat. int 5 = 1 + int k * 3)" by presburger
  ultimately show ?thesis using r b ok v [of 4] v [of 5] v [of 20] by auto
qed

text \<open>With the largest step the counter goes down by two.\<close>

lemma set_bits_largest_step:
  assumes "2 * int k + 1 \<le> hi" and "hi < 64"
  shows "\<exists>b'. set_bits_loop (2 * int k + 1) hi (2 ^ 63 - 1) b = Some b' \<and>
    (\<forall>n. bit b' n \<longleftrightarrow> bit b n \<or> (odd n \<and> n \<le> 2 * k + 1))"
  using assms(1)
proof (induction k arbitrary: b)
  case 0
  have add: "int_add 1 (2 ^ 63 - 1) = 1 + (2 ^ 63 - 1) - 2 ^ 64" by (rule int_add_over) simp_all
  have add2: "int_add (1 + (2 ^ 63 - 1) - 2 ^ 64) (2 ^ 63 - 1) = - 1"
    by (subst int_add_in) simp_all
  have add3: "int_add (- 1) (2 ^ 63 - 1) = - 1 + (2 ^ 63 - 1)" by (rule int_add_in) simp_all
  have ends: "1 \<le> hi" "1 + (2 ^ 63 - 1) - 2 ^ 64 \<le> hi" "- 1 \<le> hi" using 0 by simp_all
  have "set_bits_loop 1 hi (2 ^ 63 - 1) b =
      set_bits_loop (- 1 + (2 ^ 63 - 1)) hi (2 ^ 63 - 1)
        (((b OR shl1 1) OR shl1 (1 + (2 ^ 63 - 1) - 2 ^ 64)) OR shl1 (- 1))"
    by (simp only: set_bits_go [OF ends(1)] add set_bits_go [OF ends(2)] add2 set_bits_go [OF ends(3)] add3)
  also have "\<dots> = Some (((b OR shl1 1) OR shl1 (1 + (2 ^ 63 - 1) - 2 ^ 64)) OR shl1 (- 1))"
    using assms(2) by (intro set_bits_stop) simp
  finally have run: "set_bits_loop 1 hi (2 ^ 63 - 1) b =
      Some (((b OR shl1 1) OR shl1 (1 + (2 ^ 63 - 1) - 2 ^ 64)) OR shl1 (- 1))" .
  have "odd n \<and> n \<le> Suc 0 \<longleftrightarrow> n = Suc 0 \<and> n < 64" for n by (auto simp: le_Suc_eq)
  with run show ?case by (simp add: bit_or_shl1)
next
  case (Suc k)
  let ?v = "2 * int (Suc k) + 1"
  have v: "3 \<le> ?v" "?v < 64" "?v \<le> hi" using Suc.prems assms(2) by simp_all
  have add: "int_add ?v (2 ^ 63 - 1) = ?v + (2 ^ 63 - 1) - 2 ^ 64" using v by (intro int_add_over) simp_all
  have add2: "int_add (?v + (2 ^ 63 - 1) - 2 ^ 64) (2 ^ 63 - 1) = 2 * int k + 1"
    using v by (subst int_add_in) simp_all
  have low: "?v + (2 ^ 63 - 1) - 2 ^ 64 \<le> hi" using v by simp
  have "set_bits_loop ?v hi (2 ^ 63 - 1) b =
      set_bits_loop (2 * int k + 1) hi (2 ^ 63 - 1) ((b OR shl1 ?v) OR shl1 (?v + (2 ^ 63 - 1) - 2 ^ 64))"
    by (simp only: set_bits_go [OF v(3)] add set_bits_go [OF low] add2)
  moreover have below: "2 * int k + 1 \<le> hi" using v by simp
  obtain b' where b': "set_bits_loop (2 * int k + 1) hi (2 ^ 63 - 1)
        ((b OR shl1 ?v) OR shl1 (?v + (2 ^ 63 - 1) - 2 ^ 64)) = Some b'"
    and bits: "\<And>n. bit b' n \<longleftrightarrow>
      bit ((b OR shl1 ?v) OR shl1 (?v + (2 ^ 63 - 1) - 2 ^ 64)) n \<or> (odd n \<and> n \<le> 2 * k + 1)"
    using Suc.IH [OF below] by blast
  have "bit b' n \<longleftrightarrow> bit b n \<or> (odd n \<and> n \<le> 2 * Suc k + 1)" for n
  proof -
    have "\<not> ?v + (2 ^ 63 - 1) - 2 ^ 64 = int n" using v by simp
    moreover have "?v = int n \<and> n < 64 \<longleftrightarrow> n = 2 * Suc k + 1" using v by auto
    moreover have "odd n \<and> n \<le> 2 * Suc k + 1 \<longleftrightarrow> odd n \<and> n \<le> 2 * k + 1 \<or> n = 2 * Suc k + 1"
      by (auto simp: le_Suc_eq)
    ultimately show ?thesis unfolding bits bit_or_shl1 by blast
  qed
  with b' show ?case unfolding calculation by blast
qed

text \<open>
  A step near the largest integer makes the counter of the loop
  wrap round, and bits are set that the field does not name: the minutes
  \<open>59/9223372036854775807\<close> include 57 and all other odd minutes.
\<close>

theorem cron_step_wraps:
  "\<exists>b. parse_cron_field ''59/9223372036854775807'' 0 59 ''minute'' = Some (Inr (b, True)) \<and>
     {n. bit b n} = {n. odd n \<and> n < 60} \<and>
     int 57 \<notin> part_values ''59/9223372036854775807'' 0 59"
proof -
  have p: "parse_cron_part ''59/9223372036854775807'' 0 59 = Inr (59, 59, 9223372036854775807)"
    by (simp add: parse_cron_part_def atoi_def digits_val_def digit_val_def is_digit_def)
  have parts: "split_char ''59/9223372036854775807'' (CHR '','') = [''59/9223372036854775807'']"
    by code_simp
  obtain b where s: "set_bits_loop 59 59 9223372036854775807 0 = Some b"
    and b: "\<forall>n. bit b n \<longleftrightarrow> odd n \<and> n \<le> 59"
  proof -
    have "\<exists>b'. set_bits_loop (2 * int 29 + 1) 59 (2 ^ 63 - 1) 0 = Some b' \<and>
        (\<forall>n. bit b' n \<longleftrightarrow> bit (0 :: 64 word) n \<or> (odd n \<and> n \<le> 2 * 29 + 1))"
      by (rule set_bits_largest_step) simp_all
    then show thesis using that by auto
  qed
  have "parse_parts [''59/9223372036854775807''] 0 59 0 = Some (Inr b)"
    by (simp only: parse_parts.simps p sum.case prod.case s option.case)
  then have "parse_cron_field ''59/9223372036854775807'' 0 59 ''minute'' = Some (Inr (b, True))"
    unfolding parse_cron_field_def parts by simp
  moreover have "{n. bit b n} = {n. odd n \<and> n < 60}"
  proof -
    have "odd n \<and> n \<le> 59 \<longleftrightarrow> odd n \<and> n < 60" for n :: nat by auto
    then show ?thesis unfolding b [rule_format] by simp
  qed
  moreover have "int 57 \<notin> part_values ''59/9223372036854775807'' 0 59"
    by (auto simp: part_values_def p)
  ultimately show ?thesis by blast
qed


section \<open>The calendar\<close>

text \<open>A time of whole minutes in the proleptic Gregorian calendar.\<close>

record civil =
  year :: int
  month :: nat
  day :: nat
  hour :: nat
  minute :: nat

definition leap :: "int \<Rightarrow> bool" where
  "leap y \<longleftrightarrow> 4 dvd y \<and> (\<not> 100 dvd y \<or> 400 dvd y)"

definition month_len :: "int \<Rightarrow> nat \<Rightarrow> nat" where
  "month_len y m =
     (if m = 2 then (if leap y then 29 else 28)
      else if m = 4 \<or> m = 6 \<or> m = 9 \<or> m = 11 then 30 else 31)"

definition civil_ok :: "civil \<Rightarrow> bool" where
  "civil_ok t \<longleftrightarrow> 1 \<le> month t \<and> month t \<le> 12 \<and> 1 \<le> day t \<and> day t \<le> month_len (year t) (month t) \<and>
     hour t < 24 \<and> minute t < 60"

text \<open>Days before a year, before a month of a year, and of a date, counted from January 1 of year 1.\<close>

definition year_start :: "int \<Rightarrow> int" where
  "year_start y = 365 * (y - 1) + (y - 1) div 4 - (y - 1) div 100 + (y - 1) div 400"

definition month_start :: "int \<Rightarrow> nat \<Rightarrow> int" where
  "month_start y m = year_start y + (\<Sum>k \<leftarrow> [1..<m]. int (month_len y k))"

definition day_number :: "civil \<Rightarrow> int" where
  "day_number t = month_start (year t) (month t) + int (day t) - 1"

definition minute_number :: "civil \<Rightarrow> int" where
  "minute_number t = (day_number t * 24 + int (hour t)) * 60 + int (minute t)"

text \<open>\<open>Weekday\<close>, with Sunday 0; January 1 of year 1 was a Monday.\<close>

definition weekday :: "civil \<Rightarrow> nat" where
  "weekday t = nat ((day_number t + 1) mod 7)"

definition before :: "civil \<Rightarrow> civil \<Rightarrow> bool" where
  "before a b \<longleftrightarrow> minute_number a < minute_number b"

text \<open>The calendar steps \<open>Next\<close> takes.\<close>

definition next_month :: "civil \<Rightarrow> civil" where
  "next_month t =
     (if month t = 12 then \<lparr>year = year t + 1, month = 1, day = 1, hour = 0, minute = 0\<rparr>
      else \<lparr>year = year t, month = month t + 1, day = 1, hour = 0, minute = 0\<rparr>)"

definition next_day :: "civil \<Rightarrow> civil" where
  "next_day t =
     (if day t < month_len (year t) (month t)
      then \<lparr>year = year t, month = month t, day = day t + 1, hour = 0, minute = 0\<rparr>
      else next_month t)"

definition next_hour :: "civil \<Rightarrow> civil" where
  "next_hour t = (if hour t < 23 then t\<lparr>hour := hour t + 1, minute := 0\<rparr> else next_day t)"

definition next_minute :: "civil \<Rightarrow> civil" where
  "next_minute t = (if minute t < 59 then t\<lparr>minute := minute t + 1\<rparr> else next_hour t)"

text \<open>\<open>AddDate(5, 0, 0)\<close>: February 29 becomes March 1 in a year without it.\<close>

definition add_years :: "int \<Rightarrow> civil \<Rightarrow> civil" where
  "add_years n t =
     (let t' = t\<lparr>year := year t + n\<rparr> in
      if day t' \<le> month_len (year t') (month t') then t'
      else t'\<lparr>month := month t + 1, day := day t' - month_len (year t') (month t')\<rparr>)"

section \<open>Next\<close>

text \<open>An instant is a minute and the nanoseconds passed in it; \<open>None\<close> is the zero time.\<close>

type_synonym instant = "civil \<times> int"

definition instant_before :: "instant \<Rightarrow> instant \<Rightarrow> bool" where
  "instant_before a b \<longleftrightarrow> before (fst a) (fst b) \<or>
     (minute_number (fst a) = minute_number (fst b) \<and> snd a < snd b)"

record trigger_context =
  tc_now :: instant
  tc_last_scheduled :: "instant option"
  tc_last_completion :: "instant option"

definition has_bit :: "64 word \<Rightarrow> nat \<Rightarrow> bool" where
  "has_bit w n \<longleftrightarrow> w AND shl1 (int n) \<noteq> 0"

definition day_matches :: "cron_spec \<Rightarrow> civil \<Rightarrow> bool" where
  "day_matches s t =
     (let dm = has_bit (cs_day_of_month s) (day t);
          dw = has_bit (cs_day_of_week s) (weekday t)
      in if cs_day_of_month_restricted s \<and> cs_day_of_week_restricted s then dm \<or> dw else dm \<and> dw)"

partial_function (option) next_loop :: "cron_spec \<Rightarrow> civil \<Rightarrow> civil \<Rightarrow> civil option option" where
  "next_loop s limit t =
     (if \<not> before t limit then Some None
      else if \<not> has_bit (cs_month s) (month t) then next_loop s limit (next_month t)
      else if \<not> day_matches s t then next_loop s limit (next_day t)
      else if \<not> has_bit (cs_hour s) (hour t) then next_loop s limit (next_hour t)
      else if \<not> has_bit (cs_minute s) (minute t) then next_loop s limit (next_minute t)
      else Some (Some t))"

declare next_loop.simps [code]

definition cron_ref :: "trigger_context \<Rightarrow> instant" where
  "cron_ref tc = (case tc_last_scheduled tc of
       Some l \<Rightarrow> if \<not> instant_before l (tc_now tc) then l else tc_now tc
     | None \<Rightarrow> tc_now tc)"

text \<open>Truncating to the minute drops the nanoseconds.\<close>

definition cron_next :: "cron_spec \<Rightarrow> trigger_context \<Rightarrow> civil option option" where
  "cron_next s tc =
     (let t = next_minute (fst (cron_ref tc)) in next_loop s (add_years 5 t) t)"

section \<open>Laws of the calendar\<close>

lemma div_step:
  assumes k: "0 < k"
  shows "(y :: int) div k = (y - 1) div k + (if k dvd y then 1 else 0)"
proof (cases "k dvd y")
  case True
  then obtain q where y: "y = k * q" by blast
  have "(y - 1) div k = q - 1"
    by (rule int_div_pos_eq [of _ _ _ "k - 1"]) (use y k in \<open>simp_all add: algebra_simps\<close>)
  moreover have "y div k = q" using y k by simp
  ultimately show ?thesis using True by simp
next
  case False
  then have "0 < y mod k" using k pos_mod_sign [of k y] by (simp add: dvd_eq_mod_eq_0 order_less_le)
  moreover have "y mod k - 1 < k" using pos_mod_bound [OF k, of y] by linarith
  ultimately have "(y - 1) div k = y div k"
    by (intro int_div_pos_eq [of _ _ _ "y mod k - 1"]) simp_all
  then show ?thesis using False by simp
qed

lemma year_start_Suc: "year_start (y + 1) = year_start y + (if leap y then 366 else 365)"
proof -
  define d where "d k \<longleftrightarrow> k dvd y" for k :: int
  have "4 dvd y" if "100 dvd y" by (rule dvd_trans [OF _ that]) simp
  moreover have "100 dvd y" if "400 dvd y" by (rule dvd_trans [OF _ that]) simp
  ultimately have dvds: "d 100 \<Longrightarrow> d 4" "d 400 \<Longrightarrow> d 100" unfolding d_def by blast+
  have "y div k = (y - 1) div k + (if d k then 1 else 0)" if "0 < k" for k
    unfolding d_def by (rule div_step [OF that])
  then have "year_start (y + 1) - year_start y = 365 + (if d 4 then 1 else 0) -
      (if d 100 then 1 else 0) + (if d 400 then 1 else 0)"
    by (simp add: year_start_def)
  then show ?thesis
    using dvds unfolding leap_def d_def [symmetric] by (cases "d 4"; cases "d 100"; cases "d 400") simp_all
qed

lemma month_len_bounds: "28 \<le> month_len y m" "month_len y m \<le> 31"
  by (auto simp: month_len_def)

lemma month_start_Suc: "1 \<le> m \<Longrightarrow> month_start y (m + 1) = month_start y m + int (month_len y m)"
  by (simp add: month_start_def)

lemma month_start_13: "month_start y 13 = month_start (y + 1) 1"
proof -
  have "[1..<13] = [1, 2, 3, 4, 5, 6, 7, 8, 9, 10, 11, 12 :: nat]" by (simp add: upt_rec)
  then show ?thesis
    by (simp add: month_start_def year_start_Suc month_len_def)
qed

text \<open>Months on one line: month \<open>m\<close> of year \<open>y\<close> is number \<open>12 y + m - 1\<close>.\<close>

definition month_index :: "int \<Rightarrow> nat \<Rightarrow> int" where
  "month_index y m = 12 * y + int m - 1"

definition index_start :: "int \<Rightarrow> int" where
  "index_start i = month_start (i div 12) (nat (i mod 12) + 1)"

lemma index_start_month_index:
  assumes "1 \<le> m" and "m \<le> 12"
  shows "index_start (month_index y m) = month_start y m"
proof -
  have "month_index y m = 12 * y + (int m - 1)" by (simp add: month_index_def)
  then have "month_index y m div 12 = y" "month_index y m mod 12 = int m - 1"
    using assms by simp_all
  then show ?thesis using assms by (simp add: index_start_def nat_diff_distrib)
qed

lemma index_start_Suc:
  assumes "1 \<le> m" and "m \<le> 12"
  shows "index_start (month_index y m + 1) = month_start y m + int (month_len y m)"
proof (cases "m = 12")
  case True
  have "month_index y m + 1 = month_index (y + 1) 1" using True by (simp add: month_index_def)
  then have "index_start (month_index y m + 1) = month_start (y + 1) 1"
    by (simp add: index_start_month_index)
  then show ?thesis using month_start_13 [of y] month_start_Suc [of 12 y] True by simp
next
  case False
  have "month_index y m + 1 = month_index y (m + 1)" by (simp add: month_index_def)
  then have "index_start (month_index y m + 1) = month_start y (m + 1)"
    using False assms index_start_month_index [of "m + 1" y] by simp
  then show ?thesis using month_start_Suc [OF assms(1), of y] by simp
qed

lemma index_start_mono: "i \<le> j \<Longrightarrow> index_start i \<le> index_start j"
proof (induction j rule: int_ge_induct)
  case (step j)
  let ?y = "j div 12" and ?m = "nat (j mod 12) + 1"
  have m: "1 \<le> ?m" "?m \<le> 12" using pos_mod_bound [of 12 j] by (simp_all add: nat_le_iff)
  have "month_index ?y ?m = j" by (simp add: month_index_def)
  then have "index_start (j + 1) = index_start j + int (month_len ?y ?m)"
    using index_start_Suc [OF m, of ?y] index_start_month_index [OF m, of ?y] by simp
  then show ?case using step.IH by simp
qed simp


lemma digits_unique:
  assumes "0 \<le> r" "r < k" "0 \<le> r'" "r' < k" and "k * q + r = k * q' + (r' :: int)"
  shows "q = q' \<and> r = r'"
proof -
  have "(k * q + r) div k = q" by (rule int_div_pos_eq [OF refl assms(1,2)])
  moreover have "(k * q + r) div k = q'" by (rule int_div_pos_eq [OF assms(5,3,4)])
  ultimately have "q = q'" by simp
  then show ?thesis using assms(5) by simp
qed

definition civil_index :: "civil \<Rightarrow> int" where
  "civil_index t = month_index (year t) (month t)"

lemma day_number_in_month:
  assumes "civil_ok t"
  shows "index_start (civil_index t) \<le> day_number t" "day_number t < index_start (civil_index t + 1)"
    "index_start (civil_index t + 1) = month_start (year t) (month t) + int (month_len (year t) (month t))"
  using assms index_start_month_index [of "month t" "year t"] index_start_Suc [of "month t" "year t"]
  by (auto simp: civil_ok_def day_number_def civil_index_def)

lemma same_month:
  assumes "civil_ok a" and "civil_ok b"
    and "index_start (civil_index b) \<le> day_number a" and "day_number a < index_start (civil_index b + 1)"
  shows "year a = year b \<and> month a = month b"
proof -
  have "\<not> civil_index a + 1 \<le> civil_index b"
    using index_start_mono [of "civil_index a + 1" "civil_index b"] day_number_in_month [OF assms(1)] assms(3)
    by linarith
  moreover have "\<not> civil_index b + 1 \<le> civil_index a"
    using index_start_mono [of "civil_index b + 1" "civil_index a"] day_number_in_month [OF assms(1)] assms(4)
    by linarith
  ultimately have "12 * year a + (int (month a) - 1) = 12 * year b + (int (month b) - 1)"
    by (simp add: civil_index_def month_index_def)
  then show ?thesis
    using digits_unique [of "int (month a) - 1" 12 "int (month b) - 1" "year a" "year b"] assms(1,2)
    by (simp add: civil_ok_def)
qed

lemma same_date:
  assumes "civil_ok a" and "civil_ok b" and "day_number a = day_number b"
  shows "year a = year b \<and> month a = month b \<and> day a = day b"
proof -
  have "year a = year b \<and> month a = month b"
    using same_month [OF assms(1,2)] day_number_in_month [OF assms(2)] assms(3) by simp
  then show ?thesis using assms by (simp add: day_number_def)
qed

lemma minute_number_div:
  assumes "civil_ok t"
  shows "minute_number t div 60 = day_number t * 24 + int (hour t)"
    "minute_number t div 60 div 24 = day_number t"
proof -
  show "minute_number t div 60 = day_number t * 24 + int (hour t)"
    by (rule int_div_pos_eq [of _ _ _ "int (minute t)"])
      (use assms in \<open>simp_all add: civil_ok_def minute_number_def\<close>)
  then show "minute_number t div 60 div 24 = day_number t"
    using int_div_pos_eq [of "minute_number t div 60" 24 "day_number t" "int (hour t)"] assms
    by (simp add: civil_ok_def)
qed

lemma same_time:
  assumes a: "civil_ok a" and b: "civil_ok b" and "minute_number a = minute_number b"
  shows "a = b"
proof -
  have "day_number a = day_number b" "int (hour a) = int (hour b)"
    using minute_number_div [OF a] minute_number_div [OF b] assms(3) by simp_all
  then show ?thesis
    using same_date [OF a b] assms(3) by (simp add: minute_number_def civil.equality)
qed

text \<open>Where the steps lead, and what they jump over.\<close>

lemma next_month_law:
  assumes "civil_ok t"
  shows "civil_ok (next_month t)" "minute_number (next_month t) = index_start (civil_index t + 1) * 1440"
proof -
  show ok: "civil_ok (next_month t)"
    using assms month_len_bounds(1) [of "year t" "month t + 1"] month_len_bounds(1) [of "year t + 1" 1]
    by (auto simp: next_month_def civil_ok_def)
  have "day_number (next_month t) = index_start (civil_index (next_month t))"
    using ok index_start_month_index [of "month (next_month t)" "year (next_month t)"]
    by (simp add: day_number_def civil_index_def civil_ok_def next_month_def)
  moreover have "civil_index (next_month t) = civil_index t + 1"
    by (simp add: civil_index_def month_index_def next_month_def)
  ultimately show "minute_number (next_month t) = index_start (civil_index t + 1) * 1440"
    by (simp add: minute_number_def next_month_def)
qed

lemma next_day_law:
  assumes "civil_ok t"
  shows "civil_ok (next_day t)" "minute_number (next_day t) = (day_number t + 1) * 1440"
proof -
  show "civil_ok (next_day t)"
    using assms next_month_law(1) [OF assms] by (auto simp: next_day_def civil_ok_def)
  show "minute_number (next_day t) = (day_number t + 1) * 1440"
  proof (cases "day t < month_len (year t) (month t)")
    case True
    then show ?thesis by (simp add: next_day_def minute_number_def day_number_def)
  next
    case False
    then have "index_start (civil_index t + 1) = day_number t + 1"
      using assms day_number_in_month(3) [OF assms] by (simp add: civil_ok_def day_number_def)
    then show ?thesis using False next_month_law(2) [OF assms] by (simp add: next_day_def)
  qed
qed

lemma next_hour_law:
  assumes "civil_ok t"
  shows "civil_ok (next_hour t)"
    "minute_number (next_hour t) = (day_number t * 24 + int (hour t) + 1) * 60"
proof -
  show "civil_ok (next_hour t)"
    using assms next_day_law(1) [OF assms] by (auto simp: next_hour_def civil_ok_def)
  show "minute_number (next_hour t) = (day_number t * 24 + int (hour t) + 1) * 60"
  proof (cases "hour t < 23")
    case True
    then show ?thesis by (simp add: next_hour_def minute_number_def day_number_def)
  next
    case False
    then have "hour t = 23" using assms by (simp add: civil_ok_def)
    then show ?thesis using next_day_law(2) [OF assms] by (simp add: next_hour_def)
  qed
qed

lemma next_minute_law:
  assumes "civil_ok t"
  shows "civil_ok (next_minute t)" "minute_number (next_minute t) = minute_number t + 1"
proof -
  show "civil_ok (next_minute t)"
    using assms next_hour_law(1) [OF assms] by (auto simp: next_minute_def civil_ok_def)
  show "minute_number (next_minute t) = minute_number t + 1"
  proof (cases "minute t < 59")
    case True
    then show ?thesis by (simp add: next_minute_def minute_number_def day_number_def)
  next
    case False
    then have "minute t = 59" using assms by (simp add: civil_ok_def)
    then show ?thesis using next_hour_law(2) [OF assms] by (simp add: next_minute_def minute_number_def)
  qed
qed

text \<open>A time from \<open>t\<close> on that a step from \<open>t\<close> skips.\<close>

definition skipped :: "civil \<Rightarrow> civil \<Rightarrow> civil \<Rightarrow> bool" where
  "skipped t u c \<longleftrightarrow> civil_ok c \<and> minute_number t \<le> minute_number c \<and> minute_number c < minute_number u"

lemma minute_number_day: "civil_ok t \<Longrightarrow> day_number t * 1440 \<le> minute_number t \<and>
  minute_number t < (day_number t + 1) * 1440"
  by (simp add: civil_ok_def minute_number_def)

lemma skipped_month:
  assumes t: "civil_ok t" and s: "skipped t (next_month t) c"
  shows "month c = month t"
proof -
  have c: "civil_ok c" using s by (simp add: skipped_def)
  have "day_number t * 1440 < (day_number c + 1) * 1440"
    and "day_number c * 1440 < index_start (civil_index t + 1) * 1440"
    using s minute_number_day [OF t] minute_number_day [OF c] next_month_law(2) [OF t]
    by (simp_all add: skipped_def)
  then have "day_number t \<le> day_number c" "day_number c < index_start (civil_index t + 1)" by simp_all
  then show ?thesis using same_month [OF c t] day_number_in_month(1) [OF t] by simp
qed

lemma skipped_day:
  assumes t: "civil_ok t" and s: "skipped t (next_day t) c"
  shows "day c = day t \<and> day_number c = day_number t"
proof -
  have c: "civil_ok c" using s by (simp add: skipped_def)
  have "day_number t * 1440 < (day_number c + 1) * 1440" and "day_number c * 1440 < (day_number t + 1) * 1440"
    using s minute_number_day [OF t] minute_number_day [OF c] next_day_law(2) [OF t]
    by (simp_all add: skipped_def)
  then have "day_number c = day_number t" by simp
  then show ?thesis using same_date [OF c t] by simp
qed

lemma skipped_hour:
  assumes t: "civil_ok t" and s: "skipped t (next_hour t) c"
  shows "hour c = hour t"
proof -
  have c: "civil_ok c" using s by (simp add: skipped_def)
  have "(day_number t * 24 + int (hour t)) * 60 < (day_number c * 24 + int (hour c) + 1) * 60"
    and "(day_number c * 24 + int (hour c)) * 60 < (day_number t * 24 + int (hour t) + 1) * 60"
    using s t c next_hour_law(2) [OF t] by (simp_all add: skipped_def minute_number_def civil_ok_def)
  then have "24 * day_number c + int (hour c) = 24 * day_number t + int (hour t)" by simp
  then show ?thesis
    using digits_unique [of "int (hour c)" 24 "int (hour t)" "day_number c" "day_number t"] t c
    by (simp add: civil_ok_def)
qed

lemma skipped_minute: "civil_ok t \<Longrightarrow> skipped t (next_minute t) c \<Longrightarrow> c = t"
  using next_minute_law(2) [of t] same_time [of c t] by (simp add: skipped_def)


section \<open>Next is exact\<close>

text \<open>
  What an expression means: its minute, hour and month, and the day of the
  month and of the week, either of which is enough when both are restricted.
\<close>

definition cron_matches :: "cron_spec \<Rightarrow> civil \<Rightarrow> bool" where
  "cron_matches s t \<longleftrightarrow> bit (cs_month s) (month t) \<and> bit (cs_hour s) (hour t) \<and>
     bit (cs_minute s) (minute t) \<and>
     (bit (cs_day_of_month s) (day t) \<and> bit (cs_day_of_week s) (weekday t) \<or>
      cs_day_of_month_restricted s \<and> cs_day_of_week_restricted s \<and>
      (bit (cs_day_of_month s) (day t) \<or> bit (cs_day_of_week s) (weekday t)))"

lemma has_bit_iff: "has_bit w n \<longleftrightarrow> bit w n"
proof -
  have "bit w n \<Longrightarrow> n < 64" by (auto dest: bit_imp_le_length)
  moreover have "has_bit w n \<longleftrightarrow> (\<exists>k. bit (w AND shl1 (int n)) k)"
    using bit_eq_iff [of "w AND shl1 (int n)" 0]
    by (auto simp: has_bit_def dest: bit_imp_le_length)
  ultimately show ?thesis by (auto simp: bit_and_iff bit_shl1)
qed

lemma cron_matches_iff: "cron_matches s t \<longleftrightarrow> has_bit (cs_month s) (month t) \<and> day_matches s t \<and>
    has_bit (cs_hour s) (hour t) \<and> has_bit (cs_minute s) (minute t)"
  by (auto simp: cron_matches_def day_matches_def has_bit_iff)

lemma skipped_day_matches:
  "civil_ok t \<Longrightarrow> skipped t (next_day t) c \<Longrightarrow> day_matches s c = day_matches s t"
  using skipped_day [of t c] by (simp add: day_matches_def weekday_def)

text \<open>What the loop returns from \<open>t\<close>: the first match before the limit.\<close>

definition first_match :: "cron_spec \<Rightarrow> civil \<Rightarrow> civil \<Rightarrow> civil option \<Rightarrow> bool" where
  "first_match s limit t r \<longleftrightarrow> (case r of
     None \<Rightarrow> \<not> (\<exists>c. skipped t limit c \<and> cron_matches s c)
   | Some u \<Rightarrow> skipped t limit u \<and> cron_matches s u \<and> \<not> (\<exists>c. skipped t u c \<and> cron_matches s c))"

text \<open>A step over times that do not match does not change the first match.\<close>

lemma first_match_step:
  assumes "first_match s limit t' r" and "minute_number t \<le> minute_number t'"
    and "\<And>c. skipped t t' c \<Longrightarrow> \<not> cron_matches s c"
  shows "first_match s limit t r"
proof -
  have "skipped t' u c" if "skipped t u c" "cron_matches s c" for u c
    using that assms(3) [of c] unfolding skipped_def by linarith
  moreover have "skipped t u c" if "skipped t' u c" for u c
    using that assms(2) by (simp add: skipped_def)
  ultimately show ?thesis
    using assms(1) unfolding first_match_def by (cases r) (simp, blast, simp, blast)
qed

lemma next_loop_exact:
  assumes "civil_ok t"
  shows "\<exists>r. next_loop s limit t = Some r \<and> first_match s limit t r"
  using assms
proof (induction "nat (minute_number limit - minute_number t)" arbitrary: t rule: less_induct)
  case less
  have step: "\<exists>r. next_loop s limit t = Some r \<and> first_match s limit t r"
    if "before t limit" "next_loop s limit t = next_loop s limit t'" "civil_ok t'"
      "minute_number t < minute_number t'" "\<And>c. skipped t t' c \<Longrightarrow> \<not> cron_matches s c" for t'
  proof -
    have "nat (minute_number limit - minute_number t') < nat (minute_number limit - minute_number t)"
      using that(1,4) by (simp add: before_def)
    from less.hyps [OF this that(3)] show ?thesis
      using that(2,4,5) first_match_step [of s limit t' _ t] by auto
  qed
  show ?case
  proof (cases "before t limit")
    case False
    then have "first_match s limit t None"
      by (auto simp: first_match_def skipped_def before_def)
    then show ?thesis using False by (subst next_loop.simps) simp
  next
    case lim: True
    have today: "day_number t * 1440 \<le> minute_number t" "minute_number t < (day_number t + 1) * 1440"
      using minute_number_day [OF less.prems] by simp_all
    show ?thesis
    proof (cases "has_bit (cs_month s) (month t)")
      case False
      have "next_loop s limit t = next_loop s limit (next_month t)"
        using lim False by (subst next_loop.simps) simp
      moreover have "minute_number t < minute_number (next_month t)"
        using today next_month_law(2) [OF less.prems] day_number_in_month(2) [OF less.prems] by simp
      ultimately show ?thesis
        using step [OF lim] next_month_law(1) [OF less.prems] skipped_month [OF less.prems] False
        by (simp add: cron_matches_iff)
    next
      case month: True
      show ?thesis
      proof (cases "day_matches s t")
        case False
        have "next_loop s limit t = next_loop s limit (next_day t)"
          using lim month False by (subst next_loop.simps) simp
        then show ?thesis
          using step [OF lim] next_day_law [OF less.prems] today skipped_day_matches [OF less.prems] False
          by (simp add: cron_matches_iff)
      next
        case day: True
        show ?thesis
        proof (cases "has_bit (cs_hour s) (hour t)")
          case False
          have "next_loop s limit t = next_loop s limit (next_hour t)"
            using lim month day False by (subst next_loop.simps) simp
          moreover have "minute_number t < minute_number (next_hour t)"
            using next_hour_law(2) [OF less.prems] less.prems by (simp add: minute_number_def civil_ok_def)
          ultimately show ?thesis
            using step [OF lim] next_hour_law(1) [OF less.prems] skipped_hour [OF less.prems] False
            by (simp add: cron_matches_iff)
        next
          case hour: True
          show ?thesis
          proof (cases "has_bit (cs_minute s) (minute t)")
            case False
            have "next_loop s limit t = next_loop s limit (next_minute t)"
              using lim month day hour False by (subst next_loop.simps) simp
            moreover have "\<not> cron_matches s c" if "skipped t (next_minute t) c" for c
              using skipped_minute [OF less.prems that] False by (simp add: cron_matches_iff)
            ultimately show ?thesis
              using step [OF lim _ next_minute_law(1) [OF less.prems]] next_minute_law(2) [OF less.prems]
              by simp
          next
            case True
            have "next_loop s limit t = Some (Some t)"
              using lim month day hour True by (subst next_loop.simps) simp
            moreover have "first_match s limit t (Some t)"
              using lim month day hour True less.prems
              by (auto simp: first_match_def skipped_def before_def cron_matches_iff)
            ultimately show ?thesis by blast
          qed
        qed
      qed
    qed
  qed
qed


text \<open>Midnight of February 29, asked for on a day of 2026: 2028 is the next leap year.\<close>

definition sample_spec :: cron_spec where
  "sample_spec = \<lparr>cs_minute = 1, cs_hour = 1, cs_day_of_month = shl1 29, cs_month = shl1 2,
     cs_day_of_week = 0x7F, cs_day_of_month_restricted = True, cs_day_of_week_restricted = False\<rparr>"

definition sample_now :: civil where
  "sample_now = \<lparr>year = 2026, month = 5, day = 17, hour = 12, minute = 30\<rparr>"

definition sample_context :: trigger_context where
  "sample_context = \<lparr>tc_now = (sample_now, 5), tc_last_scheduled = None, tc_last_completion = None\<rparr>"



section \<open>Fixed-interval triggers\<close>

text \<open>
  Their times are nanoseconds. \<open>WithInitialDelay\<close>, \<open>WithJitter\<close> and the
  constructors panic on a duration that is not positive; \<open>rnd\<close> is the random
  number \<open>rand.N\<close> would give for a positive bound.
\<close>

record interval_context =
  ic_now :: int
  ic_last_scheduled :: "int option"
  ic_last_completion :: "int option"

record trigger_opts =
  to_initial :: int
  to_jitter :: int

definition with_initial_delay :: "int \<Rightarrow> (go_panic, trigger_opts \<Rightarrow> trigger_opts) result" where
  "with_initial_delay d =
     (if d \<le> 0 then Inl (PanicMsg ''scheduling: WithInitialDelay requires a positive duration'')
      else Inr (\<lambda>o'. o'\<lparr>to_initial := d\<rparr>))"

definition with_jitter :: "int \<Rightarrow> (go_panic, trigger_opts \<Rightarrow> trigger_opts) result" where
  "with_jitter d =
     (if d \<le> 0 then Inl (PanicMsg ''scheduling: WithJitter requires a positive duration'')
      else Inr (\<lambda>o'. o'\<lparr>to_jitter := d\<rparr>))"

definition jitter_delay :: "(int \<Rightarrow> int) \<Rightarrow> int \<Rightarrow> int" where
  "jitter_delay rnd d = (if d \<le> 0 then 0 else rnd d)"

record fixed_trigger =
  ft_d :: int
  ft_initial :: int
  ft_jitter :: int

definition make_fixed ::
  "string \<Rightarrow> int \<Rightarrow> (trigger_opts \<Rightarrow> trigger_opts) list \<Rightarrow> (go_panic, fixed_trigger) result" where
  "make_fixed msg d opts =
     (if d \<le> 0 then Inl (PanicMsg msg)
      else (let o' = fold (\<lambda>opt o'. opt o') opts \<lparr>to_initial = 0, to_jitter = 0\<rparr>
            in Inr \<lparr>ft_d = d, ft_initial = to_initial o', ft_jitter = to_jitter o'\<rparr>))"

definition fixed_rate :: "int \<Rightarrow> (trigger_opts \<Rightarrow> trigger_opts) list \<Rightarrow> (go_panic, fixed_trigger) result" where
  "fixed_rate = make_fixed ''scheduling: FixedRate requires a positive duration''"

definition fixed_delay :: "int \<Rightarrow> (trigger_opts \<Rightarrow> trigger_opts) list \<Rightarrow> (go_panic, fixed_trigger) result" where
  "fixed_delay = make_fixed ''scheduling: FixedDelay requires a positive duration''"

definition after_trigger :: "int \<Rightarrow> (go_panic, int) result" where
  "after_trigger d =
     (if d \<le> 0 then Inl (PanicMsg ''scheduling: After requires a positive duration'') else Inr d)"

definition first_fire :: "fixed_trigger \<Rightarrow> int" where
  "first_fire f = (if 0 < ft_initial f then ft_initial f else ft_d f)"

definition fixed_rate_next :: "(int \<Rightarrow> int) \<Rightarrow> fixed_trigger \<Rightarrow> interval_context \<Rightarrow> int" where
  "fixed_rate_next rnd f tc =
     (case ic_last_scheduled tc of
        None \<Rightarrow> ic_now tc + (first_fire f + jitter_delay rnd (ft_jitter f))
      | Some l \<Rightarrow>
          (let next1 = l + ft_d f;
               next2 = (if \<not> ic_now tc < next1
                 then (let missed = (ic_now tc - l) div ft_d f in l + (missed + 1) * ft_d f)
                 else next1)
           in next2 + jitter_delay rnd (ft_jitter f)))"

definition fixed_delay_next :: "(int \<Rightarrow> int) \<Rightarrow> fixed_trigger \<Rightarrow> interval_context \<Rightarrow> int" where
  "fixed_delay_next rnd f tc =
     (case ic_last_completion tc of
        None \<Rightarrow> ic_now tc + (first_fire f + jitter_delay rnd (ft_jitter f))
      | Some c \<Rightarrow> c + (ft_d f + jitter_delay rnd (ft_jitter f)))"

definition after_next :: "int \<Rightarrow> interval_context \<Rightarrow> int option" where
  "after_next d tc = (case ic_last_scheduled tc of None \<Rightarrow> Some (ic_now tc + d) | Some l \<Rightarrow> None)"

text \<open>
  A fixed-rate trigger without jitter stays on the grid of its first fire, fires in the
  future, and skips exactly the slots that have passed: no grid point between
  now and the next fire is left out, and there is no burst.
\<close>

theorem fixed_rate_next_slot:
  assumes f: "fixed_rate d opts = Inr f" and jitter: "ft_jitter f \<le> 0"
    and l: "ic_last_scheduled tc = Some l"
  shows "\<exists>k > 0. fixed_rate_next rnd f tc = l + k * d \<and> ic_now tc < fixed_rate_next rnd f tc \<and>
    (k = 1 \<or> fixed_rate_next rnd f tc - d \<le> ic_now tc)"
proof -
  have d: "0 < d" "ft_d f = d"
    using f by (auto simp: fixed_rate_def make_fixed_def Let_def split: if_splits)
  let ?now = "ic_now tc"
  show ?thesis
  proof (cases "?now < l + d")
    case True
    then show ?thesis
      using d l jitter by (intro exI [of _ 1]) (simp add: fixed_rate_next_def jitter_delay_def)
  next
    case False
    define q where "q = (?now - l) div d"
    define r where "r = (?now - l) mod d"
    have now: "?now = l + q * d + r"
      using div_mult_mod_eq [of "?now - l" d] by (simp add: q_def r_def)
    have r: "0 \<le> r" "r < d" using d by (simp_all add: r_def)
    have q: "0 \<le> q"
      unfolding q_def using False d by (intro pos_imp_zdiv_nonneg_iff [THEN iffD2]) simp_all
    have "fixed_rate_next rnd f tc = l + (q + 1) * d"
      using False d l jitter by (simp add: fixed_rate_next_def jitter_delay_def Let_def q_def)
    then show ?thesis using now r q by (intro exI [of _ "q + 1"]) (simp add: algebra_simps)
  qed
qed


end
