(* ===== verification/CloudRate.thy ===== *)
theory CloudRate
  imports GoPrelude Complex_Main
begin

text \<open>
  \<open>cloud/ratelimit\<close>: the counters of rate limiting. Instants and durations are integers of
  nanoseconds since the zero time; the \<open>float64\<close> quantities are rational numbers, so that
  rounding is left out. Every operation runs under a mutex and is one function of the state and
  of the clock readings it makes, which are arguments.
\<close>

section \<open>Numbers\<close>

definition second :: int where
  "second = 1000000000"

text \<open>\<open>Duration.Seconds\<close>, and the conversion of a float to a \<open>Duration\<close>.\<close>

definition seconds :: "int \<Rightarrow> rat" where
  "seconds d = of_int d / of_int second"

definition to_duration :: "rat \<Rightarrow> int" where
  "to_duration r = (if 0 \<le> r then \<lfloor>r\<rfloor> else \<lceil>r\<rceil>)"

section \<open>Token bucket\<close>

record token_bucket =
  tb_rate :: rat
  tb_burst :: rat
  tb_tokens :: rat
  tb_last :: int
  tb_warmup :: int
  tb_cold :: rat
  tb_started :: int

definition new_token_bucket :: "int \<Rightarrow> rat \<Rightarrow> int \<Rightarrow> token_bucket" where
  "new_token_bucket now rate burst =
     \<lparr>tb_rate = rate, tb_burst = of_int burst, tb_tokens = of_int burst, tb_last = now,
      tb_warmup = 0, tb_cold = 0, tb_started = 0\<rparr>"

definition with_warm_up :: "int \<Rightarrow> int \<Rightarrow> int \<Rightarrow> token_bucket \<Rightarrow> token_bucket" where
  "with_warm_up now warmup factor b =
     (if warmup \<le> 0 then b
      else
        let factor = (if factor \<le> 1 then 3 else factor);
            cold = tb_burst b / of_int factor
        in b\<lparr>tb_warmup := warmup, tb_cold := cold, tb_tokens := cold, tb_started := now\<rparr>)"

definition tb_cap :: "int \<Rightarrow> token_bucket \<Rightarrow> rat" where
  "tb_cap now b =
     (if tb_warmup b \<le> 0 then tb_burst b
      else if now - tb_started b \<ge> tb_warmup b then tb_burst b
      else tb_cold b + (tb_burst b - tb_cold b) * (of_int (now - tb_started b) / of_int (tb_warmup b)))"

text \<open>The refill of \<open>AllowN\<close> and \<open>WaitN\<close>; \<open>now'\<close> is the reading that \<open>cap\<close> makes.\<close>

definition tb_refill :: "int \<Rightarrow> int \<Rightarrow> token_bucket \<Rightarrow> token_bucket" where
  "tb_refill now now' b =
     (let tokens = tb_tokens b + seconds (now - tb_last b) * tb_rate b;
          ceiling = tb_cap now' b
      in b\<lparr>tb_tokens := (if tokens > ceiling then ceiling else tokens), tb_last := now\<rparr>)"

definition tb_allow :: "int \<Rightarrow> int \<Rightarrow> rat \<Rightarrow> token_bucket \<Rightarrow> bool \<times> token_bucket" where
  "tb_allow now now' n b =
     (let b = tb_refill now now' b
      in if tb_tokens b < n then (False, b) else (True, b\<lparr>tb_tokens := tb_tokens b - n\<rparr>))"

text \<open>
  The loop of \<open>WaitN\<close>. Every round has its two clock readings and the outcome of its sleep; a
  list of rounds that ends before the loop does gives \<open>None\<close>.
\<close>

fun tb_wait_loop ::
  "rat \<Rightarrow> int \<Rightarrow> (int \<times> int \<times> bool) list \<Rightarrow> token_bucket \<Rightarrow> (bool \<times> token_bucket) option" where
  "tb_wait_loop n deadline [] b = None"
| "tb_wait_loop n deadline ((now, now', slept) # rounds) b =
     (let b = tb_refill now now' b
      in if tb_tokens b \<ge> n then Some (True, b\<lparr>tb_tokens := tb_tokens b - n\<rparr>)
         else if now + to_duration ((n - tb_tokens b) / tb_rate b * of_int second) > deadline then Some (False, b)
         else if \<not> slept then Some (False, b)
         else tb_wait_loop n deadline rounds b)"

definition tb_wait ::
  "int \<Rightarrow> int option \<Rightarrow> rat \<Rightarrow> int \<Rightarrow> (int \<times> int \<times> bool) list \<Rightarrow> token_bucket \<Rightarrow> (bool \<times> token_bucket) option" where
  "tb_wait start ctx_deadline n max_wait rounds b =
     (if max_wait \<le> 0
      then (case rounds of [] \<Rightarrow> None | (now, now', _) # _ \<Rightarrow> Some (tb_allow now now' n b))
      else
        let deadline = start + max_wait;
            deadline = (case ctx_deadline of None \<Rightarrow> deadline | Some d \<Rightarrow> if d < deadline then d else deadline)
        in tb_wait_loop n deadline rounds b)"

section \<open>Leaky bucket\<close>

record leaky_bucket =
  lb_rate :: rat
  lb_capacity :: rat
  lb_water :: rat
  lb_last :: int

definition new_leaky_bucket :: "int \<Rightarrow> rat \<Rightarrow> int \<Rightarrow> leaky_bucket" where
  "new_leaky_bucket now rate capacity =
     \<lparr>lb_rate = rate, lb_capacity = of_int capacity, lb_water = 0, lb_last = now\<rparr>"

definition lb_allow :: "int \<Rightarrow> rat \<Rightarrow> leaky_bucket \<Rightarrow> bool \<times> leaky_bucket" where
  "lb_allow now n b =
     (let water = lb_water b - seconds (now - lb_last b) * lb_rate b;
          water = (if water < 0 then 0 else water);
          b = b\<lparr>lb_water := water, lb_last := now\<rparr>
      in if water + n > lb_capacity b then (False, b) else (True, b\<lparr>lb_water := water + n\<rparr>))"

section \<open>Generic cell rate algorithm\<close>

text \<open>The zero time of \<open>tat\<close> is \<open>None\<close>.\<close>

record gcra =
  gc_rate :: rat
  gc_burst :: int
  gc_tat :: "int option"

definition new_gcra :: "rat \<Rightarrow> int \<Rightarrow> gcra" where
  "new_gcra rate burst =
     \<lparr>gc_rate = rate, gc_burst = to_duration (of_int burst / rate * of_int second), gc_tat = None\<rparr>"

definition gc_allow :: "int \<Rightarrow> int \<Rightarrow> gcra \<Rightarrow> bool \<times> gcra" where
  "gc_allow now n g =
     (let tat = (case gc_tat g of None \<Rightarrow> now | Some t \<Rightarrow> t);
          g = g\<lparr>gc_tat := Some tat\<rparr>
      in if tat - now > gc_burst g then (False, g)
         else (True, g\<lparr>gc_tat := Some (tat + to_duration (of_int n / gc_rate g * of_int second))\<rparr>))"

section \<open>Windows\<close>

definition truncate_time :: "int \<Rightarrow> int \<Rightarrow> int" where
  "truncate_time now d = (if d \<le> 0 then now else now - now mod d)"

record fixed_window =
  fw_limit :: rat
  fw_window :: int
  fw_start :: int
  fw_count :: rat

definition new_fixed_window :: "int \<Rightarrow> rat \<Rightarrow> int \<Rightarrow> fixed_window" where
  "new_fixed_window now limit window =
     \<lparr>fw_limit = limit, fw_window = window, fw_start = truncate_time now window, fw_count = 0\<rparr>"

definition fw_allow :: "int \<Rightarrow> int \<Rightarrow> fixed_window \<Rightarrow> bool \<times> fixed_window" where
  "fw_allow now n w =
     (let w = (if now - fw_start w \<ge> fw_window w
               then w\<lparr>fw_count := 0, fw_start := truncate_time now (fw_window w)\<rparr> else w)
      in if fw_count w + of_int n > fw_limit w then (False, w) else (True, w\<lparr>fw_count := fw_count w + of_int n\<rparr>))"

record sliding_window =
  sw_limit :: rat
  sw_window :: int
  sw_start :: int
  sw_cur :: rat
  sw_prev :: rat

definition new_sliding_window :: "int \<Rightarrow> rat \<Rightarrow> int \<Rightarrow> sliding_window" where
  "new_sliding_window now limit window =
     \<lparr>sw_limit = limit, sw_window = window, sw_start = now, sw_cur = 0, sw_prev = 0\<rparr>"

definition sw_allow :: "int \<Rightarrow> int \<Rightarrow> sliding_window \<Rightarrow> bool \<times> sliding_window" where
  "sw_allow now n w =
     (let elapsed = now - sw_start w;
          (w, elapsed) =
            (if elapsed \<ge> sw_window w
             then (w\<lparr>sw_prev := (if elapsed \<ge> 2 * sw_window w then 0 else sw_cur w), sw_cur := 0, sw_start := now\<rparr>, 0)
             else (w, elapsed));
          weight = of_int (sw_window w - elapsed) / of_int (sw_window w);
          estimate = sw_prev w * weight + sw_cur w
      in if estimate + of_int n > sw_limit w then (False, w) else (True, w\<lparr>sw_cur := sw_cur w + of_int n\<rparr>))"

section \<open>Runs\<close>

text \<open>The decisions of a sequence of calls, and the state behind them.\<close>

fun run_calls :: "('c \<Rightarrow> 's \<Rightarrow> bool \<times> 's) \<Rightarrow> 'c list \<Rightarrow> 's \<Rightarrow> bool list \<times> 's" where
  "run_calls f [] s = ([], s)"
| "run_calls f (c # cs) s = (let (ok, s) = f c s; (oks, s) = run_calls f cs s in (ok # oks, s))"

lemma run_calls_Cons:
  "run_calls f (c # cs) s = (fst (f c s) # fst (run_calls f cs (snd (f c s))), snd (run_calls f cs (snd (f c s))))"
  by (simp split: prod.split)

declare run_calls.simps(2) [simp del]

lemmas run_calls_simps = run_calls.simps(1) run_calls_Cons

lemma second_pos: "0 < second" "(0::rat) < of_int second"
  by (simp_all add: second_def)

lemma seconds_mono: "0 \<le> d \<Longrightarrow> 0 \<le> seconds d"
  by (simp add: seconds_def second_def)

lemma seconds_add: "seconds (d + e) = seconds d + seconds e"
  by (simp add: seconds_def add_divide_distrib)

section \<open>The leaky bucket is the token bucket\<close>

definition tb_call :: "int \<times> int \<times> rat \<Rightarrow> token_bucket \<Rightarrow> bool \<times> token_bucket" where
  "tb_call c b = (case c of (now, now', n) \<Rightarrow> tb_allow now now' n b)"

definition lb_call :: "int \<times> int \<times> rat \<Rightarrow> leaky_bucket \<Rightarrow> bool \<times> leaky_bucket" where
  "lb_call c b = (case c of (now, _, n) \<Rightarrow> lb_allow now n b)"

text \<open>The water of one is what the other lacks of its burst.\<close>

definition dual :: "leaky_bucket \<Rightarrow> token_bucket \<Rightarrow> bool" where
  "dual l b \<longleftrightarrow> lb_rate l = tb_rate b \<and> lb_capacity l = tb_burst b \<and> lb_water l = tb_burst b - tb_tokens b \<and>
     lb_last l = tb_last b \<and> tb_warmup b \<le> 0"

lemma dual_call:
  assumes "dual l b"
  shows "fst (lb_call c l) = fst (tb_call c b) \<and> dual (snd (lb_call c l)) (snd (tb_call c b))"
  using assms
  by (cases c) (auto simp: dual_def lb_call_def tb_call_def lb_allow_def tb_allow_def tb_refill_def tb_cap_def Let_def)


section \<open>The bound of the token bucket\<close>

text \<open>What was admitted, and clock readings in the order in which a running clock gives them.\<close>

definition admitted :: "bool list \<Rightarrow> (int \<times> int \<times> rat) list \<Rightarrow> rat" where
  "admitted oks cs = sum_list (map (\<lambda>(ok, _, _, n). if ok then n else 0) (zip oks cs))"

fun clocked :: "int \<Rightarrow> (int \<times> int \<times> rat) list \<Rightarrow> bool" where
  "clocked t [] \<longleftrightarrow> True"
| "clocked t ((now, now', n) # cs) \<longleftrightarrow> t \<le> now \<and> now \<le> now' \<and> clocked now cs"

fun end_time :: "int \<Rightarrow> (int \<times> int \<times> rat) list \<Rightarrow> int" where
  "end_time t [] = t"
| "end_time t ((now, now', n) # cs) = end_time now cs"

definition bucket_ok :: "token_bucket \<Rightarrow> bool" where
  "bucket_ok b \<longleftrightarrow> 0 \<le> tb_rate b \<and> 0 \<le> tb_tokens b \<and> 0 \<le> tb_cold b \<and> tb_cold b \<le> tb_burst b \<and>
     (0 < tb_warmup b \<longrightarrow> tb_started b \<le> tb_last b)"

lemma cap_bounds:
  assumes "bucket_ok b" and "0 < tb_warmup b \<longrightarrow> tb_started b \<le> now"
  shows "0 \<le> tb_cap now b" and "tb_cap now b \<le> tb_burst b"
proof -
  let ?p = "of_int (now - tb_started b) / of_int (tb_warmup b) :: rat"
  have p: "0 \<le> ?p" "?p \<le> 1" if "0 < tb_warmup b" "now - tb_started b < tb_warmup b"
    using that assms(2) by (simp_all add: divide_le_eq_1 del: of_int_diff)
  have gap: "0 \<le> tb_burst b - tb_cold b" using assms(1) by (simp add: bucket_ok_def)
  show "0 \<le> tb_cap now b"
  proof (cases "0 < tb_warmup b \<and> now - tb_started b < tb_warmup b")
    case True
    then have "0 \<le> (tb_burst b - tb_cold b) * ?p" using p gap by (intro mult_nonneg_nonneg) auto
    with True assms(1) show ?thesis by (simp add: tb_cap_def bucket_ok_def)
  next
    case False
    with assms(1) gap show ?thesis by (auto simp: tb_cap_def bucket_ok_def)
  qed
  show "tb_cap now b \<le> tb_burst b"
  proof (cases "0 < tb_warmup b \<and> now - tb_started b < tb_warmup b")
    case True
    then have "(tb_burst b - tb_cold b) * ?p \<le> (tb_burst b - tb_cold b) * 1" using p gap by (intro mult_left_mono) auto
    with True show ?thesis by (simp add: tb_cap_def)
  next
    case False
    then show ?thesis by (auto simp: tb_cap_def)
  qed
qed

lemma refill_ok:
  assumes "bucket_ok b" and "tb_last b \<le> now" and "now \<le> now'"
  shows "bucket_ok (tb_refill now now' b)"
    and "tb_tokens (tb_refill now now' b) \<le> tb_tokens b + seconds (now - tb_last b) * tb_rate b"
    and "tb_tokens (tb_refill now now' b) \<le> tb_burst b"
proof -
  have "0 < tb_warmup b \<longrightarrow> tb_started b \<le> now'" using assms by (auto simp: bucket_ok_def)
  note cap = cap_bounds [OF assms(1) this]
  have "0 \<le> seconds (now - tb_last b) * tb_rate b"
    using assms(1,2) by (intro mult_nonneg_nonneg seconds_mono) (simp_all add: bucket_ok_def)
  with assms(1,2) cap show "bucket_ok (tb_refill now now' b)"
    by (auto simp: bucket_ok_def tb_refill_def Let_def)
  show "tb_tokens (tb_refill now now' b) \<le> tb_tokens b + seconds (now - tb_last b) * tb_rate b"
    "tb_tokens (tb_refill now now' b) \<le> tb_burst b"
    using cap(2) by (auto simp: tb_refill_def Let_def)
qed

lemma refill_same [simp]:
  "tb_rate (tb_refill now now' b) = tb_rate b" "tb_burst (tb_refill now now' b) = tb_burst b"
  "tb_last (tb_refill now now' b) = now"
  by (simp_all add: tb_refill_def Let_def)

lemma tb_call_spent:
  assumes "bucket_ok b" and "tb_last b \<le> now" and "now \<le> now'" and "tb_call (now, now', n) b = (ok, b')"
  shows "bucket_ok b'" and "tb_last b' = now" and "tb_rate b' = tb_rate b" and "tb_burst b' = tb_burst b"
    and "(if ok then n else 0) + tb_tokens b' = tb_tokens (tb_refill now now' b)"
  using assms(4) refill_ok(1) [OF assms(1-3)]
  by (auto simp: tb_call_def tb_allow_def Let_def bucket_ok_def split: if_splits)

lemma admitted_Cons: "admitted (ok # oks) ((now, now', n) # cs) = (if ok then n else 0) + admitted oks cs"
  by (simp add: admitted_def)

lemma run_spent:
  assumes "bucket_ok b" and "clocked (tb_last b) cs"
  shows "admitted (fst (run_calls tb_call cs b)) cs + tb_tokens (snd (run_calls tb_call cs b))
       \<le> tb_tokens b + seconds (end_time (tb_last b) cs - tb_last b) * tb_rate b \<and>
    bucket_ok (snd (run_calls tb_call cs b))"
  using assms
proof (induction cs arbitrary: b)
  case Nil
  then show ?case by (simp add: run_calls_simps admitted_def seconds_def)
next
  case (Cons c cs)
  obtain now now' n where c: "c = (now, now', n)" by (cases c)
  obtain ok b1 where call: "tb_call c b = (ok, b1)" by fastforce
  have order: "tb_last b \<le> now" "now \<le> now'" "clocked now cs" using Cons.prems(2) by (simp_all add: c)
  note spent = tb_call_spent [OF Cons.prems(1) order(1,2) call [unfolded c]]
  have "tb_tokens (tb_refill now now' b) \<le> tb_tokens b + seconds (now - tb_last b) * tb_rate b"
    by (rule refill_ok(2) [OF Cons.prems(1) order(1,2)])
  moreover have "seconds (end_time now cs - tb_last b) = seconds (end_time now cs - now) + seconds (now - tb_last b)"
    using seconds_add [of "end_time now cs - now" "now - tb_last b"] by simp
  ultimately show ?case
    using Cons.IH [OF spent(1)] order(3) spent
    by (cases ok) (auto simp: run_calls_simps call [unfolded c] c admitted_Cons distrib_right)
qed

lemma calls_bound:
  assumes "bucket_ok b" and "clocked (tb_last b) ((now, now', n) # cs)"
  shows "admitted (fst (run_calls tb_call ((now, now', n) # cs) b)) ((now, now', n) # cs)
       \<le> tb_burst b + seconds (end_time now cs - now) * tb_rate b \<and>
    bucket_ok (snd (run_calls tb_call ((now, now', n) # cs) b))"
proof -
  obtain ok b1 where call: "tb_call (now, now', n) b = (ok, b1)" by fastforce
  have order: "tb_last b \<le> now" "now \<le> now'" "clocked now cs" using assms(2) by simp_all
  note spent = tb_call_spent [OF assms(1) order(1,2) call]
  have rest: "admitted (fst (run_calls tb_call cs b1)) cs + tb_tokens (snd (run_calls tb_call cs b1))
      \<le> tb_tokens b1 + seconds (end_time now cs - now) * tb_rate b"
    and ok: "bucket_ok (snd (run_calls tb_call cs b1))"
    using run_spent [OF spent(1), of cs] order(3) spent(2,3) by simp_all
  moreover have "0 \<le> tb_tokens (snd (run_calls tb_call cs b1))" using ok by (simp add: bucket_ok_def)
  ultimately show ?thesis
    using spent(5) refill_ok(3) [OF assms(1) order(1,2)]
    by (simp add: run_calls_simps call admitted_Cons split: if_splits)
qed

text \<open>
  Property C25: the bound of the token bucket. Over any sequence of calls, with the readings of a
  running clock, the admitted amounts sum up to at most the burst plus what the rate yields
  between the first and the last call, warm-up or not, starting from any reachable state.
\<close>

theorem token_bucket_bound:
  assumes "bucket_ok b" and "clocked (tb_last b) ((now, now', n) # cs)"
  shows "admitted (fst (run_calls tb_call ((now, now', n) # cs) b)) ((now, now', n) # cs)
       \<le> tb_burst b + seconds (end_time now cs - now) * tb_rate b \<and>
    bucket_ok (snd (run_calls tb_call ((now, now', n) # cs) b))"
  by (rule calls_bound [OF assms])

definition warm_bucket :: token_bucket where
  "warm_bucket = with_warm_up 0 (10 * second) 0 (new_token_bucket 0 2 6)"

theorem token_bucket_bound_witness:
  "admitted (fst (run_calls tb_call [(0, 0, 2), (0, 0, 1), (second, second, 2)] warm_bucket))
     [(0, 0, 2), (0, 0, 1), (second, second, 2)] \<le> 8 \<and>
   fst (run_calls tb_call [(0, 0, 2), (0, 0, 1), (second, second, 2)] warm_bucket) = [True, False, True]"
proof -
  have "bucket_ok warm_bucket" "tb_burst warm_bucket = 6" "tb_rate warm_bucket = 2" "tb_last warm_bucket = 0"
    by (simp_all add: warm_bucket_def with_warm_up_def new_token_bucket_def bucket_ok_def second_def Let_def)
  then show ?thesis
    using token_bucket_bound [of warm_bucket 0 0 2 "[(0, 0, 1), (second, second, 2)]"]
    by (simp add: seconds_def second_def)
      (simp add: run_calls_simps tb_call_def tb_allow_def tb_refill_def tb_cap_def warm_bucket_def with_warm_up_def
        new_token_bucket_def seconds_def second_def Let_def)
qed

section \<open>Aligned windows\<close>

definition fw_call :: "int \<times> int \<Rightarrow> fixed_window \<Rightarrow> bool \<times> fixed_window" where
  "fw_call c w = (case c of (now, n) \<Rightarrow> fw_allow now n w)"

text \<open>What the counter promises: one budget per aligned window, kept apart from all others.\<close>

definition budget_call :: "rat \<Rightarrow> int \<Rightarrow> int \<times> int \<Rightarrow> (int \<Rightarrow> rat) \<Rightarrow> bool \<times> (int \<Rightarrow> rat)" where
  "budget_call limit window c used =
     (case c of (now, n) \<Rightarrow>
        let k = now div window
        in if used k + of_int n > limit then (False, used) else (True, used(k := used k + of_int n)))"

fun in_order :: "int \<Rightarrow> (int \<times> int) list \<Rightarrow> bool" where
  "in_order t [] \<longleftrightarrow> True"
| "in_order t ((now, n) # cs) \<longleftrightarrow> t \<le> now \<and> in_order now cs"

definition counts :: "fixed_window \<Rightarrow> int \<Rightarrow> (int \<Rightarrow> rat) \<Rightarrow> bool" where
  "counts w t used \<longleftrightarrow> fw_start w = fw_window w * (t div fw_window w) \<and> fw_count w = used (t div fw_window w) \<and>
     (\<forall>j > t div fw_window w. used j = 0)"

lemma window_over:
  assumes "0 < (d::int)"
  shows "now - d * k \<ge> d \<longleftrightarrow> k < now div d"
proof
  assume ge: "now - d * k \<ge> d"
  show "k < now div d"
  proof (rule ccontr)
    assume "\<not> k < now div d"
    then have "d * (now div d) \<le> d * k" using assms by (intro mult_left_mono) auto
    moreover have "now < d * (now div d) + d"
      using mult_div_mod_eq [of d now] pos_mod_bound [OF assms, of now] by linarith
    ultimately show False using ge by linarith
  qed
next
  assume "k < now div d"
  then have "d * (k + 1) \<le> d * (now div d)" using assms by (intro mult_left_mono) auto
  moreover have "d * (now div d) \<le> now"
    using mult_div_mod_eq [of d now] pos_mod_sign [OF assms, of now] by linarith
  ultimately show "now - d * k \<ge> d" by (simp add: distrib_left)
qed

lemma counts_call:
  assumes "counts w t used" and "0 < fw_window w" and "t \<le> now"
  shows "fst (fw_call (now, n) w) = fst (budget_call (fw_limit w) (fw_window w) (now, n) used) \<and>
    counts (snd (fw_call (now, n) w)) now (snd (budget_call (fw_limit w) (fw_window w) (now, n) used)) \<and>
    fw_window (snd (fw_call (now, n) w)) = fw_window w \<and> fw_limit (snd (fw_call (now, n) w)) = fw_limit w"
proof -
  let ?W = "fw_window w"
  have mono: "t div ?W \<le> now div ?W" using assms(2,3) by (simp add: zdiv_mono1)
  have start: "truncate_time now ?W = ?W * (now div ?W)"
    using assms(2) by (simp add: truncate_time_def minus_mod_eq_mult_div)
  have over: "now - fw_start w \<ge> ?W \<longleftrightarrow> t div ?W < now div ?W"
    using window_over [OF assms(2)] assms(1) by (simp add: counts_def)
  show ?thesis
  proof (cases "t div ?W < now div ?W")
    case True
    with over assms start show ?thesis
      by (auto simp: counts_def fw_call_def fw_allow_def budget_call_def Let_def)
  next
    case False
    with mono have "now div ?W = t div ?W" by simp
    with False over assms show ?thesis
      by (auto simp: counts_def fw_call_def fw_allow_def budget_call_def Let_def)
  qed
qed

lemma budget_kept:
  assumes "\<forall>k. used k \<le> limit"
  shows "\<forall>k. snd (budget_call limit window c used) k \<le> limit"
  using assms by (cases c) (auto simp: budget_call_def Let_def)

text \<open>
  Property C26: the fixed window keeps one budget per aligned window. With clock readings that do
  not go back it decides every call as if each window between two multiples of the width had
  its own count from zero, whenever the counter was created: counters of the same width agree
  on the windows. No count exceeds a limit that is not negative.
\<close>

theorem fixed_window_refines:
  assumes "0 < window" and "in_order now cs"
  shows "fst (run_calls fw_call cs (new_fixed_window now limit window)) =
      fst (run_calls (budget_call limit window) cs (\<lambda>_. 0)) \<and>
    (0 \<le> limit \<longrightarrow> (\<forall>k. snd (run_calls (budget_call limit window) cs (\<lambda>_. 0)) k \<le> limit))"
proof -
  have "fst (run_calls fw_call cs w) = fst (run_calls (budget_call limit window) cs used)"
    if "counts w t used" "fw_window w = window" "fw_limit w = limit" "in_order t cs" for w t used
    using that
  proof (induction cs arbitrary: w t used)
    case (Cons c cs)
    obtain now n where c: "c = (now, n)" by (cases c)
    from counts_call [of w t used now n] Cons.prems assms(1)
      Cons.IH [of "snd (fw_call c w)" now "snd (budget_call limit window c used)"]
    show ?case by (simp add: c run_calls_simps)
  qed (simp add: run_calls_simps)
  moreover have "counts (new_fixed_window now limit window) now (\<lambda>_. 0)"
    using assms(1) by (simp add: counts_def new_fixed_window_def truncate_time_def minus_mod_eq_mult_div)
  moreover have "\<forall>k. snd (run_calls (budget_call limit window) cs used) k \<le> limit" if "\<forall>k. used k \<le> limit" for used
    using that
  proof (induction cs arbitrary: used)
    case (Cons c cs)
    from Cons.IH [OF budget_kept [OF Cons.prems]] show ?case by (simp add: run_calls_simps)
  qed (simp add: run_calls_simps)
  ultimately show ?thesis using assms(2) by (simp add: new_fixed_window_def)
qed

text \<open>A full budget at the end of a window, and another one an instant later.\<close>

theorem fixed_window_refines_witness:
  "fst (run_calls fw_call [(9, 5), (9, 1), (10, 5)] (new_fixed_window 3 5 10)) =
     fst (run_calls (budget_call 5 10) [(9, 5), (9, 1), (10, 5)] (\<lambda>_. 0)) \<and>
   fst (run_calls fw_call [(9, 5), (9, 1), (10, 5)] (new_fixed_window 3 5 10)) = [True, False, True]"
  using fixed_window_refines [of 10 3 "[(9, 5), (9, 1), (10, 5)]" 5]
  by (simp add: run_calls_simps budget_call_def Let_def)

section \<open>GCRA\<close>

definition gc_call :: "int \<times> int \<Rightarrow> gcra \<Rightarrow> bool \<times> gcra" where
  "gc_call c g = (case c of (now, n) \<Rightarrow> gc_allow now n g)"

text \<open>Within the tolerance a limiter of one event per second takes events at one instant.\<close>

lemma gcra_at_instant:
  assumes "gc_rate g = 1" and "gc_burst g = second" and "gc_tat g = Some tat"
    and "tat + int k * second \<le> now + 2 * second"
  shows "fst (run_calls gc_call (replicate k (now, 1)) g) = replicate k True"
  using assms
proof (induction k arbitrary: g tat)
  case (Suc k)
  have "0 \<le> int k * second" by (simp add: second_def)
  then have "\<not> tat - now > second" using Suc.prems(4) by (simp add: distrib_right)
  then have call: "gc_call (now, 1) g = (True, g\<lparr>gc_tat := Some (tat + second)\<rparr>)"
    using Suc.prems(1-3) by (simp add: gc_call_def gc_allow_def to_duration_def second_def Let_def)
  have "fst (run_calls gc_call (replicate k (now, 1)) (g\<lparr>gc_tat := Some (tat + second)\<rparr>)) = replicate k True"
  proof (rule Suc.IH)
    have "tat + (second + int k * second) \<le> now + 2 * second" using Suc.prems(4) by (simp add: distrib_right)
    then show "tat + second + int k * second \<le> now + 2 * second" by linarith
  qed (use Suc.prems in simp_all)
  then show ?case by (simp add: run_calls_simps call)
qed (simp add: run_calls_simps)

lemma admitted_ones:
  "length oks = k \<Longrightarrow> admitted oks (replicate k (now, now', 1)) = of_nat (length (filter id oks))"
  by (induction k arbitrary: oks) (auto simp: admitted_def length_Suc_conv)

lemma run_calls_length [simp]: "length (fst (run_calls f cs s)) = length cs"
  by (induction cs arbitrary: s) (simp_all add: run_calls_simps)

lemma tokens_at_instant:
  assumes "bucket_ok b" and "tb_last b \<le> now" and "tb_burst b = 1"
  shows "length (filter id (fst (run_calls tb_call (replicate k (now, now, 1)) b))) \<le> 1"
proof (cases k)
  case (Suc j)
  have later: "clocked t (replicate j (now, now, 1))" "end_time now (replicate j (now, now, 1)) = now" if "t \<le> now" for t
    using that by (induction j arbitrary: t) auto
  have "admitted (fst (run_calls tb_call (replicate k (now, now, 1)) b)) (replicate k (now, now, 1)) \<le> 1"
    using calls_bound [OF assms(1), of now now 1 "replicate j (now, now, 1)"] assms(2,3) later [of now]
    by (simp add: Suc seconds_def)
  then show ?thesis by (simp add: admitted_ones)
qed (simp add: run_calls_simps)

text \<open>
  The generic cell rate algorithm saves up while it is idle. Its schedule is never
  moved up to the present, so that after its first event the theoretical arrival time stays
  behind: \<open>k\<close> seconds later a limiter of one event per second and burst one admits \<open>k\<close> events in
  the same instant, for every \<open>k\<close>, and a single call for any amount. The token bucket of the
  same rate and burst admits one event then.
\<close>

theorem gcra_saves_up:
  "fst (run_calls gc_call ((0, 1) # replicate k (int k * second, 1)) (new_gcra 1 1)) = replicate (Suc k) True \<and>
   fst (gc_allow 0 n (new_gcra 1 1)) \<and>
   length (filter id (fst (run_calls tb_call (replicate k (int k * second, int k * second, 1))
     (snd (tb_call (0, 0, 1) (new_token_bucket 0 1 1)))))) \<le> 1"
proof (intro conjI)
  have call: "gc_call (0, 1) (new_gcra 1 1) = (True, \<lparr>gc_rate = 1, gc_burst = second, gc_tat = Some second\<rparr>)"
    by (simp add: gc_call_def gc_allow_def new_gcra_def to_duration_def second_def Let_def)
  have "fst (run_calls gc_call (replicate k (int k * second, 1)) \<lparr>gc_rate = 1, gc_burst = second, gc_tat = Some second\<rparr>) =
      replicate k True"
    by (rule gcra_at_instant [where tat = second]) (simp_all add: second_def)
  then show "fst (run_calls gc_call ((0, 1) # replicate k (int k * second, 1)) (new_gcra 1 1)) = replicate (Suc k) True"
    by (simp add: run_calls_simps call)
  show "fst (gc_allow 0 n (new_gcra 1 1))"
    by (simp add: gc_allow_def new_gcra_def to_duration_def second_def Let_def)
  let ?b = "snd (tb_call (0, 0, 1) (new_token_bucket 0 1 1))"
  have b: "?b = (new_token_bucket 0 1 1)\<lparr>tb_tokens := 0\<rparr>"
    by (simp add: tb_call_def tb_allow_def tb_refill_def tb_cap_def new_token_bucket_def seconds_def Let_def)
  show "length (filter id (fst (run_calls tb_call (replicate k (int k * second, int k * second, 1)) ?b))) \<le> 1"
    unfolding b by (rule tokens_at_instant) (simp_all add: bucket_ok_def new_token_bucket_def second_def)
qed

section \<open>Waiting for tokens\<close>

text \<open>The rounds that were not enough only refill.\<close>

fun refills :: "(int \<times> int \<times> bool) list \<Rightarrow> token_bucket \<Rightarrow> token_bucket" where
  "refills [] b = b"
| "refills ((now, now', slept) # rounds) b = refills rounds (tb_refill now now' b)"

lemma wait_loop_outcome:
  assumes "tb_wait_loop n deadline rounds b = Some (ok, b')"
  shows "\<exists>k. 0 < k \<and> k \<le> length rounds \<and>
    (let c = refills (take k rounds) b
     in if ok then n \<le> tb_tokens c \<and> b' = c\<lparr>tb_tokens := tb_tokens c - n\<rparr> else tb_tokens c < n \<and> b' = c)"
  using assms
proof (induction n deadline rounds b rule: tb_wait_loop.induct)
  case (2 n deadline now now' slept rounds b)
  let ?c = "tb_refill now now' b"
  show ?case
  proof (cases "tb_wait_loop n deadline rounds ?c = Some (ok, b') \<and> tb_tokens ?c < n \<and> slept \<and>
      \<not> now + to_duration ((n - tb_tokens ?c) / tb_rate ?c * of_int second) > deadline")
    case True
    then obtain k where "0 < k" "k \<le> length rounds" "let c = refills (take k rounds) ?c
        in if ok then n \<le> tb_tokens c \<and> b' = c\<lparr>tb_tokens := tb_tokens c - n\<rparr> else tb_tokens c < n \<and> b' = c"
      using "2.IH" [OF refl] by (auto simp: Let_def)
    then show ?thesis by (intro exI [of _ "Suc k"]) simp
  next
    case False
    with "2.prems" show ?thesis
      by (intro exI [of _ 1]) (auto simp: Let_def split: if_splits)
  qed
qed simp

lemma wait_loop_ends:
  assumes "0 < tb_rate b" and "(now, now', slept) \<in> set rounds" and "deadline < now"
  shows "tb_wait_loop n deadline rounds b \<noteq> None"
  using assms
proof (induction n deadline rounds b rule: tb_wait_loop.induct)
  case (2 n deadline t t' s rounds b)
  let ?c = "tb_refill t t' b"
  have "0 \<le> to_duration ((n - tb_tokens ?c) / tb_rate ?c * of_int second)" if "tb_tokens ?c < n"
    using that 2 by (simp add: to_duration_def second_def)
  with 2 show ?case by (cases "deadline < t") (auto simp: Let_def simp del: not_None_eq)
qed simp

text \<open>
  Waiting for tokens. A wait with a budget ends, at the latest in the round whose
  clock reading is past the deadline, and a wait that fails has consumed no token: its bucket was
  only refilled. One that succeeds has consumed exactly the amount, when it was there.
\<close>

theorem wait_returns:
  assumes "0 < tb_rate b" and "0 < max_wait" and "(now, now', slept) \<in> set rounds" and "start + max_wait < now"
  shows "\<exists>ok b' k. tb_wait start ctx_deadline n max_wait rounds b = Some (ok, b') \<and> 0 < k \<and>
    (let c = refills (take k rounds) b
     in if ok then n \<le> tb_tokens c \<and> b' = c\<lparr>tb_tokens := tb_tokens c - n\<rparr> else tb_tokens c < n \<and> b' = c)"
proof -
  obtain deadline where wait: "tb_wait start ctx_deadline n max_wait rounds b = tb_wait_loop n deadline rounds b"
    and "deadline \<le> start + max_wait"
    using assms(2) by (cases ctx_deadline) (auto simp: tb_wait_def Let_def)
  then have "tb_wait_loop n deadline rounds b \<noteq> None"
    using assms(4) by (intro wait_loop_ends [OF assms(1,3)]) simp
  then obtain ok b' where run: "tb_wait_loop n deadline rounds b = Some (ok, b')" by auto
  from wait_loop_outcome [OF run] obtain k where "0 < k" "let c = refills (take k rounds) b
      in if ok then n \<le> tb_tokens c \<and> b' = c\<lparr>tb_tokens := tb_tokens c - n\<rparr> else tb_tokens c < n \<and> b' = c"
    by blast
  then show ?thesis
    using run unfolding wait by (intro exI [of _ ok] exI [of _ b'] exI [of _ k]) simp
qed

theorem wait_returns_witness:
  "\<exists>ok b'. tb_wait 0 None 2 (3 * second) [(0, 0, True), (second, second, True), (4 * second, 4 * second, True)]
      ((new_token_bucket 0 1 2)\<lparr>tb_tokens := 0\<rparr>) = Some (ok, b') \<and> ok \<and> tb_tokens b' = 0"
proof -
  let ?b = "(new_token_bucket 0 1 2)\<lparr>tb_tokens := 0\<rparr>"
  let ?rounds = "[(0, 0, True), (second, second, True), (4 * second, 4 * second, True)]"
  have run: "tb_wait 0 None 2 (3 * second) ?rounds ?b = Some (True, ?b\<lparr>tb_last := 4 * second\<rparr>)"
    by (simp add: tb_wait_def tb_refill_def tb_cap_def new_token_bucket_def seconds_def second_def to_duration_def Let_def)
  have "0 < tb_rate ?b" by (simp add: new_token_bucket_def)
  from wait_returns [OF this, of "3 * second" "4 * second" "4 * second" True ?rounds 0 None 2] run
  show ?thesis by (auto simp: second_def)
qed

section \<open>Sliding windows\<close>

definition sw_call :: "int \<times> int \<Rightarrow> sliding_window \<Rightarrow> bool \<times> sliding_window" where
  "sw_call c w = (case c of (now, n) \<Rightarrow> sw_allow now n w)"

text \<open>
  The estimate is not a bound for rolling windows: with a limit of ten per ten nanoseconds,
  eighteen events pass between the instants nine and eighteen.
\<close>

lemma sliding_window_overshoots:
  "fst (run_calls sw_call [(9, 10), (10, 1), (18, 8)] (new_sliding_window 0 10 10)) = [True, False, True]"
  by (simp add: run_calls_simps sw_call_def sw_allow_def new_sliding_window_def Let_def)

text \<open>Within one of its own windows the counter does keep the limit.\<close>

lemma sliding_window_count:
  assumes "0 < sw_window w" and "0 \<le> sw_prev w" and "sw_cur w \<le> sw_limit w" and "0 \<le> sw_cur w"
    and "0 \<le> n" and "sw_start w \<le> now"
  shows "sw_cur (snd (sw_call (now, n) w)) \<le> sw_limit w"
proof (cases "sw_window w \<le> now - sw_start w")
  case True
  with assms show ?thesis by (auto simp: sw_call_def sw_allow_def Let_def)
next
  case False
  define old where "old = sw_prev w * (rat_of_int (sw_window w - (now - sw_start w)) / rat_of_int (sw_window w))"
  have "0 \<le> rat_of_int (sw_window w - (now - sw_start w))" using False by (simp del: of_int_diff)
  with assms(1,2) have "0 \<le> old" by (simp add: old_def del: of_int_diff)
  moreover have "sw_call (now, n) w = (if old + sw_cur w + of_int n > sw_limit w then (False, w)
      else (True, w\<lparr>sw_cur := sw_cur w + of_int n\<rparr>))"
    using False by (simp add: sw_call_def sw_allow_def old_def Let_def del: of_int_diff)
  ultimately show ?thesis using assms(3) by auto
qed

end
