(* ===== verification/CloudBalance.thy ===== *)
theory CloudBalance
  imports GoNum GoPrelude Complex_Main "HOL-Library.Word" "HOL-Library.Multiset"
begin

text \<open>
  The strategies of \<open>cloud/loadbalance\<close>: each picks one endpoint of a list of candidates and
  keeps its own state, keyed by the address. A call runs under a mutex (or one atomic operation)
  and is one function of the state. What a call reads from outside, random draws and the clock,
  is its environment. Go's \<open>int\<close> is an integer; the sums of weights wrap at 64 bits. The
  floating-point numbers of the latency model are real numbers, so that rounding is left out.
\<close>

unbundle bit_operations_syntax

section \<open>Endpoints and requests\<close>

record endpoint =
  ep_addr :: string
  ep_scheme :: string
  ep_weight :: int
  ep_disabled :: bool
  ep_healthy :: bool
  ep_meta :: "(string, string) gomap"

definition zero_endpoint :: endpoint where
  "zero_endpoint =
     \<lparr>ep_addr = [], ep_scheme = [], ep_weight = 0, ep_disabled = False, ep_healthy = False, ep_meta = []\<rparr>"

record pick_info =
  pi_hash_key :: string
  pi_zone :: string

datatype lb_error =
    ErrNoAvailable
  | SourceError string
  | UnknownStrategy string
  | NotAnInteger string
  | NotUnderstood "string list"
  | SelfDelegate
  | DelegateError string lb_error

type_synonym picked = "(lb_error, endpoint) result"

text \<open>
  The environment of a call: its random draws (any number, reduced by \<open>rand.IntN\<close> to its
  range) and its clock readings, in their order.
\<close>

record pick_env =
  pe_draw :: "nat \<Rightarrow> nat"
  pe_now :: "nat \<Rightarrow> int"

definition int_n :: "pick_env \<Rightarrow> nat \<Rightarrow> nat \<Rightarrow> nat" where
  "int_n env k n = pe_draw env k mod n"

text \<open>A Go map with integers, read at a key that may be absent.\<close>

definition go_count :: "(string, int) gomap \<Rightarrow> string \<Rightarrow> int" where
  "go_count m k = (case map_of m k of None \<Rightarrow> 0 | Some n \<Rightarrow> n)"

section \<open>Round robin and random\<close>

definition rr_pick :: "endpoint list \<Rightarrow> 64 word \<Rightarrow> picked \<times> 64 word" where
  "rr_pick eps cursor =
     (if eps = [] then (Inl ErrNoAvailable, cursor)
      else (Inr (eps ! (unat cursor mod length eps)), cursor + 1))"

definition random_pick :: "pick_env \<Rightarrow> endpoint list \<Rightarrow> picked" where
  "random_pick env eps =
     (if eps = [] then Inl ErrNoAvailable else Inr (eps ! int_n env 0 (length eps)))"

section \<open>Smooth weighted round robin\<close>

definition effective_weight :: "endpoint \<Rightarrow> int" where
  "effective_weight ep = (if ep_weight ep \<le> 0 then 1 else ep_weight ep)"

record wrr_scan =
  ws_total :: int
  ws_best :: "(nat \<times> int) option"
  ws_current :: "(string, int) gomap"

fun wrr_step :: "wrr_scan \<Rightarrow> nat \<times> endpoint \<Rightarrow> wrr_scan" where
  "wrr_step s (i, ep) =
     (let w = effective_weight ep;
          cur = int_add (go_count (ws_current s) (ep_addr ep)) w
      in \<lparr>ws_total = int_add (ws_total s) w,
          ws_best = (case ws_best s of
              None \<Rightarrow> Some (i, cur)
            | Some (j, best) \<Rightarrow> if cur > best then Some (i, cur) else Some (j, best)),
          ws_current = AList.update (ep_addr ep) cur (ws_current s)\<rparr>)"

definition wrr_scanned :: "endpoint list \<Rightarrow> (string, int) gomap \<Rightarrow> wrr_scan" where
  "wrr_scanned eps m = foldl wrr_step \<lparr>ws_total = 0, ws_best = None, ws_current = m\<rparr> (enumerate 0 eps)"

definition weighted_pick :: "endpoint list \<Rightarrow> (string, int) gomap \<Rightarrow> picked \<times> (string, int) gomap" where
  "weighted_pick eps m =
     (let s = wrr_scanned eps m;
          kept = filter (\<lambda>(addr, _). addr \<in> set (map ep_addr eps)) (ws_current s)
      in case ws_best s of
           None \<Rightarrow> (Inl ErrNoAvailable, m)
         | Some (i, cur) \<Rightarrow>
             (Inr (eps ! i), AList.update (ep_addr (eps ! i)) (int_add cur (- ws_total s)) kept))"

section \<open>Least connections\<close>

record least_conn =
  lc_inflight :: "(string, int) gomap"
  lc_rr :: "64 word"

definition new_least_conn :: least_conn where
  "new_least_conn = \<lparr>lc_inflight = [], lc_rr = 0\<rparr>"

fun lc_step :: "(string, int) gomap \<Rightarrow> endpoint list \<Rightarrow> (nat \<times> int) option \<Rightarrow> nat \<Rightarrow> (nat \<times> int) option" where
  "lc_step m eps best idx =
     (let n = go_count m (ep_addr (eps ! idx))
      in case best of
           None \<Rightarrow> Some (idx, n)
         | Some (j, b) \<Rightarrow> if n < b then Some (idx, n) else Some (j, b))"

definition lc_best :: "endpoint list \<Rightarrow> least_conn \<Rightarrow> (nat \<times> int) option" where
  "lc_best eps b =
     (let start = unat (lc_rr b) mod length eps
      in foldl (lc_step (lc_inflight b) eps) None
           (map (\<lambda>k. (start + k) mod length eps) [0..<length eps]))"

definition add_count :: "string \<Rightarrow> (string, int) gomap \<Rightarrow> (string, int) gomap" where
  "add_count addr m = AList.update addr (go_count m addr + 1) m"

definition release_count :: "string \<Rightarrow> (string, int) gomap \<Rightarrow> (string, int) gomap" where
  "release_count addr m =
     (if go_count m addr \<le> 1 then AList.delete addr m
      else AList.update addr (go_count m addr - 1) m)"

definition least_conn_pick :: "endpoint list \<Rightarrow> least_conn \<Rightarrow> picked \<times> least_conn" where
  "least_conn_pick eps b =
     (case lc_best eps b of
        None \<Rightarrow> (Inl ErrNoAvailable, b)
      | Some (i, _) \<Rightarrow>
          (Inr (eps ! i),
           \<lparr>lc_inflight = add_count (ep_addr (eps ! i)) (lc_inflight b), lc_rr = lc_rr b + 1\<rparr>))"

definition least_conn_complete :: "string \<Rightarrow> least_conn \<Rightarrow> least_conn" where
  "least_conn_complete addr b = b\<lparr>lc_inflight := release_count addr (lc_inflight b)\<rparr>"

section \<open>Power of two choices\<close>

record p2c =
  p2_inflight :: "(string, int) gomap"
  p2_ewma :: "(string, real) gomap"
  p2_last :: "(string, int) gomap"
  p2_started :: "(string, int list) gomap"

definition new_p2c :: p2c where
  "new_p2c = \<lparr>p2_inflight = [], p2_ewma = [], p2_last = [], p2_started = []\<rparr>"

definition ewma_beta :: real where
  "ewma_beta = 2 / 10"

definition p2c_failure_penalty :: int where
  "p2c_failure_penalty = 1000000000"

definition ewma_tau :: real where
  "ewma_tau = 10000000000"

definition p2c_ewma :: "p2c \<Rightarrow> string \<Rightarrow> real" where
  "p2c_ewma b addr = (case map_of (p2_ewma b) addr of None \<Rightarrow> 0 | Some e \<Rightarrow> e)"

definition p2c_outstanding :: "p2c \<Rightarrow> string \<Rightarrow> int list" where
  "p2c_outstanding b addr = (case map_of (p2_started b) addr of None \<Rightarrow> [] | Some ts \<Rightarrow> ts)"

definition p2c_score :: "int \<Rightarrow> string \<Rightarrow> p2c \<Rightarrow> real" where
  "p2c_score now addr b =
     (let e = (case map_of (p2_last b) addr of
                 None \<Rightarrow> p2c_ewma b addr
               | Some t \<Rightarrow> p2c_ewma b addr * exp (- real_of_int (now - t) / ewma_tau))
      in e * real_of_int (go_count (p2_inflight b) addr + 1))"

text \<open>
  The two candidates: the second index is drawn from the others. The clock is read once for
  each score and once for the start of the request.
\<close>

definition p2c_choice :: "pick_env \<Rightarrow> endpoint list \<Rightarrow> p2c \<Rightarrow> endpoint" where
  "p2c_choice env eps b =
     (let i = int_n env 0 (length eps) in
      if length eps \<le> 1 then eps ! i
      else
        let j = int_n env 1 (length eps - 1);
            j = (if j \<ge> i then j + 1 else j)
        in if p2c_score (pe_now env 0) (ep_addr (eps ! j)) b
                < p2c_score (pe_now env 1) (ep_addr (eps ! i)) b
           then eps ! j else eps ! i)"

definition p2c_pick :: "pick_env \<Rightarrow> endpoint list \<Rightarrow> p2c \<Rightarrow> picked \<times> p2c" where
  "p2c_pick env eps b =
     (if eps = [] then (Inl ErrNoAvailable, b)
      else
        let best = p2c_choice env eps b; addr = ep_addr best
        in (Inr best,
            b\<lparr>p2_inflight := add_count addr (p2_inflight b),
              p2_started := AList.update addr (p2c_outstanding b addr @ [pe_now env 2]) (p2_started b)\<rparr>))"

definition p2c_complete :: "pick_env \<Rightarrow> string \<Rightarrow> bool \<Rightarrow> p2c \<Rightarrow> p2c" where
  "p2c_complete env addr success b =
     (let b = (case p2c_outstanding b addr of
                 [] \<Rightarrow> b
               | start # rest \<Rightarrow>
                   let d = (if success then pe_now env 0 - start else p2c_failure_penalty);
                       old = p2c_ewma b addr
                   in b\<lparr>p2_started := AList.update addr rest (p2_started b),
                        p2_ewma := AList.update addr (old + ewma_beta * (real_of_int d - old)) (p2_ewma b),
                        p2_last := AList.update addr (pe_now env 1) (p2_last b)\<rparr>)
      in b\<lparr>p2_inflight := release_count addr (p2_inflight b)\<rparr>)"

section \<open>Consistent hashing\<close>

definition fnv1a32 :: "string \<Rightarrow> 32 word" where
  "fnv1a32 s = foldl (\<lambda>h c. (h XOR of_char c) * 16777619) 2166136261 s"

text \<open>
  The fingerprint is the pair whose two parts the code prints into one text with a colon. The
  cache is absent until the first ring is built.
\<close>

type_synonym fingerprint = "64 word \<times> nat"

record cons_hash =
  ch_replicas :: nat
  ch_rr :: "64 word"
  ch_cache :: "(fingerprint \<times> 32 word list \<times> (32 word, endpoint) gomap) option"

definition new_cons_hash :: "int \<Rightarrow> cons_hash" where
  "new_cons_hash replicas =
     \<lparr>ch_replicas = (if replicas \<le> 0 then 100 else nat replicas), ch_rr = 0, ch_cache = None\<rparr>"

definition ring_fingerprint :: "endpoint list \<Rightarrow> fingerprint" where
  "ring_fingerprint eps =
     (foldl (\<lambda>x ep. x XOR ucast (fnv1a32 (ep_addr ep))) 0 eps, length eps)"

definition ring_point :: "string \<Rightarrow> nat \<Rightarrow> 32 word" where
  "ring_point addr i = fnv1a32 (addr @ ''#'' @ show_nat i)"

definition ring_nodes :: "nat \<Rightarrow> endpoint list \<Rightarrow> (32 word \<times> endpoint) list" where
  "ring_nodes n eps = concat (map (\<lambda>ep. map (\<lambda>i. (ring_point (ep_addr ep) i, ep)) [0..<n]) eps)"

definition build_ring :: "nat \<Rightarrow> endpoint list \<Rightarrow> 32 word list \<times> (32 word, endpoint) gomap" where
  "build_ring n eps =
     (sort (map fst (ring_nodes n eps)), put_all (ring_nodes n eps) [])"

definition rebuild :: "endpoint list \<Rightarrow> cons_hash \<Rightarrow> cons_hash" where
  "rebuild eps b =
     (if map_option fst (ch_cache b) = Some (ring_fingerprint eps) then b
      else b\<lparr>ch_cache := Some (ring_fingerprint eps, build_ring (ch_replicas b) eps)\<rparr>)"

text \<open>\<open>sort.Search\<close> for the first point at or after the hash, from the start behind the last.\<close>

definition ring_lookup :: "32 word list \<Rightarrow> (32 word, endpoint) gomap \<Rightarrow> 32 word \<Rightarrow> endpoint" where
  "ring_lookup ring owner h =
     (let i = length (takeWhile (\<lambda>p. p < h) ring);
          i = (if i = length ring then 0 else i)
      in case map_of owner (ring ! i) of None \<Rightarrow> zero_endpoint | Some ep \<Rightarrow> ep)"

definition cons_hash_pick :: "endpoint list \<Rightarrow> pick_info \<Rightarrow> cons_hash \<Rightarrow> picked \<times> cons_hash" where
  "cons_hash_pick eps info b =
     (if eps = [] then (Inl ErrNoAvailable, b)
      else if pi_hash_key info = [] then
        (Inr (eps ! (unat (ch_rr b) mod length eps)), b\<lparr>ch_rr := ch_rr b + 1\<rparr>)
      else
        let b = rebuild eps b
        in case ch_cache b of
             None \<Rightarrow> (Inr zero_endpoint, b)
           | Some (_, ring, owner) \<Rightarrow> (Inr (ring_lookup ring owner (fnv1a32 (pi_hash_key info))), b))"

section \<open>Zones\<close>

definition default_zone_key :: string where
  "default_zone_key = ''zone''"

definition parse_zone_levels :: "string \<Rightarrow> string list" where
  "parse_zone_levels zone =
     (if zone = [] then []
      else filter (\<lambda>v. v \<noteq> []) (map trim_space (split_char zone CHR '','')))"

definition zone_match :: "string \<Rightarrow> string \<Rightarrow> bool" where
  "zone_match ep_zone level \<longleftrightarrow> ep_zone = level \<or> has_prefix ep_zone level"

definition ep_zone :: "string \<Rightarrow> endpoint \<Rightarrow> string" where
  "ep_zone key ep = (case map_of (ep_meta ep) key of None \<Rightarrow> [] | Some z \<Rightarrow> z)"

fun zone_candidates :: "string \<Rightarrow> string list \<Rightarrow> endpoint list \<Rightarrow> endpoint list" where
  "zone_candidates key [] eps = eps"
| "zone_candidates key (level # levels) eps =
     (let matched = filter (\<lambda>ep. zone_match (ep_zone key ep) level) eps
      in if matched \<noteq> [] then matched else zone_candidates key levels eps)"

section \<open>All strategies\<close>

datatype strategy =
    SRoundRobin "64 word"
  | SRandom
  | SWeighted "(string, int) gomap"
  | SLeastConn least_conn
  | SP2C p2c
  | SConsistentHash cons_hash
  | SZoneAware string strategy

text \<open>The zone-aware strategy narrows the candidates and hands the choice on.\<close>

definition zone_pick ::
  "(endpoint list \<Rightarrow> pick_info \<Rightarrow> 's \<Rightarrow> picked \<times> 's) \<Rightarrow> string \<Rightarrow>
   endpoint list \<Rightarrow> pick_info \<Rightarrow> 's \<Rightarrow> picked \<times> 's" where
  "zone_pick pick key eps info s =
     (if eps = [] then (Inl ErrNoAvailable, s)
      else pick (zone_candidates key (parse_zone_levels (pi_zone info)) eps) info s)"

fun strategy_pick :: "pick_env \<Rightarrow> endpoint list \<Rightarrow> pick_info \<Rightarrow> strategy \<Rightarrow> picked \<times> strategy" where
  "strategy_pick env eps info (SRoundRobin cursor) = map_prod id SRoundRobin (rr_pick eps cursor)"
| "strategy_pick env eps info SRandom = (random_pick env eps, SRandom)"
| "strategy_pick env eps info (SWeighted m) = map_prod id SWeighted (weighted_pick eps m)"
| "strategy_pick env eps info (SLeastConn b) = map_prod id SLeastConn (least_conn_pick eps b)"
| "strategy_pick env eps info (SP2C b) = map_prod id SP2C (p2c_pick env eps b)"
| "strategy_pick env eps info (SConsistentHash b) = map_prod id SConsistentHash (cons_hash_pick eps info b)"
| "strategy_pick env eps info (SZoneAware key s) =
     map_prod id (SZoneAware key) (zone_pick (\<lambda>eps info _. strategy_pick env eps info s) key eps info s)"

fun strategy_complete :: "pick_env \<Rightarrow> string \<Rightarrow> bool \<Rightarrow> strategy \<Rightarrow> strategy" where
  "strategy_complete env addr success (SLeastConn b) = SLeastConn (least_conn_complete addr b)"
| "strategy_complete env addr success (SP2C b) = SP2C (p2c_complete env addr success b)"
| "strategy_complete env addr success (SZoneAware key s) =
     SZoneAware key (strategy_complete env addr success s)"
| "strategy_complete env addr success (SRoundRobin cursor) = SRoundRobin cursor"
| "strategy_complete env addr success SRandom = SRandom"
| "strategy_complete env addr success (SWeighted m) = SWeighted m"
| "strategy_complete env addr success (SConsistentHash b) = SConsistentHash b"

section \<open>What every strategy promises\<close>

text \<open>
  The contract of \<open>Balancer.Pick\<close>: an error exactly for no candidates, else one of them. It holds
  in the states for which \<open>ok\<close> does, and a pick keeps them.
\<close>

locale balancer =
  fixes pick :: "endpoint list \<Rightarrow> pick_info \<Rightarrow> 's \<Rightarrow> picked \<times> 's"
    and ok :: "'s \<Rightarrow> bool"
  assumes pick_none: "pick [] info s = (Inl ErrNoAvailable, s)"
    and pick_one: "ok s \<Longrightarrow> eps \<noteq> [] \<Longrightarrow> \<exists>ep\<in>set eps. fst (pick eps info s) = Inr ep"
    and pick_ok: "ok s \<Longrightarrow> ok (snd (pick eps info s))"

lemma zone_candidates_some: "eps \<noteq> [] \<Longrightarrow> zone_candidates key levels eps \<noteq> []"
  by (induction key levels eps rule: zone_candidates.induct) (auto simp: Let_def)

lemma zone_candidates_sub: "set (zone_candidates key levels eps) \<subseteq> set eps"
  by (induction key levels eps rule: zone_candidates.induct) (auto simp: Let_def)

context balancer
begin

lemma pick_member:
  assumes "ok s" and "fst (pick eps info s) = Inr ep"
  shows "ep \<in> set eps"
  using assms pick_one [of s eps info] pick_none [of info s] by (cases "eps = []") auto

lemma pick_fails:
  assumes "ok s"
  shows "fst (pick eps info s) = Inl e \<longleftrightarrow> eps = [] \<and> e = ErrNoAvailable"
  using assms pick_one [of s eps info] pick_none [of info s] by (cases "eps = []") auto

lemma zone_balancer: "balancer (zone_pick pick key) ok"
proof
  show "zone_pick pick key [] info s = (Inl ErrNoAvailable, s)" for info s
    by (simp add: zone_pick_def)
  show "ok (snd (zone_pick pick key eps info s))" if "ok s" for eps info s
    using pick_ok [OF that] that by (simp add: zone_pick_def)
  show "\<exists>ep\<in>set eps. fst (zone_pick pick key eps info s) = Inr ep" if "ok s" and "eps \<noteq> []" for eps info s
    using pick_one [OF that(1) zone_candidates_some [OF that(2)]] zone_candidates_sub that(2)
    by (fastforce simp: zone_pick_def)
qed

end

lemma rr_pick_one: "eps \<noteq> [] \<Longrightarrow> \<exists>ep\<in>set eps. fst (rr_pick eps cursor) = Inr ep"
  by (simp add: rr_pick_def)

lemma random_pick_one: "eps \<noteq> [] \<Longrightarrow> \<exists>ep\<in>set eps. random_pick env eps = Inr ep"
  by (simp add: random_pick_def int_n_def)

lemma wrr_best_step:
  assumes "ws_best s = None \<or> (\<exists>j c. ws_best s = Some (j, c) \<and> j < n)" and "i < n"
  shows "\<exists>j c. ws_best (wrr_step s (i, ep)) = Some (j, c) \<and> j < n"
  using assms by (auto simp: Let_def)

lemma wrr_best_fold:
  assumes "ws_best s = None \<or> (\<exists>j c. ws_best s = Some (j, c) \<and> j < n)" and "\<forall>(i, ep)\<in>set ies. i < n"
    and "ies \<noteq> [] \<or> ws_best s \<noteq> None"
  shows "\<exists>j c. ws_best (foldl wrr_step s ies) = Some (j, c) \<and> j < n"
  using assms
proof (induction ies arbitrary: s)
  case Nil
  then show ?case by auto
next
  case (Cons ie ies)
  obtain i ep where ie: "ie = (i, ep)" by force
  from Cons.prems ie have "\<exists>j c. ws_best (wrr_step s ie) = Some (j, c) \<and> j < n"
    unfolding ie by (intro wrr_best_step) auto
  then show ?case
    unfolding foldl_Cons using Cons.prems by (intro Cons.IH) (auto simp del: wrr_step.simps)
qed

lemma wrr_scanned_best:
  assumes "eps \<noteq> []"
  shows "\<exists>i c. ws_best (wrr_scanned eps m) = Some (i, c) \<and> i < length eps"
  unfolding wrr_scanned_def
proof (rule wrr_best_fold)
  show "\<forall>(i, ep)\<in>set (enumerate 0 eps). i < length eps" by (auto simp: in_set_enumerate_eq)
  have "length (enumerate 0 eps) \<noteq> 0" using assms by simp
  then show "enumerate 0 eps \<noteq> [] \<or> ws_best \<lparr>ws_total = 0, ws_best = None, ws_current = m\<rparr> \<noteq> None"
    by (simp del: length_enumerate)
qed simp

lemma weighted_pick_Nil [simp]: "weighted_pick [] m = (Inl ErrNoAvailable, m)"
  by (simp add: weighted_pick_def wrr_scanned_def)

lemma weighted_pick_one: "eps \<noteq> [] \<Longrightarrow> \<exists>ep\<in>set eps. fst (weighted_pick eps m) = Inr ep"
  using wrr_scanned_best [of eps m] by (auto simp: weighted_pick_def Let_def)

text \<open>The scan for the least count returns an index with the least count of the scanned ones.\<close>

lemma lc_step_best:
  "\<exists>j. lc_step m eps best i = Some (j, go_count m (ep_addr (eps ! j)))
     \<and> j \<in> insert i (fst ` set_option best)
     \<and> go_count m (ep_addr (eps ! j)) \<le> go_count m (ep_addr (eps ! i))
     \<and> (\<forall>(k, n)\<in>set_option best. go_count m (ep_addr (eps ! j)) \<le> n)"
  if "\<forall>(k, n)\<in>set_option best. n = go_count m (ep_addr (eps ! k))"
  using that by (cases best) (auto simp: Let_def)

lemma lc_fold_best:
  "is \<noteq> [] \<Longrightarrow>
   \<exists>j\<in>set is. foldl (lc_step m eps) None is = Some (j, go_count m (ep_addr (eps ! j)))
     \<and> (\<forall>i\<in>set is. go_count m (ep_addr (eps ! j)) \<le> go_count m (ep_addr (eps ! i)))"
proof (induction "is" rule: rev_induct)
  case (snoc i is')
  show ?case
  proof (cases "is' = []")
    case False
    with snoc.IH obtain j where "j \<in> set is'"
      "foldl (lc_step m eps) None is' = Some (j, go_count m (ep_addr (eps ! j)))"
      "\<forall>i\<in>set is'. go_count m (ep_addr (eps ! j)) \<le> go_count m (ep_addr (eps ! i))" by blast
    moreover from lc_step_best [of "Some (j, go_count m (ep_addr (eps ! j)))" m eps i]
    obtain j' where "lc_step m eps (Some (j, go_count m (ep_addr (eps ! j)))) i = Some (j', go_count m (ep_addr (eps ! j')))"
      "j' = i \<or> j' = j" "go_count m (ep_addr (eps ! j')) \<le> go_count m (ep_addr (eps ! i))"
      "go_count m (ep_addr (eps ! j')) \<le> go_count m (ep_addr (eps ! j))" by auto
    ultimately show ?thesis by (auto simp del: lc_step.simps intro: order_trans)
  qed (simp add: Let_def)
qed simp

lemma rotation_set: "(\<lambda>k. (start + k) mod n) ` {0..<n} = {0..<n}" if "start < n" for start n :: nat
proof -
  have "i \<in> (\<lambda>k. (start + k) mod n) ` {0..<n}" if "i < n" for i
  proof (rule image_eqI)
    show "i = (start + (if start \<le> i then i - start else n - start + i)) mod n"
      using that \<open>start < n\<close> by (auto simp: mod_add_self1)
    show "(if start \<le> i then i - start else n - start + i) \<in> {0..<n}"
      using that \<open>start < n\<close> by auto
  qed
  then show ?thesis by auto
qed

lemma lc_best_least:
  assumes "eps \<noteq> []"
  shows "\<exists>j < length eps. lc_best eps b = Some (j, go_count (lc_inflight b) (ep_addr (eps ! j)))
     \<and> (\<forall>ep\<in>set eps. go_count (lc_inflight b) (ep_addr (eps ! j)) \<le> go_count (lc_inflight b) (ep_addr ep))"
proof -
  let ?start = "unat (lc_rr b) mod length eps"
  let ?is = "map (\<lambda>k. (?start + k) mod length eps) [0..<length eps]"
  have all: "set ?is = {0..<length eps}" using assms rotation_set [of ?start "length eps"] by simp
  have "?is \<noteq> []" using assms by simp
  from lc_fold_best [OF this, of "lc_inflight b" eps] show ?thesis
    unfolding all lc_best_def Let_def by (metis all atLeastLessThan_iff in_set_conv_nth zero_le)
qed

lemma least_conn_pick_Nil [simp]: "least_conn_pick [] b = (Inl ErrNoAvailable, b)"
  by (simp add: least_conn_pick_def lc_best_def)

lemma least_conn_pick_one: "eps \<noteq> [] \<Longrightarrow> \<exists>ep\<in>set eps. fst (least_conn_pick eps b) = Inr ep"
  using lc_best_least [of eps b] by (auto simp: least_conn_pick_def)

lemma other_index:
  fixes n k :: nat
  assumes "1 < n"
  shows "Suc (k mod (n - Suc 0)) < n" and "k mod (n - Suc 0) < n"
proof -
  have "k mod (n - Suc 0) < n - Suc 0" using assms by (intro mod_less_divisor) simp
  then show "Suc (k mod (n - Suc 0)) < n" by simp
  then show "k mod (n - Suc 0) < n" by simp
qed

lemma p2c_choice_in:
  assumes "eps \<noteq> []"
  shows "p2c_choice env eps b \<in> set eps"
  using assms other_index [of "length eps" "pe_draw env 1"]
  by (cases "1 < length eps") (simp_all add: p2c_choice_def int_n_def Let_def)

lemma p2c_pick_one: "eps \<noteq> [] \<Longrightarrow> \<exists>ep\<in>set eps. fst (p2c_pick env eps b) = Inr ep"
  by (simp add: p2c_pick_def p2c_choice_in Let_def)

text \<open>The strategies that hold no ring hand out a candidate.\<close>

fun ring_free :: "strategy \<Rightarrow> bool" where
  "ring_free (SConsistentHash b) = False"
| "ring_free (SZoneAware key s) = ring_free s"
| "ring_free (SRoundRobin cursor) = True"
| "ring_free SRandom = True"
| "ring_free (SWeighted m) = True"
| "ring_free (SLeastConn b) = True"
| "ring_free (SP2C b) = True"

lemma strategy_pick_none: "strategy_pick env [] info s = (Inl ErrNoAvailable, s)"
  by (cases s) (simp_all add: rr_pick_def random_pick_def p2c_pick_def cons_hash_pick_def zone_pick_def)

lemma strategy_pick_one:
  "ring_free s \<Longrightarrow> eps \<noteq> [] \<Longrightarrow> \<exists>ep\<in>set eps. fst (strategy_pick env eps info s) = Inr ep"
proof (induction s arbitrary: eps)
  case (SZoneAware key s)
  then have "\<exists>ep\<in>set (zone_candidates key (parse_zone_levels (pi_zone info)) eps).
      fst (strategy_pick env (zone_candidates key (parse_zone_levels (pi_zone info)) eps) info s) = Inr ep"
    by (simp add: zone_candidates_some)
  with SZoneAware.prems show ?case using zone_candidates_sub by (fastforce simp: zone_pick_def)
qed (simp_all add: rr_pick_one random_pick_one weighted_pick_one least_conn_pick_one p2c_pick_one)

lemma strategy_pick_ring_free: "ring_free (snd (strategy_pick env eps info s)) = ring_free s"
  by (induction s arbitrary: eps) (simp_all add: zone_pick_def)

interpretation strategies: balancer "strategy_pick env" ring_free for env
  by unfold_locales (simp_all add: strategy_pick_none strategy_pick_one strategy_pick_ring_free)

interpretation zoned: balancer "zone_pick (strategy_pick env) key" ring_free for env key
  by (rule strategies.zone_balancer)


section \<open>Smooth weighted round robin is fair\<close>

definition total_weight :: "endpoint list \<Rightarrow> int" where
  "total_weight eps = sum_list (map effective_weight eps)"

text \<open>What an endpoint has when it has earned its weight.\<close>

definition accrued :: "(string, int) gomap \<Rightarrow> endpoint \<Rightarrow> int" where
  "accrued m ep = go_count m (ep_addr ep) + effective_weight ep"

text \<open>The picks of \<open>k\<close> calls with the same candidates.\<close>

primrec weighted_after :: "endpoint list \<Rightarrow> nat \<Rightarrow> (string, int) gomap \<Rightarrow> endpoint list \<times> (string, int) gomap" where
  "weighted_after eps 0 m = ([], m)"
| "weighted_after eps (Suc k) m =
     (let (winners, m') = weighted_after eps k m
      in case weighted_pick eps m' of
           (Inr ep, m'') \<Rightarrow> (winners @ [ep], m'')
         | (Inl _, m'') \<Rightarrow> (winners, m''))"

lemma go_count_Nil [simp]: "go_count [] a = 0"
  by (simp add: go_count_def)

lemma go_count_update [simp]: "go_count (AList.update a n m) b = (if b = a then n else go_count m b)"
  by (simp add: go_count_def update_conv')

lemma go_count_delete [simp]: "go_count (AList.delete a m) b = (if b = a then 0 else go_count m b)"
  by (simp add: go_count_def delete_conv')

lemma map_of_filter_fst: "map_of (filter (\<lambda>(a, _). P a) m) a = (if P a then map_of m a else None)"
  by (induction m) auto

lemma go_count_kept: "go_count (filter (\<lambda>(a, _). P a) m) a = (if P a then go_count m a else 0)"
  by (simp add: go_count_def map_of_filter_fst)

lemma effective_weight_pos: "0 < effective_weight ep"
  by (simp add: effective_weight_def)

lemma total_weight_pos: "eps \<noteq> [] \<Longrightarrow> 0 < total_weight eps"
  unfolding total_weight_def
  by (induction eps rule: list_nonempty_induct) (simp_all add: effective_weight_pos add_pos_pos)

lemma total_weight_nonneg: "0 \<le> total_weight eps"
  using total_weight_pos [of eps] by (cases "eps = []") (simp_all add: total_weight_def)

lemma wrr_scanned_snoc:
  "wrr_scanned (eps @ [ep]) m = wrr_step (wrr_scanned eps m) (length eps, ep)"
  by (simp add: wrr_scanned_def enumerate_append_eq del: wrr_step.simps)

lemma wrr_scan_counts:
  assumes "distinct (map ep_addr eps)" and "total_weight eps < 2 ^ 63"
    and "\<forall>ep\<in>set eps. - (2 ^ 63) \<le> accrued m ep \<and> accrued m ep < 2 ^ 63"
  shows "ws_total (wrr_scanned eps m) = total_weight eps
    \<and> (\<forall>ep\<in>set eps. go_count (ws_current (wrr_scanned eps m)) (ep_addr ep) = accrued m ep)
    \<and> (\<forall>a. a \<notin> ep_addr ` set eps \<longrightarrow> go_count (ws_current (wrr_scanned eps m)) a = go_count m a)"
  using assms
proof (induction eps rule: rev_induct)
  case Nil
  then show ?case by (simp add: wrr_scanned_def total_weight_def)
next
  case (snoc ep eps)
  let ?s = "wrr_scanned eps m"
  have w: "0 < effective_weight ep" by (rule effective_weight_pos)
  have sum: "total_weight (eps @ [ep]) = total_weight eps + effective_weight ep"
    by (simp add: total_weight_def)
  with snoc.prems w have less: "total_weight eps < 2 ^ 63" by simp
  with snoc have IH: "ws_total ?s = total_weight eps"
    "\<forall>e\<in>set eps. go_count (ws_current ?s) (ep_addr e) = accrued m e"
    "\<forall>a. a \<notin> ep_addr ` set eps \<longrightarrow> go_count (ws_current ?s) a = go_count m a" by simp_all
  from snoc.prems(1) have new: "ep_addr ep \<notin> ep_addr ` set eps" by simp
  with IH(3) have cur: "int_add (go_count (ws_current ?s) (ep_addr ep)) (effective_weight ep) = accrued m ep"
    using snoc.prems(3) by (simp add: accrued_def int_add_in)
  have tot: "int_add (ws_total ?s) (effective_weight ep) = total_weight (eps @ [ep])"
    using IH(1) sum snoc.prems(2) w total_weight_nonneg [of eps] by (simp add: int_add_in)
  have apart: "ep_addr e \<noteq> ep_addr ep" if "e \<in> set eps" for e using new that by (metis imageI)
  show ?case
    unfolding wrr_scanned_snoc using IH(2,3) apart by (auto simp: Let_def cur tot)
qed

lemma wrr_scan_best:
  assumes "distinct (map ep_addr eps)" and "total_weight eps < 2 ^ 63" and "eps \<noteq> []"
    and "\<forall>ep\<in>set eps. - (2 ^ 63) \<le> accrued m ep \<and> accrued m ep < 2 ^ 63"
  shows "\<exists>i < length eps. ws_best (wrr_scanned eps m) = Some (i, accrued m (eps ! i))
    \<and> (\<forall>ep\<in>set eps. accrued m ep \<le> accrued m (eps ! i))"
  using assms(3,1,2,4)
proof (induction eps rule: rev_nonempty_induct)
  case (single ep)
  then show ?case
    by (auto simp: wrr_scanned_def accrued_def int_add_in Let_def)
next
  case (snoc ep eps)
  have w: "0 < effective_weight ep" by (rule effective_weight_pos)
  have "total_weight (eps @ [ep]) = total_weight eps + effective_weight ep"
    by (simp add: total_weight_def)
  with snoc.prems w have less: "total_weight eps < 2 ^ 63" by simp
  with snoc obtain i where i: "i < length eps" "ws_best (wrr_scanned eps m) = Some (i, accrued m (eps ! i))"
    "\<forall>ep\<in>set eps. accrued m ep \<le> accrued m (eps ! i)" by auto
  from snoc.prems(1) have "ep_addr ep \<notin> ep_addr ` set eps" by simp
  with wrr_scan_counts [of eps m] snoc.prems less
  have "go_count (ws_current (wrr_scanned eps m)) (ep_addr ep) = go_count m (ep_addr ep)" by simp
  then have cur: "int_add (go_count (ws_current (wrr_scanned eps m)) (ep_addr ep)) (effective_weight ep) = accrued m ep"
    using snoc.prems(3) by (simp add: accrued_def int_add_in)
  show ?case
  proof (cases "accrued m (eps ! i) < accrued m ep")
    case True
    then show ?thesis unfolding wrr_scanned_snoc using i
      by (intro exI [of _ "length eps"]) (auto simp: Let_def cur)
  next
    case False
    then show ?thesis unfolding wrr_scanned_snoc using i
      by (intro exI [of _ i]) (auto simp: Let_def cur nth_append)
  qed
qed

text \<open>One pick: the endpoint with the most pays the total, all others keep what they earned.\<close>

lemma weighted_pick_step:
  assumes "distinct (map ep_addr eps)" and "total_weight eps < 2 ^ 63" and "eps \<noteq> []"
    and range: "\<forall>ep\<in>set eps. - (2 ^ 63) \<le> accrued m ep \<and> accrued m ep < 2 ^ 63"
    and earned: "\<exists>ep\<in>set eps. 0 < accrued m ep"
  obtains ep m' where "weighted_pick eps m = (Inr ep, m')" and "ep \<in> set eps"
    and "\<forall>e\<in>set eps. accrued m e \<le> accrued m ep"
    and "\<forall>e\<in>set eps. go_count m' (ep_addr e) = accrued m e - (if e = ep then total_weight eps else 0)"
proof -
  let ?s = "wrr_scanned eps m"
  have pos: "0 < total_weight eps" using assms(3) by (rule total_weight_pos)
  from wrr_scan_best [OF assms(1-3) range] obtain i where i: "i < length eps"
    "ws_best ?s = Some (i, accrued m (eps ! i))" "\<forall>ep\<in>set eps. accrued m ep \<le> accrued m (eps ! i)"
    by blast
  let ?ep = "eps ! i"
  have mem: "?ep \<in> set eps" using i(1) by simp
  have counts: "ws_total ?s = total_weight eps"
    "\<forall>ep\<in>set eps. go_count (ws_current ?s) (ep_addr ep) = accrued m ep"
    using wrr_scan_counts [OF assms(1,2) range] by simp_all
  have cur: "int_add (accrued m ?ep) (- total_weight eps) = accrued m ?ep - total_weight eps"
  proof (subst int_add_in)
    have "0 < accrued m ?ep" using earned i(3) by fastforce
    then show "- (2 ^ 63) \<le> accrued m ?ep + - total_weight eps" using assms(2) by simp
    show "accrued m ?ep + - total_weight eps < 2 ^ 63" using range mem pos by fastforce
  qed simp
  have inj: "ep_addr e = ep_addr ?ep \<longleftrightarrow> e = ?ep" if "e \<in> set eps" for e
    using assms(1) that mem by (auto simp: distinct_map dest: inj_onD)
  show ?thesis
  proof (rule that [of ?ep])
    show "weighted_pick eps m = (Inr ?ep, AList.update (ep_addr ?ep) (accrued m ?ep - total_weight eps)
            (filter (\<lambda>(addr, _). addr \<in> set (map ep_addr eps)) (ws_current ?s)))"
      by (simp add: weighted_pick_def Let_def i(2) counts(1) cur)
    show "\<forall>e\<in>set eps. go_count (AList.update (ep_addr ?ep) (accrued m ?ep - total_weight eps)
            (filter (\<lambda>(addr, _). addr \<in> set (map ep_addr eps)) (ws_current ?s))) (ep_addr e)
          = accrued m e - (if e = ?ep then total_weight eps else 0)"
      using counts(2) inj by (auto simp: go_count_kept)
  qed (use i mem in auto)
qed

text \<open>
  After \<open>k\<close> picks the balance of an endpoint is what it has earned less what it has paid, and
  no endpoint owes as much as a total.
\<close>

definition fair_after :: "endpoint list \<Rightarrow> nat \<Rightarrow> endpoint list \<Rightarrow> (string, int) gomap \<Rightarrow> bool" where
  "fair_after eps k winners m \<longleftrightarrow>
     length winners = k \<and> set winners \<subseteq> set eps
     \<and> (\<forall>ep\<in>set eps. go_count m (ep_addr ep)
          = int k * effective_weight ep - total_weight eps * int (count_list winners ep)
        \<and> - total_weight eps < go_count m (ep_addr ep))"

lemma fair_afterD:
  assumes "fair_after eps k winners m" and "ep \<in> set eps"
  shows "go_count m (ep_addr ep)
      = int k * effective_weight ep - total_weight eps * int (count_list winners ep)"
    and "- total_weight eps < int k * effective_weight ep - total_weight eps * int (count_list winners ep)"
    and "- total_weight eps < go_count m (ep_addr ep)"
proof -
  from assms show count: "go_count m (ep_addr ep)
      = int k * effective_weight ep - total_weight eps * int (count_list winners ep)"
    and less: "- total_weight eps < go_count m (ep_addr ep)" unfolding fair_after_def by blast+
  from less show "- total_weight eps < int k * effective_weight ep - total_weight eps * int (count_list winners ep)"
    by (simp only: count)
qed

lemma total_weight_sum: "distinct eps \<Longrightarrow> total_weight eps = (\<Sum>ep\<in>set eps. effective_weight ep)"
  by (simp add: total_weight_def sum_list_distinct_conv_sum_set)

lemma sum_count_list: "distinct eps \<Longrightarrow> set xs \<subseteq> set eps \<Longrightarrow> (\<Sum>ep\<in>set eps. count_list xs ep) = length xs"
  by (simp add: sum_count_set)

lemma fair_after_sum:
  assumes "distinct eps" and "fair_after eps k winners m"
  shows "(\<Sum>ep\<in>set eps. go_count m (ep_addr ep)) = 0"
proof -
  have "(\<Sum>ep\<in>set eps. go_count m (ep_addr ep))
      = (\<Sum>ep\<in>set eps. int k * effective_weight ep - total_weight eps * int (count_list winners ep))"
    using assms(2) by (intro sum.cong) (auto simp: fair_after_def)
  also have "\<dots> = int k * total_weight eps - total_weight eps * int (\<Sum>ep\<in>set eps. count_list winners ep)"
    by (simp add: sum_subtractf total_weight_sum [OF assms(1)] flip: sum_distrib_left)
  also have "(\<Sum>ep\<in>set eps. count_list winners ep) = k"
    using assms by (simp add: sum_count_list fair_after_def)
  finally show ?thesis by simp
qed

lemma fair_after_upper:
  assumes "distinct eps" and "fair_after eps k winners m" and "ep \<in> set eps"
  shows "go_count m (ep_addr ep) \<le> (int (length eps) - 1) * (total_weight eps - 1)"
proof -
  let ?c = "\<lambda>ep. go_count m (ep_addr ep)"
  have "sum ?c (set eps - {ep}) \<ge> (\<Sum>e\<in>set eps - {ep}. - (total_weight eps - 1))"
    using assms(2) by (intro sum_mono) (auto simp: fair_after_def)
  moreover have "sum ?c (set eps) = ?c ep + sum ?c (set eps - {ep})"
    using assms(3) by (simp add: sum.remove)
  moreover have "int (card (set eps - {ep})) = int (length eps) - 1"
  proof -
    have "length eps \<noteq> 0" using assms(3) by auto
    then show ?thesis using assms(1,3) by (simp add: distinct_card of_nat_diff Suc_le_eq)
  qed
  ultimately show ?thesis
    using fair_after_sum [OF assms(1,2)] by (simp add: algebra_simps)
qed

lemma fair_after_step:
  assumes "distinct (map ep_addr eps)" and "eps \<noteq> []"
    and small: "int (length eps) * total_weight eps < 2 ^ 63" and "fair_after eps k winners m"
  obtains ep m' where "weighted_pick eps m = (Inr ep, m')" and "fair_after eps (Suc k) (winners @ [ep]) m'"
proof -
  let ?T = "total_weight eps"
  have dist: "distinct eps" using assms(1) by (simp add: distinct_map)
  have T: "0 < ?T" using assms(2) by (rule total_weight_pos)
  have n: "1 \<le> int (length eps)" using assms(2) by (cases eps) auto
  have "1 * ?T \<le> int (length eps) * ?T" using n T by (intro mult_right_mono) auto
  with small have T63: "?T < 2 ^ 63" by simp
  have range: "- (2 ^ 63) \<le> accrued m ep \<and> accrued m ep < 2 ^ 63" if "ep \<in> set eps" for ep
  proof -
    have "effective_weight ep \<le> ?T"
      unfolding total_weight_sum [OF dist] using that effective_weight_pos less_imp_le
      by (intro member_le_sum) auto
    with fair_after_upper [OF dist assms(4) that]
    have "accrued m ep \<le> (int (length eps) - 1) * (?T - 1) + ?T" by (simp add: accrued_def)
    also have "\<dots> \<le> int (length eps) * ?T" using n by (simp add: algebra_simps)
    finally have "accrued m ep < 2 ^ 63" using small by simp
    moreover have "- ?T < accrued m ep"
      using assms(4) that effective_weight_pos [of ep] by (fastforce simp: fair_after_def accrued_def)
    ultimately show ?thesis using T63 by simp
  qed
  have "(\<Sum>ep\<in>set eps. accrued m ep) = ?T"
    using fair_after_sum [OF dist assms(4)] by (simp add: accrued_def sum.distrib total_weight_sum [OF dist])
  with T have "\<exists>ep\<in>set eps. 0 < accrued m ep"
    by (metis not_less sum_nonpos)
  with weighted_pick_step [OF assms(1) T63 assms(2), of m] range obtain ep m' where
    pick: "weighted_pick eps m = (Inr ep, m')" "ep \<in> set eps" "\<forall>e\<in>set eps. accrued m e \<le> accrued m ep"
    "\<forall>e\<in>set eps. go_count m' (ep_addr e) = accrued m e - (if e = ep then ?T else 0)" by blast
  from pick(3) \<open>\<exists>ep\<in>set eps. 0 < accrued m ep\<close> have won: "0 < accrued m ep" by fastforce
  have "fair_after eps (Suc k) (winners @ [ep]) m'"
    unfolding fair_after_def
  proof (intro conjI ballI)
    fix e assume e: "e \<in> set eps"
    note old = fair_afterD(1,3) [OF assms(4) e]
    from pick(4) e have new: "go_count m' (ep_addr e) = accrued m e - (if e = ep then ?T else 0)" by blast
    show "go_count m' (ep_addr e)
        = int (Suc k) * effective_weight e - ?T * int (count_list (winners @ [ep]) e)"
      by (simp add: new accrued_def old(1) algebra_simps)
    show "- ?T < go_count m' (ep_addr e)"
      using won old(2) effective_weight_pos [of e] by (auto simp: new accrued_def)
  qed (use assms(4) pick(2) in \<open>auto simp: fair_after_def\<close>)
  with pick(1) show ?thesis by (rule that)
qed

lemma weighted_after_fair:
  assumes "distinct (map ep_addr eps)" and "eps \<noteq> []" and "int (length eps) * total_weight eps < 2 ^ 63"
  shows "fair_after eps k (fst (weighted_after eps k [])) (snd (weighted_after eps k []))"
proof (induction k)
  case 0
  then show ?case using assms(2) by (simp add: fair_after_def total_weight_pos)
next
  case (Suc k)
  from fair_after_step [OF assms Suc] obtain ep m' where
    "weighted_pick eps (snd (weighted_after eps k [])) = (Inr ep, m')"
    "fair_after eps (Suc k) (fst (weighted_after eps k []) @ [ep]) m'" .
  then show ?case by (simp add: split_beta)
qed

lemma sum_bounded_eq:
  fixes f g :: "'a \<Rightarrow> int"
  assumes "finite A" and "\<And>a. a \<in> A \<Longrightarrow> f a \<le> g a" and "sum f A = sum g A" and "a \<in> A"
  shows "f a = g a"
proof (rule ccontr)
  assume "f a \<noteq> g a"
  with assms(2,4) have "f a < g a" by fastforce
  with assms(1,2,4) have "sum f A < sum g A" by (intro sum_strict_mono_ex1) auto
  with assms(3) show False by simp
qed

lemma fair_after_cycles:
  assumes "distinct eps" and "eps \<noteq> []" and "fair_after eps k winners m" and "ep \<in> set eps"
    and cycles: "int k = c * total_weight eps"
  shows "int (count_list winners ep) = c * effective_weight ep"
proof (rule sum_bounded_eq [OF finite_set _ _ assms(4)])
  have T: "0 < total_weight eps" using assms(2) by (rule total_weight_pos)
  fix e assume "e \<in> set eps"
  from fair_afterD(2) [OF assms(3) this] have "total_weight eps * int (count_list winners e) < total_weight eps * (c * effective_weight e + 1)"
    by (simp add: cycles algebra_simps)
  with T show "int (count_list winners e) \<le> c * effective_weight e" by simp
next
  have "(\<Sum>e\<in>set eps. int (count_list winners e)) = int k"
    using sum_count_list [OF assms(1), of winners] assms(3) by (simp add: fair_after_def flip: of_nat_sum)
  then show "(\<Sum>e\<in>set eps. int (count_list winners e)) = (\<Sum>e\<in>set eps. c * effective_weight e)"
    by (simp add: cycles total_weight_sum [OF assms(1)] sum_distrib_left)
qed

text \<open>
  Property C21: with candidates that stay the same, smooth weighted round robin gives every
  endpoint, after any number of picks, less than one pick more than its share, and over every
  whole number of cycles (as many picks as the weights sum up to) exactly as many picks as its
  weight, an unset or negative weight counting as 1; provided the weights are so small that the
  64-bit sums do not overflow.
\<close>

theorem weighted_fair:
  assumes "distinct (map ep_addr eps)" and "eps \<noteq> []" and "int (length eps) * total_weight eps < 2 ^ 63"
    and "fst (weighted_after eps k []) = winners"
  shows "length winners = k \<and> set winners \<subseteq> set eps
    \<and> (\<forall>ep\<in>set eps. total_weight eps * int (count_list winners ep) < int k * effective_weight ep + total_weight eps)
    \<and> (\<forall>c. int k = c * total_weight eps \<longrightarrow>
          (\<forall>ep\<in>set eps. int (count_list winners ep) = c * effective_weight ep))"
proof (intro conjI ballI allI impI)
  have fair: "fair_after eps k winners (snd (weighted_after eps k []))"
    using weighted_after_fair [OF assms(1-3), of k] assms(4) by simp
  then show "length winners = k" and "set winners \<subseteq> set eps" by (simp_all add: fair_after_def)
  fix ep assume ep: "ep \<in> set eps"
  from fair_afterD(2) [OF fair ep]
  show "total_weight eps * int (count_list winners ep) < int k * effective_weight ep + total_weight eps" by simp
  show "int (count_list winners ep) = c * effective_weight ep" if "int k = c * total_weight eps" for c
    using assms(1,2) fair ep that by (intro fair_after_cycles) (simp_all add: distinct_map)
qed

definition sample_endpoint :: "string \<Rightarrow> int \<Rightarrow> endpoint" where
  "sample_endpoint addr w = zero_endpoint\<lparr>ep_addr := addr, ep_weight := w, ep_healthy := True\<rparr>"

definition sample_weights :: "endpoint list" where
  "sample_weights = [sample_endpoint ''a'' 5, sample_endpoint ''b'' 1, sample_endpoint ''c'' 0]"

theorem weighted_fair_witness:
  "map ep_addr (fst (weighted_after sample_weights 7 [])) = [''a'', ''a'', ''b'', ''a'', ''c'', ''a'', ''a'']
   \<and> count_list (fst (weighted_after sample_weights 14 [])) (sample_endpoint ''a'' 5) = 10"
proof
  have "distinct (map ep_addr sample_weights)" "sample_weights \<noteq> []" "total_weight sample_weights = 7"
    "length sample_weights = 3" "sample_endpoint ''a'' 5 \<in> set sample_weights"
    "effective_weight (sample_endpoint ''a'' 5) = 5"
    by (simp_all add: sample_weights_def sample_endpoint_def total_weight_def effective_weight_def)
  with weighted_fair [OF this(1,2) _ refl, of 14]
  have "int (count_list (fst (weighted_after sample_weights 14 [])) (sample_endpoint ''a'' 5)) = 2 * 5"
    by fastforce
  then show "count_list (fst (weighted_after sample_weights 14 [])) (sample_endpoint ''a'' 5) = 10" by simp
  show "map ep_addr (fst (weighted_after sample_weights 7 [])) = [''a'', ''a'', ''b'', ''a'', ''c'', ''a'', ''a'']"
    by code_simp
qed

section \<open>Least connections counts what is in flight\<close>

text \<open>
  Any sequence of picks, with any candidates, and of \<open>Complete\<close> calls, one for a request that is
  in flight; the multiset holds the addresses of the requests in flight.
\<close>

inductive lc_reach :: "least_conn \<Rightarrow> string multiset \<Rightarrow> bool" where
  lc_new: "lc_reach new_least_conn {#}"
| lc_pick: "lc_reach b flight \<Longrightarrow> least_conn_pick eps b = (Inr ep, b') \<Longrightarrow>
     lc_reach b' (add_mset (ep_addr ep) flight)"
| lc_complete: "lc_reach b flight \<Longrightarrow> addr \<in># flight \<Longrightarrow>
     lc_reach (least_conn_complete addr b) (flight - {#addr#})"

lemma go_count_add [simp]: "go_count (add_count addr m) a = (if a = addr then go_count m a + 1 else go_count m a)"
  by (simp add: add_count_def)

lemma go_count_release:
  "0 \<le> go_count m addr \<Longrightarrow>
   go_count (release_count addr m) a = (if a = addr then max 0 (go_count m a - 1) else go_count m a)"
  by (auto simp: release_count_def)

lemma lc_reach_counts: "lc_reach b flight \<Longrightarrow> go_count (lc_inflight b) a = int (count flight a)"
proof (induction arbitrary: a rule: lc_reach.induct)
  case lc_new
  then show ?case by (simp add: new_least_conn_def)
next
  case (lc_pick b flight eps ep b')
  then show ?case by (auto simp: least_conn_pick_def split: option.splits)
next
  case (lc_complete b flight addr)
  then have "1 \<le> count flight addr" by (simp add: Suc_le_eq)
  with lc_complete.IH show ?case
    by (auto simp: least_conn_complete_def go_count_release of_nat_diff)
qed

text \<open>
  Property C24: whatever was picked and completed before, as long as every request is completed
  at most once, least connections picks a candidate with the fewest requests in flight.
\<close>

theorem least_conn_least:
  assumes "lc_reach b flight" and "eps \<noteq> []"
  shows "\<exists>ep b'. least_conn_pick eps b = (Inr ep, b') \<and> ep \<in> set eps
    \<and> (\<forall>e\<in>set eps. count flight (ep_addr ep) \<le> count flight (ep_addr e))"
proof -
  from lc_best_least [OF assms(2), of b] obtain j where "j < length eps"
    "lc_best eps b = Some (j, go_count (lc_inflight b) (ep_addr (eps ! j)))"
    "\<forall>ep\<in>set eps. go_count (lc_inflight b) (ep_addr (eps ! j)) \<le> go_count (lc_inflight b) (ep_addr ep)" by blast
  then show ?thesis by (simp add: least_conn_pick_def lc_reach_counts [OF assms(1)])
qed

definition sample_pair :: "endpoint list" where
  "sample_pair = [sample_endpoint ''a'' 1, sample_endpoint ''b'' 1]"

lemma sample_least_conn:
  "lc_reach (snd (least_conn_pick sample_pair new_least_conn)) {#''a''#}"
proof -
  have "least_conn_pick sample_pair new_least_conn
      = (Inr (sample_endpoint ''a'' 1), snd (least_conn_pick sample_pair new_least_conn))" by code_simp
  from lc_pick [OF lc_new this] show ?thesis by (simp add: sample_endpoint_def)
qed

theorem least_conn_least_witness:
  "\<exists>ep b'. least_conn_pick sample_pair (snd (least_conn_pick sample_pair new_least_conn)) = (Inr ep, b')
    \<and> ep_addr ep = ''b''"
  using least_conn_least [OF sample_least_conn, of sample_pair]
  by (auto simp: sample_pair_def sample_endpoint_def)

text \<open>
  A repeated \<open>Complete\<close> is not harmless while other requests to the address are in flight: it
  takes one of those off the count.
\<close>

theorem repeated_complete_undercounts:
  assumes "1 < count flight addr" and "lc_reach b flight"
  shows "go_count (lc_inflight (least_conn_complete addr (least_conn_complete addr b))) addr
      = int (count flight addr) - 2"
proof -
  from assms(1) lc_reach_counts [OF assms(2), of addr]
  have "go_count (release_count addr (lc_inflight b)) addr = int (count flight addr) - 1"
    by (simp add: go_count_release)
  moreover from this assms(1) have "0 \<le> go_count (release_count addr (lc_inflight b)) addr" by linarith
  note go_count_release [OF this, of addr]
  ultimately show ?thesis using assms(1) by (simp add: least_conn_complete_def)
qed


section \<open>Consistent hashing moves few keys\<close>

text \<open>
  The point of a ring that a hash finds: the least one at or after it, or the least one of all.
\<close>

definition ring_successor :: "32 word list \<Rightarrow> 32 word \<Rightarrow> 32 word" where
  "ring_successor ring h =
     (let i = length (takeWhile (\<lambda>p. p < h) ring) in ring ! (if i = length ring then 0 else i))"

definition is_successor :: "32 word set \<Rightarrow> 32 word \<Rightarrow> 32 word \<Rightarrow> bool" where
  "is_successor P h p \<longleftrightarrow>
     p \<in> P \<and> (if \<exists>q\<in>P. h \<le> q then h \<le> p \<and> (\<forall>q\<in>P. h \<le> q \<longrightarrow> p \<le> q) else \<forall>q\<in>P. p \<le> q)"

lemma is_successor_unique: "is_successor P h p \<Longrightarrow> is_successor P h q \<Longrightarrow> p = q"
  by (auto simp: is_successor_def intro: antisym split: if_splits)

lemma is_successor_subset:
  assumes "is_successor P h p" and "Q \<subseteq> P" and "p \<in> Q"
  shows "is_successor Q h p"
  using assms by (auto simp: is_successor_def split: if_splits)

lemma ring_successor_is:
  assumes "sorted ring" and "ring \<noteq> []"
  shows "is_successor (set ring) h (ring_successor ring h)"
proof -
  let ?i = "length (takeWhile (\<lambda>p. p < h) ring)"
  have parts: "set ring = set (takeWhile (\<lambda>p. p < h) ring) \<union> set (dropWhile (\<lambda>p. p < h) ring)"
    by (metis set_append takeWhile_dropWhile_id)
  have below: "q < h" if "q \<in> set (takeWhile (\<lambda>p. p < h) ring)" for q
    using that by (auto dest: set_takeWhileD)
  show ?thesis
  proof (cases "dropWhile (\<lambda>p. p < h) ring")
    case Nil
    then have all: "takeWhile (\<lambda>p. p < h) ring = ring" by (metis append_Nil2 takeWhile_dropWhile_id)
    have "ring ! 0 \<le> q" if "q \<in> set ring" for q
      using assms that by (cases ring) auto
    moreover have "\<not> h \<le> q" if "q \<in> set ring" for q
      using below [of q] that by (simp add: all)
    ultimately show ?thesis using assms(2) by (auto simp: is_successor_def ring_successor_def all)
  next
    case (Cons p rest)
    have split: "ring = takeWhile (\<lambda>p. p < h) ring @ p # rest"
      by (metis Cons takeWhile_dropWhile_id)
    have i: "ring ! ?i = p" "?i < length ring"
      using arg_cong [OF split, of "\<lambda>r. r ! ?i"] arg_cong [OF split, of length] by simp_all
    have "h \<le> p" using hd_dropWhile [of "\<lambda>p. p < h" ring] by (simp add: Cons)
    moreover have "p \<le> q" if "q \<in> set ring" and "h \<le> q" for q
    proof -
      have "sorted (p # rest)" using sorted_dropWhile [OF assms(1)] by (metis Cons)
      moreover have "q \<in> set (p # rest)" using that parts below Cons by fastforce
      ultimately show ?thesis by auto
    qed
    moreover have "p \<in> set ring" using parts Cons by simp
    ultimately show ?thesis using i by (auto simp: is_successor_def ring_successor_def)
  qed
qed

lemma set_ring_nodes:
  "set (ring_nodes n eps) = {(ring_point (ep_addr ep) i, ep) |ep i. ep \<in> set eps \<and> i < n}"
  by (auto simp: ring_nodes_def)

lemma build_ring_owner:
  assumes "distinct (map fst (ring_nodes n eps))" and "(p, ep) \<in> set (ring_nodes n eps)"
  shows "map_of (snd (build_ring n eps)) p = Some ep"
  using assms by (simp add: build_ring_def map_of_put_all_wf gomap_wf_def)

lemma build_ring_points: "set (fst (build_ring n eps)) = fst ` set (ring_nodes n eps)"
  by (simp add: build_ring_def)

lemma build_ring_sorted: "sorted (fst (build_ring n eps))"
  by (simp add: build_ring_def)

definition owner_of :: "nat \<Rightarrow> endpoint list \<Rightarrow> 32 word \<Rightarrow> endpoint" where
  "owner_of n eps h = ring_lookup (fst (build_ring n eps)) (snd (build_ring n eps)) h"

lemma owner_of_node:
  assumes "distinct (map fst (ring_nodes n eps))" and "0 < n" and "eps \<noteq> []"
  obtains p where "(p, owner_of n eps h) \<in> set (ring_nodes n eps)"
    and "is_successor (fst ` set (ring_nodes n eps)) h p"
proof -
  let ?ring = "fst (build_ring n eps)" and ?p = "ring_successor (fst (build_ring n eps)) h"
  have "fst ` set (ring_nodes n eps) \<noteq> {}"
    using assms(2,3) by (cases eps) (auto simp: set_ring_nodes)
  then have "?ring \<noteq> []" using build_ring_points [of n eps] by auto
  from ring_successor_is [OF build_ring_sorted this]
  have succ: "is_successor (fst ` set (ring_nodes n eps)) h ?p" by (simp add: build_ring_points)
  then obtain ep where ep: "(?p, ep) \<in> set (ring_nodes n eps)" by (auto simp: is_successor_def)
  from build_ring_owner [OF assms(1) ep] have "owner_of n eps h = ep"
    by (simp add: owner_of_def ring_lookup_def ring_successor_def Let_def)
  with ep succ that show ?thesis by blast
qed

lemma distinct_ring_filter:
  assumes "distinct (map fst (ring_nodes n eps))"
  shows "distinct (map fst (ring_nodes n (filter P eps)))"
proof -
  have "ring_nodes n (filter P eps) = filter (\<lambda>(p, ep). P ep) (ring_nodes n eps)" for eps
    by (induction eps) (auto simp: ring_nodes_def filter_map o_def)
  then show ?thesis using assms by (simp add: distinct_map_filter)
qed

text \<open>Removing endpoints keeps the owner of a hash, unless it is one of the removed.\<close>

lemma owner_of_removal:
  assumes "distinct (map fst (ring_nodes n eps))" and "0 < n" and "P (owner_of n eps h)" and "eps \<noteq> []"
  shows "owner_of n (filter P eps) h = owner_of n eps h"
proof -
  let ?eps = "filter P eps"
  from owner_of_node [OF assms(1,2,4)] obtain p where
    p: "(p, owner_of n eps h) \<in> set (ring_nodes n eps)" "is_successor (fst ` set (ring_nodes n eps)) h p" .
  have sub: "set (ring_nodes n ?eps) \<subseteq> set (ring_nodes n eps)" by (auto simp: set_ring_nodes)
  have kept: "(p, owner_of n eps h) \<in> set (ring_nodes n ?eps)"
    using p(1) assms(3) by (auto simp: set_ring_nodes)
  have dist: "distinct (map fst (ring_nodes n ?eps))" using assms(1) by (rule distinct_ring_filter)
  from kept have "?eps \<noteq> []" by (cases "?eps = []") (auto simp: ring_nodes_def)
  from owner_of_node [OF dist assms(2) this] obtain q where
    q: "(q, owner_of n ?eps h) \<in> set (ring_nodes n ?eps)" "is_successor (fst ` set (ring_nodes n ?eps)) h q" .
  have "is_successor (fst ` set (ring_nodes n ?eps)) h p"
    using p(2) sub kept by (intro is_successor_subset [OF p(2)]) force+
  with q(2) have "q = p" by (rule is_successor_unique)
  with q(1) kept dist show ?thesis by (metis eq_key_imp_eq_value)
qed


text \<open>The owner that a pick with a fresh ring hands out.\<close>

definition key_hash :: "pick_info \<Rightarrow> 32 word" where
  "key_hash info = fnv1a32 (pi_hash_key info)"

definition holds_ring :: "endpoint list \<Rightarrow> cons_hash \<Rightarrow> bool" where
  "holds_ring eps b \<longleftrightarrow> ch_cache b = Some (ring_fingerprint eps, build_ring (ch_replicas b) eps)"

lemma rebuild_replicas [simp]: "ch_replicas (rebuild eps b) = ch_replicas b"
  by (simp add: rebuild_def)

lemma cons_hash_pick_replicas [simp]: "ch_replicas (snd (cons_hash_pick eps info b)) = ch_replicas b"
  by (simp add: cons_hash_pick_def Let_def split: option.splits)

lemma pick_from_ring:
  assumes "eps \<noteq> []" and "pi_hash_key info \<noteq> []" and "holds_ring xs (rebuild eps b)"
  shows "fst (cons_hash_pick eps info b) = Inr (owner_of (ch_replicas b) xs (key_hash info))"
    and "holds_ring xs (snd (cons_hash_pick eps info b))"
  using assms by (simp_all add: cons_hash_pick_def holds_ring_def owner_of_def key_hash_def split_beta)

lemma rebuild_new: "holds_ring eps (rebuild eps (new_cons_hash r))"
  by (simp add: rebuild_def holds_ring_def new_cons_hash_def)

lemma rebuild_other:
  assumes "holds_ring xs b" and "ring_fingerprint xs \<noteq> ring_fingerprint eps"
  shows "holds_ring eps (rebuild eps b)"
  using assms by (simp add: rebuild_def holds_ring_def)

lemma rebuild_same:
  assumes "holds_ring xs b" and "ring_fingerprint xs = ring_fingerprint eps"
  shows "holds_ring xs (rebuild eps b)"
  using assms by (simp add: rebuild_def holds_ring_def)

lemma rebuild_filter:
  assumes "holds_ring xs b" and "xs = filter P ys \<or> ys = filter P xs"
  shows "holds_ring ys (rebuild ys b)"
proof (cases "length xs = length ys")
  case True
  with assms(2) have "xs = ys" by (metis filter_id_conv length_filter_less order_less_irrefl)
  with assms(1) show ?thesis by (auto intro: rebuild_same)
next
  case False
  with assms(1) show ?thesis by (intro rebuild_other) (auto simp: ring_fingerprint_def)
qed

text \<open>
  Property C23: consistent hashing, with a positive number of points for each endpoint that are
  all different, moves only the keys it must: when some endpoints leave, a key keeps its
  endpoint unless that is one of them, and when they return every key is back where it was.
\<close>

theorem hash_moves_few_keys:
  assumes "distinct (map fst (ring_nodes n eps))" and "n = ch_replicas (new_cons_hash r)"
    and "filter P eps \<noteq> []" and "pi_hash_key info \<noteq> []"
    and "cons_hash_pick eps info (new_cons_hash r) = (before, b)"
    and "cons_hash_pick (filter P eps) info b = (during, b')"
    and "cons_hash_pick eps info b' = (after, b'')"
  shows "\<exists>ep ep'. before = Inr ep \<and> during = Inr ep' \<and> after = Inr ep
    \<and> ep \<in> set eps \<and> ep' \<in> set eps \<and> P ep' \<and> (P ep \<longrightarrow> ep' = ep)"
proof -
  let ?h = "key_hash info"
  have n: "0 < n" using assms(2) by (simp add: new_cons_hash_def)
  have some: "eps \<noteq> []" using assms(3) by auto
  note first = pick_from_ring [OF some assms(4) rebuild_new [of eps r]]
  have b: "before = Inr (owner_of n eps ?h)" "holds_ring eps b" "ch_replicas b = n"
    using first assms(2,5) cons_hash_pick_replicas [of eps info "new_cons_hash r"] by simp_all
  note second = pick_from_ring [OF assms(3,4) rebuild_filter [OF b(2), of P]]
  have b': "during = Inr (owner_of n (filter P eps) ?h)" "holds_ring (filter P eps) b'" "ch_replicas b' = n"
    using second assms(6) b(3) cons_hash_pick_replicas [of "filter P eps" info b] by simp_all
  note third = pick_from_ring [OF some assms(4) rebuild_filter [OF b'(2), of P]]
  have "after = Inr (owner_of n eps ?h)" using third assms(7) b'(3) by simp
  moreover have "owner_of m xs h \<in> set xs" if "distinct (map fst (ring_nodes m xs))" "0 < m" "xs \<noteq> []" for m xs h
    using owner_of_node [OF that] by (auto simp: set_ring_nodes)
  note this [OF assms(1) n some, of ?h] this [OF distinct_ring_filter [OF assms(1)] n assms(3), of ?h]
  moreover note owner_of_removal [OF assms(1) n _ some, of P ?h]
  ultimately show ?thesis using b(1) b'(1) by auto
qed

definition sample_key :: pick_info where
  "sample_key = \<lparr>pi_hash_key = ''user-1'', pi_zone = []\<rparr>"

theorem hash_moves_few_keys_witness:
  "\<exists>ep b during b' after.
     cons_hash_pick sample_weights sample_key (new_cons_hash 2) = (Inr ep, b)
     \<and> cons_hash_pick (filter (\<lambda>ep. ep_addr ep \<noteq> ''a'') sample_weights) sample_key b = (during, b')
     \<and> fst (cons_hash_pick sample_weights sample_key b') = Inr ep \<and> ep \<in> set sample_weights"
proof -
  have points: "distinct (map fst (ring_nodes 2 sample_weights))" by code_simp
  obtain before b where first: "cons_hash_pick sample_weights sample_key (new_cons_hash 2) = (before, b)" by force
  obtain during b' where second:
    "cons_hash_pick (filter (\<lambda>ep. ep_addr ep \<noteq> ''a'') sample_weights) sample_key b = (during, b')" by force
  obtain after b'' where third: "cons_hash_pick sample_weights sample_key b' = (after, b'')" by force
  have "2 = ch_replicas (new_cons_hash 2)" "filter (\<lambda>ep. ep_addr ep \<noteq> ''a'') sample_weights \<noteq> []"
    "pi_hash_key sample_key \<noteq> []"
    by (simp_all add: new_cons_hash_def sample_weights_def sample_endpoint_def sample_key_def)
  from hash_moves_few_keys [OF points this first second third] first second third
  show ?thesis by (metis fst_conv)
qed

text \<open>
  Property C39: the ring is cached by the addresses alone. When an endpoint keeps its address and
  changes anything else, its scheme or its metadata, a keyed pick goes on handing out the
  endpoint of the old snapshot, which is not one of the candidates.
\<close>

theorem cached_ring_is_stale:
  assumes "map ep_addr ys = map ep_addr xs" and "xs \<noteq> []" and "pi_hash_key info \<noteq> []"
    and "cons_hash_pick xs info (new_cons_hash r) = (Inr ep, b)"
  shows "fst (cons_hash_pick ys info b) = Inr ep"
proof -
  have "foldl (\<lambda>x a. x XOR ucast (fnv1a32 a)) z (map ep_addr eps)
      = foldl (\<lambda>x ep. x XOR ucast (fnv1a32 (ep_addr ep))) z eps" for z :: "64 word" and eps
    by (simp add: foldl_map)
  with assms(1) have fp: "ring_fingerprint xs = ring_fingerprint ys"
    by (metis length_map ring_fingerprint_def)
  from assms(1,2) have "ys \<noteq> []" by auto
  from pick_from_ring [OF assms(2,3) rebuild_new [of xs r]]
  have first: "Inr ep = (Inr (owner_of (ch_replicas (new_cons_hash r)) xs (key_hash info)) :: picked)" "holds_ring xs b"
    using assms(4) by simp_all
  from pick_from_ring [OF \<open>ys \<noteq> []\<close> assms(3) rebuild_same [OF first(2) fp]] first(1)
  show ?thesis using cons_hash_pick_replicas [of xs info "new_cons_hash r"] assms(4) by simp
qed

definition sample_tls :: "endpoint list" where
  "sample_tls = map (\<lambda>ep. ep\<lparr>ep_scheme := ''tls''\<rparr>) sample_pair"

theorem cached_ring_is_stale_witness:
  "\<exists>ep. fst (cons_hash_pick sample_tls sample_key (snd (cons_hash_pick sample_pair sample_key (new_cons_hash 1)))) = Inr ep
     \<and> ep_scheme ep = [] \<and> ep \<notin> set sample_tls"
proof -
  obtain ep b where first: "cons_hash_pick sample_pair sample_key (new_cons_hash 1) = (Inr ep, b)"
    and "ep \<in> set sample_pair"
  proof -
    have "list_ex (\<lambda>ep. fst (cons_hash_pick sample_pair sample_key (new_cons_hash 1)) = Inr ep) sample_pair"
      by code_simp
    then obtain ep where "ep \<in> set sample_pair"
      "fst (cons_hash_pick sample_pair sample_key (new_cons_hash 1)) = Inr ep" by (auto simp: list_ex_iff)
    then show ?thesis by (intro that [of ep "snd (cons_hash_pick sample_pair sample_key (new_cons_hash 1))"])
        (simp_all add: prod_eq_iff)
  qed
  then have "ep_scheme ep = []" by (auto simp: sample_pair_def sample_endpoint_def zero_endpoint_def)
  moreover from this have "ep \<notin> set sample_tls" by (auto simp: sample_tls_def)
  moreover have "fst (cons_hash_pick sample_tls sample_key b) = Inr ep"
    by (rule cached_ring_is_stale [OF _ _ _ first])
      (simp_all add: sample_tls_def sample_pair_def sample_key_def)
  ultimately show ?thesis unfolding first snd_conv by blast
qed

end
