(* ===== verification/CloudPool.thy ===== *)
theory CloudPool
  imports CloudBalance "HOL-Library.List_Lexorder" "HOL-Library.Char_ord"
begin

text \<open>
  The parts of \<open>cloud/loadbalance\<close> around the strategies: the tracker that suspends endpoints
  after failures, the parameters and the registry strategies are built from, the pool that
  filters the candidates, the chain that replaces pools when its selection changes, and the
  manager that hands selections to chains. Log output and metrics are left out. Pointers to
  chains are positions in the manager's list of chains.
\<close>

section \<open>The tracker\<close>

text \<open>The zero time of \<open>suspendedAt\<close> is \<open>None\<close>.\<close>

record suspend_state =
  ss_failures :: int
  ss_half_open :: bool
  ss_suspended_at :: "int option"

record tracker_config =
  tc_threshold :: int
  tc_suspend_for :: int

record tracker =
  tr_cfg :: tracker_config
  tr_states :: "(string, suspend_state) gomap"

definition set_config :: "tracker_config \<Rightarrow> tracker \<Rightarrow> tracker" where
  "set_config cfg t =
     t\<lparr>tr_cfg := (if tc_suspend_for cfg \<le> 0 then cfg\<lparr>tc_suspend_for := 5000000000\<rparr> else cfg)\<rparr>"

definition new_tracker :: "tracker_config \<Rightarrow> tracker" where
  "new_tracker cfg = set_config cfg \<lparr>tr_cfg = cfg, tr_states = []\<rparr>"

definition admit_locked :: "int \<Rightarrow> string \<Rightarrow> tracker \<Rightarrow> bool \<times> tracker" where
  "admit_locked now addr t =
     (case map_of (tr_states t) addr of
        None \<Rightarrow> (True, t)
      | Some s \<Rightarrow>
          (case ss_suspended_at s of
             None \<Rightarrow> (True, t)
           | Some since \<Rightarrow>
               if now - since < tc_suspend_for (tr_cfg t) then (False, t)
               else if ss_half_open s then (True, t)
               else (True, t\<lparr>tr_states := AList.update addr (s\<lparr>ss_half_open := True\<rparr>) (tr_states t)\<rparr>)))"

text \<open>The loop of \<open>Admissible\<close>; the clock is read for every endpoint.\<close>

fun admit_loop :: "(nat \<Rightarrow> int) \<Rightarrow> nat \<Rightarrow> endpoint list \<Rightarrow> tracker \<Rightarrow> endpoint list \<times> tracker" where
  "admit_loop clock i [] t = ([], t)"
| "admit_loop clock i (ep # eps) t =
     (let (yes, t) = admit_locked (clock i) (ep_addr ep) t;
          (out, t) = admit_loop clock (Suc i) eps t
      in (if yes then ep # out else out, t))"

definition admissible :: "(nat \<Rightarrow> int) \<Rightarrow> endpoint list \<Rightarrow> tracker \<Rightarrow> endpoint list \<times> tracker" where
  "admissible clock eps t =
     (if tc_threshold (tr_cfg t) \<le> 0 \<or> eps = [] then (eps, t) else admit_loop clock 0 eps t)"

definition allows :: "(nat \<Rightarrow> int) \<Rightarrow> endpoint list \<Rightarrow> tracker \<Rightarrow> endpoint list \<times> tracker" where
  "allows clock eps t =
     (let (out, t) = admissible clock eps t in (if out = [] then eps else out, t))"

definition record_outcome :: "int \<Rightarrow> string \<Rightarrow> bool \<Rightarrow> tracker \<Rightarrow> tracker" where
  "record_outcome now addr success t =
     (if tc_threshold (tr_cfg t) \<le> 0 then t
      else
        let s = (case map_of (tr_states t) addr of
                   None \<Rightarrow> \<lparr>ss_failures = 0, ss_half_open = False, ss_suspended_at = None\<rparr>
                 | Some s \<Rightarrow> s);
            s = (if success then
                   s\<lparr>ss_failures := 0, ss_suspended_at := None, ss_half_open := False\<rparr>
                 else if ss_half_open s then
                   s\<lparr>ss_half_open := False, ss_suspended_at := Some now\<rparr>
                 else
                   let s = s\<lparr>ss_failures := ss_failures s + 1\<rparr>
                   in if ss_failures s \<ge> tc_threshold (tr_cfg t) \<and> ss_suspended_at s = None
                      then s\<lparr>ss_suspended_at := Some now\<rparr> else s)
        in t\<lparr>tr_states := AList.update addr s (tr_states t)\<rparr>)"

definition suspended :: "int \<Rightarrow> string \<Rightarrow> tracker \<Rightarrow> bool" where
  "suspended now addr t \<longleftrightarrow>
     \<not> tc_threshold (tr_cfg t) \<le> 0
     \<and> (case map_of (tr_states t) addr of
          None \<Rightarrow> False
        | Some s \<Rightarrow> (case ss_suspended_at s of
              None \<Rightarrow> False
            | Some since \<Rightarrow> now - since < tc_suspend_for (tr_cfg t)))"

section \<open>Parameters\<close>

record params =
  pa_vals :: "(string, string) gomap"
  pa_used :: "string list"

definition new_params :: "(string, string) gomap \<Rightarrow> params" where
  "new_params vals = \<lparr>pa_vals = vals, pa_used = []\<rparr>"

definition param_string :: "string \<Rightarrow> string \<Rightarrow> params \<Rightarrow> string \<times> params" where
  "param_string key dflt p =
     ((case map_of (pa_vals p) key of Some v \<Rightarrow> v | None \<Rightarrow> dflt), p\<lparr>pa_used := key # pa_used p\<rparr>)"

definition param_int :: "string \<Rightarrow> int \<Rightarrow> params \<Rightarrow> (lb_error, int) result \<times> params" where
  "param_int key dflt p =
     (let (s, p) = param_string key [] p
      in (if s = [] then Inr dflt
          else (case atoi s of None \<Rightarrow> Inl (NotAnInteger key) | Some n \<Rightarrow> Inr n), p))"

definition param_done :: "params \<Rightarrow> (lb_error, unit) result" where
  "param_done p =
     (let left = filter (\<lambda>k. k \<notin> set (pa_used p)) (gokeys (gorange (pa_vals p)))
      in if left = [] then Inr () else Inl (NotUnderstood (sort left)))"

section \<open>The registry\<close>

text \<open>A factory is named by the function that is registered.\<close>

datatype factory =
    BuildRoundRobin
  | BuildRandom
  | BuildWeighted
  | BuildLeastConn
  | BuildP2C
  | BuildConsistentHash
  | BuildZoneAware

type_synonym registry = "(string, factory) gomap"

datatype register_panic =
    EmptyName
  | NilFactory string
  | AlreadyRegistered string

definition register :: "string \<Rightarrow> factory option \<Rightarrow> registry \<Rightarrow> (register_panic, registry) result" where
  "register name f reg =
     (if name = [] then Inl EmptyName
      else case f of
        None \<Rightarrow> Inl (NilFactory name)
      | Some f \<Rightarrow>
          if map_of reg name \<noteq> None then Inl (AlreadyRegistered name)
          else Inr (AList.update name f reg))"

definition registered_names :: "registry \<Rightarrow> string list" where
  "registered_names reg = sort (gokeys (gorange reg))"

text \<open>What the \<open>init\<close> functions of the package register.\<close>

definition builtin_registry :: "(register_panic, registry) result" where
  "builtin_registry =
     rfold (\<lambda>reg (name, f). register name (Some f) reg) []
       [(''consistent_hash'', BuildConsistentHash), (''least_conn'', BuildLeastConn),
        (''p2c'', BuildP2C), (''random'', BuildRandom), (''round_robin'', BuildRoundRobin),
        (''weighted'', BuildWeighted), (''zone_aware'', BuildZoneAware)]"

definition built :: "params \<Rightarrow> strategy \<Rightarrow> (lb_error, strategy) result" where
  "built p s = rbind (param_done p) (\<lambda>_. Inr s)"

definition delegate_of :: "params \<Rightarrow> string" where
  "delegate_of p = fst (param_string ''delegate'' [] p)"

definition new_zone_aware :: "string \<Rightarrow> strategy \<Rightarrow> strategy" where
  "new_zone_aware key delegate = SZoneAware (if key = [] then default_zone_key else key) delegate"

text \<open>The delegate of a zone-aware strategy is built from the registry without parameters.\<close>

function build :: "registry \<Rightarrow> factory \<Rightarrow> params \<Rightarrow> (lb_error, strategy) result" where
  "build reg BuildRoundRobin p = built p (SRoundRobin 0)"
| "build reg BuildRandom p = built p SRandom"
| "build reg BuildWeighted p = built p (SWeighted [])"
| "build reg BuildLeastConn p = built p (SLeastConn new_least_conn)"
| "build reg BuildP2C p = built p (SP2C new_p2c)"
| "build reg BuildConsistentHash p =
     (let (replicas, p) = param_int ''replicas'' 0 p
      in rbind replicas (\<lambda>n. built p (SConsistentHash (new_cons_hash n))))"
| "build reg BuildZoneAware p =
     (let (key, p') = param_string ''zone-key'' default_zone_key p;
          (_, p') = param_string ''delegate'' [] p'
      in rbind (if delegate_of p = [] then Inr (SRoundRobin 0)
                else if delegate_of p = ''zone_aware'' then Inl SelfDelegate
                else map_err (DelegateError (delegate_of p))
                  (case map_of reg (delegate_of p) of
                     None \<Rightarrow> Inl (UnknownStrategy (delegate_of p))
                   | Some f \<Rightarrow> build reg f (new_params [])))
           (\<lambda>d. built p' (new_zone_aware key d)))"
  by pat_completeness auto
termination
  by (relation "measure (\<lambda>(reg, f, p). length (pa_vals p))")
    (auto simp: delegate_of_def param_string_def new_params_def split: option.splits)

definition new_strategy :: "registry \<Rightarrow> string \<Rightarrow> (string, string) gomap \<Rightarrow> (lb_error, strategy) result" where
  "new_strategy reg name vals =
     (case map_of reg name of
        None \<Rightarrow> Inl (UnknownStrategy name)
      | Some f \<Rightarrow> build reg f (new_params vals))"

section \<open>Selections\<close>

record selection =
  sl_balancer :: string
  sl_params :: "(string, string) gomap"
  sl_threshold :: int
  sl_suspend_for :: int

definition zero_selection :: selection where
  "zero_selection = \<lparr>sl_balancer = [], sl_params = [], sl_threshold = 0, sl_suspend_for = 0\<rparr>"

record lb_rule =
  ru_service :: string
  ru_selection :: selection

record settings =
  se_default :: selection
  se_rules :: "lb_rule list"

definition zero_settings :: settings where
  "zero_settings = \<lparr>se_default = zero_selection, se_rules = []\<rparr>"

definition validate_selection :: "registry \<Rightarrow> selection \<Rightarrow> (lb_error, unit) result" where
  "validate_selection reg sel =
     (if sl_balancer sel = [] then Inr ()
      else rbind (new_strategy reg (sl_balancer sel) (sl_params sel)) (\<lambda>_. Inr ()))"

definition validate :: "registry \<Rightarrow> settings \<Rightarrow> (lb_error, unit) result" where
  "validate reg s =
     rbind (validate_selection reg (se_default s)) (\<lambda>_.
       rfold (\<lambda>_ r. validate_selection reg (ru_selection r)) () (se_rules s))"

definition maps_equal :: "('k, 'v) gomap \<Rightarrow> ('k, 'v) gomap \<Rightarrow> bool" where
  "maps_equal m m' \<longleftrightarrow>
     length (gorange m) = length (gorange m') \<and> list_all (\<lambda>(k, v). map_of m' k = Some v) (gorange m)"

definition selection_equal :: "selection \<Rightarrow> selection \<Rightarrow> bool" where
  "selection_equal a b \<longleftrightarrow>
     sl_balancer a = sl_balancer b \<and> maps_equal (sl_params a) (sl_params b)
     \<and> sl_threshold a = sl_threshold b \<and> sl_suspend_for a = sl_suspend_for b"

section \<open>The pool\<close>

record pool =
  po_strategy :: strategy
  po_tracker :: tracker
  po_selection :: "selection option"

text \<open>The options of \<open>NewPool\<close> are tracker configurations.\<close>

definition new_pool :: "strategy \<Rightarrow> tracker_config list \<Rightarrow> pool" where
  "new_pool bal opts =
     foldl (\<lambda>p cfg. p\<lparr>po_tracker := new_tracker cfg\<rparr>)
       \<lparr>po_strategy = bal, po_tracker = new_tracker \<lparr>tc_threshold = 0, tc_suspend_for = 0\<rparr>,
        po_selection = None\<rparr> opts"

definition eligible :: "endpoint list \<Rightarrow> endpoint list" where
  "eligible eps =
     (let out = filter (\<lambda>ep. \<not> ep_disabled ep \<and> ep_healthy ep) eps
      in if out = [] then filter (\<lambda>ep. \<not> ep_disabled ep) eps else out)"

definition exclude_drained :: "endpoint list \<Rightarrow> endpoint list" where
  "exclude_drained eps = filter (\<lambda>ep. ep_weight ep \<noteq> 0) eps"

text \<open>A pick from the answer of the source; \<open>clock\<close> is what the tracker reads.\<close>

definition pool_pick ::
  "pick_env \<Rightarrow> (nat \<Rightarrow> int) \<Rightarrow> (lb_error, endpoint list) result \<Rightarrow> pick_info \<Rightarrow> pool \<Rightarrow> picked \<times> pool" where
  "pool_pick env clock src info p =
     (case src of
        Inl e \<Rightarrow> (Inl e, p)
      | Inr eps \<Rightarrow>
          if eps = [] then (Inl ErrNoAvailable, p)
          else
            let candidates = eligible eps in
            if candidates = [] then (Inl ErrNoAvailable, p)
            else
              let (active, t) = admissible clock candidates (po_tracker p);
                  candidates = (if active \<noteq> [] then active else candidates);
                  live = exclude_drained candidates;
                  candidates = (if live \<noteq> [] then live else candidates);
                  (r, bal) = strategy_pick env candidates info (po_strategy p)
              in (r, p\<lparr>po_strategy := bal, po_tracker := t\<rparr>))"

definition pool_complete :: "pick_env \<Rightarrow> int \<Rightarrow> endpoint \<Rightarrow> bool \<Rightarrow> pool \<Rightarrow> pool" where
  "pool_complete env now ep success p =
     p\<lparr>po_strategy := strategy_complete env (ep_addr ep) success (po_strategy p),
       po_tracker := record_outcome now (ep_addr ep) success (po_tracker p)\<rparr>"

section \<open>The chain\<close>

text \<open>The source is a reference to a resolver; the generation in force is absent at first.\<close>

record chain =
  cn_source :: nat
  cn_label :: string
  cn_cur :: "pool option"
  cn_gen :: nat
  cn_last :: selection

definition new_chain :: "nat \<Rightarrow> string \<Rightarrow> chain" where
  "new_chain src label =
     \<lparr>cn_source = src, cn_label = label, cn_cur = None, cn_gen = 0, cn_last = zero_selection\<rparr>"

definition build_pool :: "registry \<Rightarrow> selection \<Rightarrow> (lb_error, pool) result" where
  "build_pool reg s =
     rbind (if sl_balancer s = [] then Inr (SRoundRobin 0)
            else new_strategy reg (sl_balancer s) (sl_params s))
       (\<lambda>bal. Inr ((new_pool bal
           [\<lparr>tc_threshold = sl_threshold s, tc_suspend_for = sl_suspend_for s\<rparr>])\<lparr>po_selection := Some s\<rparr>))"

definition refresh_chain :: "registry \<Rightarrow> selection \<Rightarrow> chain \<Rightarrow> (lb_error, unit) result \<times> chain" where
  "refresh_chain reg s c =
     (if 0 < cn_gen c \<and> selection_equal (cn_last c) s then (Inr (), c)
      else
        let c = c\<lparr>cn_last := s\<rparr>
        in case build_pool reg s of
             Inl e \<Rightarrow> (Inl e, c)
           | Inr p \<Rightarrow> (Inr (), c\<lparr>cn_gen := cn_gen c + 1, cn_cur := Some p\<rparr>))"

text \<open>A request through a chain without a generation reads a nil pool and panics: \<open>None\<close>.\<close>

definition chain_pick ::
  "pick_env \<Rightarrow> (nat \<Rightarrow> int) \<Rightarrow> (nat \<Rightarrow> (lb_error, endpoint list) result) \<Rightarrow> pick_info \<Rightarrow> chain \<Rightarrow>
   (picked \<times> chain) option" where
  "chain_pick env clock resolve info c =
     (case cn_cur c of
        None \<Rightarrow> None
      | Some p \<Rightarrow>
          let (r, p) = pool_pick env clock (resolve (cn_source c)) info p
          in Some (r, c\<lparr>cn_cur := Some p\<rparr>))"

definition chain_complete :: "pick_env \<Rightarrow> int \<Rightarrow> endpoint \<Rightarrow> bool \<Rightarrow> chain \<Rightarrow> chain option" where
  "chain_complete env now ep success c =
     (case cn_cur c of
        None \<Rightarrow> None
      | Some p \<Rightarrow> Some (c\<lparr>cn_cur := Some (pool_complete env now ep success p)\<rparr>))"

section \<open>The manager\<close>

record lb_manager =
  mg_chains :: "chain list"
  mg_subs :: "(string, nat list) gomap"
  mg_settings :: settings

definition new_manager :: lb_manager where
  "new_manager = \<lparr>mg_chains = [], mg_subs = [], mg_settings = zero_settings\<rparr>"

definition selection_for :: "string \<Rightarrow> settings \<Rightarrow> selection" where
  "selection_for label s =
     (case find (\<lambda>r. ru_service r = label) (se_rules s) of
        Some r \<Rightarrow> ru_selection r
      | None \<Rightarrow> se_default s)"

definition refresh_at :: "registry \<Rightarrow> selection \<Rightarrow> chain list \<Rightarrow> nat \<Rightarrow> chain list" where
  "refresh_at reg s cs i = cs[i := snd (refresh_chain reg s (cs ! i))]"

definition manager_apply :: "registry \<Rightarrow> settings \<Rightarrow> lb_manager \<Rightarrow> lb_manager" where
  "manager_apply reg s m =
     m\<lparr>mg_settings := s,
       mg_chains := foldl (\<lambda>cs (label, is). foldl (refresh_at reg (selection_for label s)) cs is)
         (mg_chains m) (gorange (mg_subs m))\<rparr>"

definition manager_chain :: "registry \<Rightarrow> nat \<Rightarrow> string \<Rightarrow> lb_manager \<Rightarrow> nat \<times> lb_manager" where
  "manager_chain reg src label m =
     (let i = length (mg_chains m);
          subs = (case map_of (mg_subs m) label of None \<Rightarrow> [] | Some is \<Rightarrow> is);
          c = snd (refresh_chain reg (selection_for label (mg_settings m)) (new_chain src label))
      in (i, m\<lparr>mg_subs := AList.update label (subs @ [i]) (mg_subs m), mg_chains := mg_chains m @ [c]\<rparr>))"

definition manager_close :: "lb_manager \<Rightarrow> lb_manager" where
  "manager_close m = m\<lparr>mg_settings := zero_settings, mg_subs := []\<rparr>"

section \<open>The tracker is one automaton for each address\<close>

text \<open>
  An address is up with a number of failures since the last success, down since an instant, or
  on trial after its cool-down. The abstract tracker is a function from addresses.
\<close>

datatype health = Up int | Down int | Trial int

fun admit_health :: "int \<Rightarrow> int \<Rightarrow> health \<Rightarrow> bool \<times> health" where
  "admit_health wait now (Up n) = (True, Up n)"
| "admit_health wait now (Down since) = (if now - since < wait then (False, Down since) else (True, Trial since))"
| "admit_health wait now (Trial since) = (\<not> now - since < wait, Trial since)"

fun record_health :: "int \<Rightarrow> int \<Rightarrow> bool \<Rightarrow> health \<Rightarrow> health" where
  "record_health limit now True h = Up 0"
| "record_health limit now False (Up n) = (if n + 1 \<ge> limit then Down now else Up (n + 1))"
| "record_health limit now False (Down since) = Down since"
| "record_health limit now False (Trial since) = Down now"

definition health_of :: "tracker \<Rightarrow> string \<Rightarrow> health" where
  "health_of t addr =
     (case map_of (tr_states t) addr of
        None \<Rightarrow> Up 0
      | Some s \<Rightarrow> (case ss_suspended_at s of
            None \<Rightarrow> Up (ss_failures s)
          | Some since \<Rightarrow> if ss_half_open s then Trial since else Down since))"

fun admit_all_health ::
  "int \<Rightarrow> (nat \<Rightarrow> int) \<Rightarrow> nat \<Rightarrow> endpoint list \<Rightarrow> (string \<Rightarrow> health) \<Rightarrow> endpoint list \<times> (string \<Rightarrow> health)" where
  "admit_all_health wait clock i [] h = ([], h)"
| "admit_all_health wait clock i (ep # eps) h =
     (let (yes, s) = admit_health wait (clock i) (h (ep_addr ep));
          (out, h) = admit_all_health wait clock (Suc i) eps (h(ep_addr ep := s))
      in (if yes then ep # out else out, h))"

text \<open>What happens to a tracker, and the answers of \<open>Admissible\<close>.\<close>

datatype tracker_event =
    Admit "nat \<Rightarrow> int" "endpoint list"
  | Record int string bool
  | Configure tracker_config

fun tracker_run :: "tracker_event list \<Rightarrow> tracker \<Rightarrow> endpoint list list \<times> tracker" where
  "tracker_run [] t = ([], t)"
| "tracker_run (Admit clock eps # evs) t =
     (let (out, t) = admissible clock eps t; (outs, t) = tracker_run evs t in (out # outs, t))"
| "tracker_run (Record now addr success # evs) t = tracker_run evs (record_outcome now addr success t)"
| "tracker_run (Configure cfg # evs) t = tracker_run evs (set_config cfg t)"

fun health_run ::
  "tracker_event list \<Rightarrow> int \<Rightarrow> int \<Rightarrow> (string \<Rightarrow> health) \<Rightarrow> endpoint list list \<times> (string \<Rightarrow> health)" where
  "health_run [] limit wait h = ([], h)"
| "health_run (Admit clock eps # evs) limit wait h =
     (let (out, h) = (if 0 < limit then admit_all_health wait clock 0 eps h else (eps, h));
          (outs, h) = health_run evs limit wait h
      in (out # outs, h))"
| "health_run (Record now addr success # evs) limit wait h =
     health_run evs limit wait
       (if 0 < limit then h(addr := record_health limit now success (h addr)) else h)"
| "health_run (Configure cfg # evs) limit wait h =
     health_run evs (tc_threshold cfg) (if 0 < tc_suspend_for cfg then tc_suspend_for cfg else 5000000000) h"

text \<open>An address that is not suspended is not half open.\<close>

definition tracker_ok :: "tracker \<Rightarrow> bool" where
  "tracker_ok t \<longleftrightarrow>
     (\<forall>addr s. map_of (tr_states t) addr = Some s \<longrightarrow> ss_suspended_at s = None \<longrightarrow> \<not> ss_half_open s)"

lemma tracker_ok_update:
  assumes "tracker_ok t" and "ss_suspended_at s = None \<longrightarrow> \<not> ss_half_open s"
  shows "tracker_ok (t\<lparr>tr_states := AList.update addr s (tr_states t)\<rparr>)"
  using assms by (auto simp: tracker_ok_def update_conv')

lemma health_of_update:
  "health_of (t\<lparr>tr_states := AList.update addr s (tr_states t)\<rparr>) =
   (health_of t)(addr := (case ss_suspended_at s of
            None \<Rightarrow> Up (ss_failures s)
          | Some since \<Rightarrow> if ss_half_open s then Trial since else Down since))"
  by (auto simp: health_of_def update_conv' fun_eq_iff)

lemma admit_locked_refines:
  assumes "admit_locked now addr t = (yes, t')"
  shows "admit_health (tc_suspend_for (tr_cfg t)) now (health_of t addr) = (yes, health_of t' addr)"
    and "health_of t' = (health_of t)(addr := health_of t' addr)"
    and "tr_cfg t' = tr_cfg t" and "tracker_ok t \<Longrightarrow> tracker_ok t'"
proof -
  show "admit_health (tc_suspend_for (tr_cfg t)) now (health_of t addr) = (yes, health_of t' addr)"
    using assms
    by (auto simp: admit_locked_def health_of_def update_conv' split: option.splits if_splits)
  show "health_of t' = (health_of t)(addr := health_of t' addr)" and "tr_cfg t' = tr_cfg t"
    using assms
    by (auto simp: admit_locked_def health_of_update split: option.splits if_splits)
  show "tracker_ok t'" if "tracker_ok t"
    using assms that
    by (auto simp: admit_locked_def intro!: tracker_ok_update split: option.splits if_splits)
qed

lemma admit_loop_refines:
  assumes "admit_loop clock i eps t = (out, t')"
  shows "admit_all_health (tc_suspend_for (tr_cfg t)) clock i eps (health_of t) = (out, health_of t')
    \<and> tr_cfg t' = tr_cfg t \<and> (tracker_ok t \<longrightarrow> tracker_ok t')"
  using assms
proof (induction clock i eps t arbitrary: out t' rule: admit_loop.induct)
  case (2 clock i ep eps t)
  obtain yes t1 where one: "admit_locked (clock i) (ep_addr ep) t = (yes, t1)" by force
  obtain out' where rest: "admit_loop clock (Suc i) eps t1 = (out', t')"
    and out: "out = (if yes then ep # out' else out')"
    using "2.prems" by (auto simp: one split: prod.splits)
  note step = admit_locked_refines [OF one]
  from "2.IH" [OF one [symmetric] refl rest] step(3,4) step(1) out
  show ?case by (simp flip: step(2))
qed simp

lemma record_refines:
  assumes "tracker_ok t" and "0 < tc_threshold (tr_cfg t)"
  shows "health_of (record_outcome now addr success t)
      = (health_of t)(addr := record_health (tc_threshold (tr_cfg t)) now success (health_of t addr))"
    and "tracker_ok (record_outcome now addr success t)"
    and "tr_cfg (record_outcome now addr success t) = tr_cfg t"
proof -
  let ?s = "case map_of (tr_states t) addr of
      None \<Rightarrow> \<lparr>ss_failures = 0, ss_half_open = False, ss_suspended_at = None\<rparr> | Some s \<Rightarrow> s"
  have half: "ss_suspended_at ?s = None \<longrightarrow> \<not> ss_half_open ?s"
    using assms(1) by (auto simp: tracker_ok_def split: option.splits)
  have old: "health_of t addr = (case ss_suspended_at ?s of
      None \<Rightarrow> Up (ss_failures ?s) | Some since \<Rightarrow> if ss_half_open ?s then Trial since else Down since)"
    by (simp add: health_of_def split: option.splits)
  show "health_of (record_outcome now addr success t)
      = (health_of t)(addr := record_health (tc_threshold (tr_cfg t)) now success (health_of t addr))"
    unfolding old using half assms(2)
    by (cases success)
      (auto simp: record_outcome_def Let_def health_of_update split: option.splits)
  show "tracker_ok (record_outcome now addr success t)"
    using half assms(1) by (auto simp: record_outcome_def Let_def intro!: tracker_ok_update)
  show "tr_cfg (record_outcome now addr success t) = tr_cfg t"
    by (simp add: record_outcome_def Let_def)
qed

lemma set_config_refines:
  "health_of (set_config cfg t) = health_of t" "tracker_ok (set_config cfg t) = tracker_ok t"
  "tc_threshold (tr_cfg (set_config cfg t)) = tc_threshold cfg"
  "tc_suspend_for (tr_cfg (set_config cfg t))
     = (if 0 < tc_suspend_for cfg then tc_suspend_for cfg else 5000000000)"
  by (simp_all add: set_config_def health_of_def tracker_ok_def fun_eq_iff)

lemma tracker_run_refines:
  assumes "tracker_ok t" and "tracker_run evs t = (outs, t')"
  shows "health_run evs (tc_threshold (tr_cfg t)) (tc_suspend_for (tr_cfg t)) (health_of t) = (outs, health_of t')"
  using assms
proof (induction evs t arbitrary: outs t' rule: tracker_run.induct)
  case (2 clock eps evs t)
  obtain out t1 where one: "admissible clock eps t = (out, t1)" by force
  obtain outs' where rest: "tracker_run evs t1 = (outs', t')" and outs: "outs = out # outs'"
    using "2.prems"(2) by (auto simp: one split: prod.splits)
  have t1: "(if 0 < tc_threshold (tr_cfg t) then admit_all_health (tc_suspend_for (tr_cfg t)) clock 0 eps (health_of t)
        else (eps, health_of t)) = (out, health_of t1)" "tr_cfg t1 = tr_cfg t" "tracker_ok t1"
    using one admit_loop_refines [of clock 0 eps t out t1] "2.prems"(1)
    by (auto simp: admissible_def split: if_splits)
  from "2.IH" [OF one [symmetric] refl t1(3) rest] t1(1,2) outs show ?case by simp
next
  case (3 now addr success evs t)
  show ?case
  proof (cases "0 < tc_threshold (tr_cfg t)")
    case True
    with "3.IH" [OF record_refines(2) [OF "3.prems"(1) True]] "3.prems"
    show ?thesis by (simp add: record_refines [OF "3.prems"(1) True] fun_upd_def)
  next
    case False
    with 3 show ?thesis by (simp add: record_outcome_def)
  qed
next
  case (4 cfg evs t)
  from "4.IH" [of outs t'] "4.prems" show ?case by (simp add: set_config_refines)
qed simp

text \<open>
  Property C22: over any sequence of admissions, recorded outcomes and changes of the
  configuration, the tracker answers like one automaton for each address: up until as many
  failures in a row as the threshold, down for the cool-down, then on trial until an outcome is
  recorded, which brings the address up again or starts a new cool-down.
\<close>

theorem tracker_refines_health:
  "health_run evs (tc_threshold (tr_cfg (new_tracker cfg))) (tc_suspend_for (tr_cfg (new_tracker cfg)))
     (\<lambda>_. Up 0)
   = map_prod id health_of (tracker_run evs (new_tracker cfg))"
proof -
  have "health_of (new_tracker cfg) = (\<lambda>_. Up 0)" "tracker_ok (new_tracker cfg)"
    by (simp_all add: new_tracker_def set_config_refines, simp_all add: health_of_def tracker_ok_def fun_eq_iff)
  moreover obtain outs t' where "tracker_run evs (new_tracker cfg) = (outs, t')" by force
  ultimately show ?thesis using tracker_run_refines [of "new_tracker cfg" evs outs t'] by simp
qed

text \<open>
  A suspended endpoint whose cool-down is over gets not one trial request: it is admitted until
  the outcome of some request is recorded.
\<close>

theorem trial_admits_all:
  assumes "health_of t addr = Trial since" and "tc_suspend_for (tr_cfg t) \<le> now - since"
    and "tc_suspend_for (tr_cfg t) \<le> now' - since"
  shows "fst (admit_locked now' addr (snd (admit_locked now addr t)))"
proof -
  obtain yes t1 where one: "admit_locked now addr t = (yes, t1)" by force
  obtain yes' t2 where two: "admit_locked now' addr t1 = (yes', t2)" by force
  from admit_locked_refines(1,3) [OF one] assms(1) have "health_of t1 addr = Trial since" "tr_cfg t1 = tr_cfg t"
    by simp_all
  with admit_locked_refines(1) [OF two] assms(3) show ?thesis by (simp add: one two)
qed


section \<open>Who gets traffic\<close>

lemma eligible_sub:
  "set (eligible eps) \<subseteq> {ep \<in> set eps. \<not> ep_disabled ep}"
  by (auto simp: eligible_def Let_def)

lemma eligible_Nil: "eligible eps = [] \<longleftrightarrow> (\<forall>ep\<in>set eps. ep_disabled ep)"
  by (auto simp: eligible_def Let_def filter_empty_conv)

lemma eligible_healthy:
  assumes "ep \<in> set (eligible eps)" and "e \<in> set eps" and "\<not> ep_disabled e" and "ep_healthy e"
  shows "ep_healthy ep"
  using assms by (auto simp: eligible_def Let_def filter_empty_conv split: if_splits)

text \<open>With a clock that stands still during the call the tracker admits what is not suspended.\<close>

lemma suspended_health:
  "suspended now addr t \<longleftrightarrow>
     0 < tc_threshold (tr_cfg t) \<and> \<not> fst (admit_health (tc_suspend_for (tr_cfg t)) now (health_of t addr))"
  by (auto simp: suspended_def health_of_def split: option.splits)

lemma admit_health_twice:
  "fst (admit_health wait now (snd (admit_health wait now h))) = fst (admit_health wait now h)"
  by (cases h) auto

lemma admit_all_filter:
  "fst (admit_all_health wait (\<lambda>_. now) i eps h) = filter (\<lambda>ep. fst (admit_health wait now (h (ep_addr ep)))) eps"
proof (induction eps arbitrary: i h)
  case (Cons ep eps)
  obtain yes s where one: "admit_health wait now (h (ep_addr ep)) = (yes, s)" by force
  have "fst (admit_health wait now ((h(ep_addr ep := s)) a)) = fst (admit_health wait now (h a))" for a
    using admit_health_twice [of wait now "h (ep_addr ep)"] one by simp
  with Cons.IH [of "Suc i" "h(ep_addr ep := s)"] show ?case by (simp add: one split_beta fun_upd_def)
qed simp

lemma admissible_filter:
  "fst (admissible (\<lambda>_. now) eps t) = filter (\<lambda>ep. \<not> suspended now (ep_addr ep) t) eps"
proof (cases "0 < tc_threshold (tr_cfg t) \<and> eps \<noteq> []")
  case True
  obtain out t' where run: "admit_loop (\<lambda>_. now) 0 eps t = (out, t')" by force
  from admit_loop_refines [OF run]
  have "out = fst (admit_all_health (tc_suspend_for (tr_cfg t)) (\<lambda>_. now) 0 eps (health_of t))" by simp
  with True show ?thesis by (simp add: admissible_def run admit_all_filter suspended_health)
next
  case False
  then show ?thesis by (auto simp: admissible_def suspended_def)
qed

text \<open>The candidates a pool hands to its strategy.\<close>

definition preferred :: "('a \<Rightarrow> bool) \<Rightarrow> 'a list \<Rightarrow> 'a list" where
  "preferred P xs = (if filter P xs = [] then xs else filter P xs)"

lemma preferred_sub: "set (preferred P xs) \<subseteq> set xs"
  by (auto simp: preferred_def)

lemma preferred_Nil [simp]: "preferred P xs = [] \<longleftrightarrow> xs = []"
  by (auto simp: preferred_def)

lemma preferred_mem: "x \<in> set (preferred P xs) \<Longrightarrow> P x \<or> (\<forall>y\<in>set xs. \<not> P y)"
  by (auto simp: preferred_def filter_empty_conv split: if_splits)

definition pool_candidates :: "int \<Rightarrow> endpoint list \<Rightarrow> tracker \<Rightarrow> endpoint list" where
  "pool_candidates now eps t =
     preferred (\<lambda>ep. ep_weight ep \<noteq> 0) (preferred (\<lambda>ep. \<not> suspended now (ep_addr ep) t) (eligible eps))"

lemma pool_pick_candidates:
  assumes "pool_pick env (\<lambda>_. now) (Inr eps) info p = (r, p')"
  shows "r = fst (strategy_pick env (pool_candidates now eps (po_tracker p)) info (po_strategy p))"
proof (cases "eligible eps = []")
  case True
  then show ?thesis using assms strategies.pick_none [of env info "po_strategy p"]
    by (auto simp: pool_pick_def pool_candidates_def preferred_def split: if_splits)
next
  case False
  then have "eps \<noteq> []" by (auto simp: eligible_def)
  with False assms show ?thesis
    using admissible_filter [of now "eligible eps" "po_tracker p"]
    by (auto simp: pool_pick_def pool_candidates_def preferred_def exclude_drained_def Let_def
        split: prod.splits if_splits)
qed


definition sample_env :: pick_env where
  "sample_env = \<lparr>pe_draw = (\<lambda>k. k), pe_now = (\<lambda>k. int k)\<rparr>"

definition sample_pool :: pool where
  "sample_pool =
     pool_complete sample_env 10 (sample_endpoint ''a'' 5) False
       (new_pool (SRoundRobin 0) [\<lparr>tc_threshold = 1, tc_suspend_for = 60\<rparr>])"



section \<open>Chains follow the settings\<close>

text \<open>Which parameters a strategy accepts depends on the map alone, not on its order.\<close>

lemma param_done_ok:
  "param_done p = Inr () \<longleftrightarrow> (\<forall>k\<in>dom (map_of (pa_vals p)). k \<in> set (pa_used p))"
proof -
  have "set (gokeys (gorange (pa_vals p))) = dom (map_of (pa_vals p))"
    by (metis dom_map_of_conv_image_fst map_of_gorange set_map)
  then show ?thesis by (auto simp: param_done_def Let_def filter_empty_conv)
qed

lemma built_Inr_iff: "built p s = Inr s' \<longleftrightarrow> s' = s \<and> param_done p = Inr ()"
  by (auto simp: built_def rbind_Inr_iff)

definition same_params :: "params \<Rightarrow> params \<Rightarrow> bool" where
  "same_params p q \<longleftrightarrow> map_of (pa_vals p) = map_of (pa_vals q) \<and> pa_used p = pa_used q"

lemma same_params_done: "same_params p q \<Longrightarrow> (param_done p = Inr ()) = (param_done q = Inr ())"
  by (simp add: param_done_ok same_params_def)

lemma same_params_used:
  "same_params p q \<Longrightarrow> same_params (p\<lparr>pa_used := key # pa_used p\<rparr>) (q\<lparr>pa_used := key # pa_used q\<rparr>)"
  by (simp add: same_params_def)

lemma same_params_string:
  "same_params p q \<Longrightarrow> fst (param_string key dflt p) = fst (param_string key dflt q)
     \<and> same_params (snd (param_string key dflt p)) (snd (param_string key dflt q))"
  by (simp add: param_string_def same_params_used) (simp add: same_params_def)

lemma same_params_int:
  "same_params p q \<Longrightarrow> fst (param_int key dflt p) = fst (param_int key dflt q)
     \<and> same_params (snd (param_int key dflt p)) (snd (param_int key dflt q))"
  using same_params_string [of p q key "[]"] by (simp add: param_int_def split_beta Let_def)

lemma build_same_params:
  assumes "same_params p q"
  shows "build reg f p = Inr s \<longleftrightarrow> build reg f q = Inr s"
proof (cases f)
  case BuildConsistentHash
  with same_params_int [OF assms, of "''replicas''" 0] same_params_done show ?thesis
    by (auto simp: split_beta rbind_Inr_iff built_Inr_iff)
next
  case BuildZoneAware
  note key = same_params_string [OF assms, of "''zone-key''" default_zone_key]
  note both = same_params_string [OF key [THEN conjunct2], of "''delegate''" "[]"]
  have "delegate_of p = delegate_of q"
    using same_params_string [OF assms, of "''delegate''" "[]"] by (simp add: delegate_of_def)
  with BuildZoneAware key both same_params_done show ?thesis
    by (cases "map_of reg (delegate_of q)") (auto simp: split_beta rbind_Inr_iff built_Inr_iff)
qed (use same_params_done [OF assms] in \<open>simp_all add: built_Inr_iff\<close>)

lemma maps_equal_refl: "maps_equal m m"
  using map_of_in_set [OF gomap_wf_gorange [of m]]
  by (auto simp: maps_equal_def list_all_iff map_of_gorange)

lemma maps_equal_map_of:
  assumes "maps_equal m m'"
  shows "map_of m = map_of m'"
proof -
  have sub: "map_of m \<subseteq>\<^sub>m map_of m'"
    unfolding map_le_def
  proof
    fix k assume "k \<in> dom (map_of m)"
    then obtain v where v: "map_of m k = Some v" by blast
    then have "(k, v) \<in> set (gorange m)"
      using map_of_in_set [OF gomap_wf_gorange [of m]] by (simp add: map_of_gorange)
    with assms v show "map_of m k = map_of m' k" by (auto simp: maps_equal_def list_all_iff)
  qed
  have card: "card (dom (map_of n)) = length (gorange n)" for n :: "('a, 'b) gomap"
    using distinct_card [of "gokeys (gorange n)"] gomap_wf_gorange [of n]
    by (metis dom_map_of_conv_image_fst gomap_wf_def length_map map_of_gorange set_map)
  have "dom (map_of m) = dom (map_of m')"
    using assms map_le_implies_dom_le [OF sub] by (intro card_subset_eq) (simp_all add: card maps_equal_def finite_dom_map_of)
  with sub show ?thesis by (simp add: map_le_antisym map_le_def)
qed

lemma selection_equal_refl: "selection_equal s s"
  by (simp add: selection_equal_def maps_equal_refl)

lemma selection_equal_accepted:
  assumes "selection_equal a b"
  shows "validate_selection reg a = Inr () \<longleftrightarrow> validate_selection reg b = Inr ()"
proof -
  have "same_params (new_params (sl_params a)) (new_params (sl_params b))"
    using assms maps_equal_map_of [of "sl_params a" "sl_params b"]
    by (simp add: same_params_def new_params_def selection_equal_def)
  from build_same_params [OF this] assms show ?thesis
    by (auto simp: validate_selection_def new_strategy_def selection_equal_def rbind_Inr_iff split: option.splits)
qed

lemma build_pool_accepted:
  "(\<exists>p. build_pool reg s = Inr p) \<longleftrightarrow> validate_selection reg s = Inr ()"
  "build_pool reg s = Inr p \<Longrightarrow> po_selection p = Some s"
  by (auto simp: build_pool_def validate_selection_def rbind_Inr_iff)

text \<open>
  What holds of a chain that was handed a selection: it has a generation unless none was ever
  built, and the generation in force is the one of the last selection, if that builds.
\<close>

definition chain_ok :: "registry \<Rightarrow> chain \<Rightarrow> bool" where
  "chain_ok reg c \<longleftrightarrow>
     (0 < cn_gen c \<longleftrightarrow> cn_cur c \<noteq> None)
     \<and> (validate_selection reg (cn_last c) = Inr () \<longrightarrow>
          (\<exists>p. cn_cur c = Some p \<and> po_selection p = Some (cn_last c)))"

lemma refresh_chain_ok:
  assumes "0 < cn_gen c \<longleftrightarrow> cn_cur c \<noteq> None" and "0 < cn_gen c \<longrightarrow> chain_ok reg c"
  shows "chain_ok reg (snd (refresh_chain reg s c))"
    and "selection_equal (cn_last (snd (refresh_chain reg s c))) s"
    and "cn_label (snd (refresh_chain reg s c)) = cn_label c"
proof -
  consider "0 < cn_gen c \<and> selection_equal (cn_last c) s"
    | e where "\<not> (0 < cn_gen c \<and> selection_equal (cn_last c) s)" "build_pool reg s = Inl e"
    | p where "\<not> (0 < cn_gen c \<and> selection_equal (cn_last c) s)" "build_pool reg s = Inr p"
    by (cases "build_pool reg s") blast+
  note cases = this
  have refused: "validate_selection reg s \<noteq> Inr ()" if "build_pool reg s = Inl e" for e
    using build_pool_accepted(1) [of reg s] that by auto
  show "chain_ok reg (snd (refresh_chain reg s c))"
    using cases assms refused build_pool_accepted(2)
    by cases (simp_all add: refresh_chain_def chain_ok_def)
  show "selection_equal (cn_last (snd (refresh_chain reg s c))) s"
    using cases by cases (simp_all add: refresh_chain_def selection_equal_refl)
  show "cn_label (snd (refresh_chain reg s c)) = cn_label c"
    using cases by cases (simp_all add: refresh_chain_def)
qed

lemma refresh_new_chain:
  "chain_ok reg (snd (refresh_chain reg s (new_chain src label)))"
  "selection_equal (cn_last (snd (refresh_chain reg s (new_chain src label)))) s"
  "cn_label (snd (refresh_chain reg s (new_chain src label))) = label"
  using refresh_chain_ok [of "new_chain src label" reg s] by (simp_all add: new_chain_def)

lemma chain_ok_refresh:
  assumes "chain_ok reg c"
  shows "chain_ok reg (snd (refresh_chain reg s c))"
    and "selection_equal (cn_last (snd (refresh_chain reg s c))) s"
    and "cn_label (snd (refresh_chain reg s c)) = cn_label c"
  using refresh_chain_ok [of c reg s] assms by (simp_all add: chain_ok_def)

text \<open>A request changes neither the selection nor the generation.\<close>

definition same_generation :: "chain \<Rightarrow> chain \<Rightarrow> bool" where
  "same_generation c c' \<longleftrightarrow>
     cn_gen c' = cn_gen c \<and> cn_last c' = cn_last c \<and> cn_label c' = cn_label c
     \<and> map_option po_selection (cn_cur c') = map_option po_selection (cn_cur c)"

lemma same_generation_ok: "same_generation c c' \<Longrightarrow> chain_ok reg c \<Longrightarrow> chain_ok reg c'"
  by (cases "cn_cur c"; cases "cn_cur c'") (auto simp: same_generation_def chain_ok_def)

lemma pool_pick_selection: "po_selection (snd (pool_pick env clock src info p)) = po_selection p"
  by (simp add: pool_pick_def Let_def split: sum.splits prod.splits)

lemma chain_pick_generation: "chain_pick env clock resolve info c = Some (r, c') \<Longrightarrow> same_generation c c'"
  using pool_pick_selection [of env clock "resolve (cn_source c)" info]
  by (auto simp: chain_pick_def same_generation_def split_beta split: option.splits)

lemma chain_complete_generation: "chain_complete env now ep success c = Some c' \<Longrightarrow> same_generation c c'"
  by (auto simp: chain_complete_def same_generation_def pool_complete_def split: option.splits)


lemma length_refresh_at [simp]: "length (refresh_at reg s cs i) = length cs"
  by (simp add: refresh_at_def)

lemma refresh_label:
  assumes "distinct is" and "\<forall>i\<in>set is. i < length cs"
  shows "length (foldl (refresh_at reg s) cs is) = length cs
    \<and> (\<forall>j < length cs. foldl (refresh_at reg s) cs is ! j
         = (if j \<in> set is then snd (refresh_chain reg s (cs ! j)) else cs ! j))"
  using assms
proof (induction "is" arbitrary: cs)
  case (Cons i "is")
  then have "distinct is" "\<forall>k\<in>set is. k < length (refresh_at reg s cs i)" "i \<notin> set is" "i < length cs" by simp_all
  with Cons.IH [of "refresh_at reg s cs i"] show ?case by (auto simp: refresh_at_def nth_list_update)
qed simp

definition subs_ok :: "chain list \<Rightarrow> (string, nat list) gomap \<Rightarrow> bool" where
  "subs_ok cs subs \<longleftrightarrow>
     gomap_wf subs
     \<and> (\<forall>(label, is)\<in>set subs. distinct is \<and> (\<forall>i\<in>set is. i < length cs \<and> cn_label (cs ! i) = label))"

lemma refresh_keeps_label [simp]: "cn_label (snd (refresh_chain reg s c)) = cn_label c"
  by (simp add: refresh_chain_def Let_def split: sum.splits)

lemma refresh_labels:
  assumes "subs_ok cs subs"
  shows "length (foldl (\<lambda>cs (label, is). foldl (refresh_at reg (sel label)) cs is) cs subs) = length cs
    \<and> (\<forall>j < length cs. foldl (\<lambda>cs (label, is). foldl (refresh_at reg (sel label)) cs is) cs subs ! j
         = (if \<exists>is. (cn_label (cs ! j), is) \<in> set subs \<and> j \<in> set is
            then snd (refresh_chain reg (sel (cn_label (cs ! j))) (cs ! j)) else cs ! j))"
  using assms
proof (induction subs arbitrary: cs)
  case (Cons sub subs)
  obtain label "is" where sub: "sub = (label, is)" by force
  let ?cs = "foldl (refresh_at reg (sel label)) cs is"
  from Cons.prems have idx: "distinct is" "\<forall>i\<in>set is. i < length cs" "\<forall>i\<in>set is. cn_label (cs ! i) = label"
    and other: "\<forall>is'. (label, is') \<notin> set subs"
    by (auto simp: subs_ok_def sub gomap_wf_def image_iff)
  note one = refresh_label [OF idx(1,2), of reg "sel label"]
  have labels: "cn_label (?cs ! j) = cn_label (cs ! j)" if "j < length cs" for j
    using one that by simp
  have "subs_ok cs subs" using Cons.prems by (simp add: subs_ok_def sub gomap_wf_def)
  then have "subs_ok ?cs subs"
    using labels one [THEN conjunct1] by (simp add: subs_ok_def split_beta)
  note IH = Cons.IH [OF this]
  show ?case
  proof (intro conjI allI impI)
    show "length (foldl (\<lambda>cs (label, is). foldl (refresh_at reg (sel label)) cs is) cs (sub # subs)) = length cs"
      using IH [THEN conjunct1] one [THEN conjunct1] by (simp add: sub)
    fix j assume j: "j < length cs"
    have rest: "foldl (\<lambda>cs (label, is). foldl (refresh_at reg (sel label)) cs is) ?cs subs ! j
        = (if \<exists>is. (cn_label (cs ! j), is) \<in> set subs \<and> j \<in> set is
           then snd (refresh_chain reg (sel (cn_label (cs ! j))) (?cs ! j)) else ?cs ! j)"
    proof -
      have "j < length ?cs" using j one [THEN conjunct1] by simp
      from IH [THEN conjunct2, rule_format, OF this] show ?thesis by (simp only: labels [OF j])
    qed
    show "foldl (\<lambda>cs (label, is). foldl (refresh_at reg (sel label)) cs is) cs (sub # subs) ! j
        = (if \<exists>is. (cn_label (cs ! j), is) \<in> set (sub # subs) \<and> j \<in> set is
           then snd (refresh_chain reg (sel (cn_label (cs ! j))) (cs ! j)) else cs ! j)"
    proof (cases "j \<in> set is")
      case True
      with idx(3) have lab: "cn_label (cs ! j) = label" by simp
      with other rest have "foldl (\<lambda>cs (label, is). foldl (refresh_at reg (sel label)) cs is) ?cs subs ! j = ?cs ! j"
        by simp
      moreover have "?cs ! j = snd (refresh_chain reg (sel label) (cs ! j))"
        using one [THEN conjunct2, rule_format, OF j] True by simp
      ultimately show ?thesis using True lab by (auto simp: sub)
    next
      case False
      have "foldl (\<lambda>cs (label, is). foldl (refresh_at reg (sel label)) cs is) cs (sub # subs) ! j
          = foldl (\<lambda>cs (label, is). foldl (refresh_at reg (sel label)) cs is) ?cs subs ! j" by (simp add: sub)
      moreover have "?cs ! j = cs ! j" using one [THEN conjunct2, rule_format, OF j] False by simp
      moreover have "(\<exists>is. (cn_label (cs ! j), is) \<in> set (sub # subs) \<and> j \<in> set is)
          \<longleftrightarrow> (\<exists>is. (cn_label (cs ! j), is) \<in> set subs \<and> j \<in> set is)" using False by (auto simp: sub)
      ultimately show ?thesis by (simp only: rest)
    qed
  qed
qed simp

text \<open>Everything that can happen to a manager and its chains.\<close>

inductive mg_reach :: "registry \<Rightarrow> lb_manager \<Rightarrow> bool" for reg where
  mg_new: "mg_reach reg new_manager"
| mg_apply: "mg_reach reg m \<Longrightarrow> mg_reach reg (manager_apply reg s m)"
| mg_chain: "mg_reach reg m \<Longrightarrow> mg_reach reg (snd (manager_chain reg src label m))"
| mg_close: "mg_reach reg m \<Longrightarrow> mg_reach reg (manager_close m)"
| mg_pick: "mg_reach reg m \<Longrightarrow> i < length (mg_chains m) \<Longrightarrow>
     chain_pick env clock resolve info (mg_chains m ! i) = Some (r, c) \<Longrightarrow>
     mg_reach reg (m\<lparr>mg_chains := (mg_chains m)[i := c]\<rparr>)"
| mg_complete: "mg_reach reg m \<Longrightarrow> i < length (mg_chains m) \<Longrightarrow>
     chain_complete env now ep success (mg_chains m ! i) = Some c \<Longrightarrow>
     mg_reach reg (m\<lparr>mg_chains := (mg_chains m)[i := c]\<rparr>)"

definition mg_ok :: "registry \<Rightarrow> lb_manager \<Rightarrow> bool" where
  "mg_ok reg m \<longleftrightarrow>
     subs_ok (mg_chains m) (mg_subs m)
     \<and> (\<forall>c\<in>set (mg_chains m). chain_ok reg c)
     \<and> (\<forall>(label, is)\<in>set (mg_subs m). \<forall>i\<in>set is.
          selection_equal (cn_last (mg_chains m ! i)) (selection_for label (mg_settings m)))"

lemma manager_apply_ok:
  assumes "mg_ok reg m"
  shows "mg_ok reg (manager_apply reg s m)"
proof -
  let ?cs = "mg_chains m" and ?subs = "mg_subs m" and ?cs' = "mg_chains (manager_apply reg s m)"
  have subs: "subs_ok ?cs ?subs" using assms by (simp add: mg_ok_def)
  then have "gorange ?subs = ?subs" by (simp add: subs_ok_def gorange_id)
  then have len: "length ?cs' = length ?cs" and nth: "\<And>j. j < length ?cs \<Longrightarrow> ?cs' ! j
      = (if \<exists>is. (cn_label (?cs ! j), is) \<in> set ?subs \<and> j \<in> set is
         then snd (refresh_chain reg (selection_for (cn_label (?cs ! j)) s) (?cs ! j)) else ?cs ! j)"
    using refresh_labels [OF subs, of reg "\<lambda>label. selection_for label s"]
    by (simp_all add: manager_apply_def)
  have "subs_ok ?cs' ?subs"
    using subs len nth by (fastforce simp: subs_ok_def split: if_splits)
  moreover have "chain_ok reg (?cs' ! j)" if "j < length ?cs" for j
    using that nth [OF that] assms chain_ok_refresh(1) [of reg "?cs ! j"] by (simp add: mg_ok_def)
  then have "\<forall>c\<in>set ?cs'. chain_ok reg c" by (metis in_set_conv_nth len)
  moreover have "selection_equal (cn_last (?cs' ! i)) (selection_for label s)"
    if "(label, is) \<in> set ?subs" and "i \<in> set is" for label "is" i
  proof -
    from subs that have i: "i < length ?cs" "cn_label (?cs ! i) = label" by (auto simp: subs_ok_def)
    then have "chain_ok reg (?cs ! i)" using assms by (simp add: mg_ok_def)
    with nth [OF i(1)] that i(2) chain_ok_refresh(2) show ?thesis by auto
  qed
  ultimately show ?thesis by (auto simp: mg_ok_def) (auto simp: manager_apply_def)
qed

lemma set_subs_update:
  assumes "gomap_wf subs" and "(l, is) \<in> set (AList.update label xs subs)"
  shows "(l = label \<and> is = xs) \<or> (l \<noteq> label \<and> (l, is) \<in> set subs)"
  using assms map_of_in_set [of "AList.update label xs subs" l "is"] map_of_in_set [OF assms(1), of l "is"]
  by (auto simp: update_conv' split: if_splits)

lemma manager_chain_ok:
  assumes "mg_ok reg m"
  shows "mg_ok reg (snd (manager_chain reg src label m))"
proof -
  let ?old = "case map_of (mg_subs m) label of None \<Rightarrow> [] | Some is \<Rightarrow> is"
  let ?c = "snd (refresh_chain reg (selection_for label (mg_settings m)) (new_chain src label))"
  have wf: "gomap_wf (mg_subs m)" using assms by (simp add: mg_ok_def subs_ok_def)
  have old: "distinct ?old" "\<And>i. i \<in> set ?old \<Longrightarrow> i < length (mg_chains m) \<and> cn_label (mg_chains m ! i) = label
      \<and> selection_equal (cn_last (mg_chains m ! i)) (selection_for label (mg_settings m))"
  proof -
    have "(case map_of (mg_subs m) label of None \<Rightarrow> True | Some is \<Rightarrow> (label, is) \<in> set (mg_subs m))"
      by (simp add: map_of_SomeD split: option.splits)
    note entry = this
    from entry assms show "distinct ?old" by (fastforce simp: mg_ok_def subs_ok_def split: option.splits)
    from entry assms show "i < length (mg_chains m) \<and> cn_label (mg_chains m ! i) = label
        \<and> selection_equal (cn_last (mg_chains m ! i)) (selection_for label (mg_settings m))"
      if "i \<in> set ?old" for i
      using that by (fastforce simp: mg_ok_def subs_ok_def split: option.splits)
  qed
  note new = refresh_new_chain [where reg = reg and s = "selection_for label (mg_settings m)" and src = src and label = label]
  have sub: "distinct is \<and> (\<forall>i\<in>set is. i < Suc (length (mg_chains m))
        \<and> cn_label ((mg_chains m @ [?c]) ! i) = l
        \<and> selection_equal (cn_last ((mg_chains m @ [?c]) ! i)) (selection_for l (mg_settings m)))"
    if "(l, is) \<in> set (AList.update label (?old @ [length (mg_chains m)]) (mg_subs m))" for l "is"
    using set_subs_update [OF wf that]
  proof
    assume "l = label \<and> is = ?old @ [length (mg_chains m)]"
    with old new show ?thesis by (auto simp: nth_append less_Suc_eq)
  next
    assume "l \<noteq> label \<and> (l, is) \<in> set (mg_subs m)"
    with assms show ?thesis by (fastforce simp: mg_ok_def subs_ok_def nth_append)
  qed
  have "\<forall>c\<in>set (mg_chains m @ [?c]). chain_ok reg c" using assms new(1) by (auto simp: mg_ok_def)
  with sub wf show ?thesis
    unfolding mg_ok_def subs_ok_def manager_chain_def Let_def by fastforce
qed

lemma chain_swap_ok:
  assumes "mg_ok reg m" and "i < length (mg_chains m)" and "same_generation (mg_chains m ! i) c"
  shows "mg_ok reg (m\<lparr>mg_chains := (mg_chains m)[i := c]\<rparr>)"
proof -
  have same: "cn_label ((mg_chains m)[i := c] ! j) = cn_label (mg_chains m ! j)
      \<and> cn_last ((mg_chains m)[i := c] ! j) = cn_last (mg_chains m ! j)" if "j < length (mg_chains m)" for j
    using assms(3) that by (cases "j = i") (auto simp: same_generation_def)
  have "chain_ok reg c" using assms same_generation_ok by (auto simp: mg_ok_def)
  then have "\<forall>c'\<in>set ((mg_chains m)[i := c]). chain_ok reg c'"
    using assms(1) set_update_subset_insert [of "mg_chains m" i c] by (auto simp: mg_ok_def)
  with assms(1) same show ?thesis by (fastforce simp: mg_ok_def subs_ok_def)
qed

lemma mg_reach_ok: "mg_reach reg m \<Longrightarrow> mg_ok reg m"
proof (induction rule: mg_reach.induct)
  case mg_new
  then show ?case by (simp add: new_manager_def mg_ok_def subs_ok_def)
next
  case (mg_close m)
  then show ?case by (simp add: manager_close_def mg_ok_def subs_ok_def)
next
  case (mg_pick m i env clock resolve info r c)
  then show ?case by (intro chain_swap_ok) (auto dest: chain_pick_generation)
next
  case (mg_complete m i env now ep success c)
  then show ?case by (intro chain_swap_ok) (auto dest: chain_complete_generation)
qed (simp_all add: manager_apply_ok manager_chain_ok)



text \<open>\<open>Validate\<close> accepts settings only if every label gets a selection that builds.\<close>

theorem validated_settings:
  assumes "validate reg s = Inr ()"
  shows "validate_selection reg (selection_for label s) = Inr ()"
proof -
  have rules: "rfold (\<lambda>_ r. validate_selection reg (ru_selection r)) () rs = Inr () \<Longrightarrow>
      r \<in> set rs \<Longrightarrow> validate_selection reg (ru_selection r) = Inr ()" for rs r
    by (induction rs) (auto simp: rbind_Inr_iff)
  show ?thesis
    using assms rules [of "se_rules s"]
    by (auto simp: validate_def selection_for_def rbind_Inr_iff find_Some_iff split: option.splits)
qed

lemma builtin_strategies:
  "builtin_registry = Inr
     [(''consistent_hash'', BuildConsistentHash), (''least_conn'', BuildLeastConn), (''p2c'', BuildP2C),
      (''random'', BuildRandom), (''round_robin'', BuildRoundRobin), (''weighted'', BuildWeighted),
      (''zone_aware'', BuildZoneAware)]"
  by code_simp

definition sample_registry :: registry where
  "sample_registry = (case builtin_registry of Inl _ \<Rightarrow> [] | Inr reg \<Rightarrow> reg)"

definition sample_settings :: settings where
  "sample_settings =
     \<lparr>se_default = zero_selection\<lparr>sl_balancer := ''zone_aware'', sl_params := [(''delegate'', ''least_conn'')]\<rparr>,
      se_rules = [\<lparr>ru_service = ''other'', ru_selection = zero_selection\<lparr>sl_balancer := ''no_such_strategy''\<rparr>\<rparr>]\<rparr>"

definition sample_manager :: lb_manager where
  "sample_manager = manager_apply sample_registry sample_settings
     (snd (manager_chain sample_registry 0 ''svc'' new_manager))"


text \<open>
  A chain that is registered while its label has a selection that does not build has
  no generation to fall back to: requests through it are not answered with an error, they panic.
\<close>

theorem refused_first_selection_panics:
  assumes "validate_selection reg (selection_for label (mg_settings m)) = Inl e"
    and "manager_chain reg src label m = (i, m')"
  shows "chain_pick env clock resolve info (mg_chains m' ! i) = None
    \<and> chain_complete env now ep success (mg_chains m' ! i) = None"
proof -
  obtain e' where "build_pool reg (selection_for label (mg_settings m)) = Inl e'"
    using assms(1) build_pool_accepted(1) [of reg "selection_for label (mg_settings m)"]
    by (cases "build_pool reg (selection_for label (mg_settings m))") auto
  with assms(2) have "cn_cur (mg_chains m' ! i) = None"
    by (auto simp: manager_chain_def Let_def refresh_chain_def new_chain_def)
  then show ?thesis by (simp add: chain_pick_def chain_complete_def)
qed

theorem refused_first_selection_panics_witness:
  "chain_pick sample_env (\<lambda>_. 0) (\<lambda>_. Inr sample_weights) sample_key
     (mg_chains (snd (manager_chain sample_registry 1 ''other'' sample_manager)) ! 1) = None"
proof -
  have "validate_selection sample_registry (selection_for ''other'' (mg_settings sample_manager))
      = Inl (UnknownStrategy ''no_such_strategy'')" by code_simp
  moreover have "fst (manager_chain sample_registry 1 ''other'' sample_manager) = 1" by code_simp
  then have "manager_chain sample_registry 1 ''other'' sample_manager
      = (1, snd (manager_chain sample_registry 1 ''other'' sample_manager))" by (simp add: prod_eq_iff)
  ultimately show ?thesis by (rule refused_first_selection_panics [THEN conjunct1])
qed

text \<open>
  A refused selection is consumed although its generation never came into force. When the
  selection that is in force is handed over again, the chain builds it anew and loses the state
  of the generation it replaces.
\<close>

theorem restored_selection_rebuilds:
  assumes "0 < cn_gen c" and "build_pool reg (cn_last c) = Inr p" and "build_pool reg s = Inl e"
    and "\<not> selection_equal (cn_last c) s" and "\<not> selection_equal s (cn_last c)"
  shows "cn_cur (snd (refresh_chain reg s c)) = cn_cur c"
    and "cn_cur (snd (refresh_chain reg (cn_last c) (snd (refresh_chain reg s c)))) = Some p"
    and "cn_gen (snd (refresh_chain reg (cn_last c) (snd (refresh_chain reg s c)))) = cn_gen c + 1"
  using assms by (simp_all add: refresh_chain_def)


end
