(* ===== verification/Spec2Isabelle.thy ===== *)
theory Spec2Isabelle
  imports GsAppRefresh GsApp FlatValues CloudElection CloudSaga CloudCron CloudRate CloudPool
begin

text \<open>
  A verification development of Go-Spring: its dependency-injection container, its
  configuration system, and the coordination services of its cloud module. All paths are
  under \<^verbatim>\<open>src/\<close>.

  \<^bold>\<open>The program.\<close> An application registers bean definitions (\<^verbatim>\<open>spring/gs/internal/gs_bean\<close>)
  with constructors whose arguments come from other beans, from the configuration or from
  values (\<^verbatim>\<open>gs_arg\<close>), and with conditions (\<^verbatim>\<open>gs_cond\<close>). The resolving phase
  (\<^verbatim>\<open>gs_core/resolving\<close>) expands modules and configuration classes and decides which beans
  are active; the injecting phase (\<^verbatim>\<open>gs_core/injecting\<close>) creates, wires and initialises
  them and orders their destroy functions with a topological sort (\<^verbatim>\<open>gs_util\<close>). Both read
  the configuration, a flat key-value store with layers (\<^verbatim>\<open>stdlib/flatten\<close>) filled from
  files, the environment and the command line (\<^verbatim>\<open>gs_conf\<close>), through tags with references
  and defaults (\<^verbatim>\<open>spring/conf\<close>); dynamic values follow a configuration that is refreshed at
  run time (\<^verbatim>\<open>gs_dync\<close>). The container (\<^verbatim>\<open>gs_core\<close>) runs both phases, and the application
  (\<^verbatim>\<open>gs_app\<close>) merges its configuration, refreshes the container, starts runners and servers and
  shuts them down. The cloud module offers services that replicas of an application
  coordinate with: locks and leader election (\<^verbatim>\<open>cloud/lock\<close>), sagas
  (\<^verbatim>\<open>cloud/experimental/transaction\<close>), scheduled jobs (\<^verbatim>\<open>cloud/scheduling\<close>), rate limiters
  (\<^verbatim>\<open>cloud/ratelimit\<close>) and client-side load balancing (\<^verbatim>\<open>cloud/loadbalance\<close>).

  \<^bold>\<open>The theories.\<close>
  \<^item> \<open>GoPrelude\<close>, \<open>GoStrings\<close>, \<open>GoNum\<close>: results of fallible functions, state passing with
    failure and with calls that do not return, Go maps as association lists, the functions of
    \<open>strings\<close> and \<open>strconv\<close> that are used; the rule collections of the other theories.
  \<^item> \<open>FlatPath\<close> (\<^verbatim>\<open>path.go\<close>): parser and printer of keys; the accepted keys are exactly the
    printed paths. \<open>FlatStore\<close>, \<open>FlatLayers\<close> (\<^verbatim>\<open>store.go\<close>): one properties map, and layers of
    sources with their precedence. \<open>FlatFallback\<close> (\<^verbatim>\<open>fallback.go\<close>): instances that inherit the
    default bucket. \<open>FlatValues\<close> (\<^verbatim>\<open>flat.go\<close>): nested data as properties.
  \<^item> \<open>ConfResolve\<close> (\<^verbatim>\<open>bind.go\<close>, reading side): tags, \<open>resolveString\<close> with the guard against
    circular references, slices in one string. \<open>ConfBind\<close> (writing side): \<open>BindValue\<close> for every
    kind of type, the converters, the entry points of \<^verbatim>\<open>conf.go\<close>.
  \<^item> \<open>GsSources\<close>: \<^verbatim>\<open>dotenv.go\<close>, \<^verbatim>\<open>env.go\<close>, \<^verbatim>\<open>cmd.go\<close>. \<open>GsAppConf\<close>: \<^verbatim>\<open>conf.go\<close> of \<^verbatim>\<open>gs_conf\<close>, the merged
    configuration of an application with its files, profiles and imports. \<open>GsDync\<close>: \<^verbatim>\<open>dync.go\<close>, dynamic values,
    their validation, commit and listeners.
  \<^item> \<open>GsCond\<close>: \<^verbatim>\<open>cond.go\<close>, conditions over an abstract context. \<open>GsArg\<close>: \<^verbatim>\<open>arg.go\<close>. \<open>GsBean\<close>:
    \<^verbatim>\<open>bean.go\<close>. \<open>GsResolving\<close>: \<^verbatim>\<open>resolving.go\<close> and \<^verbatim>\<open>gs_init\<close>; the state is the list of beans
    with their statuses. \<open>TopoSort\<close>: \<^verbatim>\<open>util.go\<close>. \<open>GsInjecting\<close>: \<^verbatim>\<open>injecting.go\<close>; the state is the
    wiring record (beans, creation stack, dependencies, lazy fields, destroyers, events).
    \<open>GsContainer\<close>: \<^verbatim>\<open>core.go\<close>, the two phases in one container with its refresh state.
  \<^item> \<open>GsAppRefresh\<close>: \<^verbatim>\<open>app.go\<close> up to the runners and \<open>RefreshProperties\<close>, functions over the
    configuration and the container. \<open>GsApp\<close>: the rest of \<^verbatim>\<open>app.go\<close>, \<^verbatim>\<open>signal.go\<close> and \<open>Run\<close> of
    \<^verbatim>\<open>spring/gs/app.go\<close>, where goroutines matter; the life cycle is a step relation of the main
    goroutine, one goroutine for each server and one for each \<open>Stop\<close>.
  \<^item> \<open>CloudLock\<close>: \<^verbatim>\<open>lock.go\<close> and \<^verbatim>\<open>memory.go\<close>; a locker with a store of holds, handles,
    renew loops and a clock, as a step relation, and the abstract lease it implements.
    \<open>CloudElection\<close>: \<^verbatim>\<open>election.go\<close>, any number of instances over a locker.
  \<^item> \<open>CloudSaga\<close>: \<^verbatim>\<open>transaction.go\<close>, \<^verbatim>\<open>store.go\<close>, \<^verbatim>\<open>coordinator.go\<close>, \<^verbatim>\<open>global.go\<close>; programs that
    may crash before any effect, execution, the saga log and recovery.
  \<^item> \<open>CloudCron\<close>: \<^verbatim>\<open>cron.go\<close> and \<^verbatim>\<open>trigger.go\<close>; fields as 64-bit masks, the calendar, \<open>Next\<close>.
  \<^item> \<open>CloudRate\<close>: the five counters of \<^verbatim>\<open>cloud/ratelimit\<close>, functions of their clock readings.
  \<^item> \<open>CloudBalance\<close>: the strategies of \<^verbatim>\<open>cloud/loadbalance\<close>, functions of their state, random draws
    and clock readings. \<open>CloudPool\<close>: \<^verbatim>\<open>tracker.go\<close>, \<^verbatim>\<open>params.go\<close>, \<^verbatim>\<open>loadbalance.go\<close>, \<^verbatim>\<open>pool.go\<close>,
    \<^verbatim>\<open>chain.go\<close>, \<^verbatim>\<open>manager.go\<close>; the manager holds its chains by position.

  \<^bold>\<open>Interfaces.\<close> A locale states what one component relies on in another, and is interpreted
  on the model of the component that provides it:
  \<^item> \<open>storage_laws\<close>, \<open>mapped_storage\<close>, \<open>rooted_storage\<close> (what the binder reads): properties,
    layers, prefixed and fallback storages;
  \<^item> \<open>cond_context\<close>, \<open>returning_context\<close>, \<open>strict_context\<close>, \<open>answering_context\<close> (what a
    condition asks): the bean context of \<open>GsResolving\<close> and the argument context of \<open>GsInjecting\<close>;
  \<^item> \<open>wiring_steps\<close>, \<open>wiring_returns\<close> (what the parts of wiring keep, given that the recursive
    calls do): \<open>wire_bean\<close> at every fuel;
  \<^item> \<open>exclusive_locker\<close> (what an election needs of a locker): the in-process provider;
  \<^item> \<open>reliable_store\<close> (what recovery needs of a saga log): \<open>MemoryStore\<close>;
  \<^item> \<open>balancer\<close> (what a pool needs of a strategy): all strategies but consistent hashing, and the
    zone-aware strategy over any of them.

  \<^bold>\<open>What is shown.\<close> For the container: resolving returns and, without cyclic conditions, finds
  the only set of active beans that agrees with all conditions; a refresh of the injecting
  container returns for all beans, wires completely what it enters, and destroys a bean before
  the beans it depends on. For the configuration: the accepted keys, precedence of
  layers, slices from one source, inheritance of instances, exactness of the reference guard,
  types of bound values, termination of binding, atomic refresh of dynamic values, round trips
  of tags, keys and .env files, the precedence of the sources of an application. For the
  application: a container is refreshed at most once, creates only active beans and roots, and
  its refresh returns; a refresh of the configuration changes all dynamic values or none;
  readiness is announced after all servers reported, the container is closed after all servers
  left, and the main goroutine blocks at few points. For the cloud services: the locker refines an exclusive lease
  when tokens are fresh, live leases are kept, leaders exclude each other up to the closing of
  the lost channel; sagas commit or roll back in reverse order, and recovery after a crash
  anywhere rolls back exactly the steps that may have had an effect; the next fire of a
  cron expression is the earliest match; a token bucket admits at most its burst and what its
  rate earns, a leaky bucket decides like a token bucket, a fixed window like one budget for
  each window; weighted round robin is fair, least connections picks a least loaded endpoint,
  consistent hashing moves only the keys of endpoints that left; a pool never picks a disabled
  endpoint, the tracker is one automaton for each address, chains serve the selection their
  label has. Several properties state where the code deviates from
  what it means to do; they are the findings of the manifest.

  \<^bold>\<open>Bounds and fuel.\<close> Recursion that is not structural takes fuel or is partial, and that it
  returns is proved: resolving needs at most one more level than there are beans, wiring one more
  than there are definitions (each level enters a bean that was not being created), reference
  resolution is bounded by the limit of nested references and the number of keys
  (\<open>resolve_fuel\<close>), binding returns for every type over a storage with bounded
  leaves. The loop that fills a cron mask and the walk of \<open>Next\<close> are partial functions with a
  proof that they return; the loop of \<open>WaitN\<close> runs over a list of rounds, and enough rounds end
  it. Integers of the configuration, of cron masks and of weights have their 64 bits; durations
  and times are unbounded integers. The \<open>float64\<close> quantities of the rate limiters are rational
  numbers and those of the latency model real numbers, so that rounding is left out.

  \<^bold>\<open>Parameters.\<close> Facts of \<open>reflect\<close> about types, user functions and their effects, the
  expression engine, regular expressions, converters and validators, float parsing, the decoder
  of encrypted values, the files of an application and the process environment, random tokens,
  draws and jitter, clock readings, the retries of the resilience executor.

  \<^bold>\<open>Not modelled.\<close> File formats and providers (third-party parsers, files), log output,
  metrics and spans, goroutine scheduling outside the step relations, time zones whose
  offset changes, \<open>RunTest\<close>, the registry of stoppers and the pointer to the current application
  beyond its use by the facade, the remaining cloud modules (resilience,
  discovery, governance, batch, outbox, sessions, TCC and AT transactions), the HTTP and
  JSON helpers of \<^verbatim>\<open>stdlib\<close>, code generators (\<^verbatim>\<open>gs\<close>), and the starters and contributions, which
  register third-party clients.
\<close>

end
